(* ===== verification/Prelude.thy ===== *)
theory Prelude
  imports Main "HOL-Library.Word" "HOL-Library.Monad_Syntax" "HOL-Library.Multiset"
begin

unbundle bit_operations_syntax

section \<open>Prelude\<close>

text \<open>
  What the components share: the names of the machine integers, the collections of
  hints, and generic lemmas on options, maps, lists and multisets.

  A computation of the program is a value of type \<open>'a option\<close>: \<open>Some\<close> of the result,
  or \<open>None\<close> where the C++ execution has no result (a null or dangling pointer is
  dereferenced, or a loop does not stop, such as a spin on a lock that the same
  operation already holds). A theorem \<open>f x = Some y\<close> therefore says that the operation
  returns, and that it does so without touching memory it may not touch.
\<close>

type_synonym u64 = "64 word"
type_synonym u32 = "32 word"

named_theorems word_bits \<open>bit-level characterisations of the word functions\<close>
named_theorems heap_simps \<open>reads and writes of the pointer heaps\<close>
named_theorems frame \<open>what an operation does not change\<close>

subsection \<open>Options as computations\<close>

lemma bind_eq_SomeI: "x = Some a \<Longrightarrow> f a = Some b \<Longrightarrow> Option.bind x f = Some b"
  by simp

lemma bind_SomeD: "Option.bind x f = Some b \<Longrightarrow> \<exists>a. x = Some a \<and> f a = Some b"
  by (cases x) auto

text \<open>
  \<open>returns m Q\<close>: the computation \<open>m\<close> returns, with a result that satisfies \<open>Q\<close>. The equations
  below run a computation symbolically.
\<close>

definition returns :: "'a option \<Rightarrow> ('a \<Rightarrow> bool) \<Rightarrow> bool" where
  "returns m Q \<longleftrightarrow> (\<exists>r. m = Some r \<and> Q r)"

lemma returns_simps [simp]:
  "\<not> returns None Q"
  "returns (Some r) Q = Q r"
  "returns (Option.bind m f) Q = returns m (\<lambda>r. returns (f r) Q)"
  "returns (if b then m1 else m2) Q = (if b then returns m1 Q else returns m2 Q)"
  by (auto simp: returns_def bind_eq_Some_conv)

lemma returns_case_prod [simp]: "returns (case x of (a, b) \<Rightarrow> f a b) Q = (case x of (a, b) \<Rightarrow> returns (f a b) Q)"
  by (cases x) simp

lemma returns_mono: "returns m Q \<Longrightarrow> (\<And>r. Q r \<Longrightarrow> R r) \<Longrightarrow> returns m R"
  by (auto simp: returns_def)

lemma returnsI: "m = Some r \<Longrightarrow> Q r \<Longrightarrow> returns m Q"
  by (simp add: returns_def)

lemma returnsE:
  assumes "returns m Q"
  obtains r where "m = Some r" "Q r"
  using assms by (auto simp: returns_def)

lemma returns_pairE:
  assumes "returns m (\<lambda>(a, b). Q a b)"
  obtains a b where "m = Some (a, b)" "Q a b"
  using assms by (auto simp: returns_def)

subsection \<open>Lists\<close>

lemma list_all_update:
  "list_all P xs \<Longrightarrow> P x \<Longrightarrow> list_all P (xs[i := x])"
  by (auto simp: list_all_iff dest: set_update_subset_insert [THEN subsetD])

lemma sum_list_update_add:
  fixes xs :: "'a :: cancel_comm_monoid_add list"
  assumes "i < length xs"
  shows "sum_list (xs[i := x]) + xs ! i = sum_list xs + x"
  using assms
proof (induction xs arbitrary: i)
  case (Cons a xs)
  then show ?case by (cases i) (auto simp: ac_simps)
qed simp

lemma sum_list_replicate_empty [simp]: "sum_list (replicate n {#}) = {#}"
  by (induction n) simp_all

lemma sum_list_all_empty: "(\<And>x. x \<in> set xs \<Longrightarrow> x = {#}) \<Longrightarrow> sum_list xs = {#}"
  by (induction xs) auto

lemma upt_subset: "set [0..<n] \<subseteq> {..<n}"
  by auto

lemma length_3_conv: "length xs = 3 \<longleftrightarrow> (\<exists>a b c. xs = [a, b, c])"
  by (auto simp: numeral_3_eq_3 length_Suc_conv)

lemma less_3_cases: "(e::nat) < 3 \<Longrightarrow> e = 0 \<or> e = 1 \<or> e = 2"
  by auto

lemma distinct_sorted_wrt_irrefl:
  "sorted_wrt R xs \<Longrightarrow> (\<And>x. \<not> R x x) \<Longrightarrow> distinct xs"
  by (induction xs) auto

lemma distinct_count_le: "(\<And>x. count (mset xs) x \<le> 1) \<Longrightarrow> distinct xs"
proof (induction xs)
  case (Cons a xs)
  have "count (mset xs) x \<le> 1" for x
  proof -
    have "count (mset xs) x \<le> count (mset (a # xs)) x" by simp
    then show ?thesis using Cons.prems [of x] by linarith
  qed
  moreover have "a \<notin> set xs" using Cons.prems [of a] by (simp add: count_mset_0_iff)
  ultimately show ?case using Cons.IH by simp
qed simp

lemma count_split_le:
  assumes "\<And>x. count P x + count Q x \<le> (1::nat)"
  shows "set_mset P \<inter> set_mset Q = {}"
proof (rule ccontr)
  assume "set_mset P \<inter> set_mset Q \<noteq> {}"
  then obtain x where "x \<in># P" "x \<in># Q" by blast
  then have "count P x \<noteq> 0" "count Q x \<noteq> 0" by (simp_all add: count_eq_zero_iff)
  then show False using assms [of x] by linarith
qed

subsection \<open>Words\<close>

lemma unat_pow2 [simp]:
  assumes "k < 64"
  shows "unat ((2::u64) ^ k) = 2 ^ k"
proof -
  have "(2::nat) ^ k < 2 ^ 64" using assms by (rule power_strict_increasing) simp
  then have "take_bit 64 ((2::nat) ^ k) = 2 ^ k" by (simp only: take_bit_nat_eq_self)
  moreover have "(2::u64) ^ k = word_of_nat (2 ^ k)" by simp
  ultimately show ?thesis by (simp only: unsigned_of_nat) simp
qed

lemma bit_top [simp, word_bits]: "bit (0x8000000000000000 :: int) n \<longleftrightarrow> n = 63"
proof -
  have "(0x8000000000000000 :: int) = 2 ^ 63" by simp
  then show ?thesis
    by (simp only: bit_exp_iff possible_bit_int) auto
qed

subsection \<open>Pointers, memory and allocators\<close>

text \<open>
  A pointer is a 64-bit word, \<open>0\<close> is \<open>nullptr\<close>. The memory of one container instantiation
  is a partial map from addresses to nodes; reading an address outside it is an undefined
  behaviour, \<open>None\<close>. \<open>live\<close> records which allocator instance (named by a number) handed
  out a block that has not been returned: returning a block to another allocator, or
  twice, is an undefined behaviour too.

  The allocators are code of the user. What one call returns is an argument of the model:
  \<open>Some a\<close> for the block \<open>a\<close>, \<open>None\<close> for a thrown \<open>std::bad_alloc\<close>. The only thing the
  development relies on is that a block handed out is not null and not in use
  (\<open>fresh_block\<close>).
\<close>

type_synonym ptr = u64
type_synonym alloc = nat
type_synonym thread = nat

text \<open>\<open>~0u\<close>, for counters that are small numbers in the model.\<close>

definition UINT_MAX :: nat where "UINT_MAX = 2 ^ 32 - 1"

datatype exn = Bad_alloc | Out_of_range | Payload_throws

text \<open>
  What the two \<open>push_back\<close> calls of one \<open>retire\<close> do (the pointer's and the action's
  vector): succeed, or throw \<open>std::bad_alloc\<close> from the first or the second.
\<close>

datatype push = Push_ok | Ptr_push_throws | Action_push_throws

record 'n mem =
  heap :: "ptr \<Rightarrow> 'n option"
  live :: "ptr \<Rightarrow> alloc option"

definition fresh_block :: "'n mem \<Rightarrow> ptr \<Rightarrow> bool" where
  "fresh_block m a \<longleftrightarrow> a \<noteq> 0 \<and> live m a = None"

definition allocate :: "alloc \<Rightarrow> ptr option \<Rightarrow> 'n mem \<Rightarrow> (exn + ptr) \<times> 'n mem" where
  "allocate al blk m =
     (case blk of None \<Rightarrow> (Inl Bad_alloc, m)
      | Some a \<Rightarrow> (Inr a, m\<lparr>live := (live m)(a \<mapsto> al)\<rparr>))"

definition deallocate :: "alloc \<Rightarrow> ptr \<Rightarrow> 'n mem \<Rightarrow> 'n mem option" where
  "deallocate al a m =
     (if live m a = Some al
      then Some (m\<lparr>heap := (heap m)(a := None), live := (live m)(a := None)\<rparr>) else None)"

text \<open>\<open>load\<close> reads a node, \<open>store\<close> writes one: the block must hold a node.\<close>

definition load :: "'n mem \<Rightarrow> ptr \<Rightarrow> 'n option" where
  "load m a = (if a = 0 then None else heap m a)"

definition store :: "ptr \<Rightarrow> 'n \<Rightarrow> 'n mem \<Rightarrow> 'n mem" where
  "store a nd m = m\<lparr>heap := (heap m)(a \<mapsto> nd)\<rparr>"

lemma load_null [simp, heap_simps]: "load m 0 = None"
  by (simp add: load_def)

lemma load_store [simp, heap_simps]:
  "load (store a nd m) b = (if b = a \<and> a \<noteq> 0 then Some nd else load m b)"
  by (simp add: load_def store_def)

lemma load_SomeD: "load m a = Some nd \<Longrightarrow> a \<noteq> 0 \<and> heap m a = Some nd"
  by (simp add: load_def split: if_splits)

lemma live_store [simp, heap_simps]: "live (store a nd m) = live m"
  by (simp add: store_def)

lemma store_store [simp]: "store a x (store a y m) = store a x m"
  by (simp add: store_def)

lemma deallocate_SomeD:
  "deallocate al a m = Some m' \<Longrightarrow> live m a = Some al \<and>
     live m' = (live m)(a := None) \<and> (\<forall>b. load m' b = (if b = a then None else load m b))"
  by (auto simp: deallocate_def load_def split: if_splits)

lemma deallocate_ok:
  "live m a = Some al \<Longrightarrow> \<exists>m'. deallocate al a m = Some m' \<and>
     live m' = (live m)(a := None) \<and> (\<forall>b. load m' b = (if b = a then None else load m b))"
  by (auto simp: deallocate_def load_def)

text \<open>\<open>freed S m m'\<close>: the blocks of \<open>S\<close> were returned, and nothing else changed.\<close>

definition freed :: "ptr set \<Rightarrow> 'n mem \<Rightarrow> 'n mem \<Rightarrow> bool" where
  "freed S m m' \<longleftrightarrow> (\<forall>b. live m' b = (if b \<in> S then None else live m b)) \<and>
     (\<forall>b. load m' b = (if b \<in> S then None else load m b))"

lemma freed_empty [simp]: "freed {} m m"
  by (simp add: freed_def)

lemma freed_trans: "freed S m m' \<Longrightarrow> freed T m' m'' \<Longrightarrow> freed (S \<union> T) m m''"
  by (auto simp: freed_def)

lemma freed_load: "freed S m m' \<Longrightarrow> b \<notin> S \<Longrightarrow> load m' b = load m b"
  by (simp add: freed_def)

lemma freed_live: "freed S m m' \<Longrightarrow> b \<notin> S \<Longrightarrow> live m' b = live m b"
  by (simp add: freed_def)

lemmas freed_frame = freed_load freed_live

lemma deallocate_freed:
  "live m a = Some al \<Longrightarrow> \<exists>m'. deallocate al a m = Some m' \<and> freed {a} m m'"
  using deallocate_ok [of m a al] by (fastforce simp: freed_def)

end
