(* ===== verification/BitUtils.thy ===== *)
theory BitUtils
  imports Prelude
begin

section \<open>Integer utilities\<close>

text \<open>
  The integer helpers of \<open>detail/utils.hpp\<close> on 64-bit words (\<open>std::size_t\<close> and
  \<open>std::uint64_t\<close>), and \<open>parent_bucket\<close> of \<open>detail/split_ordered_table.hpp\<close>. The lemmas
  give their bit-level meaning; the order lemmas at the end are what the split-ordered
  list rests on: a bucket's dummy key precedes exactly the keys of the bucket, for every
  table size at once.
\<close>

subsection \<open>Definitions\<close>

definition is_power_of_two :: "u64 \<Rightarrow> bool" where
  "is_power_of_two x \<longleftrightarrow> x \<noteq> 0 \<and> x AND (x - 1) = 0"

function log2_loop :: "u64 \<Rightarrow> u32 \<Rightarrow> u32" where
  "log2_loop x r =
     (let x' = drop_bit 1 x in if x' \<noteq> 0 then log2_loop x' (r + 1) else r)"
  by pat_completeness auto
termination
proof (relation "measure (\<lambda>(x, r). unat x)")
  fix x :: u64 and r :: u32 and x' :: u64
  assume "x' = drop_bit 1 x" and "x' \<noteq> 0"
  then have "0 < unat x" and "unat x' = unat x div 2"
    by (auto simp: unat_drop_bit_eq drop_bit_Suc unat_gt_0 unat_div)
  then show "((x', r + 1), (x, r)) \<in> measure (\<lambda>(x, r). unat x)"
    by simp
qed simp

declare log2_loop.simps [simp del]

definition log2_floor :: "u64 \<Rightarrow> u32" where
  "log2_floor x = log2_loop x 0"

definition bit_reverse :: "u64 \<Rightarrow> u64" where
  "bit_reverse x0 =
     (let x1 = push_bit 1 (x0 AND 0x5555555555555555) OR (drop_bit 1 x0 AND 0x5555555555555555);
          x2 = push_bit 2 (x1 AND 0x3333333333333333) OR (drop_bit 2 x1 AND 0x3333333333333333);
          x3 = push_bit 4 (x2 AND 0x0f0f0f0f0f0f0f0f) OR (drop_bit 4 x2 AND 0x0f0f0f0f0f0f0f0f);
          x4 = push_bit 8 (x3 AND 0x00ff00ff00ff00ff) OR (drop_bit 8 x3 AND 0x00ff00ff00ff00ff);
          x5 = push_bit 16 (x4 AND 0x0000ffff0000ffff) OR (drop_bit 16 x4 AND 0x0000ffff0000ffff)
      in push_bit 32 x5 OR drop_bit 32 x5)"

definition mix_hash :: "u64 \<Rightarrow> u64" where
  "mix_hash h0 =
     (let h1 = h0 XOR drop_bit 33 h0;
          h2 = h1 * 0xff51afd7ed558ccd;
          h3 = h2 XOR drop_bit 33 h2;
          h4 = h3 * 0xc4ceb9fe1a85ec53
      in h4 XOR drop_bit 33 h4)"

definition split_order_key :: "u64 \<Rightarrow> u64" where
  "split_order_key mixed_hash = bit_reverse (mixed_hash OR push_bit 63 1)"

definition dummy_split_order_key :: "u64 \<Rightarrow> u64" where
  "dummy_split_order_key bucket_index = bit_reverse bucket_index"

text \<open>
  The loop of \<open>parent_bucket\<close> doubles \<open>h\<close> in 64-bit arithmetic. For \<open>b \<ge> 2^63\<close> the doubling
  wraps to 0 and the loop never stops, so the loop is a partial function.
\<close>

partial_function (option) parent_bucket_loop :: "u64 \<Rightarrow> u64 \<Rightarrow> u64 option" where
  "parent_bucket_loop b h =
     (if push_bit 1 h \<le> b then parent_bucket_loop b (push_bit 1 h) else Some h)"

definition parent_bucket :: "u64 \<Rightarrow> u64 option" where
  "parent_bucket b = do { h \<leftarrow> parent_bucket_loop b 1; Some (b - h) }"

subsection \<open>Bit reversal\<close>

text \<open>
  One stage of the reversal swaps neighbouring blocks of \<open>k\<close> bits; the mask selects the
  even-numbered blocks. The six stages send position \<open>n\<close> to \<open>63 - n\<close>.
\<close>

lemma all_less_64: "list_all P [0..<64] \<Longrightarrow> n < (64::nat) \<Longrightarrow> P n"
  by (simp add: list_all_iff)

lemma bit_masks:
  assumes "n < 64"
  shows "bit (0x5555555555555555 :: u64) n = even (n div 1)"
    and "bit (0x3333333333333333 :: u64) n = even (n div 2)"
    and "bit (0x0f0f0f0f0f0f0f0f :: u64) n = even (n div 4)"
    and "bit (0x00ff00ff00ff00ff :: u64) n = even (n div 8)"
    and "bit (0x0000ffff0000ffff :: u64) n = even (n div 16)"
proof -
  have "list_all (\<lambda>n. bit (0x5555555555555555 :: u64) n = even n) [0..<64]"
    by code_simp
  from all_less_64 [OF this assms] show "bit (0x5555555555555555 :: u64) n = even (n div 1)"
    by simp
  have "list_all (\<lambda>n. bit (0x3333333333333333 :: u64) n = even (n div 2)) [0..<64]"
    by code_simp
  then show "bit (0x3333333333333333 :: u64) n = even (n div 2)"
    using assms by (rule all_less_64)
  have "list_all (\<lambda>n. bit (0x0f0f0f0f0f0f0f0f :: u64) n = even (n div 4)) [0..<64]"
    by code_simp
  then show "bit (0x0f0f0f0f0f0f0f0f :: u64) n = even (n div 4)"
    using assms by (rule all_less_64)
  have "list_all (\<lambda>n. bit (0x00ff00ff00ff00ff :: u64) n = even (n div 8)) [0..<64]"
    by code_simp
  then show "bit (0x00ff00ff00ff00ff :: u64) n = even (n div 8)"
    using assms by (rule all_less_64)
  have "list_all (\<lambda>n. bit (0x0000ffff0000ffff :: u64) n = even (n div 16)) [0..<64]"
    by code_simp
  then show "bit (0x0000ffff0000ffff :: u64) n = even (n div 16)"
    using assms by (rule all_less_64)
qed

definition swap_index :: "nat \<Rightarrow> nat \<Rightarrow> nat" where
  "swap_index k n = (if even (n div k) then n + k else n - k)"

lemma swap_index_less:
  assumes "k \<in> {1, 2, 4, 8, 16, 32}" and "n < 64"
  shows "swap_index k n < 64"
proof -
  have "list_all (\<lambda>n. list_all (\<lambda>k. swap_index k n < 64) [1, 2, 4, 8, 16, 32]) [0..<64]"
    by code_simp
  from all_less_64 [OF this assms(2)] assms(1) show ?thesis by auto
qed

lemma bit_swap_stage:
  fixes x m :: u64
  assumes k: "k \<in> {1, 2, 4, 8, 16}" and n: "n < 64"
    and m: "\<And>n. n < 64 \<Longrightarrow> bit m n = even (n div k)"
  shows "bit (push_bit k (x AND m) OR (drop_bit k x AND m)) n = bit x (swap_index k n)"
proof -
  have "list_all (\<lambda>n. list_all (\<lambda>k. (k \<le> n \<longrightarrow> even ((n - k) div k) = odd (n div k)) \<and>
      (n < k \<longrightarrow> even (n div k))) [1, 2, 4, 8, 16]) [0..<64]"
    by code_simp
  from all_less_64 [OF this n] k
  have *: "k \<le> n \<Longrightarrow> even ((n - k) div k) = odd (n div k)" "n < k \<Longrightarrow> even (n div k)"
    by auto
  show ?thesis
  proof (cases "even (n div k)")
    case True
    with * m [OF n] n m [of "n - k"] show ?thesis
      by (auto simp: bit_simps swap_index_def add.commute)
  next
    case False
    with *(2) have "k \<le> n" by (meson not_le)
    with False * m [OF n] n m [of "n - k"] show ?thesis
      by (auto simp: bit_simps swap_index_def)
  qed
qed

lemma bit_swap_halves:
  fixes x :: u64
  assumes n: "n < 64"
  shows "bit (push_bit 32 x OR drop_bit 32 x) n = bit x (swap_index 32 n)"
proof (cases "n < 32")
  case True
  then have "n div 32 = 0" by simp
  with True show ?thesis by (simp add: bit_simps swap_index_def add.commute)
next
  case False
  with n have "n div 32 = 1" by (simp add: div_nat_eqI)
  moreover have "\<not> bit x (n + 32)" using False by (auto dest: bit_imp_le_length)
  ultimately show ?thesis using False n
    by (auto simp: bit_simps swap_index_def add.commute)
qed

lemma swap_index_chain:
  assumes "n < 64"
  shows "swap_index 1 (swap_index 2 (swap_index 4 (swap_index 8 (swap_index 16
    (swap_index 32 n))))) = 63 - n"
proof -
  have "map (swap_index 1) (map (swap_index 2) (map (swap_index 4) (map (swap_index 8)
      (map (swap_index 16) (map (swap_index 32) [0..<64]))))) = map (\<lambda>n. 63 - n) [0..<64]"
    by code_simp
  then have "map (\<lambda>n. swap_index 1 (swap_index 2 (swap_index 4 (swap_index 8 (swap_index 16
    (swap_index 32 n)))))) [0..<64] ! n = map (\<lambda>n. 63 - n) [0..<64] ! n"
    by (simp only: map_map comp_def)
  with assms show ?thesis by simp
qed

lemma bit_bit_reverse [word_bits]:
  "bit (bit_reverse x) n \<longleftrightarrow> n < 64 \<and> bit x (63 - n)"
proof (cases "n < 64")
  case True
  then show ?thesis
    unfolding bit_reverse_def Let_def
    by (simp only: bit_swap_halves bit_swap_stage bit_masks swap_index_less
        swap_index_chain insert_iff simp_thms)
next
  case False
  then show ?thesis by (auto dest: bit_imp_le_length)
qed

lemma bit_reverse_eq_word_reverse: "bit_reverse x = word_reverse x"
  by (rule bit_word_eqI) (auto simp: bit_bit_reverse bit_word_reverse_iff)

lemma bit_reverse_invol [simp]: "bit_reverse (bit_reverse x) = x"
  by (simp add: bit_reverse_eq_word_reverse)

lemma bit_reverse_eq_iff [simp]: "bit_reverse x = bit_reverse y \<longleftrightarrow> x = y"
  by (metis bit_reverse_invol)

subsection \<open>The hash finaliser is a bijection\<close>

lemma xorshift_33_invol:
  fixes x :: u64
  shows "(x XOR drop_bit 33 x) XOR drop_bit 33 (x XOR drop_bit 33 x) = x"
  by (rule bit_word_eqI) (auto simp: bit_simps dest: bit_imp_le_length)

lemma mul_cancel:
  fixes a b h :: u64
  assumes "a * b = 1"
  shows "h * a * b = h" and "h * b * a = h"
  using assms by (simp_all add: mult.assoc mult.commute [of b a])

lemma mul_inverse_pairs:
  "(0xff51afd7ed558ccd :: u64) * 0x4f74430c22a54005 = 1"
  "(0xc4ceb9fe1a85ec53 :: u64) * 0x9cb4b2f8129337db = 1"
  by simp_all

lemmas mul_inverses = mul_inverse_pairs [THEN mul_cancel(1)] mul_inverse_pairs [THEN mul_cancel(2)]

definition unmix_hash :: "u64 \<Rightarrow> u64" where
  "unmix_hash y =
     (let h4 = y XOR drop_bit 33 y;
          h3 = h4 * 0x9cb4b2f8129337db;
          h2 = h3 XOR drop_bit 33 h3;
          h1 = h2 * 0x4f74430c22a54005
      in h1 XOR drop_bit 33 h1)"

lemma unmix_mix [simp]: "unmix_hash (mix_hash h) = h"
  by (simp only: unmix_hash_def mix_hash_def Let_def xorshift_33_invol mul_inverses)

lemma mix_unmix [simp]: "mix_hash (unmix_hash h) = h"
  by (simp only: unmix_hash_def mix_hash_def Let_def xorshift_33_invol mul_inverses)

lemma mix_hash_eq_iff [simp]: "mix_hash a = mix_hash b \<longleftrightarrow> a = b"
  by (metis unmix_mix)

subsection \<open>Powers of two and logarithms\<close>

lemma log2_loop_spec:
  assumes "x \<noteq> 0" and "unat x < 2 ^ Suc k" and "unat r + k < 2 ^ 32"
  shows "unat r \<le> unat (log2_loop x r) \<and>
    2 ^ (unat (log2_loop x r) - unat r) \<le> unat x \<and>
    unat x < 2 ^ Suc (unat (log2_loop x r) - unat r)"
  using assms
proof (induction x r arbitrary: k rule: log2_loop.induct)
  case (1 x r)
  define x' where "x' = drop_bit 1 x"
  have half: "unat x' = unat x div 2" by (simp add: x'_def drop_bit_Suc unat_div)
  show ?case
  proof (cases "x' = 0")
    case True
    with half have "unat x < 2" by simp
    moreover have "0 < unat x" using "1.prems"(1) by (simp add: unat_gt_0)
    ultimately show ?thesis using True by (subst (1 2 3) log2_loop.simps) (simp add: x'_def)
  next
    case False
    then have "0 < unat x'" by (simp add: unat_gt_0)
    with half "1.prems"(2) have k: "0 < k" by (cases k) auto
    with "1.prems"(3) have r: "unat (r + 1) = unat r + 1"
      by (intro unat_add_lem [THEN iffD1, THEN trans]) simp_all
    have "unat x' < 2 ^ Suc (k - 1)" using half "1.prems"(2) k by (cases k) auto
    moreover have "unat (r + 1) + (k - 1) < 2 ^ 32" using r k "1.prems"(3) by simp
    ultimately have IH: "unat (r + 1) \<le> unat (log2_loop x' (r + 1)) \<and>
      2 ^ (unat (log2_loop x' (r + 1)) - unat (r + 1)) \<le> unat x' \<and>
      unat x' < 2 ^ Suc (unat (log2_loop x' (r + 1)) - unat (r + 1))"
      using "1.IH" [OF x'_def False] False by blast
    define e where "e = unat (log2_loop x' (r + 1)) - unat (r + 1)"
    from IH have e: "unat (log2_loop x' (r + 1)) = unat r + Suc e" "2 ^ e \<le> unat x'"
      "unat x' < 2 ^ Suc e"
      by (simp_all add: e_def r)
    have "log2_loop x r = log2_loop x' (r + 1)"
      using False by (subst log2_loop.simps) (simp add: x'_def)
    with e half show ?thesis by auto
  qed
qed

lemma log2_floor_spec:
  assumes "x \<noteq> 0"
  shows "2 ^ unat (log2_floor x) \<le> unat x" and "unat x < 2 ^ Suc (unat (log2_floor x))"
proof -
  have "unat x < 2 ^ Suc 63" using unsigned_less [of x, where 'a = nat] by simp
  then show "2 ^ unat (log2_floor x) \<le> unat x" and "unat x < 2 ^ Suc (unat (log2_floor x))"
    using log2_loop_spec [OF assms, of 63 0] by (simp_all add: log2_floor_def)
qed

lemma is_power_of_two_pow2:
  assumes "k < 64"
  shows "is_power_of_two (2 ^ k)"
proof -
  have "(2::u64) ^ k \<noteq> 0" using assms by (simp add: exp_eq_0_imp_not_bit)
  moreover have "(2::u64) ^ k AND (2 ^ k - 1) = 0"
    by (rule bit_word_eqI) (auto simp: bit_simps mask_eq_exp_minus_1 [symmetric])
  ultimately show ?thesis by (simp add: is_power_of_two_def)
qed

lemma bit_leading:
  fixes x :: u64
  assumes "2 ^ k \<le> unat x" and "unat x < 2 ^ Suc k"
  shows "bit x k"
proof -
  have "unat x div 2 ^ k = 1" using assms by (simp add: div_nat_eqI)
  then have "bit (unat x) k" by (simp add: bit_iff_odd)
  then show ?thesis by (simp add: bit_unsigned_iff)
qed

lemma is_power_of_two_iff: "is_power_of_two x \<longleftrightarrow> (\<exists>k < 64. x = 2 ^ k)"
proof
  assume "\<exists>k < 64. x = 2 ^ k"
  then show "is_power_of_two x" by (auto simp: is_power_of_two_pow2)
next
  assume pow: "is_power_of_two x"
  then have x: "x \<noteq> 0" and z: "x AND (x - 1) = 0" by (auto simp: is_power_of_two_def)
  define k where "k = unat (log2_floor x)"
  have lo: "2 ^ k \<le> unat x" and hi: "unat x < 2 ^ Suc k"
    using log2_floor_spec [OF x] by (simp_all add: k_def)
  have bk: "bit x k" using bit_leading lo hi .
  then have k64: "k < 64" using bit_imp_le_length by fastforce
  have "unat x = 2 ^ k"
  proof (rule ccontr)
    assume "unat x \<noteq> 2 ^ k"
    with lo have "2 ^ k \<le> unat x - 1" by simp
    moreover have "unat (x - 1) = unat x - 1" using x by (simp add: unat_minus_one)
    ultimately have "bit (x - 1) k" using hi by (intro bit_leading) simp_all
    with bk have "bit (x AND (x - 1)) k" by (simp add: bit_and_iff)
    with z show False by simp
  qed
  then have "x = 2 ^ k" using k64 by (intro word_unat_eq_iff [THEN iffD2]) simp
  with k64 show "\<exists>k < 64. x = 2 ^ k" by blast
qed

subsection \<open>The parent bucket\<close>

lemma parent_bucket_loop_spec:
  assumes "unat h = 2 ^ j" and "2 ^ j \<le> unat b" and "unat b < 2 ^ 63"
  shows "\<exists>k. parent_bucket_loop b h = Some (2 ^ k) \<and> k < 63 \<and> 2 ^ k \<le> unat b \<and> unat b < 2 ^ Suc k"
  using assms(1,2)
proof (induction "63 - j" arbitrary: h j rule: less_induct)
  case less
  have "(2::nat) ^ j < 2 ^ 63" using less.prems(2) assms(3) by linarith
  then have j: "j < 63" by (rule power_less_imp_less_exp [rotated]) simp
  have dbl: "unat (push_bit 1 h) = 2 ^ Suc j"
  proof -
    have "(2::nat) ^ Suc j < 2 ^ 64" using j by (intro power_strict_increasing) simp_all
    then show ?thesis using less.prems(1)
      by (simp add: push_bit_eq_mult unat_word_ariths)
  qed
  show ?case
  proof (cases "push_bit 1 h \<le> b")
    case True
    with dbl have "2 ^ Suc j \<le> unat b" by (simp add: word_le_nat_alt)
    moreover have "63 - Suc j < 63 - j" using j by simp
    ultimately obtain k where "parent_bucket_loop b (push_bit 1 h) = Some (2 ^ k)" "k < 63"
      "2 ^ k \<le> unat b" "unat b < 2 ^ Suc k"
      using less.hyps dbl by blast
    moreover have "parent_bucket_loop b h = parent_bucket_loop b (push_bit 1 h)"
      using True by (subst parent_bucket_loop.simps) simp
    ultimately show ?thesis by auto
  next
    case False
    then have "parent_bucket_loop b h = Some h" by (subst parent_bucket_loop.simps) simp
    moreover have "h = 2 ^ j" using less.prems(1) j by (simp add: word_unat_eq_iff)
    moreover have "unat b < 2 ^ Suc j" using False dbl by (simp add: word_le_nat_alt)
    ultimately show ?thesis using j less.prems(2) by auto
  qed
qed

lemma parent_bucket_spec:
  assumes "b \<noteq> 0" and "unat b < 2 ^ 63"
  shows "\<exists>k. parent_bucket b = Some (b - 2 ^ k) \<and> k < 63 \<and> 2 ^ k \<le> unat b \<and> unat b < 2 ^ Suc k"
proof -
  have "2 ^ 0 \<le> unat b" using assms(1) by (simp add: Suc_le_eq unat_gt_0)
  from parent_bucket_loop_spec [of 1 0, OF _ this assms(2)]
  show ?thesis by (auto simp: parent_bucket_def)
qed

lemma parent_bucket_less:
  assumes "b \<noteq> 0" and "unat b < 2 ^ 63"
  shows "\<exists>p. parent_bucket b = Some p \<and> unat p < unat b"
proof -
  obtain k where k: "parent_bucket b = Some (b - 2 ^ k)" "k < 63" "2 ^ k \<le> unat b"
    using parent_bucket_spec [OF assms] by blast
  then have "unat ((2::u64) ^ k) = 2 ^ k" by simp
  with k have "unat (b - 2 ^ k) = unat b - 2 ^ k" by (simp add: unat_sub word_le_nat_alt)
  moreover have "(0::nat) < 2 ^ k" by simp
  ultimately have "unat (b - 2 ^ k) < unat b" using k by linarith
  with k show ?thesis by blast
qed

subsection \<open>The split order\<close>

text \<open>
  A regular key is odd, a dummy key even. In a table of \<open>2^k\<close> buckets the keys whose bucket
  is \<open>b\<close> are exactly those whose split-order key shares its top \<open>k\<close> bits with the dummy key
  of \<open>b\<close>: a contiguous interval that starts at the dummy.
\<close>

lemma split_order_key_odd: "bit (split_order_key m) 0"
  by (simp add: split_order_key_def bit_bit_reverse bit_simps)

lemma dummy_key_even: "unat b < 2 ^ 63 \<Longrightarrow> \<not> bit (dummy_split_order_key b) 0"
proof
  assume "unat b < 2 ^ 63" and "bit (dummy_split_order_key b) 0"
  then have "bit (unat b) 63" by (simp add: dummy_split_order_key_def bit_bit_reverse bit_unsigned_iff)
  then have "odd (unat b div 2 ^ 63)" by (simp add: bit_iff_odd)
  with \<open>unat b < 2 ^ 63\<close> show False by simp
qed

lemma and_mask_word: "(m :: u64) AND (2 ^ k - 1) = take_bit k m"
  by (simp add: take_bit_eq_mask mask_eq_exp_minus_1)

lemma drop_bit_reverse_eq_iff:
  assumes "k \<le> 64"
  shows "drop_bit (64 - k) (bit_reverse x) = drop_bit (64 - k) (bit_reverse y) \<longleftrightarrow>
    take_bit k x = take_bit k y"
proof
  assume eq: "drop_bit (64 - k) (bit_reverse x) = drop_bit (64 - k) (bit_reverse y)"
  show "take_bit k x = take_bit k y"
  proof (rule bit_word_eqI)
    fix n assume n: "n < LENGTH(64)"
    show "bit (take_bit k x) n = bit (take_bit k y) n"
    proof (cases "n < k")
      case True
      from eq have "bit (drop_bit (64 - k) (bit_reverse x)) (k - 1 - n) =
        bit (drop_bit (64 - k) (bit_reverse y)) (k - 1 - n)" by simp
      moreover have "63 - (64 - k + (k - 1 - n)) = n" and "64 - k + (k - 1 - n) < 64"
        using True assms by simp_all
      ultimately have "bit x n = bit y n"
        by (simp only: bit_drop_bit_eq bit_bit_reverse comp_def simp_thms)
      then show ?thesis by (simp add: bit_take_bit_iff)
    qed (simp add: bit_take_bit_iff)
  qed
next
  assume eq: "take_bit k x = take_bit k y"
  have *: "bit x n = bit y n" if "n < k" for n
    using arg_cong [OF eq, of "\<lambda>w. bit w n"] that by (simp add: bit_take_bit_iff)
  show "drop_bit (64 - k) (bit_reverse x) = drop_bit (64 - k) (bit_reverse y)"
    by (rule bit_word_eqI) (use assms in \<open>auto simp: bit_drop_bit_eq bit_bit_reverse intro: *
        dest: * [THEN iffD1, rotated] * [THEN iffD2, rotated]\<close>)
qed

lemma same_bucket_iff:
  assumes "k \<le> 63" and "unat b < 2 ^ k"
  shows "m AND (2 ^ k - 1) = b \<longleftrightarrow>
    drop_bit (64 - k) (split_order_key m) = drop_bit (64 - k) (dummy_split_order_key b)"
proof -
  have "take_bit k (m OR push_bit 63 1) = take_bit k m"
    by (rule bit_word_eqI) (use assms(1) in \<open>auto simp: bit_take_bit_iff bit_or_iff\<close>)
  moreover have "take_bit k b = b"
    using assms(2) by (simp add: word_unat_eq_iff unsigned_take_bit_eq take_bit_nat_eq_self_iff)
  ultimately show ?thesis using assms(1)
    by (auto simp: split_order_key_def dummy_split_order_key_def drop_bit_reverse_eq_iff
        and_mask_word)
qed

end
