(* ===== verification/NodePool.thy ===== *)
theory NodePool
  imports Prelude
begin

section \<open>The sharded node pool\<close>

text \<open>
  \<open>class spin_lock\<close> and \<open>class node_pool\<close> of \<open>detail/utils.hpp\<close>. The pool is 128 shards,
  each a stack of blocks linked through a field of the dead node; the template parameter
  \<open>Link\<close> (which field that is) is the record \<open>link\<close>, and the client engines instantiate
  it. A thread is bound to one shard on first use.

  The invariant \<open>pool_ok\<close> says that every shard is unlocked and is a null-terminated chain
  of at most 32 blocks, that no block is in two places, and that every pooled block is
  still owned by the allocator its node records. Under it no operation touches a dead
  block, frees one twice or frees one through another allocator.
\<close>

subsection \<open>State\<close>

record 'n link =
  link_get :: "'n \<Rightarrow> ptr"
  link_set :: "'n \<Rightarrow> ptr \<Rightarrow> 'n"
  link_owner :: "'n \<Rightarrow> alloc"

record shard =
  sh_flag :: bool
  sh_head :: ptr
  sh_size :: u64

record pool =
  shards :: "shard list"
  next_shard :: u32
  shard_idx :: "thread \<Rightarrow> nat option"

definition SHARDS :: nat where "SHARDS = 128"
definition WATERMARK :: nat where "WATERMARK = 4096"
definition PER_SHARD_WATERMARK :: nat where "PER_SHARD_WATERMARK = WATERMARK div SHARDS"

definition new_shard :: shard where
  "new_shard = \<lparr>sh_flag = False, sh_head = 0, sh_size = 0\<rparr>"

definition new_pool :: pool where
  "new_pool = \<lparr>shards = replicate SHARDS new_shard, next_shard = 0, shard_idx = Map.empty\<rparr>"

subsection \<open>Operations\<close>

text \<open>
  A spin on a lock that is held never ends in a run of one operation: \<open>None\<close>.
\<close>

definition spin_lock_lock :: "shard \<Rightarrow> shard option" where
  "spin_lock_lock s = (if sh_flag s then None else Some (s\<lparr>sh_flag := True\<rparr>))"

definition spin_lock_unlock :: "shard \<Rightarrow> shard" where
  "spin_lock_unlock s = s\<lparr>sh_flag := False\<rparr>"

definition my_shard :: "thread \<Rightarrow> pool \<Rightarrow> nat \<times> pool" where
  "my_shard th p =
     (case shard_idx p th of
        Some i \<Rightarrow> (i, p)
      | None \<Rightarrow>
          let i = unat (next_shard p) mod SHARDS
          in (i, p\<lparr>next_shard := next_shard p + 1, shard_idx := (shard_idx p)(th \<mapsto> i)\<rparr>))"

definition put_shard :: "nat \<Rightarrow> shard \<Rightarrow> pool \<Rightarrow> pool" where
  "put_shard i s p = p\<lparr>shards := (shards p)[i := s]\<rparr>"

definition acquire ::
  "'n link \<Rightarrow> thread \<Rightarrow> alloc \<Rightarrow> ptr option \<Rightarrow> 'n mem \<Rightarrow> pool \<Rightarrow>
   ((exn + ptr) \<times> 'n mem \<times> pool) option" where
  "acquire l th na blk m p0 =
     (let (i, p) = my_shard th p0 in
      do {
        s \<leftarrow> spin_lock_lock (shards p ! i);
        let n = sh_head s;
        s \<leftarrow> (if n \<noteq> 0
              then do { nd \<leftarrow> load m n;
                        Some (s\<lparr>sh_head := link_get l nd, sh_size := sh_size s - 1\<rparr>) }
              else Some s);
        let p = put_shard i (spin_lock_unlock s) p;
        if n \<noteq> 0
        then do {
          nd \<leftarrow> load m n;
          if link_owner l nd = na then Some (Inr n, m, p)
          else do {
            m \<leftarrow> deallocate (link_owner l nd) n m;
            let (r, m) = allocate na blk m;
            Some (r, m, p)
          }
        }
        else do {
          let (r, m) = allocate na blk m;
          Some (r, m, p)
        }
      })"

partial_function (option) drain_chain :: "'n link \<Rightarrow> ptr \<Rightarrow> 'n mem \<Rightarrow> 'n mem option" where
  "drain_chain l n m =
     (if n = 0 then Some m
      else do {
        nd \<leftarrow> load m n;
        m \<leftarrow> deallocate (link_owner l nd) n m;
        drain_chain l (link_get l nd) m
      })"

definition drain_shard ::
  "'n link \<Rightarrow> nat \<Rightarrow> 'n mem \<Rightarrow> pool \<Rightarrow> ('n mem \<times> pool) option" where
  "drain_shard l i m p =
     do {
       s \<leftarrow> spin_lock_lock (shards p ! i);
       let n = sh_head s;
       let s = s\<lparr>sh_head := 0, sh_size := 0\<rparr>;
       let p = put_shard i (spin_lock_unlock s) p;
       m \<leftarrow> drain_chain l n m;
       Some (m, p)
     }"

definition release ::
  "'n link \<Rightarrow> thread \<Rightarrow> ptr \<Rightarrow> 'n mem \<Rightarrow> pool \<Rightarrow> ('n mem \<times> pool) option" where
  "release l th n m p0 =
     (let (i, p) = my_shard th p0 in
      do {
        s \<leftarrow> spin_lock_lock (shards p ! i);
        nd \<leftarrow> load m n;
        let m = store n (link_set l nd (sh_head s)) m;
        let s = s\<lparr>sh_head := n, sh_size := sh_size s + 1\<rparr>;
        let over = (of_nat PER_SHARD_WATERMARK < sh_size s);
        let p = put_shard i (spin_lock_unlock s) p;
        if over then drain_shard l i m p else Some (m, p)
      })"

fun drain_from :: "'n link \<Rightarrow> nat list \<Rightarrow> 'n mem \<Rightarrow> pool \<Rightarrow> ('n mem \<times> pool) option" where
  "drain_from l [] m p = Some (m, p)"
| "drain_from l (i # is) m p =
     do { (m, p) \<leftarrow> drain_shard l i m p; drain_from l is m p }"

definition drain :: "'n link \<Rightarrow> 'n mem \<Rightarrow> pool \<Rightarrow> ('n mem \<times> pool) option" where
  "drain l m p = drain_from l [0..<SHARDS] m p"

subsection \<open>The abstraction: a shard is a list of blocks\<close>

fun chain :: "'n link \<Rightarrow> 'n mem \<Rightarrow> ptr \<Rightarrow> ptr list \<Rightarrow> bool" where
  "chain l m p [] \<longleftrightarrow> p = 0"
| "chain l m p (x # xs) \<longleftrightarrow> p = x \<and>
     (\<exists>nd. load m x = Some nd \<and> live m x = Some (link_owner l nd) \<and> chain l m (link_get l nd) xs)"

definition shard_ok :: "'n link \<Rightarrow> 'n mem \<Rightarrow> shard \<Rightarrow> ptr list \<Rightarrow> bool" where
  "shard_ok l m s xs \<longleftrightarrow> \<not> sh_flag s \<and> chain l m (sh_head s) xs \<and> distinct xs \<and>
     unat (sh_size s) = length xs \<and> length xs \<le> PER_SHARD_WATERMARK"

definition pooled :: "ptr list list \<Rightarrow> ptr set" where
  "pooled xss = (\<Union>xs \<in> set xss. set xs)"

definition pool_rel :: "'n link \<Rightarrow> 'n mem \<Rightarrow> pool \<Rightarrow> ptr list list \<Rightarrow> bool" where
  "pool_rel l m p xss \<longleftrightarrow> length (shards p) = SHARDS \<and> length xss = SHARDS \<and>
     (\<forall>i < SHARDS. shard_ok l m (shards p ! i) (xss ! i)) \<and>
     (\<forall>i < SHARDS. \<forall>j < SHARDS. i \<noteq> j \<longrightarrow> set (xss ! i) \<inter> set (xss ! j) = {}) \<and>
     (\<forall>th i. shard_idx p th = Some i \<longrightarrow> i < SHARDS)"

definition pool_ok :: "'n link \<Rightarrow> 'n mem \<Rightarrow> pool \<Rightarrow> bool" where
  "pool_ok l m p \<longleftrightarrow> (\<exists>xss. pool_rel l m p xss)"

lemma chain_null [simp]: "chain l m 0 xs \<longleftrightarrow> xs = []"
  by (cases xs) auto

lemma chain_cong:
  "(\<And>x. x \<in> set xs \<Longrightarrow> load m' x = load m x \<and> live m' x = live m x) \<Longrightarrow>
   chain l m' p xs = chain l m p xs"
  by (induction xs arbitrary: p) auto

lemma chain_store [simp, frame]:
  "a \<notin> set xs \<Longrightarrow> chain l (store a nd m) p xs = chain l m p xs"
  by (rule chain_cong) auto

lemma chain_unique: "chain l m p xs \<Longrightarrow> chain l m p ys \<Longrightarrow> xs = ys"
proof (induction xs arbitrary: p ys)
  case Nil
  then show ?case by simp
next
  case (Cons x xs)
  then show ?case by (cases ys) auto
qed

lemma chain_live: "chain l m p xs \<Longrightarrow> x \<in> set xs \<Longrightarrow> live m x \<noteq> None \<and> load m x \<noteq> None"
  by (induction xs arbitrary: p) auto

lemma pooled_nth: "length xss = SHARDS \<Longrightarrow> pooled xss = (\<Union>i<SHARDS. set (xss ! i))"
  by (auto simp: pooled_def set_conv_nth Bex_def)

lemma in_pooledI: "pool_rel l m p xss \<Longrightarrow> i < SHARDS \<Longrightarrow> set (xss ! i) \<subseteq> pooled xss"
  by (force simp: pooled_def pool_rel_def)

lemma shard_ok_cong:
  "shard_ok l m s xs \<Longrightarrow>
   (\<And>x. x \<in> set xs \<Longrightarrow> load m' x = load m x \<and> live m' x = live m x) \<Longrightarrow> shard_ok l m' s xs"
  by (simp add: shard_ok_def cong: chain_cong)

text \<open>Memory outside the pool may change freely.\<close>

lemma pool_rel_frame [frame]:
  assumes "pool_rel l m p xss"
    and "\<And>x. x \<in> pooled xss \<Longrightarrow> load m' x = load m x \<and> live m' x = live m x"
  shows "pool_rel l m' p xss"
proof -
  have "shard_ok l m' (shards p ! i) (xss ! i)" if "i < SHARDS" for i
  proof (rule shard_ok_cong)
    show "shard_ok l m (shards p ! i) (xss ! i)" using assms(1) that by (simp add: pool_rel_def)
  qed (use assms(2) in_pooledI [OF assms(1) that] in blast)
  with assms(1) show ?thesis by (simp add: pool_rel_def)
qed

text \<open>Replacing one shard.\<close>

lemma pool_rel_put_shard:
  assumes rel: "pool_rel l m p xss" and i: "i < SHARDS"
    and s: "shard_ok l m' s ys"
    and frame: "\<And>x. x \<in> pooled xss - set (xss ! i) \<Longrightarrow> load m' x = load m x \<and> live m' x = live m x"
    and new: "set ys \<subseteq> set (xss ! i) \<union> - pooled xss"
  shows "pool_rel l m' (put_shard i s p) (xss[i := ys])"
proof -
  have len: "length xss = SHARDS" "length (shards p) = SHARDS"
    using rel by (simp_all add: pool_rel_def)
  have disj: "set (xss ! j) \<inter> set (xss ! k) = {}" if "j < SHARDS" "k < SHARDS" "j \<noteq> k" for j k
    using rel that by (simp add: pool_rel_def)
  have sub: "set (xss ! j) \<subseteq> pooled xss - set (xss ! i)" if "j < SHARDS" "j \<noteq> i" for j
    using in_pooledI [OF rel that(1)] disj [OF that(1) i that(2)] by blast
  have other: "shard_ok l m' (shards p ! j) (xss ! j)" if "j < SHARDS" "j \<noteq> i" for j
  proof (rule shard_ok_cong)
    show "shard_ok l m (shards p ! j) (xss ! j)" using rel that by (simp add: pool_rel_def)
  qed (use frame sub [OF that] in blast)
  have fresh: "set ys \<inter> set (xss ! j) = {}" if "j < SHARDS" "j \<noteq> i" for j
    using new sub [OF that] by blast
  show ?thesis
    unfolding pool_rel_def
    using rel len i s other fresh disj
    by (auto simp: put_shard_def nth_list_update pool_rel_def)
qed

subsection \<open>Draining\<close>

lemma drain_chain_spec:
  assumes "chain l m p xs" and "distinct xs"
  shows "\<exists>m'. drain_chain l p m = Some m' \<and> freed (set xs) m m'"
  using assms
proof (induction xs arbitrary: m p)
  case Nil
  then show ?case by (simp add: drain_chain.simps)
next
  case (Cons x xs)
  then obtain nd where p: "p = x" and nd: "load m x = Some nd" "live m x = Some (link_owner l nd)"
    and rest: "chain l m (link_get l nd) xs" and x: "x \<notin> set xs" "x \<noteq> 0"
    by (auto dest: load_SomeD)
  obtain m1 where m1: "deallocate (link_owner l nd) x m = Some m1" "freed {x} m m1"
    using deallocate_freed [OF nd(2)] by blast
  have "chain l m1 (link_get l nd) xs"
    using rest x m1(2) by (subst chain_cong [where m = m]) (auto intro: freed_frame [of "{x}"])
  from Cons.IH [OF this] Cons.prems(2)
  obtain m' where m': "drain_chain l (link_get l nd) m1 = Some m'" "freed (set xs) m1 m'" by auto
  with p nd m1 x have "drain_chain l p m = Some m'" by (subst drain_chain.simps) simp
  moreover have "freed (set (x # xs)) m m'" using freed_trans [OF m1(2) m'(2)] by simp
  ultimately show ?case by blast
qed

lemma unlocked_same: "\<not> sh_flag s \<Longrightarrow> s\<lparr>sh_flag := False\<rparr> = s"
  by (cases s) simp

lemma shard_overwrite [simp]:
  "s\<lparr>sh_head := a, sh_size := b, sh_flag := c\<rparr> = \<lparr>sh_flag = c, sh_head = a, sh_size = b\<rparr>"
  by (cases s) simp

lemma shard_ok_empty: "\<not> sh_flag s \<Longrightarrow> sh_head s = 0 \<Longrightarrow> sh_size s = 0 \<Longrightarrow> shard_ok l m s []"
  by (simp add: shard_ok_def)

lemma drain_shard_spec:
  assumes rel: "pool_rel l m p xss" and i: "i < SHARDS"
  shows "\<exists>m' p'. drain_shard l i m p = Some (m', p') \<and> pool_rel l m' p' (xss[i := []]) \<and>
    freed (set (xss ! i)) m m' \<and> shard_idx p' = shard_idx p \<and> next_shard p' = next_shard p"
proof -
  have ok: "shard_ok l m (shards p ! i) (xss ! i)" using rel i by (simp add: pool_rel_def)
  then obtain m' where m': "drain_chain l (sh_head (shards p ! i)) m = Some m'"
    "freed (set (xss ! i)) m m'"
    using drain_chain_spec unfolding shard_ok_def by blast
  define s where "s = \<lparr>sh_flag = False, sh_head = 0, sh_size = 0\<rparr>"
  have s_eq: "(shards p ! i)\<lparr>sh_head := 0, sh_size := 0, sh_flag := False\<rparr> = s"
    by (simp add: s_def)
  have "drain_shard l i m p = Some (m', put_shard i s p)"
    using ok s_eq m' by (simp add: drain_shard_def spin_lock_lock_def spin_lock_unlock_def
        shard_ok_def)
  moreover have "pool_rel l m' (put_shard i s p) (xss[i := []])"
    by (rule pool_rel_put_shard [OF rel i])
      (use m'(2) in \<open>auto simp: s_def freed_frame intro: shard_ok_empty\<close>)
  moreover have "shard_idx (put_shard i s p) = shard_idx p"
    "next_shard (put_shard i s p) = next_shard p" by (simp_all add: put_shard_def)
  ultimately show ?thesis using m'(2) by blast
qed

lemma drain_from_spec:
  assumes "pool_rel l m p xss" and "set is \<subseteq> {..<SHARDS}"
  shows "\<exists>m' p' xss'. drain_from l is m p = Some (m', p') \<and> pool_rel l m' p' xss' \<and>
    (\<forall>j < SHARDS. xss' ! j = (if j \<in> set is then [] else xss ! j)) \<and>
    freed (\<Union>i \<in> set is. set (xss ! i)) m m'"
  using assms
proof (induction "is" arbitrary: m p xss)
  case Nil
  then show ?case by auto
next
  case (Cons i "is")
  then have i: "i < SHARDS" by simp
  from drain_shard_spec [OF Cons.prems(1) i] obtain m1 p1 where
    1: "drain_shard l i m p = Some (m1, p1)" "pool_rel l m1 p1 (xss[i := []])"
      "freed (set (xss ! i)) m m1" by blast
  from Cons.IH [OF 1(2)] Cons.prems(2) obtain m' p' xss' where
    2: "drain_from l is m1 p1 = Some (m', p')" "pool_rel l m' p' xss'"
      "\<forall>j < SHARDS. xss' ! j = (if j \<in> set is then [] else xss[i := []] ! j)"
      "freed (\<Union>j \<in> set is. set (xss[i := []] ! j)) m1 m'" by auto
  have len: "length xss = SHARDS" using Cons.prems(1) by (simp add: pool_rel_def)
  have "set (xss ! i) \<union> (\<Union>j \<in> set is. set (xss[i := []] ! j)) = (\<Union>j \<in> set (i # is). set (xss ! j))"
    using len i by (auto simp: nth_list_update split: if_splits)
  with freed_trans [OF 1(3) 2(4)] have "freed (\<Union>j \<in> set (i # is). set (xss ! j)) m m'" by simp
  moreover have "\<forall>j < SHARDS. xss' ! j = (if j \<in> set (i # is) then [] else xss ! j)"
    using 2(3) len i by (auto simp: nth_list_update)
  ultimately show ?case using 1(1) 2(1,2) by auto
qed

lemma drain_spec:
  assumes "pool_rel l m p xss"
  shows "\<exists>m' p'. drain l m p = Some (m', p') \<and> pool_rel l m' p' (replicate SHARDS []) \<and>
    freed (pooled xss) m m'"
proof -
  have len: "length xss = SHARDS" using assms by (simp add: pool_rel_def)
  obtain m' p' xss' where d: "drain_from l [0..<SHARDS] m p = Some (m', p')" "pool_rel l m' p' xss'"
    "\<forall>j < SHARDS. xss' ! j = []" "freed (\<Union>i \<in> set [0..<SHARDS]. set (xss ! i)) m m'"
    using drain_from_spec [OF assms, of "[0..<SHARDS]"] by (simp add: atLeast0LessThan) blast
  from d(2,3) have "xss' = replicate SHARDS []"
    by (intro nth_equalityI) (simp_all add: pool_rel_def)
  with d len show ?thesis by (simp add: drain_def pooled_nth atLeast0LessThan)
qed

subsection \<open>The thread's shard\<close>

lemma my_shard_spec:
  assumes "pool_rel l m p xss" and "my_shard th p = (i, p')"
  shows "i < SHARDS \<and> shards p' = shards p \<and> pool_rel l m p' xss \<and> shard_idx p' th = Some i"
  using assms by (auto simp: my_shard_def pool_rel_def Let_def SHARDS_def split: option.splits if_splits)

lemma my_shard_stable: "my_shard th p = (i, p') \<Longrightarrow> my_shard th p' = (i, p')"
  by (auto simp: my_shard_def Let_def split: option.splits)

subsection \<open>The link interface\<close>

text \<open>
  What the pool asks of the template parameter \<open>Link\<close>: \<open>set\<close> followed by \<open>get\<close> returns
  the pointer, and does not disturb \<open>alloc_owner\<close>. The two engines interpret it on their
  node types (\<open>pool_link_next\<close> and \<open>pool_link_left\<close>).
\<close>

locale pool_link =
  fixes l :: "'n link"
  assumes get_set: "link_get l (link_set l nd v) = v"
    and owner_set: "link_owner l (link_set l nd v) = link_owner l nd"
begin

lemma release_spec:
  assumes rel: "pool_rel l m p xss"
    and nd: "load m n = Some nd" "live m n = Some (link_owner l nd)"
    and n: "n \<notin> pooled xss"
    and my: "my_shard th p = (i, p1)"
  shows "\<exists>m' p'. release l th n m p = Some (m', p') \<and>
    (if length (xss ! i) < PER_SHARD_WATERMARK
     then pool_rel l m' p' (xss[i := n # xss ! i]) \<and> live m' = live m \<and>
       (\<forall>b. b \<noteq> n \<longrightarrow> load m' b = load m b)
     else pool_rel l m' p' (xss[i := []]) \<and> freed (insert n (set (xss ! i))) m m')"
proof -
  from my_shard_spec [OF rel my] have i: "i < SHARDS" and sh: "shards p1 = shards p"
    and rel1: "pool_rel l m p1 xss" by blast+
  have len: "length xss = SHARDS" "length (shards p1) = SHARDS"
    using rel1 by (simp_all add: pool_rel_def)
  have n0: "n \<noteq> 0" using nd(1) by auto
  have ok: "shard_ok l m (shards p1 ! i) (xss ! i)" using rel1 i by (simp add: pool_rel_def)
  then have n_notin: "n \<notin> set (xss ! i)" using n in_pooledI [OF rel i] by blast
  define s where "s = \<lparr>sh_flag = False, sh_head = n, sh_size = sh_size (shards p1 ! i) + 1\<rparr>"
  define m1 where "m1 = store n (link_set l nd (sh_head (shards p1 ! i))) m"
  have s_eq: "(shards p1 ! i)\<lparr>sh_head := n, sh_size := sh_size (shards p1 ! i) + 1, sh_flag := False\<rparr> = s"
    by (simp add: s_def)
  have usz: "unat (sh_size s) = Suc (length (xss ! i))"
    using ok by (simp add: s_def shard_ok_def PER_SHARD_WATERMARK_def WATERMARK_def SHARDS_def
        unat_word_ariths)
  have over: "of_nat PER_SHARD_WATERMARK < sh_size s \<longleftrightarrow> \<not> length (xss ! i) < PER_SHARD_WATERMARK"
    using usz by (simp add: word_less_nat_alt PER_SHARD_WATERMARK_def WATERMARK_def SHARDS_def)
      arith
  have ch: "chain l m1 n (n # xss ! i)"
    using ok nd n_notin n0
    by (auto simp: m1_def shard_ok_def get_set owner_set)
  have run: "release l th n m p =
    (if of_nat PER_SHARD_WATERMARK < sh_size s then drain_shard l i m1 (put_shard i s p1)
     else Some (m1, put_shard i s p1))"
    using ok nd my sh
    by (simp add: release_def spin_lock_lock_def spin_lock_unlock_def shard_ok_def m1_def s_def)
  show ?thesis
  proof (cases "length (xss ! i) < PER_SHARD_WATERMARK")
    case True
    have "shard_ok l m1 s (n # xss ! i)"
      using ch ok n_notin usz True by (simp add: shard_ok_def s_def)
    then have "pool_rel l m1 (put_shard i s p1) (xss[i := n # xss ! i])"
      using n by (intro pool_rel_put_shard [OF rel1 i]) (auto simp: m1_def)
    with True over run show ?thesis by (auto simp: m1_def)
  next
    case False
    obtain m' where m': "drain_chain l n m1 = Some m'" "freed (set (n # xss ! i)) m1 m'"
      using drain_chain_spec [OF ch] ok n_notin by (auto simp: shard_ok_def)
    define s0 where "s0 = \<lparr>sh_flag = False, sh_head = 0, sh_size = 0\<rparr>"
    have "s\<lparr>sh_head := 0, sh_size := 0, sh_flag := False\<rparr> = s0" by (simp add: s0_def s_def)
    then have "drain_shard l i m1 (put_shard i s p1) = Some (m', put_shard i s0 p1)"
      using m' i len
      by (simp add: drain_shard_def spin_lock_lock_def spin_lock_unlock_def put_shard_def s_def)
    moreover have "pool_rel l m' (put_shard i s0 p1) (xss[i := []])"
      using n m'(2) by (intro pool_rel_put_shard [OF rel1 i])
        (auto simp: s0_def m1_def freed_def intro!: shard_ok_empty)
    moreover have "freed (insert n (set (xss ! i))) m m'"
      using m'(2) by (auto simp: freed_def m1_def)
    ultimately show ?thesis using False over run by auto
  qed
qed

lemma acquire_spec:
  assumes rel: "pool_rel l m p xss" and my: "my_shard th p = (i, p1)"
    and blk: "\<And>a. blk = Some a \<Longrightarrow> fresh_block m a"
  shows "\<exists>r m' p'. acquire l th na blk m p = Some (r, m', p') \<and>
    (case xss ! i of
       [] \<Rightarrow> pool_rel l m' p' xss \<and> (r, m') = allocate na blk m
     | x # xs \<Rightarrow> pool_rel l m' p' (xss[i := xs]) \<and>
         (if live m x = Some na then r = Inr x \<and> m' = m
          else \<exists>m1. freed {x} m m1 \<and> (r, m') = allocate na blk m1))"
proof -
  from my_shard_spec [OF rel my] have i: "i < SHARDS" and rel1: "pool_rel l m p1 xss" by blast+
  have ok: "shard_ok l m (shards p1 ! i) (xss ! i)" using rel1 i by (simp add: pool_rel_def)
  have len: "length xss = SHARDS" "length (shards p1) = SHARDS"
    using rel1 by (simp_all add: pool_rel_def)
  have alloc_frame: "pool_rel l (snd (allocate na blk m2)) q yss"
    if "pool_rel l m2 q yss" "\<And>a. blk = Some a \<Longrightarrow> a \<notin> pooled yss" for m2 q yss
    using that by (auto intro!: pool_rel_frame [OF that(1)] simp: allocate_def load_def split: option.splits)
  have pooled_live: "live m x \<noteq> None" if "x \<in> pooled xss" for x
    using that rel len chain_live
    by (fastforce simp: pooled_nth pool_rel_def shard_ok_def)
  show ?thesis
  proof (cases "xss ! i")
    case Nil
    with ok have "sh_head (shards p1 ! i) = 0" by (simp add: shard_ok_def)
    moreover have "put_shard i ((shards p1 ! i)\<lparr>sh_flag := False\<rparr>) p1 = p1"
      using ok by (simp add: put_shard_def shard_ok_def unlocked_same)
    ultimately have "acquire l th na blk m p = Some (fst (allocate na blk m), snd (allocate na blk m), p1)"
      using ok my by (simp add: acquire_def spin_lock_lock_def spin_lock_unlock_def shard_ok_def
          case_prod_beta)
    moreover have "pool_rel l (snd (allocate na blk m)) p1 xss"
      using pooled_live blk by (intro alloc_frame [OF rel1]) (fastforce simp: fresh_block_def)
    ultimately show ?thesis using Nil by auto
  next
    case (Cons x xs)
    obtain nd where x: "sh_head (shards p1 ! i) = x" "x \<noteq> 0" and nd: "load m x = Some nd"
      "live m x = Some (link_owner l nd)" and xs: "chain l m (link_get l nd) xs" "x \<notin> set xs"
      "distinct xs"
      using ok Cons by (auto simp: shard_ok_def dest: load_SomeD)
    define s where
      "s = \<lparr>sh_flag = False, sh_head = link_get l nd, sh_size = sh_size (shards p1 ! i) - 1\<rparr>"
    define p2 where "p2 = put_shard i s p1"
    have s_eq: "(shards p1 ! i)\<lparr>sh_head := link_get l nd,
        sh_size := sh_size (shards p1 ! i) - 1, sh_flag := False\<rparr> = s"
      by (simp add: s_def)
    have usz: "unat (sh_size s) = length xs"
    proof -
      have "unat (sh_size (shards p1 ! i)) = Suc (length xs)" using ok Cons by (simp add: shard_ok_def)
      moreover then have "sh_size (shards p1 ! i) \<noteq> 0" by auto
      ultimately show ?thesis by (simp add: s_def unat_minus_one)
    qed
    have "shard_ok l m s xs"
      using xs usz ok Cons by (simp add: shard_ok_def s_def)
    then have rel2: "pool_rel l m p2 (xss[i := xs])"
      unfolding p2_def using Cons by (intro pool_rel_put_shard [OF rel1 i]) auto
    have pooled2: "pooled (xss[i := xs]) \<subseteq> pooled xss - {x}"
    proof
      fix y assume "y \<in> pooled (xss[i := xs])"
      then obtain j where j: "j < SHARDS" "y \<in> set (xss[i := xs] ! j)"
        using len by (auto simp: pooled_nth)
      have "y \<in> set (xss ! j) \<and> y \<noteq> x"
      proof (cases "j = i")
        case True
        with j Cons xs len i show ?thesis by auto
      next
        case False
        then have "set (xss ! j) \<inter> set (xss ! i) = {}" using rel j(1) i by (simp add: pool_rel_def)
        with j(2) False Cons show ?thesis by auto
      qed
      with in_pooledI [OF rel j(1)] show "y \<in> pooled xss - {x}" by blast
    qed
    show ?thesis
    proof (cases "link_owner l nd = na")
      case True
      then have "acquire l th na blk m p = Some (Inr x, m, p2)"
        using ok my x nd s_eq by (simp add: acquire_def spin_lock_lock_def spin_lock_unlock_def
            shard_ok_def p2_def)
      with True nd rel2 Cons show ?thesis by auto
    next
      case False
      obtain m1 where m1: "deallocate (link_owner l nd) x m = Some m1" "freed {x} m m1"
        using deallocate_freed [OF nd(2)] by blast
      then have "acquire l th na blk m p =
          Some (fst (allocate na blk m1), snd (allocate na blk m1), p2)"
        using False ok my x nd s_eq by (simp add: acquire_def spin_lock_lock_def
            spin_lock_unlock_def shard_ok_def p2_def case_prod_beta)
      moreover have "pool_rel l m1 p2 (xss[i := xs])"
        using pooled2 m1(2) by (intro pool_rel_frame [OF rel2]) (auto intro: freed_frame [of "{x}"])
      then have "pool_rel l (snd (allocate na blk m1)) p2 (xss[i := xs])"
        using pooled2 pooled_live blk by (intro alloc_frame) (fastforce simp: fresh_block_def)+
      ultimately show ?thesis using Cons False nd(2) m1(2) by (auto intro!: exI [of _ m1])
    qed
  qed
qed

end

end
