(* ===== verification/EpochReclaim.thy ===== *)
theory EpochReclaim
  imports Prelude
begin

section \<open>Epoch-based reclamation\<close>

text \<open>
  \<open>class epoch_reclaimer\<close> of \<open>detail/epoch.hpp\<close>: a global epoch with the values 0, 1, 2, an
  active counter for each value, per-thread retire lists tagged with an epoch, and the
  late-retire chain of objects whose thread exited.

  A retirement is a pair of an object and its \<open>retire_action\<close>. The actions do not call the
  reclaimer, so every operation returns, next to the new state, the list of retirements
  whose actions it runs, in order; the engine runs them on its memory. The atomics are
  sequentially consistent. The operations of one thread are whole here; their interleaving,
  one atomic access at a time, is the subject of \<open>EpochSafety\<close>.

  The two vectors of a tag are kept separate, as in the code, with the failing
  \<open>push_back\<close> as an input: that they stay aligned is an invariant, not an assumption.
\<close>

subsection \<open>State\<close>

definition EPOCHS :: nat where "EPOCHS = 3"
definition EPOCH_RECLAIM_THRESHOLD :: u64 where "EPOCH_RECLAIM_THRESHOLD = 256"

record 'act orphan =
  o_ptr :: ptr
  o_action :: 'act
  o_tag :: nat

record 'act thread_state =
  local_epoch :: nat
  last_drain_epoch :: nat
  retired_total :: u64
  retired :: "ptr list list"
  retired_actions :: "'act list list"

record 'act epoch =
  e_global :: nat
  e_active :: "u32 list"
  e_outstanding :: u64
  e_late :: "'act orphan list"
  e_tls :: "'act thread_state list"

definition new_thread_state :: "'act thread_state" where
  "new_thread_state = \<lparr>local_epoch = 0, last_drain_epoch = UINT_MAX, retired_total = 0,
     retired = replicate EPOCHS [], retired_actions = replicate EPOCHS []\<rparr>"

text \<open>The state of a process with \<open>n\<close> threads, before any operation.\<close>

definition new_epoch :: "nat \<Rightarrow> 'act epoch" where
  "new_epoch n = \<lparr>e_global = 0, e_active = replicate EPOCHS 0, e_outstanding = 0, e_late = [],
     e_tls = replicate n new_thread_state\<rparr>"

abbreviation tls :: "'act epoch \<Rightarrow> thread \<Rightarrow> 'act thread_state" where
  "tls s th \<equiv> e_tls s ! th"

definition put_tls :: "thread \<Rightarrow> 'act thread_state \<Rightarrow> 'act epoch \<Rightarrow> 'act epoch" where
  "put_tls th ts s = s\<lparr>e_tls := (e_tls s)[th := ts]\<rparr>"

subsection \<open>Guards\<close>

text \<open>
  \<open>enter\<close> is a load of the global epoch, an increment and a thread-local store; \<open>exit\<close> is a
  decrement and, for the last thread, a load and a compare-and-swap. Each access is a
  definition of its own, because \<open>EpochSafety\<close> interleaves them.
\<close>

definition active_add :: "nat \<Rightarrow> u32 \<Rightarrow> 'act epoch \<Rightarrow> 'act epoch" where
  "active_add e d s =
     s\<lparr>e_active := (e_active s)[e mod EPOCHS := e_active s ! (e mod EPOCHS) + d]\<rparr>"

definition enter_store :: "thread \<Rightarrow> nat \<Rightarrow> 'act epoch \<Rightarrow> 'act epoch" where
  "enter_store th g s = put_tls th ((tls s th)\<lparr>local_epoch := g\<rparr>) s"

definition epoch_enter :: "thread \<Rightarrow> 'act epoch \<Rightarrow> 'act epoch" where
  "epoch_enter th s = (let g = e_global s in enter_store th g (active_add g 1 s))"

definition exit_cas :: "nat \<Rightarrow> 'act epoch \<Rightarrow> 'act epoch" where
  "exit_cas g s = (if e_global s = g then s\<lparr>e_global := (g + 1) mod EPOCHS\<rparr> else s)"

definition epoch_exit :: "thread \<Rightarrow> 'act epoch \<Rightarrow> 'act epoch" where
  "epoch_exit th s =
     (let l = local_epoch (tls s th);
          old = e_active s ! (l mod EPOCHS);
          s = active_add l (- 1) s
      in if old = 1 then (let g = e_global s in if g = l then exit_cas g s else s) else s)"

subsection \<open>Retiring and reclaiming\<close>

definition free_tagged ::
  "thread \<Rightarrow> nat \<Rightarrow> 'act epoch \<Rightarrow> ((ptr \<times> 'act) list \<times> 'act epoch) option" where
  "free_tagged th tag s =
     (let ts = tls s th; ptrs = retired ts ! tag; acts = retired_actions ts ! tag in
      if length acts < length ptrs then None
      else Some (zip ptrs acts,
        (put_tls th (ts\<lparr>retired_total := retired_total ts - of_nat (length ptrs),
             retired := (retired ts)[tag := []],
             retired_actions := (retired_actions ts)[tag := []]\<rparr>) s)
          \<lparr>e_outstanding := e_outstanding s - of_nat (length ptrs)\<rparr>))"

text \<open>
  The chain is taken as a whole; reclaimable items are freed in chain order, the others are
  pushed back one at a time, which reverses them.
\<close>

fun push_late :: "'act orphan list \<Rightarrow> 'act orphan list \<Rightarrow> 'act orphan list" where
  "push_late [] chain = chain"
| "push_late (o' # os) chain = push_late os (o' # chain)"

fun drain_split :: "nat \<Rightarrow> 'act orphan list \<Rightarrow> (ptr \<times> 'act) list \<times> 'act orphan list" where
  "drain_split tag [] = ([], [])"
| "drain_split tag (o' # os) =
     (let (fs, kept) = drain_split tag os in
      if o_tag o' = tag then ((o_ptr o', o_action o') # fs, kept) else (fs, o' # kept))"

definition drain_late :: "nat \<Rightarrow> 'act epoch \<Rightarrow> (ptr \<times> 'act) list \<times> 'act epoch" where
  "drain_late tag s =
     (let chain = e_late s;
          s = s\<lparr>e_late := []\<rparr>;
          (fs, kept) = drain_split tag chain
      in (fs, s\<lparr>e_outstanding := e_outstanding s - of_nat (length fs),
                e_late := push_late kept (e_late s)\<rparr>))"

definition drain_late_all :: "'act epoch \<Rightarrow> (ptr \<times> 'act) list \<times> 'act epoch" where
  "drain_late_all s =
     (let chain = e_late s
      in (map (\<lambda>o'. (o_ptr o', o_action o')) chain,
          s\<lparr>e_late := [], e_outstanding := e_outstanding s - of_nat (length chain)\<rparr>))"

definition recount :: "thread \<Rightarrow> 'act epoch \<Rightarrow> 'act epoch" where
  "recount th s =
     put_tls th ((tls s th)\<lparr>retired_total :=
       (\<Sum>e\<leftarrow>[0..<EPOCHS]. of_nat (length (retired (tls s th) ! e)))\<rparr>) s"

definition reclaim :: "thread \<Rightarrow> 'act epoch \<Rightarrow> ((ptr \<times> 'act) list \<times> 'act epoch) option" where
  "reclaim th s =
     (let g = e_global s; tag = (g + 1) mod EPOCHS in
      do {
        (fs, s) \<leftarrow> free_tagged th tag s;
        let (fs2, s) =
          (if g \<noteq> last_drain_epoch (tls s th) \<and> e_late s \<noteq> []
           then let (fs2, s) = drain_late tag s
                in (fs2, put_tls th ((tls s th)\<lparr>last_drain_epoch := g\<rparr>) s)
           else ([], s));
        Some (fs @ fs2, recount th s)
      })"

definition retire ::
  "thread \<Rightarrow> push \<Rightarrow> ptr \<Rightarrow> 'act \<Rightarrow> 'act epoch \<Rightarrow>
   ((exn + (ptr \<times> 'act) list) \<times> 'act epoch) option" where
  "retire th pu p act s0 =
     (let s = s0\<lparr>e_outstanding := e_outstanding s0 + 1\<rparr>;
          ts = tls s th;
          e = local_epoch ts mod EPOCHS;
          ptrs = (if pu = Ptr_push_throws then retired ts ! e else retired ts ! e @ [p]);
          acts = (if pu = Push_ok then retired_actions ts ! e @ [act] else retired_actions ts ! e)
      in
      if pu \<noteq> Push_ok then
        (let ptrs = (if length acts < length ptrs then butlast ptrs else ptrs)
         in Some (Inl Bad_alloc,
              (put_tls th (ts\<lparr>retired := (retired ts)[e := ptrs],
                   retired_actions := (retired_actions ts)[e := acts]\<rparr>) s)
                \<lparr>e_outstanding := e_outstanding s - 1\<rparr>))
      else
        (let ts = ts\<lparr>retired := (retired ts)[e := ptrs],
                     retired_actions := (retired_actions ts)[e := acts],
                     retired_total := retired_total ts + 1\<rparr>;
             s = put_tls th ts s
         in if EPOCH_RECLAIM_THRESHOLD < retired_total ts
            then do { (fs, s) \<leftarrow> reclaim th s; Some (Inr fs, s) }
            else Some (Inr [], s)))"

definition has_outstanding :: "'act epoch \<Rightarrow> bool" where
  "has_outstanding s \<longleftrightarrow> e_outstanding s \<noteq> 0"

fun free_all_tags ::
  "thread \<Rightarrow> nat list \<Rightarrow> 'act epoch \<Rightarrow> ((ptr \<times> 'act) list \<times> 'act epoch) option" where
  "free_all_tags th [] s = Some ([], s)"
| "free_all_tags th (e # es) s =
     do { (fs, s) \<leftarrow> free_tagged th e s;
          (fs2, s) \<leftarrow> free_all_tags th es s;
          Some (fs @ fs2, s) }"

definition drain_all :: "thread \<Rightarrow> 'act epoch \<Rightarrow> ((ptr \<times> 'act) list \<times> 'act epoch) option" where
  "drain_all th s =
     do { (fs, s) \<leftarrow> free_all_tags th [0..<EPOCHS] s;
          let s = put_tls th ((tls s th)\<lparr>retired_total := 0\<rparr>) s;
          let (fs2, s) = drain_late_all s;
          Some (fs @ fs2, s) }"

text \<open>
  \<open>finalize_thread\<close> builds a local chain (each element in front of the previous one) and
  pushes it onto the shared chain element by element.
\<close>

fun build_orphans :: "nat \<Rightarrow> (ptr \<times> 'act) list \<Rightarrow> 'act orphan list \<Rightarrow> 'act orphan list" where
  "build_orphans e [] hd' = hd'"
| "build_orphans e ((p, a) # xs) hd' =
     build_orphans e xs (\<lparr>o_ptr = p, o_action = a, o_tag = e\<rparr> # hd')"

fun orphan_tags :: "'act thread_state \<Rightarrow> nat list \<Rightarrow> 'act orphan list \<Rightarrow> 'act orphan list option" where
  "orphan_tags ts [] hd' = Some hd'"
| "orphan_tags ts (e # es) hd' =
     (if length (retired_actions ts ! e) < length (retired ts ! e) then None
      else orphan_tags ts es (build_orphans e (zip (retired ts ! e) (retired_actions ts ! e)) hd'))"

definition finalize_thread ::
  "thread \<Rightarrow> 'act epoch \<Rightarrow> ((ptr \<times> 'act) list \<times> 'act epoch) option" where
  "finalize_thread th s =
     do { (fs, s) \<leftarrow> reclaim th s;
          local \<leftarrow> orphan_tags (tls s th) [0..<EPOCHS] [];
          let s = put_tls th ((tls s th)\<lparr>retired := replicate EPOCHS [],
                    retired_actions := replicate EPOCHS [], retired_total := 0\<rparr>) s;
          Some (fs, s\<lparr>e_late := push_late local (e_late s)\<rparr>) }"

subsection \<open>Accounting\<close>

text \<open>
  \<open>pending s\<close> is the multiset of the retirements whose action has not run, with their tags;
  \<open>epoch_ok\<close> says that the vectors are aligned and that the counters count them.
\<close>

definition pend :: "'act thread_state \<Rightarrow> nat \<Rightarrow> (ptr \<times> 'act \<times> nat) multiset" where
  "pend ts e = mset (map (\<lambda>(p, a). (p, a, e)) (zip (retired ts ! e) (retired_actions ts ! e)))"

definition ts_pending :: "'act thread_state \<Rightarrow> (ptr \<times> 'act \<times> nat) multiset" where
  "ts_pending ts = pend ts 0 + pend ts 1 + pend ts 2"

definition late_pending :: "'act orphan list \<Rightarrow> (ptr \<times> 'act \<times> nat) multiset" where
  "late_pending os = mset (map (\<lambda>o'. (o_ptr o', o_action o', o_tag o')) os)"

definition pending :: "'act epoch \<Rightarrow> (ptr \<times> 'act \<times> nat) multiset" where
  "pending s = sum_list (map ts_pending (e_tls s)) + late_pending (e_late s)"

definition ts_ok :: "'act thread_state \<Rightarrow> bool" where
  "ts_ok ts \<longleftrightarrow> length (retired ts) = EPOCHS \<and> length (retired_actions ts) = EPOCHS \<and>
     (\<forall>e < EPOCHS. length (retired_actions ts ! e) = length (retired ts ! e)) \<and>
     retired_total ts = of_nat (size (ts_pending ts)) \<and> local_epoch ts < EPOCHS"

definition epoch_ok :: "'act epoch \<Rightarrow> bool" where
  "epoch_ok s \<longleftrightarrow> (\<forall>ts \<in> set (e_tls s). ts_ok ts) \<and> length (e_active s) = EPOCHS \<and>
     e_global s < EPOCHS \<and> e_outstanding s = of_nat (size (pending s))"

text \<open>\<open>tagged t fs\<close>: the retirements \<open>fs\<close>, all with tag \<open>t\<close>.\<close>

definition tagged :: "nat \<Rightarrow> (ptr \<times> 'act) list \<Rightarrow> (ptr \<times> 'act \<times> nat) multiset" where
  "tagged t fs = mset (map (\<lambda>(p, a). (p, a, t)) fs)"

lemma tagged_simps [simp]:
  "tagged t [] = {#}" "tagged t (x # xs) = add_mset (fst x, snd x, t) (tagged t xs)"
  "tagged t (xs @ ys) = tagged t xs + tagged t ys" "size (tagged t xs) = length xs"
  by (simp_all add: tagged_def case_prod_beta)

lemma ts_ok_new: "ts_ok new_thread_state"
  by (simp add: ts_ok_def new_thread_state_def ts_pending_def pend_def EPOCHS_def)

lemma epoch_ok_new: "epoch_ok (new_epoch n)" and pending_new: "pending (new_epoch n) = {#}"
proof -
  show p: "pending (new_epoch n) = {#}"
    by (simp add: pending_def new_epoch_def late_pending_def ts_pending_def pend_def
        new_thread_state_def EPOCHS_def)
  show "epoch_ok (new_epoch n)"
    unfolding epoch_ok_def p by (simp add: new_epoch_def ts_ok_new EPOCHS_def)
qed

lemma ts_pending_cases:
  assumes "ts_ok ts"
  obtains a b c x y z where "retired ts = [a, b, c]" "retired_actions ts = [x, y, z]"
    "length x = length a" "length y = length b" "length z = length c"
proof -
  from assms have "length (retired ts) = 3" "length (retired_actions ts) = 3"
    by (simp_all add: ts_ok_def EPOCHS_def)
  then obtain a b c x y z where *: "retired ts = [a, b, c]" "retired_actions ts = [x, y, z]"
    by (auto simp: length_3_conv)
  have "length (retired_actions ts ! e) = length (retired ts ! e)" if "e < 3" for e
    using assms that by (simp add: ts_ok_def EPOCHS_def)
  from this [of 0] this [of 1] this [of 2] * show ?thesis by (intro that [of a b c x y z]) simp_all
qed

lemma pending_put_tls:
  "th < length (e_tls s) \<Longrightarrow>
   pending (put_tls th ts s) + ts_pending (tls s th) = pending s + ts_pending ts"
  using sum_list_update_add [of th "map ts_pending (e_tls s)" "ts_pending ts"]
  by (simp add: pending_def put_tls_def map_update ac_simps)

lemma put_tls_simps [simp]:
  "e_global (put_tls th ts s) = e_global s" "e_active (put_tls th ts s) = e_active s"
  "e_outstanding (put_tls th ts s) = e_outstanding s" "e_late (put_tls th ts s) = e_late s"
  "length (e_tls (put_tls th ts s)) = length (e_tls s)"
  "th < length (e_tls s) \<Longrightarrow> tls (put_tls th ts s) th = ts"
  "th \<noteq> th' \<Longrightarrow> tls (put_tls th ts s) th' = tls s th'"
  by (simp_all add: put_tls_def)

lemma pending_frame [simp]:
  "pending (s\<lparr>e_outstanding := n\<rparr>) = pending s"
  "pending (s\<lparr>e_global := g\<rparr>) = pending s"
  "pending (s\<lparr>e_active := a\<rparr>) = pending s"
  by (simp_all add: pending_def)

lemma epoch_ok_tls: "epoch_ok s \<Longrightarrow> th < length (e_tls s) \<Longrightarrow> ts_ok (tls s th)"
  by (simp add: epoch_ok_def)

lemma ts_ok_put_tls:
  "epoch_ok s \<Longrightarrow> ts_ok ts \<Longrightarrow> \<forall>t \<in> set (e_tls (put_tls th ts s)). ts_ok t"
  by (auto simp: epoch_ok_def put_tls_def dest: set_update_subset_insert [THEN subsetD])

subsection \<open>Freeing one tag\<close>

lemma clear_tag:
  assumes "ts_ok ts" and "tag < EPOCHS"
  defines "fs \<equiv> zip (retired ts ! tag) (retired_actions ts ! tag)"
  defines "ts' \<equiv> ts\<lparr>retired_total := retired_total ts - of_nat (length (retired ts ! tag)),
             retired := (retired ts)[tag := []], retired_actions := (retired_actions ts)[tag := []]\<rparr>"
  shows "ts_ok ts' \<and> ts_pending ts = ts_pending ts' + tagged tag fs \<and>
    length fs = length (retired ts ! tag)"
proof -
  obtain a b c x y z where ts: "retired ts = [a, b, c]" "retired_actions ts = [x, y, z]"
    "length x = length a" "length y = length b" "length z = length c"
    using ts_pending_cases [OF assms(1)] by blast
  have "tag = 0 \<or> tag = 1 \<or> tag = 2" using assms(2) less_3_cases by (simp add: EPOCHS_def)
  then have p: "ts_pending ts = ts_pending ts' + tagged tag fs"
    and len: "length fs = length (retired ts ! tag)"
    and al: "\<forall>e < EPOCHS. length (retired_actions ts' ! e) = length (retired ts' ! e)"
    using ts by (auto simp: ts_pending_def pend_def tagged_def ts'_def fs_def EPOCHS_def
        less_Suc_eq numeral_3_eq_3 numeral_2_eq_2)
  from p len have "size (ts_pending ts) = size (ts_pending ts') + length (retired ts ! tag)" by simp
  moreover have "retired_total ts = of_nat (size (ts_pending ts))"
    using assms(1) by (simp add: ts_ok_def)
  moreover have "retired_total ts' = retired_total ts - of_nat (length (retired ts ! tag))"
    by (simp add: ts'_def)
  ultimately have "retired_total ts' = of_nat (size (ts_pending ts'))" by simp
  with p len al assms(1) show ?thesis by (simp add: ts_ok_def ts'_def)
qed

lemma free_tagged_spec:
  assumes ok: "epoch_ok s" and th: "th < length (e_tls s)" and tag: "tag < EPOCHS"
  shows "\<exists>fs s'. free_tagged th tag s = Some (fs, s') \<and> epoch_ok s' \<and>
    pending s = pending s' + tagged tag fs \<and>
    retired (tls s' th) ! tag = [] \<and> retired_actions (tls s' th) ! tag = [] \<and>
    (\<forall>e < EPOCHS. e \<noteq> tag \<longrightarrow> pend (tls s' th) e = pend (tls s th) e) \<and>
    (\<forall>t. t \<noteq> th \<longrightarrow> tls s' t = tls s t) \<and> e_late s' = e_late s \<and>
    e_global s' = e_global s \<and> e_active s' = e_active s \<and> length (e_tls s') = length (e_tls s) \<and>
    local_epoch (tls s' th) = local_epoch (tls s th)"
proof -
  define ts where "ts = tls s th"
  define fs where "fs = zip (retired ts ! tag) (retired_actions ts ! tag)"
  define ts' where "ts' = ts\<lparr>retired_total := retired_total ts - of_nat (length (retired ts ! tag)),
             retired := (retired ts)[tag := []], retired_actions := (retired_actions ts)[tag := []]\<rparr>"
  define s' where
    "s' = (put_tls th ts' s)\<lparr>e_outstanding := e_outstanding s - of_nat (length (retired ts ! tag))\<rparr>"
  have ts_ok: "ts_ok ts" unfolding ts_def using ok th by (rule epoch_ok_tls)
  have 1: "ts_ok ts'" "ts_pending ts = ts_pending ts' + tagged tag fs"
    "length fs = length (retired ts ! tag)"
    using clear_tag [OF ts_ok tag] by (simp_all add: ts'_def fs_def)
  have run: "free_tagged th tag s = Some (fs, s')"
    using ts_ok tag
    by (simp add: free_tagged_def ts_def [symmetric] fs_def s'_def ts'_def ts_ok_def Let_def)
  have "pending (put_tls th ts' s) + ts_pending ts = pending s + ts_pending ts'"
    using pending_put_tls [OF th] by (simp add: ts_def)
  then have pend: "pending s = pending s' + tagged tag fs"
    using 1(2) by (simp add: s'_def)
  then have "size (pending s) = size (pending s') + length (retired ts ! tag)"
    using 1(3) by simp
  then have "epoch_ok s'"
    using ok ts_ok_put_tls [OF ok 1(1)] by (simp add: epoch_ok_def s'_def)
  moreover have "tls s' th = ts'" "\<And>t. t \<noteq> th \<Longrightarrow> tls s' t = tls s t"
    using th by (simp_all add: s'_def)
  moreover have "retired ts' ! tag = []" "retired_actions ts' ! tag = []"
    "\<And>e. e \<noteq> tag \<Longrightarrow> pend ts' e = pend ts e"
    using ts_ok tag by (simp_all add: ts'_def ts_ok_def pend_def)
  ultimately show ?thesis using run pend by (auto simp: s'_def ts_def ts'_def)
qed

subsection \<open>The late-retire chain\<close>

lemma push_late_eq: "push_late os chain = rev os @ chain"
  by (induction os arbitrary: chain) simp_all

lemma late_pending_simps [simp]:
  "late_pending [] = {#}"
  "late_pending (o' # os) = add_mset (o_ptr o', o_action o', o_tag o') (late_pending os)"
  "late_pending (os @ os') = late_pending os + late_pending os'"
  "late_pending (rev os) = late_pending os"
  by (simp_all add: late_pending_def)

lemma drain_split_spec:
  "drain_split tag os = (fs, kept) \<Longrightarrow>
   late_pending os = late_pending kept + tagged tag fs \<and> (\<forall>o' \<in> set kept. o_tag o' \<noteq> tag)"
  by (induction os arbitrary: fs kept) (auto simp: Let_def split: prod.splits if_splits)

lemma pending_late: "pending (s\<lparr>e_late := os\<rparr>) + late_pending (e_late s) = pending s + late_pending os"
  by (simp add: pending_def)

lemma drain_late_spec:
  assumes ok: "epoch_ok s" and d: "drain_late tag s = (fs, s')"
  shows "epoch_ok s' \<and> pending s = pending s' + tagged tag fs \<and> e_tls s' = e_tls s \<and>
    e_global s' = e_global s \<and> e_active s' = e_active s \<and> (\<forall>o' \<in> set (e_late s'). o_tag o' \<noteq> tag)"
proof -
  obtain kept where sp: "drain_split tag (e_late s) = (fs, kept)"
    and s': "s' = s\<lparr>e_late := rev kept, e_outstanding := e_outstanding s - of_nat (length fs)\<rparr>"
    using d by (cases "drain_split tag (e_late s)") (auto simp: drain_late_def push_late_eq)
  have p: "pending s = pending s' + tagged tag fs"
    using drain_split_spec [OF sp] by (simp add: s' pending_def)
  then have "size (pending s) = size (pending s') + length fs" by simp
  then have "epoch_ok s'" using ok by (simp add: epoch_ok_def s')
  with p drain_split_spec [OF sp] show ?thesis by (simp add: s')
qed

lemma drain_late_all_spec:
  assumes ok: "epoch_ok s" and d: "drain_late_all s = (fs, s')"
  shows "epoch_ok s' \<and> e_late s' = [] \<and> pending s = pending s' + late_pending (e_late s) \<and>
    fs = map (\<lambda>o'. (o_ptr o', o_action o')) (e_late s) \<and> e_tls s' = e_tls s"
proof -
  have s': "s' = s\<lparr>e_late := [], e_outstanding := e_outstanding s - of_nat (length (e_late s))\<rparr>"
    and fs: "fs = map (\<lambda>o'. (o_ptr o', o_action o')) (e_late s)"
    using d by (auto simp: drain_late_all_def Let_def)
  have p: "pending s = pending s' + late_pending (e_late s)" by (simp add: s' pending_def)
  moreover have "size (late_pending os) = length os" for os :: "'a orphan list"
    by (simp add: late_pending_def)
  ultimately have "size (pending s) = size (pending s') + length (e_late s)" by simp
  then have "epoch_ok s'" using ok by (simp add: epoch_ok_def s')
  with p fs s' show ?thesis by simp
qed

lemma put_tls_same: "th < length (e_tls s) \<Longrightarrow> put_tls th (tls s th) s = s"
  by (simp add: put_tls_def)

lemma epoch_ok_put_tls:
  assumes "epoch_ok s" and "ts_ok ts" and "ts_pending ts = ts_pending (tls s th)"
    and "th < length (e_tls s)"
  shows "epoch_ok (put_tls th ts s)" and "pending (put_tls th ts s) = pending s"
proof -
  show "pending (put_tls th ts s) = pending s"
    using pending_put_tls [OF assms(4), of ts] assms(3) by simp
  then show "epoch_ok (put_tls th ts s)"
    using assms(1) ts_ok_put_tls [OF assms(1,2)] by (simp add: epoch_ok_def)
qed

lemma recount_id:
  assumes "epoch_ok s" and "th < length (e_tls s)"
  shows "recount th s = s"
proof -
  define ts where "ts = tls s th"
  have ok: "ts_ok ts" unfolding ts_def using assms by (rule epoch_ok_tls)
  obtain a b c x y z where ts: "retired ts = [a, b, c]" "retired_actions ts = [x, y, z]"
    "length x = length a" "length y = length b" "length z = length c"
    using ts_pending_cases [OF ok] by blast
  have "(\<Sum>e\<leftarrow>[0..<EPOCHS]. of_nat (length (retired ts ! e)) :: u64) = of_nat (size (ts_pending ts))"
    using ts by (simp add: EPOCHS_def ts_pending_def pend_def upt_rec)
  also have "\<dots> = retired_total ts" using ok by (simp add: ts_ok_def)
  finally have "ts\<lparr>retired_total := \<Sum>e\<leftarrow>[0..<EPOCHS]. of_nat (length (retired ts ! e))\<rparr> = ts"
    by simp
  then show ?thesis using assms(2) by (simp add: recount_def ts_def put_tls_same)
qed

subsection \<open>Reclaim\<close>

text \<open>
  A reclaim runs the actions of the retirements it removes, once each, and removes only
  retirements whose tag is the epoch after the current one (two generations old, in the
  three-valued count).
\<close>

lemma reclaim_spec:
  assumes ok: "epoch_ok s" and th: "th < length (e_tls s)"
  shows "\<exists>fs s'. reclaim th s = Some (fs, s') \<and> epoch_ok s' \<and>
    pending s = pending s' + tagged ((e_global s + 1) mod EPOCHS) fs \<and>
    pend (tls s' th) ((e_global s + 1) mod EPOCHS) = {#} \<and>
    e_global s' = e_global s \<and> e_active s' = e_active s \<and> length (e_tls s') = length (e_tls s) \<and>
    (\<forall>t. t \<noteq> th \<longrightarrow> tls s' t = tls s t) \<and> local_epoch (tls s' th) = local_epoch (tls s th)"
proof -
  define tag where "tag = (e_global s + 1) mod EPOCHS"
  have tag: "tag < EPOCHS" by (simp add: tag_def EPOCHS_def)
  have tag_eq: "Suc (e_global s) mod EPOCHS = tag" by (simp add: tag_def)
  obtain fs s1 where f: "free_tagged th tag s = Some (fs, s1)" "epoch_ok s1"
    "pending s = pending s1 + tagged tag fs" "retired (tls s1 th) ! tag = []"
    "e_global s1 = e_global s" "e_active s1 = e_active s" "length (e_tls s1) = length (e_tls s)"
    "\<forall>t. t \<noteq> th \<longrightarrow> tls s1 t = tls s t" "local_epoch (tls s1 th) = local_epoch (tls s th)"
    using free_tagged_spec [OF ok th tag] by blast
  show ?thesis
  proof (cases "e_global s \<noteq> last_drain_epoch (tls s1 th) \<and> e_late s1 \<noteq> []")
    case False
    then have "reclaim th s = Some (fs, s1)"
      using f(1) recount_id [OF f(2)] th f(7)
      by (auto simp: reclaim_def tag_eq)
    with f show ?thesis by (auto simp: tag_eq pend_def)
  next
    case True
    obtain fs2 s2 where d: "drain_late tag s1 = (fs2, s2)" by force
    note d' = drain_late_spec [OF f(2) d]
    define ts where "ts = (tls s2 th)\<lparr>last_drain_epoch := e_global s\<rparr>"
    define s3 where "s3 = put_tls th ts s2"
    have th2: "th < length (e_tls s2)" using th f(7) d' by simp
    have ts: "ts_ok ts" "ts_pending ts = ts_pending (tls s2 th)"
      using epoch_ok_tls [OF _ th2] d' by (auto simp: ts_ok_def ts_def ts_pending_def pend_def)
    have s3: "epoch_ok s3" "pending s3 = pending s2"
      using epoch_ok_put_tls [OF _ ts th2] d' by (auto simp: s3_def)
    have "length (e_tls s3) = length (e_tls s2)" by (simp add: s3_def)
    then have "recount th s3 = s3" using s3(1) th2 by (intro recount_id) simp_all
    then have "reclaim th s = Some (fs @ fs2, s3)"
      using True f(1) d by (simp add: reclaim_def tag_eq s3_def ts_def)
    moreover have "pending s = pending s3 + tagged tag (fs @ fs2)"
      using f(3) d' s3(2) by simp
    moreover have "pend (tls s3 th) tag = {#}"
      using f(4) d' th2 by (simp add: s3_def ts_def pend_def)
    ultimately show ?thesis using f d' s3(1) th2
      by (auto simp: tag_eq s3_def ts_def)
  qed
qed

subsection \<open>Retire\<close>

lemma retire_ok_spec:
  assumes ok: "epoch_ok s" and th: "th < length (e_tls s)"
  shows "\<exists>fs s'. retire th Push_ok p act s = Some (Inr fs, s') \<and> epoch_ok s' \<and>
    add_mset (p, act, local_epoch (tls s th)) (pending s) =
      pending s' + tagged ((e_global s + 1) mod EPOCHS) fs \<and>
    e_global s' = e_global s \<and> e_active s' = e_active s \<and> length (e_tls s') = length (e_tls s) \<and>
    (\<forall>t. t \<noteq> th \<longrightarrow> tls s' t = tls s t) \<and> local_epoch (tls s' th) = local_epoch (tls s th)"
proof -
  define ts e where "ts = tls s th" and "e = local_epoch ts"
  have tok: "ts_ok ts" unfolding ts_def using ok th by (rule epoch_ok_tls)
  then have e: "e < EPOCHS" "e mod EPOCHS = e" by (simp_all add: e_def ts_ok_def)
  define ts' where "ts' = ts\<lparr>retired := (retired ts)[e := retired ts ! e @ [p]],
    retired_actions := (retired_actions ts)[e := retired_actions ts ! e @ [act]],
    retired_total := retired_total ts + 1\<rparr>"
  obtain a b c x y z where abc: "retired ts = [a, b, c]" "retired_actions ts = [x, y, z]"
    "length x = length a" "length y = length b" "length z = length c"
    using ts_pending_cases [OF tok] by blast
  have "e = 0 \<or> e = 1 \<or> e = 2" using e less_3_cases by (simp add: EPOCHS_def)
  then have pend: "ts_pending ts' = add_mset (p, act, e) (ts_pending ts)"
    and al: "\<forall>e < EPOCHS. length (retired_actions ts' ! e) = length (retired ts' ! e)"
    using abc by (auto simp: ts_pending_def pend_def ts'_def EPOCHS_def
        less_Suc_eq numeral_3_eq_3 numeral_2_eq_2)
  have "retired_total ts = of_nat (size (ts_pending ts))" using tok by (simp add: ts_ok_def)
  moreover have "retired_total ts' = retired_total ts + 1" by (simp add: ts'_def)
  ultimately have tot: "retired_total ts' = of_nat (size (ts_pending ts'))" using pend by simp
  have tok': "ts_ok ts'"
    using tok al tot by (simp add: ts_ok_def ts'_def)
  define s1 where "s1 = put_tls th ts' (s\<lparr>e_outstanding := e_outstanding s + 1\<rparr>)"
  have "pending s1 + ts_pending ts = pending s + ts_pending ts'"
    using pending_put_tls [of th "s\<lparr>e_outstanding := e_outstanding s + 1\<rparr>" ts'] th
    by (simp add: s1_def ts_def)
  then have p1: "pending s1 = add_mset (p, act, e) (pending s)" using pend by simp
  have ok1: "epoch_ok s1"
    using ok ts_ok_put_tls [OF ok tok'] p1
    by (simp add: epoch_ok_def s1_def) (simp add: put_tls_def)
  have th1: "th < length (e_tls s1)" using th by (simp add: s1_def)
  have same: "e_global s1 = e_global s" "e_active s1 = e_active s"
    "length (e_tls s1) = length (e_tls s)" "\<forall>t. t \<noteq> th \<longrightarrow> tls s1 t = tls s t"
    "local_epoch (tls s1 th) = local_epoch (tls s th)"
    using th by (simp_all add: s1_def ts'_def ts_def)
  show ?thesis
  proof (cases "EPOCH_RECLAIM_THRESHOLD < retired_total ts'")
    case False
    then have "retire th Push_ok p act s = Some (Inr [], s1)"
      using e by (simp add: retire_def Let_def ts_def [symmetric] e_def [symmetric] ts'_def s1_def)
    with p1 ok1 same show ?thesis by (simp add: e_def ts_def)
  next
    case True
    obtain fs s' where r: "reclaim th s1 = Some (fs, s')" "epoch_ok s'"
      "pending s1 = pending s' + tagged ((e_global s1 + 1) mod EPOCHS) fs"
      "e_global s' = e_global s1" "e_active s' = e_active s1" "length (e_tls s') = length (e_tls s1)"
      "\<forall>t. t \<noteq> th \<longrightarrow> tls s' t = tls s1 t" "local_epoch (tls s' th) = local_epoch (tls s1 th)"
      using reclaim_spec [OF ok1 th1] by blast
    have "retire th Push_ok p act s = Some (Inr fs, s')"
      using True e r(1)
      by (simp add: retire_def Let_def ts_def [symmetric] e_def [symmetric] ts'_def s1_def)
    with r p1 same show ?thesis by (auto simp: e_def ts_def)
  qed
qed

text \<open>
  A \<open>push_back\<close> that throws, whichever of the two it is, leaves the vectors as they were:
  the object is leaked, but never separated from its action, and it is not counted.
\<close>

lemma retire_throw_spec:
  assumes ok: "epoch_ok s" and th: "th < length (e_tls s)" and pu: "pu \<noteq> Push_ok"
  shows "retire th pu p act s = Some (Inl Bad_alloc, s)"
proof -
  define ts e where "ts = tls s th" and "e = local_epoch ts mod EPOCHS"
  have e: "e < EPOCHS" by (simp add: e_def EPOCHS_def)
  have tok: "ts_ok ts" unfolding ts_def using ok th by (rule epoch_ok_tls)
  then have len: "length (retired_actions ts ! e) = length (retired ts ! e)"
    using e by (simp add: ts_ok_def)
  have same: "ts\<lparr>retired := (retired ts)[e := retired ts ! e],
      retired_actions := (retired_actions ts)[e := retired_actions ts ! e]\<rparr> = ts" by simp
  have "(put_tls th ts (s\<lparr>e_outstanding := e_outstanding s + 1\<rparr>))\<lparr>e_outstanding := e_outstanding s\<rparr> = s"
    using th by (simp add: put_tls_def ts_def)
  with pu len same show ?thesis
    by (cases pu) (auto simp: retire_def Let_def ts_def [symmetric] e_def [symmetric])
qed

subsection \<open>Draining and thread exit\<close>

lemma ts_pending_empty:
  "ts_ok ts \<Longrightarrow> (\<And>e. e < EPOCHS \<Longrightarrow> pend ts e = {#}) \<Longrightarrow> ts_pending ts = {#}"
  by (simp add: ts_pending_def EPOCHS_def)

lemma free_all_tags_spec:
  assumes "epoch_ok s" and "th < length (e_tls s)" and "set es \<subseteq> {..<EPOCHS}"
  shows "\<exists>fs s'. free_all_tags th es s = Some (fs, s') \<and> epoch_ok s' \<and>
    (\<exists>ps. pending s = pending s' + ps \<and> image_mset (\<lambda>(p, a, t). (p, a)) ps = mset fs) \<and>
    (\<forall>e \<in> set es. pend (tls s' th) e = {#}) \<and>
    (\<forall>e < EPOCHS. pend (tls s th) e = {#} \<longrightarrow> pend (tls s' th) e = {#}) \<and>
    (\<forall>t. t \<noteq> th \<longrightarrow> tls s' t = tls s t) \<and> e_late s' = e_late s \<and>
    length (e_tls s') = length (e_tls s)"
  using assms
proof (induction es arbitrary: s)
  case Nil
  then show ?case by auto
next
  case (Cons e es)
  then have e: "e < EPOCHS" by simp
  obtain fs s1 where f: "free_tagged th e s = Some (fs, s1)" "epoch_ok s1"
    "pending s = pending s1 + tagged e fs" "retired (tls s1 th) ! e = []"
    "\<forall>e' < EPOCHS. e' \<noteq> e \<longrightarrow> pend (tls s1 th) e' = pend (tls s th) e'"
    "\<forall>t. t \<noteq> th \<longrightarrow> tls s1 t = tls s t" "e_late s1 = e_late s"
    "length (e_tls s1) = length (e_tls s)"
    using free_tagged_spec [OF Cons.prems(1,2) e] by blast
  have th1: "th < length (e_tls s1)" using Cons.prems(2) f(8) by simp
  have "set es \<subseteq> {..<EPOCHS}" using Cons.prems(3) by simp
  from Cons.IH [OF f(2) th1 this] obtain fs2 s2 ps where
    g: "free_all_tags th es s1 = Some (fs2, s2)" "epoch_ok s2"
    "pending s1 = pending s2 + ps" "image_mset (\<lambda>(p, a, t). (p, a)) ps = mset fs2"
    "\<forall>e \<in> set es. pend (tls s2 th) e = {#}"
    "\<forall>e < EPOCHS. pend (tls s1 th) e = {#} \<longrightarrow> pend (tls s2 th) e = {#}"
    "\<forall>t. t \<noteq> th \<longrightarrow> tls s2 t = tls s1 t" "e_late s2 = e_late s1"
    "length (e_tls s2) = length (e_tls s1)" by blast
  have pe: "pend (tls s1 th) e = {#}" using f(4) by (simp add: pend_def)
  have "image_mset (\<lambda>(p, a, t). (p, a)) (ps + tagged e fs) = mset (fs @ fs2)"
    using g(4) by (simp add: tagged_def multiset.map_comp comp_def case_prod_beta)
  moreover have "pending s = pending s2 + (ps + tagged e fs)" using f(3) g(3) by simp
  moreover have "\<forall>e' < EPOCHS. pend (tls s th) e' = {#} \<longrightarrow> pend (tls s2 th) e' = {#}"
    using f(5) g(6) pe by metis
  moreover have "\<forall>e' \<in> set (e # es). pend (tls s2 th) e' = {#}" using g(5,6) pe e by simp
  ultimately show ?case
    using f(1,6-8) g(1,2,7-9) by (intro exI [of _ "fs @ fs2"] exI [of _ s2]) auto
qed

lemma drain_all_spec:
  assumes ok: "epoch_ok s" and th: "th < length (e_tls s)"
  shows "\<exists>fs s'. drain_all th s = Some (fs, s') \<and> epoch_ok s' \<and>
    (\<exists>ps. pending s = pending s' + ps \<and> image_mset (\<lambda>(p, a, t). (p, a)) ps = mset fs) \<and>
    ts_pending (tls s' th) = {#} \<and> e_late s' = [] \<and>
    (\<forall>t. t \<noteq> th \<longrightarrow> tls s' t = tls s t) \<and> length (e_tls s') = length (e_tls s)"
proof -
  obtain fs s1 ps where f: "free_all_tags th [0..<EPOCHS] s = Some (fs, s1)" "epoch_ok s1"
    "pending s = pending s1 + ps" "image_mset (\<lambda>(p, a, t). (p, a)) ps = mset fs"
    "\<forall>e \<in> set [0..<EPOCHS]. pend (tls s1 th) e = {#}"
    "\<forall>t. t \<noteq> th \<longrightarrow> tls s1 t = tls s t" "length (e_tls s1) = length (e_tls s)"
    using free_all_tags_spec [OF ok th upt_subset] by blast
  have th1: "th < length (e_tls s1)" using th f(7) by simp
  define ts where "ts = (tls s1 th)\<lparr>retired_total := 0\<rparr>"
  have "ts_ok (tls s1 th)" using f(2) th1 by (rule epoch_ok_tls)
  moreover have e0: "ts_pending (tls s1 th) = {#}"
    using f(5) by (intro ts_pending_empty [OF calculation]) simp
  moreover have e1: "ts_pending ts = {#}" using e0 by (simp add: ts_def ts_pending_def pend_def)
  ultimately have tok: "ts_ok ts" by (simp add: ts_ok_def ts_def)
  define s2 where "s2 = put_tls th ts s1"
  have 2: "epoch_ok s2" "pending s2 = pending s1"
    using epoch_ok_put_tls [OF f(2) tok _ th1] e0 e1 by (simp_all add: s2_def)
  obtain fs2 s3 where d: "drain_late_all s2 = (fs2, s3)" by force
  note d' = drain_late_all_spec [OF 2(1) d]
  have "image_mset (\<lambda>(p, a, t). (p, a)) (ps + late_pending (e_late s2)) = mset (fs @ fs2)"
    using f(4) d' by (simp add: late_pending_def multiset.map_comp comp_def)
  moreover have "pending s = pending s3 + (ps + late_pending (e_late s2))"
    using f(3) 2(2) d' by simp
  moreover have "drain_all th s = Some (fs @ fs2, s3)"
    using f(1) d by (simp add: drain_all_def s2_def ts_def)
  moreover have "tls s3 th = ts" using d' th1 by (simp add: s2_def)
  ultimately show ?thesis using d' e1 f(6,7) th1
    by (intro exI [of _ "fs @ fs2"] exI [of _ s3]) (auto simp: s2_def)
qed

text \<open>
  The destruction contract: when the other threads have exited, \<open>drain_all\<close> leaves nothing
  pending.
\<close>

lemma pending_all_empty:
  assumes "e_late s = []" and "\<And>t. t < length (e_tls s) \<Longrightarrow> ts_pending (tls s t) = {#}"
  shows "pending s = {#}"
proof -
  have "sum_list (map ts_pending (e_tls s)) = {#}"
    by (rule sum_list_all_empty) (use assms(2) in \<open>auto simp: in_set_conv_nth\<close>)
  then show ?thesis using assms(1) by (simp add: pending_def)
qed

lemma build_orphans_pending:
  "late_pending (build_orphans e xs hd') = tagged e xs + late_pending hd'"
  by (induction e xs hd' rule: build_orphans.induct) simp_all

lemma orphan_tags_pending:
  assumes "ts_ok ts" and "set es \<subseteq> {..<EPOCHS}"
  shows "\<exists>os. orphan_tags ts es hd' = Some os \<and>
    late_pending os = late_pending hd' + sum_list (map (pend ts) es)"
  using assms
proof (induction es arbitrary: hd')
  case Nil
  then show ?case by simp
next
  case (Cons e es)
  have "length (retired_actions ts ! e) = length (retired ts ! e)"
    using Cons.prems by (simp add: ts_ok_def)
  moreover have "tagged e (zip (retired ts ! e) (retired_actions ts ! e)) = pend ts e"
    by (simp add: tagged_def pend_def)
  ultimately show ?case
    using Cons.IH [of "build_orphans e (zip (retired ts ! e) (retired_actions ts ! e)) hd'"] Cons.prems
    by (auto simp: build_orphans_pending ac_simps)
qed

lemma finalize_thread_spec:
  assumes ok: "epoch_ok s" and th: "th < length (e_tls s)"
  shows "\<exists>fs s'. finalize_thread th s = Some (fs, s') \<and> epoch_ok s' \<and>
    pending s = pending s' + tagged ((e_global s + 1) mod EPOCHS) fs \<and>
    ts_pending (tls s' th) = {#} \<and> e_global s' = e_global s \<and> e_active s' = e_active s \<and>
    (\<forall>t. t \<noteq> th \<longrightarrow> tls s' t = tls s t) \<and> length (e_tls s') = length (e_tls s)"
proof -
  obtain fs s1 where r: "reclaim th s = Some (fs, s1)" "epoch_ok s1"
    "pending s = pending s1 + tagged ((e_global s + 1) mod EPOCHS) fs"
    "e_global s1 = e_global s" "e_active s1 = e_active s"
    "length (e_tls s1) = length (e_tls s)" "\<forall>t. t \<noteq> th \<longrightarrow> tls s1 t = tls s t"
    using reclaim_spec [OF ok th] by blast
  have th1: "th < length (e_tls s1)" using th r(6) by simp
  have tok: "ts_ok (tls s1 th)" using r(2) th1 by (rule epoch_ok_tls)
  obtain os where os: "orphan_tags (tls s1 th) [0..<EPOCHS] [] = Some os"
    "late_pending os = sum_list (map (pend (tls s1 th)) [0..<EPOCHS])"
    using orphan_tags_pending [OF tok upt_subset, of "[]"] by auto
  from os(2) have os': "late_pending os = ts_pending (tls s1 th)"
    by (simp add: ts_pending_def EPOCHS_def upt_rec numeral_2_eq_2 ac_simps)
  define ts where "ts = (tls s1 th)\<lparr>retired := replicate EPOCHS [],
    retired_actions := replicate EPOCHS [], retired_total := 0\<rparr>"
  have e: "ts_pending ts = {#}" by (simp add: ts_def ts_pending_def pend_def EPOCHS_def)
  then have tok': "ts_ok ts" using tok by (simp add: ts_ok_def ts_def EPOCHS_def)
  define s2 where "s2 = (put_tls th ts s1)\<lparr>e_late := push_late os (e_late s1)\<rparr>"
  have "pending (put_tls th ts s1) + late_pending os = pending s1"
    using pending_put_tls [OF th1, of ts] e os' by simp
  moreover have "pending s2 = pending (put_tls th ts s1) + late_pending os"
    by (simp add: s2_def pending_def push_late_eq)
  ultimately have p: "pending s2 = pending s1" by simp
  then have "epoch_ok s2"
    using r(2) ts_ok_put_tls [OF r(2) tok'] by (simp add: epoch_ok_def s2_def)
  moreover have "finalize_thread th s = Some (fs, s2)"
    using r(1) os(1) by (simp add: finalize_thread_def s2_def ts_def)
  ultimately show ?thesis using r p e th1 by (auto simp: s2_def)
qed

subsection \<open>Guard entry and exit\<close>

lemma ts_pending_local [simp]: "ts_pending (ts\<lparr>local_epoch := g\<rparr>) = ts_pending ts"
  by (simp add: ts_pending_def pend_def)

lemma active_add_simps [simp]:
  "e_global (active_add e d s) = e_global s" "e_tls (active_add e d s) = e_tls s"
  "pending (active_add e d s) = pending s"
  "epoch_ok (active_add e d s) = epoch_ok s"
  by (simp_all add: active_add_def epoch_ok_def)

lemma epoch_enter_spec:
  assumes ok: "epoch_ok s" and th: "th < length (e_tls s)"
  shows "epoch_ok (epoch_enter th s)" "pending (epoch_enter th s) = pending s"
    "e_global (epoch_enter th s) = e_global s" "length (e_tls (epoch_enter th s)) = length (e_tls s)"
    "local_epoch (tls (epoch_enter th s) th) = e_global s"
    "\<And>t. t \<noteq> th \<Longrightarrow> tls (epoch_enter th s) t = tls s t"
    "e_active (epoch_enter th s) = (e_active s)[e_global s := e_active s ! e_global s + 1]"
proof -
  define s1 where "s1 = active_add (e_global s) 1 s"
  have g: "e_global s < EPOCHS" using ok by (simp add: epoch_ok_def)
  have ok1: "epoch_ok s1" and th1: "th < length (e_tls s1)" using ok th by (simp_all add: s1_def)
  have en: "epoch_enter th s = put_tls th ((tls s1 th)\<lparr>local_epoch := e_global s\<rparr>) s1"
    by (simp add: epoch_enter_def enter_store_def s1_def Let_def)
  have ts: "ts_ok ((tls s1 th)\<lparr>local_epoch := e_global s\<rparr>)"
    using epoch_ok_tls [OF ok1 th1] g by (simp add: ts_ok_def)
  note put = epoch_ok_put_tls [OF ok1 ts ts_pending_local th1]
  show "epoch_ok (epoch_enter th s)" "pending (epoch_enter th s) = pending s"
    using put by (simp_all add: en) (simp_all add: s1_def)
  show "e_active (epoch_enter th s) = (e_active s)[e_global s := e_active s ! e_global s + 1]"
    using g by (simp add: en) (simp add: s1_def active_add_def)
  show "e_global (epoch_enter th s) = e_global s"
    "length (e_tls (epoch_enter th s)) = length (e_tls s)"
    "local_epoch (tls (epoch_enter th s) th) = e_global s"
    "\<And>t. t \<noteq> th \<Longrightarrow> tls (epoch_enter th s) t = tls s t"
    using th1 by (simp_all add: en) (simp_all add: s1_def)
qed

lemma epoch_exit_spec:
  assumes ok: "epoch_ok s" and l: "local_epoch (tls s th) = e_global s"
  defines "a \<equiv> e_active s ! e_global s"
  shows "epoch_ok (epoch_exit th s)" "pending (epoch_exit th s) = pending s"
    "e_tls (epoch_exit th s) = e_tls s"
    "e_active (epoch_exit th s) = (e_active s)[e_global s := a - 1]"
    "e_global (epoch_exit th s) =
       (if a = 1 then (e_global s + 1) mod EPOCHS else e_global s)"
proof -
  have g: "e_global s < EPOCHS" using ok by (simp add: epoch_ok_def)
  have "(e_global s + 1) mod EPOCHS < EPOCHS" by (simp add: EPOCHS_def)
  then have ok': "epoch_ok (s\<lparr>e_global := (e_global s + 1) mod EPOCHS\<rparr>)"
    using ok by (simp add: epoch_ok_def)
  have ex: "epoch_exit th s = active_add (e_global s) (- 1)
      (if a = 1 then s\<lparr>e_global := (e_global s + 1) mod EPOCHS\<rparr> else s)"
    using g by (simp add: epoch_exit_def l Let_def a_def exit_cas_def active_add_def)
  show "epoch_ok (epoch_exit th s)" "pending (epoch_exit th s) = pending s"
    "e_tls (epoch_exit th s) = e_tls s"
    "e_active (epoch_exit th s) = (e_active s)[e_global s := a - 1]"
    "e_global (epoch_exit th s) = (if a = 1 then (e_global s + 1) mod EPOCHS else e_global s)"
    using ok ok' g by (simp_all add: ex) (simp_all add: active_add_def a_def)
qed

text \<open>Whatever the thread's epoch, leaving a guard keeps the accounting.\<close>

lemma epoch_exit_ok:
  assumes "epoch_ok s"
  shows "epoch_ok (epoch_exit th s)" "pending (epoch_exit th s) = pending s"
    "e_tls (epoch_exit th s) = e_tls s"
proof -
  have "epoch_ok (exit_cas g s')" "pending (exit_cas g s') = pending s'" "e_tls (exit_cas g s') = e_tls s'"
    if "epoch_ok s'" for g and s' :: "'a epoch"
    using that by (auto simp: exit_cas_def epoch_ok_def EPOCHS_def)
  then show "epoch_ok (epoch_exit th s)" "pending (epoch_exit th s) = pending s"
    "e_tls (epoch_exit th s) = e_tls s"
    using assms by (simp_all add: epoch_exit_def Let_def)
qed

end
