(* ===== verification/EpochSafety.thy ===== *)
theory EpochSafety
  imports EpochReclaim
begin

section \<open>The epoch protocol under interleaving\<close>

text \<open>
  Several threads run guards on one shared structure. \<open>linked\<close> is the set of objects in the
  structure, \<open>refs\<close> the pointers each thread read in its current guard, \<open>dead\<close> the objects
  whose retire action has run. The protocol is safe when no pointer of a running guard is
  dead.

  Two step relations are given. In \<open>atomic_step\<close> guard entry and guard exit are single
  steps and every retirement happens inside a guard, as \<open>detail/epoch.hpp\<close> argues in its
  header; the protocol is then safe. In \<open>fine_step\<close> entry and exit are the separate
  atomic accesses of the code (\<open>load\<close>, \<open>fetch_add\<close>, store; \<open>fetch_sub\<close>, \<open>load\<close>,
  \<open>compare_exchange\<close>), and it is not. Nor is it when an object is retired outside a guard,
  as \<open>erase_node\<close> of both engines does.
\<close>

subsection \<open>Configurations\<close>

text \<open>
  Where a thread is: outside, in \<open>enter\<close> after the load of \<open>g\<close> or after the increment,
  inside the guard, in \<open>exit\<close> as the last leaver of \<open>l\<close> before the load, or before the
  compare-and-swap that expects \<open>g\<close>.
\<close>

datatype pc = Outside | Loaded nat | Counted nat | Inside | Last nat | Swap nat

record conf =
  ep :: "unit epoch"
  pcs :: "pc list"
  linked :: "ptr set"
  refs :: "ptr set list"
  dead :: "ptr set"

definition init_conf :: "nat \<Rightarrow> ptr set \<Rightarrow> conf" where
  "init_conf n L = \<lparr>ep = new_epoch n, pcs = replicate n Outside, linked = L,
     refs = replicate n {}, dead = {}\<rparr>"

definition set_pc :: "thread \<Rightarrow> pc \<Rightarrow> conf \<Rightarrow> conf" where
  "set_pc th q c = c\<lparr>pcs := (pcs c)[th := q]\<rparr>"

definition kill :: "(ptr \<times> unit) list \<Rightarrow> conf \<Rightarrow> conf" where
  "kill fs c = c\<lparr>dead := dead c \<union> set (map fst fs)\<rparr>"

definition pending_ptrs :: "conf \<Rightarrow> ptr multiset" where
  "pending_ptrs c = image_mset fst (pending (ep c))"

text \<open>Unlink an object and hand it to \<open>retire\<close>.\<close>

definition unlink_retire :: "thread \<Rightarrow> ptr \<Rightarrow> conf \<Rightarrow> conf option" where
  "unlink_retire th p c =
     (if p \<notin> linked c then None
      else do {
        (r, s) \<leftarrow> retire th Push_ok p () (ep c);
        let c = c\<lparr>linked := linked c - {p}, ep := s\<rparr>;
        Some (case r of Inl _ \<Rightarrow> c | Inr fs \<Rightarrow> kill fs c)
      })"

definition thread_exit :: "thread \<Rightarrow> conf \<Rightarrow> conf option" where
  "thread_exit th c =
     do { (fs, s) \<leftarrow> finalize_thread th (ep c); Some (kill fs (c\<lparr>ep := s\<rparr>)) }"

subsection \<open>Atomic entry and exit\<close>

inductive atomic_step :: "conf \<Rightarrow> conf \<Rightarrow> bool" where
  enter: "th < length (pcs c) \<Longrightarrow> pcs c ! th = Outside \<Longrightarrow>
    atomic_step c (set_pc th Inside (c\<lparr>ep := epoch_enter th (ep c)\<rparr>))"
| leave: "th < length (pcs c) \<Longrightarrow> pcs c ! th = Inside \<Longrightarrow>
    atomic_step c (set_pc th Outside (c\<lparr>ep := epoch_exit th (ep c), refs := (refs c)[th := {}]\<rparr>))"
| read: "th < length (pcs c) \<Longrightarrow> pcs c ! th = Inside \<Longrightarrow> p \<in> linked c \<Longrightarrow>
    atomic_step c (c\<lparr>refs := (refs c)[th := insert p (refs c ! th)]\<rparr>)"
| link: "p \<notin> linked c \<Longrightarrow> p \<notin># pending_ptrs c \<Longrightarrow>
    atomic_step c (c\<lparr>linked := insert p (linked c), dead := dead c - {p}\<rparr>)"
| unlink: "th < length (pcs c) \<Longrightarrow> pcs c ! th = Inside \<Longrightarrow> unlink_retire th p c = Some c' \<Longrightarrow>
    atomic_step c c'"
| thread_exit: "th < length (pcs c) \<Longrightarrow> pcs c ! th = Outside \<Longrightarrow> thread_exit th c = Some c' \<Longrightarrow>
    atomic_step c c'"

inductive atomic_reach :: "nat \<Rightarrow> ptr set \<Rightarrow> conf \<Rightarrow> bool" for n L where
  init: "atomic_reach n L (init_conf n L)"
| step: "atomic_reach n L c \<Longrightarrow> atomic_step c c' \<Longrightarrow> atomic_reach n L c'"

inductive_cases atomic_stepE: "atomic_step c c'"

subsection \<open>The accesses of the code, one at a time\<close>

datatype event =
  Enter_load | Enter_add | Enter_store | Exit_sub | Exit_load | Exit_cas
| Read ptr | Unlink ptr | Unlink_unguarded ptr | Thread_exit

fun fine_step :: "thread \<Rightarrow> event \<Rightarrow> conf \<Rightarrow> conf option" where
  "fine_step th Enter_load c =
     (if pcs c ! th = Outside then Some (set_pc th (Loaded (e_global (ep c))) c) else None)"
| "fine_step th Enter_add c =
     (case pcs c ! th of
        Loaded g \<Rightarrow> Some (set_pc th (Counted g) (c\<lparr>ep := active_add g 1 (ep c)\<rparr>)) | _ \<Rightarrow> None)"
| "fine_step th Enter_store c =
     (case pcs c ! th of
        Counted g \<Rightarrow> Some (set_pc th Inside (c\<lparr>ep := enter_store th g (ep c)\<rparr>)) | _ \<Rightarrow> None)"
| "fine_step th Exit_sub c =
     (if pcs c ! th = Inside then
        (let l = local_epoch (tls (ep c) th);
             old = e_active (ep c) ! (l mod EPOCHS)
         in Some (set_pc th (if old = 1 then Last l else Outside)
              (c\<lparr>ep := active_add l (- 1) (ep c), refs := (refs c)[th := {}]\<rparr>)))
      else None)"
| "fine_step th Exit_load c =
     (case pcs c ! th of
        Last l \<Rightarrow> let g = e_global (ep c) in Some (set_pc th (if g = l then Swap g else Outside) c)
      | _ \<Rightarrow> None)"
| "fine_step th Exit_cas c =
     (case pcs c ! th of
        Swap g \<Rightarrow> Some (set_pc th Outside (c\<lparr>ep := exit_cas g (ep c)\<rparr>)) | _ \<Rightarrow> None)"
| "fine_step th (Read p) c =
     (if pcs c ! th = Inside \<and> p \<in> linked c
      then Some (c\<lparr>refs := (refs c)[th := insert p (refs c ! th)]\<rparr>) else None)"
| "fine_step th (Unlink p) c = (if pcs c ! th = Inside then unlink_retire th p c else None)"
| "fine_step th (Unlink_unguarded p) c =
     (if pcs c ! th = Outside then unlink_retire th p c else None)"
| "fine_step th Thread_exit c = (if pcs c ! th = Outside then thread_exit th c else None)"

fun fine_run :: "(thread \<times> event) list \<Rightarrow> conf \<Rightarrow> conf option" where
  "fine_run [] c = Some c"
| "fine_run ((th, e) # es) c = do { c \<leftarrow> fine_step th e c; fine_run es c }"

text \<open>A dead object that a running guard still points to.\<close>

definition dangling :: "conf \<Rightarrow> bool" where
  "dangling c \<longleftrightarrow> list_ex (\<lambda>th. pcs c ! th = Inside \<and> (\<exists>p \<in> refs c ! th. p \<in> dead c)) [0..<length (pcs c)]"

definition guard_enter :: "thread \<Rightarrow> (thread \<times> event) list" where
  "guard_enter th = [(th, Enter_load), (th, Enter_add), (th, Enter_store)]"

definition guard_exit_last :: "thread \<Rightarrow> (thread \<times> event) list" where
  "guard_exit_last th = [(th, Exit_sub), (th, Exit_load), (th, Exit_cas)]"

text \<open>
  The run: thread 0 leaves as the last thread of epoch 0 and is delayed before its
  compare-and-swap; threads 1 and 2 enter epoch 0, thread 1 reads the object, thread 2
  unlinks and retires it there; the delayed swap advances the epoch under thread 1, one
  more guard of thread 2 advances it again, and the object's tag is free to reclaim.
\<close>

definition exit_race :: "(thread \<times> event) list" where
  "exit_race =
     guard_enter 0 @ [(0, Exit_sub), (0, Exit_load)] @
     guard_enter 1 @ [(1, Read 64)] @
     guard_enter 2 @ [(2, Unlink 64), (2, Exit_sub)] @
     [(0, Exit_cas)] @
     guard_enter 2 @ guard_exit_last 2 @ [(2, Thread_exit)]"

definition unguarded_retire :: "(thread \<times> event) list" where
  "unguarded_retire =
     guard_enter 0 @ guard_exit_last 0 @ guard_enter 0 @ guard_exit_last 0 @
     guard_enter 1 @ [(1, Read 64), (2, Unlink_unguarded 64), (2, Thread_exit)]"

lemma three: "replicate 3 x = [x, x, x]" "[0..<3] = [0, Suc 0, Suc (Suc 0)]"
  by (simp_all add: numeral_3_eq_3)

lemmas ep_eval = set_pc_def active_add_def enter_store_def put_tls_def
  exit_cas_def unlink_retire_def thread_exit_def retire_def reclaim_def free_tagged_def recount_def
  finalize_thread_def kill_def drain_late_def EPOCHS_def EPOCH_RECLAIM_THRESHOLD_def
  new_thread_state_def guard_enter_def guard_exit_last_def dangling_def push_late_eq Let_def three

lemma init_conf_3:
  "init_conf 3 {64} = \<lparr>ep = \<lparr>e_global = 0, e_active = [0, 0, 0], e_outstanding = 0, e_late = [],
      e_tls = [new_thread_state, new_thread_state, new_thread_state]\<rparr>,
    pcs = [Outside, Outside, Outside], linked = {64}, refs = [{}, {}, {}], dead = {}\<rparr>"
  by (simp add: init_conf_def new_epoch_def EPOCHS_def numeral_3_eq_3)

text \<open>The two runs end with thread 1 inside its guard, holding a freed object.\<close>

lemma exit_race_run:
  "\<exists>c. fine_run exit_race (init_conf 3 {64}) = Some c \<and> dangling c"
  by (simp add: exit_race_def init_conf_3 ep_eval)

lemma unguarded_retire_run:
  "\<exists>c. fine_run unguarded_retire (init_conf 3 {64}) = Some c \<and> dangling c"
  by (simp add: unguarded_retire_def init_conf_3 ep_eval)

subsection \<open>Safety of the atomic protocol\<close>

text \<open>
  The invariant, in three parts. The active counters count the threads inside, and all of
  them are in the current epoch; every object is linked, pending (once), or dead; and what a
  running guard points to is linked, or was retired in the current epoch.
\<close>

definition inside :: "conf \<Rightarrow> thread set" where
  "inside c = {th. th < length (pcs c) \<and> pcs c ! th = Inside}"

definition count_inv :: "nat \<Rightarrow> conf \<Rightarrow> bool" where
  "count_inv n c \<longleftrightarrow> epoch_ok (ep c) \<and> n < 2 ^ 32 \<and> length (pcs c) = n \<and> length (refs c) = n \<and>
     length (e_tls (ep c)) = n \<and> set (pcs c) \<subseteq> {Outside, Inside} \<and>
     (\<forall>th \<in> inside c. local_epoch (tls (ep c) th) = e_global (ep c)) \<and>
     (\<forall>e < EPOCHS. unat (e_active (ep c) ! e) =
       (if e = e_global (ep c) then card (inside c) else 0))"

definition object_inv :: "conf \<Rightarrow> bool" where
  "object_inv c \<longleftrightarrow> (\<forall>p. count (pending_ptrs c) p \<le> 1) \<and>
     (\<forall>p \<in># pending_ptrs c. p \<notin> linked c \<and> p \<notin> dead c) \<and> linked c \<inter> dead c = {}"

definition ref_inv :: "conf \<Rightarrow> bool" where
  "ref_inv c \<longleftrightarrow> (\<forall>th < length (pcs c). refs c ! th \<subseteq>
     (if pcs c ! th = Inside
      then linked c \<union> {p. (p, (), e_global (ep c)) \<in># pending (ep c)} else {}))"

definition atomic_inv :: "nat \<Rightarrow> conf \<Rightarrow> bool" where
  "atomic_inv n c \<longleftrightarrow> count_inv n c \<and> object_inv c \<and> ref_inv c"

lemma inside_init: "inside (init_conf n L) = {}"
  by (auto simp: inside_def init_conf_def)

lemma finite_inside [simp]: "finite (inside c)"
  by (simp add: inside_def)

lemma card_inside: "card (inside c) \<le> length (pcs c)"
proof -
  have "inside c \<subseteq> {..<length (pcs c)}" by (auto simp: inside_def)
  from card_mono [OF finite_lessThan this] show ?thesis by simp
qed

lemma init_conf_simps [simp]:
  "ep (init_conf n L) = new_epoch n" "pcs (init_conf n L) = replicate n Outside"
  "linked (init_conf n L) = L" "refs (init_conf n L) = replicate n {}" "dead (init_conf n L) = {}"
  by (simp_all add: init_conf_def)

lemma new_epoch_simps [simp]:
  "length (e_tls (new_epoch n)) = n" "e_active (new_epoch n) = replicate EPOCHS 0"
  by (simp_all add: new_epoch_def)

lemma atomic_inv_init:
  assumes "n < 2 ^ 32"
  shows "atomic_inv n (init_conf n L)"
proof -
  have "set (replicate n Outside) \<subseteq> {Outside, Inside}" by auto
  then have "count_inv n (init_conf n L)"
    using assms by (simp add: count_inv_def inside_init epoch_ok_new)
  then show ?thesis
    by (simp add: atomic_inv_def object_inv_def ref_inv_def pending_ptrs_def pending_new)
qed

lemma inv_no_dangling: "atomic_inv n c \<Longrightarrow> \<not> dangling c"
proof
  assume inv: "atomic_inv n c" and "dangling c"
  then obtain th p where th: "th < length (pcs c)" "pcs c ! th = Inside" "p \<in> refs c ! th"
    "p \<in> dead c"
    by (auto simp: dangling_def list_ex_iff)
  then have "p \<in> linked c \<or> (p, (), e_global (ep c)) \<in># pending (ep c)"
    using inv by (fastforce simp: atomic_inv_def ref_inv_def)
  moreover have "p \<in># pending_ptrs c" if "(p, (), e_global (ep c)) \<in># pending (ep c)"
    using that by (force simp: pending_ptrs_def)
  ultimately show False using inv th(4) by (auto simp: atomic_inv_def object_inv_def)
qed

text \<open>A reclaim frees no object of the current epoch and none that is linked.\<close>

lemma reclaim_keeps:
  assumes "P = P' + tagged ((g + 1) mod EPOCHS) fs" and "g < EPOCHS" and "(p, (), g) \<in># P"
  shows "(p, (), g) \<in># P'"
proof -
  have "g = 0 \<or> g = 1 \<or> g = 2" using assms(2) less_3_cases by (simp add: EPOCHS_def)
  then have "(g + 1) mod EPOCHS \<noteq> g" by (auto simp: EPOCHS_def)
  then have "(p, (), g) \<notin># tagged ((g + 1) mod EPOCHS) fs"
    unfolding tagged_def by (simp only: set_mset_mset) auto
  with assms(1,3) show ?thesis by (simp only: union_iff) blast
qed

lemma fst_tagged: "image_mset fst (tagged t fs) = mset (map fst fs)"
  by (simp add: tagged_def multiset.map_comp comp_def case_prod_beta)

lemma object_inv_kill:
  assumes "\<forall>p. count P p \<le> 1" and "\<forall>p \<in># P. p \<notin> L \<and> p \<notin> D" and "L \<inter> D = {}"
    and "P = P' + mset (map fst fs)"
  shows "(\<forall>p. count P' p \<le> 1) \<and> (\<forall>p \<in># P'. p \<notin> L \<and> p \<notin> D \<union> set (map fst fs)) \<and>
    L \<inter> (D \<union> set (map fst fs)) = {}"
proof -
  have "count P' p \<le> 1" for p using assms(1,4) by (metis add_leD1 count_union)
  moreover have "p \<notin> set (map fst fs)" if "p \<in># P'" for p
  proof
    assume "p \<in> set (map fst fs)"
    then have "p \<in># mset (map fst fs)" by (simp only: set_mset_mset)
    then have "0 < count (mset (map fst fs)) p" by (simp only: count_greater_zero_iff)
    moreover have "0 < count P' p" using that by (simp only: count_greater_zero_iff)
    moreover have "count P' p + count (mset (map fst fs)) p \<le> 1"
      using assms(1) [THEN spec, of p] unfolding assms(4) count_union .
    ultimately show False by linarith
  qed
  moreover have "set (map fst fs) \<subseteq> set_mset P" using assms(4) by simp
  ultimately show ?thesis using assms(2,3,4) by auto
qed

lemma local_epoch_ok: "count_inv n c \<Longrightarrow> th \<in> inside c \<Longrightarrow> local_epoch (tls (ep c) th) = e_global (ep c)"
  by (simp add: count_inv_def)

lemma atomic_inv_cong:
  assumes "count_inv n c" and "object_inv c" and "ref_inv c" shows "atomic_inv n c"
  using assms by (simp add: atomic_inv_def)

lemma ref_invI:
  assumes "\<And>t p. t < length (pcs c) \<Longrightarrow> pcs c ! t = Inside \<Longrightarrow> p \<in> refs c ! t \<Longrightarrow>
      p \<in> linked c \<or> (p, (), e_global (ep c)) \<in># pending (ep c)"
    and "\<And>t. t < length (pcs c) \<Longrightarrow> pcs c ! t \<noteq> Inside \<Longrightarrow> refs c ! t = {}"
  shows "ref_inv c"
  using assms by (auto simp: ref_inv_def)

lemma ref_invD:
  "ref_inv c \<Longrightarrow> t < length (pcs c) \<Longrightarrow> pcs c ! t = Inside \<Longrightarrow> p \<in> refs c ! t \<Longrightarrow>
   p \<in> linked c \<or> (p, (), e_global (ep c)) \<in># pending (ep c)"
  unfolding ref_inv_def by fastforce

lemma outside_refs:
  "ref_inv c \<Longrightarrow> th < length (pcs c) \<Longrightarrow> pcs c ! th \<noteq> Inside \<Longrightarrow> refs c ! th = {}"
  by (auto simp: ref_inv_def)

lemma enter_inv:
  assumes inv: "atomic_inv n c" and th: "th < length (pcs c)" and out: "pcs c ! th = Outside"
  shows "atomic_inv n (set_pc th Inside (c\<lparr>ep := epoch_enter th (ep c)\<rparr>))"
    (is "atomic_inv n ?c")
proof (rule atomic_inv_cong)
  have ci: "count_inv n c" and oi: "object_inv c" and ri: "ref_inv c"
    using inv by (simp_all add: atomic_inv_def)
  then have ok: "epoch_ok (ep c)" and th': "th < length (e_tls (ep c))"
    using th by (simp_all add: count_inv_def)
  note sp = epoch_enter_spec [OF ok th']
  have ins: "inside ?c = insert th (inside c)" and nin: "th \<notin> inside c"
    using th out by (auto simp: inside_def set_pc_def nth_list_update)
  have g: "e_global (ep c) < EPOCHS" "length (e_active (ep c)) = EPOCHS"
    using ok by (simp_all add: epoch_ok_def)
  have "card (insert th (inside c)) \<le> n"
    using card_inside [of ?c] ci by (simp add: ins [symmetric] count_inv_def set_pc_def)
  then have le: "Suc (card (inside c)) < 2 ^ 32" using nin ci by (simp add: count_inv_def)
  have "unat (e_active (ep c) ! e_global (ep c)) = card (inside c)"
    using ci g by (simp add: count_inv_def)
  then have "unat (e_active (ep c) ! e_global (ep c) + 1) = Suc (card (inside c))"
    using le by (simp add: unat_word_ariths)
  moreover have "card (inside ?c) = Suc (card (inside c))" using nin by (simp add: ins)
  moreover have "ep ?c = epoch_enter th (ep c)" by (simp add: set_pc_def)
  ultimately have cnt: "\<forall>e < EPOCHS. unat (e_active (ep ?c) ! e) =
      (if e = e_global (ep ?c) then card (inside ?c) else 0)"
    using ci g by (simp only: sp count_inv_def nth_list_update) auto
  have loc: "\<forall>t \<in> inside ?c. local_epoch (tls (ep ?c) t) = e_global (ep ?c)"
    unfolding ins
  proof
    fix t
    assume "t \<in> insert th (inside c)"
    then show "local_epoch (tls (ep ?c) t) = e_global (ep ?c)"
      using ci sp(3,5,6) by (cases "t = th") (simp_all add: set_pc_def count_inv_def)
  qed
  have "set (pcs ?c) \<subseteq> {Outside, Inside}"
    using ci set_update_subset_insert [of "pcs c" th Inside]
    by (auto simp: set_pc_def count_inv_def)
  with cnt loc show "count_inv n ?c"
    using ci sp(1,4) by (simp add: count_inv_def set_pc_def)
  show "object_inv ?c" using oi sp(2) by (simp add: object_inv_def pending_ptrs_def set_pc_def)
  show "ref_inv ?c"
  proof (rule ref_invI)
    fix t q assume "t < length (pcs ?c)" "pcs ?c ! t = Inside" "q \<in> refs ?c ! t"
    then show "q \<in> linked ?c \<or> (q, (), e_global (ep ?c)) \<in># pending (ep ?c)"
      using ref_invD [OF ri, of t q] outside_refs [OF ri th] out sp(2,3)
      by (cases "t = th") (simp_all add: set_pc_def)
  next
    fix t assume "t < length (pcs ?c)" "pcs ?c ! t \<noteq> Inside"
    then show "refs ?c ! t = {}"
      using outside_refs [OF ri, of t] by (cases "t = th") (simp_all add: set_pc_def)
  qed
qed

lemma leave_inv:
  assumes inv: "atomic_inv n c" and th: "th < length (pcs c)" and ins: "pcs c ! th = Inside"
  shows "atomic_inv n (set_pc th Outside
    (c\<lparr>ep := epoch_exit th (ep c), refs := (refs c)[th := {}]\<rparr>))" (is "atomic_inv n ?c")
proof (rule atomic_inv_cong)
  have ci: "count_inv n c" and oi: "object_inv c" and ri: "ref_inv c"
    using inv by (simp_all add: atomic_inv_def)
  then have ok: "epoch_ok (ep c)" and th': "th < length (e_tls (ep c))"
    using th by (simp_all add: count_inv_def)
  have mem: "th \<in> inside c" using th ins by (simp add: inside_def)
  note sp = epoch_exit_spec [OF ok local_epoch_ok [OF ci mem]]
  define a where "a = e_active (ep c) ! e_global (ep c)"
  have g: "e_global (ep c) < EPOCHS" "length (e_active (ep c)) = EPOCHS"
    using ok by (simp_all add: epoch_ok_def)
  have ins': "inside ?c = inside c - {th}"
    using th ins by (auto simp: inside_def set_pc_def nth_list_update)
  have a: "unat a = card (inside c)" using ci g by (simp add: count_inv_def a_def)
  have pos: "0 < card (inside c)" using mem by (simp add: card_gt_0_iff) blast
  have one: "a = 1 \<longleftrightarrow> inside c = {th}"
  proof
    assume "a = 1"
    then have "card (inside c) = 1" using a by simp
    then show "inside c = {th}" using mem by (auto simp: card_1_singleton_iff)
  next
    assume "inside c = {th}"
    then have "unat a = unat (1::u32)" using a by simp
    then show "a = 1" by (simp only: word_unat_eq_iff)
  qed
  have "a \<noteq> 0" using a pos by (metis less_irrefl unat_0)
  then have am: "unat (a - 1) = card (inside ?c)"
    unfolding ins' using a mem by (simp add: unat_minus_one card_Diff_singleton)
  have eps: "ep ?c = epoch_exit th (ep c)" by (simp add: set_pc_def)
  have act: "unat (e_active (ep ?c) ! e) = (if e = e_global (ep c) then card (inside ?c) else 0)"
    if "e < EPOCHS" for e
    using ci g that am unfolding eps sp(4) a_def [symmetric]
    by (cases "e = e_global (ep c)") (simp_all add: count_inv_def)
  have emp: "card (inside ?c) = 0" if "a = 1" unfolding ins' using one that by simp
  have cnt: "\<forall>e < EPOCHS. unat (e_active (ep ?c) ! e) =
      (if e = e_global (ep ?c) then card (inside ?c) else 0)"
    using act emp unfolding eps sp(5) a_def [symmetric] by (cases "a = 1") simp_all
  have loc: "\<forall>t \<in> inside ?c. local_epoch (tls (ep ?c) t) = e_global (ep ?c)"
    unfolding ins' using ci one by (auto simp: set_pc_def sp(3,5) count_inv_def a_def [symmetric])
  have "set (pcs ?c) \<subseteq> {Outside, Inside}"
    using ci set_update_subset_insert [of "pcs c" th Outside]
    by (auto simp: set_pc_def count_inv_def)
  with cnt loc show "count_inv n ?c"
    using ci sp(1,3) by (simp add: count_inv_def set_pc_def)
  show "object_inv ?c" using oi sp(2) by (simp add: object_inv_def pending_ptrs_def set_pc_def)
  show "ref_inv ?c"
  proof (rule ref_invI)
    fix t q assume t: "t < length (pcs ?c)" "pcs ?c ! t = Inside" "q \<in> refs ?c ! t"
    then have *: "t < length (pcs c)" "t \<noteq> th" "pcs c ! t = Inside" "q \<in> refs c ! t"
      by (cases "t = th"; simp add: set_pc_def)+
    then have "t \<in> inside c" by (simp add: inside_def)
    then have "a \<noteq> 1" using one *(2) by auto
    then have "e_global (ep ?c) = e_global (ep c)" by (simp add: set_pc_def sp(5) a_def [symmetric])
    then show "q \<in> linked ?c \<or> (q, (), e_global (ep ?c)) \<in># pending (ep ?c)"
      using ref_invD [OF ri *(1,3,4)] sp(2) by (simp add: set_pc_def)
  next
    fix t assume "t < length (pcs ?c)" "pcs ?c ! t \<noteq> Inside"
    then show "refs ?c ! t = {}"
      using outside_refs [OF ri, of t] ci by (cases "t = th") (simp_all add: set_pc_def count_inv_def)
  qed
qed

lemma reclaim_inv:
  assumes ci: "count_inv n c" and s: "epoch_ok s" and g: "e_global s = e_global (ep c)"
    and act: "e_active s = e_active (ep c)" and len: "length (e_tls s) = length (e_tls (ep c))"
    and loc: "\<forall>t \<in> inside c. local_epoch (tls s t) = local_epoch (tls (ep c) t)"
    and once: "\<forall>p. count (image_mset fst P) p \<le> 1"
    and out: "\<forall>p \<in># image_mset fst P. p \<notin> L \<and> p \<notin> dead c" and disj: "L \<inter> dead c = {}"
    and refs: "\<And>t. t < length (pcs c) \<Longrightarrow> refs c ! t \<subseteq>
      (if pcs c ! t = Inside then L \<union> {p. (p, (), e_global (ep c)) \<in># P} else {})"
    and p: "P = pending s + tagged ((e_global (ep c) + 1) mod EPOCHS) fs"
  shows "atomic_inv n (kill fs (c\<lparr>linked := L, ep := s\<rparr>))" (is "atomic_inv n ?c")
proof (rule atomic_inv_cong)
  have "inside ?c = inside c" by (simp add: inside_def kill_def)
  then show "count_inv n ?c"
    using ci s g act len loc by (simp add: count_inv_def kill_def)
  have "image_mset fst P = image_mset fst (pending s) + mset (map fst fs)"
    using p by (simp add: fst_tagged)
  from object_inv_kill [OF once out disj this] show "object_inv ?c"
    by (simp add: object_inv_def kill_def pending_ptrs_def)
  have gl: "e_global (ep c) < EPOCHS" using ci by (simp add: count_inv_def epoch_ok_def)
  have sub: "{p. (p, (), e_global (ep c)) \<in># P} \<subseteq> {p. (p, (), e_global (ep c)) \<in># pending s}"
    using reclaim_keeps [OF p gl] by blast
  have "refs c ! t \<subseteq>
      (if pcs c ! t = Inside then L \<union> {p. (p, (), e_global (ep c)) \<in># pending s} else {})"
    if "t < length (pcs c)" for t
    using refs [OF that] sub by (cases "pcs c ! t = Inside") auto
  then have sub': "p \<in> L \<or> (p, (), e_global (ep c)) \<in># pending s"
    if "t < length (pcs c)" "pcs c ! t = Inside" "p \<in> refs c ! t" for t p
    using that by fastforce
  have "refs c ! t = {}" if "t < length (pcs c)" "pcs c ! t \<noteq> Inside" for t
    using refs [of t] that by simp
  with sub' show "ref_inv ?c" using g by (intro ref_invI) (simp_all add: kill_def)
qed

lemma unlink_inv:
  assumes inv: "atomic_inv n c" and th: "th < length (pcs c)" and ins: "pcs c ! th = Inside"
    and un: "unlink_retire th p c = Some c'"
  shows "atomic_inv n c'"
proof -
  have ci: "count_inv n c" and oi: "object_inv c" and ri: "ref_inv c"
    using inv by (simp_all add: atomic_inv_def)
  then have ok: "epoch_ok (ep c)" and th': "th < length (e_tls (ep c))"
    using th by (simp_all add: count_inv_def)
  have p: "p \<in> linked c" using un by (simp add: unlink_retire_def split: if_splits)
  have mem: "th \<in> inside c" using th ins by (simp add: inside_def)
  note lg = local_epoch_ok [OF ci mem]
  obtain fs s where r: "retire th Push_ok p () (ep c) = Some (Inr fs, s)" "epoch_ok s"
    "add_mset (p, (), e_global (ep c)) (pending (ep c)) =
       pending s + tagged ((e_global (ep c) + 1) mod EPOCHS) fs"
    "e_global s = e_global (ep c)" "e_active s = e_active (ep c)"
    "length (e_tls s) = length (e_tls (ep c))"
    "\<forall>t. t \<noteq> th \<longrightarrow> tls s t = tls (ep c) t"
    "local_epoch (tls s th) = local_epoch (tls (ep c) th)"
    using retire_ok_spec [OF ok th', of p "()"] unfolding lg by blast
  have c': "c' = kill fs (c\<lparr>linked := linked c - {p}, ep := s\<rparr>)"
    using un p r(1) by (simp add: unlink_retire_def)
  have loc: "\<forall>t \<in> inside c. local_epoch (tls s t) = local_epoch (tls (ep c) t)"
    using r(7,8) by metis
  have np: "p \<notin># pending_ptrs c" "p \<notin> dead c" using oi p by (auto simp: object_inv_def)
  show ?thesis
    unfolding c'
  proof (rule reclaim_inv [OF ci r(2,4-6) loc _ _ _ _ r(3)])
    show "\<forall>q. count (image_mset fst (add_mset (p, (), e_global (ep c)) (pending (ep c)))) q \<le> 1"
      using oi np(1) by (auto simp: object_inv_def pending_ptrs_def not_in_iff)
    show "\<forall>q \<in># image_mset fst (add_mset (p, (), e_global (ep c)) (pending (ep c))).
        q \<notin> linked c - {p} \<and> q \<notin> dead c"
      using oi np(2) by (auto simp: object_inv_def pending_ptrs_def)
    show "(linked c - {p}) \<inter> dead c = {}" using oi by (auto simp: object_inv_def)
    show "refs c ! t \<subseteq> (if pcs c ! t = Inside then (linked c - {p}) \<union>
        {q. (q, (), e_global (ep c)) \<in># add_mset (p, (), e_global (ep c)) (pending (ep c))} else {})"
      if "t < length (pcs c)" for t
      using ri that by (auto simp: ref_inv_def split: if_splits)
  qed
qed

lemma thread_exit_inv:
  assumes inv: "atomic_inv n c" and th: "th < length (pcs c)" and ins: "pcs c ! th = Outside"
    and ex: "thread_exit th c = Some c'"
  shows "atomic_inv n c'"
proof -
  have ci: "count_inv n c" and oi: "object_inv c" and ri: "ref_inv c"
    using inv by (simp_all add: atomic_inv_def)
  then have ok: "epoch_ok (ep c)" and th': "th < length (e_tls (ep c))"
    using th by (simp_all add: count_inv_def)
  obtain fs s where r: "finalize_thread th (ep c) = Some (fs, s)" "epoch_ok s"
    "pending (ep c) = pending s + tagged ((e_global (ep c) + 1) mod EPOCHS) fs"
    "e_global s = e_global (ep c)" "e_active s = e_active (ep c)"
    "\<forall>t. t \<noteq> th \<longrightarrow> tls s t = tls (ep c) t" "length (e_tls s) = length (e_tls (ep c))"
    using finalize_thread_spec [OF ok th'] by blast
  have c': "c' = kill fs (c\<lparr>linked := linked c, ep := s\<rparr>)"
    using ex r(1) by (simp add: thread_exit_def)
  have "th \<notin> inside c" using ins by (simp add: inside_def)
  then have loc: "\<forall>t \<in> inside c. local_epoch (tls s t) = local_epoch (tls (ep c) t)"
    using r(6) by metis
  show ?thesis
    unfolding c'
    by (rule reclaim_inv [OF ci r(2,4,5,7) loc _ _ _ _ r(3)])
      (use oi ri in \<open>simp_all add: object_inv_def pending_ptrs_def ref_inv_def\<close>)
qed

lemma atomic_step_inv:
  assumes "atomic_step c c'" and inv: "atomic_inv n c" shows "atomic_inv n c'"
  using assms(1)
proof cases
  case (enter th)
  then show ?thesis using enter_inv [OF inv] by simp
next
  case (leave th)
  then show ?thesis using leave_inv [OF inv] by simp
next
  case (read th p)
  have ri: "ref_inv c" and len: "length (refs c) = length (pcs c)"
    using inv by (simp_all add: atomic_inv_def count_inv_def)
  have "count_inv n c'" "object_inv c'"
    using inv by (simp_all add: read(1) atomic_inv_def count_inv_def object_inv_def
        pending_ptrs_def inside_def)
  moreover have "ref_inv c'"
  proof (rule ref_invI)
    fix t q assume "t < length (pcs c')" "pcs c' ! t = Inside" "q \<in> refs c' ! t"
    then show "q \<in> linked c' \<or> (q, (), e_global (ep c')) \<in># pending (ep c')"
      using ri read(4) len ref_invD [OF ri, of t q] by (cases "t = th") (auto simp: read(1))
  next
    fix t assume "t < length (pcs c')" "pcs c' ! t \<noteq> Inside"
    then show "refs c' ! t = {}"
      using outside_refs [OF ri, of t] read(3) by (cases "t = th") (auto simp: read(1))
  qed
  ultimately show ?thesis by (rule atomic_inv_cong)
next
  case (link p)
  have "count_inv n c'" "object_inv c'"
    using inv link(2,3) by (auto simp: link(1) atomic_inv_def count_inv_def object_inv_def
        pending_ptrs_def inside_def)
  moreover have "ref_inv c'"
    using inv by (auto simp: link(1) atomic_inv_def ref_inv_def split: if_splits)
  ultimately show ?thesis by (rule atomic_inv_cong)
next
  case (unlink th p)
  then show ?thesis using unlink_inv [OF inv] by simp
next
  case (thread_exit th)
  then show ?thesis using thread_exit_inv [OF inv] by simp
qed

lemma atomic_reach_inv: "atomic_reach n L c \<Longrightarrow> n < 2 ^ 32 \<Longrightarrow> atomic_inv n c"
  by (induction rule: atomic_reach.induct) (auto intro: atomic_inv_init atomic_step_inv)

end
