(* ===== verification/HazardReclaim.thy ===== *)
theory HazardReclaim
  imports Prelude
begin

section \<open>Hazard-pointer reclamation\<close>

text \<open>
  \<open>class hazard_pointer_reclaimer\<close> of \<open>detail/hazard_pointer.hpp\<close>: 128 slots of four
  hazard pointers, each owned by at most one thread, a registry of the owned slots that a
  scan reads, per-thread retire lists, and the late-retire chain of exited threads. As in
  \<open>EpochReclaim\<close>, an operation returns the retirements whose actions it runs.

  The function-local statics (\<open>slots\<close>, \<open>active\<close>, \<open>late\<close>, \<open>outstanding\<close>, \<open>next\<close>) are fields of
  the state. Operations are whole here; \<open>HazardSteps\<close> takes protection, scans and the registry apart
  into single accesses.
\<close>

subsection \<open>State\<close>

definition MAX_THREADS :: nat where "MAX_THREADS = 128"
definition HAZARD_POINTERS :: nat where "HAZARD_POINTERS = 4"
definition HAZARD_RETIRE_THRESHOLD :: nat where
  "HAZARD_RETIRE_THRESHOLD = 2 * MAX_THREADS * HAZARD_POINTERS"

record hazard_slot =
  hs_owner :: u32
  hs_hp :: "ptr list"

record 'act hz_thread =
  ht_slot :: int
  ht_retired :: "ptr list"
  ht_actions :: "'act list"

record 'act hazard =
  hz_slots :: "hazard_slot list"
  hz_count :: u32
  hz_active :: "int list"
  hz_late :: "(ptr \<times> 'act) list"
  hz_outstanding :: u64
  hz_next_owner :: u32
  hz_tls :: "'act hz_thread list"

definition new_hazard_slot :: hazard_slot where
  "new_hazard_slot = \<lparr>hs_owner = 0, hs_hp = replicate HAZARD_POINTERS 0\<rparr>"

definition new_hz_thread :: "'act hz_thread" where
  "new_hz_thread = \<lparr>ht_slot = - 1, ht_retired = [], ht_actions = []\<rparr>"

definition new_hazard :: "nat \<Rightarrow> 'act hazard" where
  "new_hazard n = \<lparr>hz_slots = replicate MAX_THREADS new_hazard_slot, hz_count = 0,
     hz_active = replicate MAX_THREADS (- 1), hz_late = [], hz_outstanding = 0,
     hz_next_owner = 0, hz_tls = replicate n new_hz_thread\<rparr>"

abbreviation htls :: "'act hazard \<Rightarrow> thread \<Rightarrow> 'act hz_thread" where
  "htls s th \<equiv> hz_tls s ! th"

definition put_htls :: "thread \<Rightarrow> 'act hz_thread \<Rightarrow> 'act hazard \<Rightarrow> 'act hazard" where
  "put_htls th ts s = s\<lparr>hz_tls := (hz_tls s)[th := ts]\<rparr>"

subsection \<open>Slots and the registry\<close>

definition thread_owner_id :: "'act hazard \<Rightarrow> u32 \<times> 'act hazard" where
  "thread_owner_id s = (hz_next_owner s + 1, s\<lparr>hz_next_owner := hz_next_owner s + 1\<rparr>)"

definition register_active :: "int \<Rightarrow> 'act hazard \<Rightarrow> 'act hazard option" where
  "register_active slot_idx s =
     (let k = unat (hz_count s); s = s\<lparr>hz_count := hz_count s + 1\<rparr> in
      if k < MAX_THREADS then Some (s\<lparr>hz_active := (hz_active s)[k := slot_idx]\<rparr>) else None)"

fun find_index :: "int \<Rightarrow> int list \<Rightarrow> nat \<Rightarrow> nat option" where
  "find_index x [] j = None"
| "find_index x (y # ys) j = (if y = x then Some j else find_index x ys (j + 1))"

definition unregister_active :: "int \<Rightarrow> 'act hazard \<Rightarrow> 'act hazard" where
  "unregister_active slot_idx s =
     (let n = unat (hz_count s) in
      case find_index slot_idx (take n (hz_active s)) 0 of
        None \<Rightarrow> s
      | Some k \<Rightarrow>
          let last' = hz_active s ! (n - 1);
              a = (hz_active s)[k := last'];
              a = a[n - 1 := - 1]
          in s\<lparr>hz_active := a, hz_count := hz_count s - 1\<rparr>)"

fun free_slot :: "hazard_slot list \<Rightarrow> nat \<Rightarrow> nat option" where
  "free_slot [] i = None"
| "free_slot (sl # sls) i = (if hs_owner sl = 0 then Some i else free_slot sls (i + 1))"

text \<open>
  \<open>slot\<close>: with every slot owned by another thread the loop spins for ever, \<open>None\<close>.
\<close>

definition slot :: "thread \<Rightarrow> 'act hazard \<Rightarrow> (nat \<times> 'act hazard) option" where
  "slot th s =
     (if ht_slot (htls s th) < 0 then
        (let (self, s) = thread_owner_id s in
         case free_slot (hz_slots s) 0 of
           None \<Rightarrow> None
         | Some i \<Rightarrow>
             let s = s\<lparr>hz_slots := (hz_slots s)[i := (hz_slots s ! i)\<lparr>hs_owner := self\<rparr>]\<rparr>;
                 s = put_htls th ((htls s th)\<lparr>ht_slot := int i\<rparr>) s
             in do { s \<leftarrow> register_active (int i) s; Some (i, s) })
      else Some (nat (ht_slot (htls s th)), s))"

definition protect :: "thread \<Rightarrow> nat \<Rightarrow> ptr \<Rightarrow> 'act hazard \<Rightarrow> 'act hazard option" where
  "protect th idx p s =
     do { (i, s) \<leftarrow> slot th s;
          let sl = hz_slots s ! i;
          Some (s\<lparr>hz_slots := (hz_slots s)[i := sl\<lparr>hs_hp := (hs_hp sl)[idx := p]\<rparr>]\<rparr>) }"

definition clear_hp :: "thread \<Rightarrow> nat \<Rightarrow> 'act hazard \<Rightarrow> 'act hazard option" where
  "clear_hp th idx s =
     do { (i, s) \<leftarrow> slot th s;
          let sl = hz_slots s ! i;
          Some (s\<lparr>hz_slots := (hz_slots s)[i := sl\<lparr>hs_hp := (hs_hp sl)[idx := 0]\<rparr>]\<rparr>) }"

definition is_protected :: "'act hazard \<Rightarrow> ptr \<Rightarrow> bool" where
  "is_protected s cur =
     list_ex (\<lambda>idx. if idx < 0 then False
         else let sl = hz_slots s ! nat idx in
           if hs_owner sl = 0 then False else list_ex (\<lambda>h. h = cur) (take HAZARD_POINTERS (hs_hp sl)))
       (take (unat (hz_count s)) (hz_active s))"

subsection \<open>Retiring, scanning and thread exit\<close>

fun push_orphans :: "(ptr \<times> 'act) list \<Rightarrow> (ptr \<times> 'act) list \<Rightarrow> (ptr \<times> 'act) list" where
  "push_orphans [] chain = chain"
| "push_orphans (o' # os) chain = push_orphans os (o' # chain)"

fun split_protected ::
  "(ptr \<Rightarrow> bool) \<Rightarrow> (ptr \<times> 'act) list \<Rightarrow> (ptr \<times> 'act) list \<times> (ptr \<times> 'act) list" where
  "split_protected prot [] = ([], [])"
| "split_protected prot (o' # os) =
     (let (fs, kept) = split_protected prot os in
      if prot (fst o') then (fs, o' # kept) else (o' # fs, kept))"

definition drain_late_retire :: "'act hazard \<Rightarrow> (ptr \<times> 'act) list \<times> 'act hazard" where
  "drain_late_retire s =
     (let chain = hz_late s;
          s = s\<lparr>hz_late := []\<rparr>;
          (fs, kept) = split_protected (is_protected s) chain
      in (fs, s\<lparr>hz_outstanding := hz_outstanding s - of_nat (length fs),
                hz_late := push_orphans kept (hz_late s)\<rparr>))"

text \<open>
  The compaction of \<open>scan\<close> works in place: entry \<open>i\<close> is moved to entry \<open>kept\<close> when it is
  protected. An index past the end of either vector would be an undefined behaviour.
\<close>

function scan_loop ::
  "(ptr \<Rightarrow> bool) \<Rightarrow> nat \<Rightarrow> nat \<Rightarrow> nat \<Rightarrow> ptr list \<Rightarrow> 'act list \<Rightarrow> (ptr \<times> 'act) list \<Rightarrow>
   (nat \<times> ptr list \<times> 'act list \<times> (ptr \<times> 'act) list) option" where
  "scan_loop prot n i kept ret act fs =
     (if i < n then
        if length ret \<le> i \<or> length act \<le> i then None
        else if prot (ret ! i)
        then scan_loop prot n (i + 1) (kept + 1) (ret[kept := ret ! i]) (act[kept := act ! i]) fs
        else scan_loop prot n (i + 1) kept ret act (fs @ [(ret ! i, act ! i)])
      else Some (kept, ret, act, fs))"
  by pat_completeness auto

termination by (relation "measure (\<lambda>(_, n, i, _). n - i)") auto

declare scan_loop.simps [simp del]

definition scan :: "thread \<Rightarrow> 'act hazard \<Rightarrow> ((ptr \<times> 'act) list \<times> 'act hazard) option" where
  "scan th s =
     (let (fs1, s) = drain_late_retire s; ts = htls s th in
      do {
        (kept, ret, act, fs2) \<leftarrow>
          scan_loop (is_protected s) (length (ht_retired ts)) 0 0 (ht_retired ts) (ht_actions ts) [];
        let s = s\<lparr>hz_outstanding := hz_outstanding s - of_nat (length fs2)\<rparr>;
        Some (fs1 @ fs2,
          put_htls th (ts\<lparr>ht_retired := take kept ret, ht_actions := take kept act\<rparr>) s)
      })"

definition hz_reclaim :: "thread \<Rightarrow> 'act hazard \<Rightarrow> ((ptr \<times> 'act) list \<times> 'act hazard) option" where
  "hz_reclaim th s = scan th s"

definition hz_retire ::
  "thread \<Rightarrow> push \<Rightarrow> ptr \<Rightarrow> 'act \<Rightarrow> 'act hazard \<Rightarrow>
   ((exn + (ptr \<times> 'act) list) \<times> 'act hazard) option" where
  "hz_retire th pu p act s0 =
     (let s = s0\<lparr>hz_outstanding := hz_outstanding s0 + 1\<rparr>;
          ts = htls s th;
          ptrs = (if pu = Ptr_push_throws then ht_retired ts else ht_retired ts @ [p]);
          acts = (if pu = Push_ok then ht_actions ts @ [act] else ht_actions ts)
      in
      if pu \<noteq> Push_ok then
        (let ptrs = (if length acts < length ptrs then butlast ptrs else ptrs)
         in Some (Inl Bad_alloc,
              (put_htls th (ts\<lparr>ht_retired := ptrs, ht_actions := acts\<rparr>) s)
                \<lparr>hz_outstanding := hz_outstanding s - 1\<rparr>))
      else
        (let s = put_htls th (ts\<lparr>ht_retired := ptrs, ht_actions := acts\<rparr>) s
         in if HAZARD_RETIRE_THRESHOLD < length ptrs
            then do { (fs, s) \<leftarrow> scan th s; Some (Inr fs, s) }
            else Some (Inr [], s)))"

definition hz_has_outstanding :: "'act hazard \<Rightarrow> bool" where
  "hz_has_outstanding s \<longleftrightarrow> hz_outstanding s \<noteq> 0"

definition hz_drain_all :: "thread \<Rightarrow> 'act hazard \<Rightarrow> ((ptr \<times> 'act) list \<times> 'act hazard) option" where
  "hz_drain_all th s =
     (let (fs1, s) = drain_late_retire s; ts = htls s th in
      if length (ht_actions ts) < length (ht_retired ts) then None
      else
        let fs2 = zip (ht_retired ts) (ht_actions ts);
            s = s\<lparr>hz_outstanding := hz_outstanding s - of_nat (length (ht_retired ts))\<rparr>
        in Some (fs1 @ fs2, put_htls th (ts\<lparr>ht_retired := [], ht_actions := []\<rparr>) s))"

fun build_hz_orphans :: "(ptr \<times> 'act) list \<Rightarrow> (ptr \<times> 'act) list \<Rightarrow> (ptr \<times> 'act) list" where
  "build_hz_orphans [] hd' = hd'"
| "build_hz_orphans (x # xs) hd' = build_hz_orphans xs (x # hd')"

text \<open>The last step of \<open>finalize_thread\<close>: give the slot back. Its hazard pointers stay.\<close>

definition release_slot :: "thread \<Rightarrow> 'act hazard \<Rightarrow> 'act hazard" where
  "release_slot th s =
     (let ts = htls s th in
      if 0 \<le> ht_slot ts then
        let i = nat (ht_slot ts);
            s = s\<lparr>hz_slots := (hz_slots s)[i := (hz_slots s ! i)\<lparr>hs_owner := 0\<rparr>]\<rparr>;
            s = unregister_active (ht_slot ts) s
        in put_htls th (ts\<lparr>ht_slot := - 1\<rparr>) s
      else s)"

definition hz_finalize_thread ::
  "thread \<Rightarrow> 'act hazard \<Rightarrow> ((ptr \<times> 'act) list \<times> 'act hazard) option" where
  "hz_finalize_thread th s =
     do {
       (fs, s) \<leftarrow> scan th s;
       s \<leftarrow> (let ts = htls s th in
             if ht_retired ts = [] then Some s
             else if length (ht_actions ts) < length (ht_retired ts) then None
             else let local = build_hz_orphans (zip (ht_retired ts) (ht_actions ts)) [];
                      s = put_htls th (ts\<lparr>ht_retired := [], ht_actions := []\<rparr>) s
                  in Some (s\<lparr>hz_late := push_orphans local (hz_late s)\<rparr>));
       Some (fs, release_slot th s)
     }"

subsection \<open>Lists\<close>

lemma push_orphans_eq [simp]: "push_orphans os chain = rev os @ chain"
  by (induction os arbitrary: chain) simp_all

lemma build_hz_orphans_eq [simp]: "build_hz_orphans xs hd' = rev xs @ hd'"
  by (induction xs arbitrary: hd') simp_all

lemma split_protected_eq [simp]:
  "split_protected prot os = (filter (\<lambda>o'. \<not> prot (fst o')) os, filter (\<lambda>o'. prot (fst o')) os)"
  by (induction os) simp_all

lemma find_index_spec:
  "find_index x ys j = (if x \<in> set ys then Some (j + length (takeWhile (\<lambda>y. y \<noteq> x) ys)) else None)"
  by (induction ys arbitrary: j) auto

lemma free_slot_Some:
  "free_slot sls j = Some i \<Longrightarrow> j \<le> i \<and> i - j < length sls \<and> hs_owner (sls ! (i - j)) = 0"
proof (induction sls arbitrary: j)
  case (Cons sl sls)
  show ?case
  proof (cases "hs_owner sl = 0")
    case False
    with Cons.prems have "free_slot sls (j + 1) = Some i" by simp
    from Cons.IH [OF this] show ?thesis by (auto simp: nth_Cons' Suc_diff_le)
  qed (use Cons.prems in auto)
qed simp

lemma free_slot_None: "free_slot sls j = None \<longleftrightarrow> (\<forall>sl \<in> set sls. hs_owner sl \<noteq> 0)"
  by (induction sls arbitrary: j) auto

text \<open>Moving the last entry of a duplicate-free list over entry \<open>k\<close> removes entry \<open>k\<close>.\<close>

lemma move_last:
  assumes "distinct xs" and "k < length xs" and n: "n = length xs - 1"
  shows "distinct (take n (xs[k := xs ! n])) \<and> set (take n (xs[k := xs ! n])) = set xs - {xs ! k}"
proof -
  define b where "b = butlast xs"
  define l where "l = last xs"
  have xs: "xs = b @ [l]" using assms(2) by (simp add: b_def l_def) (metis append_butlast_last_id list.size(3) not_less_zero)
  then have d: "distinct b" "l \<notin> set b" and nb: "n = length b" using assms(1) n by auto
  show ?thesis
  proof (cases "k = n")
    case True
    with d nb show ?thesis by (simp add: xs list_update_append)
  next
    case False
    then have k: "k < length b" using assms(2) nb by (simp add: xs)
    then have "set (b[k := l]) = insert l (set b - {b ! k})" using d(1) by (simp add: set_update_distinct)
    moreover have "distinct (b[k := l])" using d by (simp add: distinct_list_update)
    ultimately show ?thesis using k d nb by (auto simp: xs list_update_append nth_append)
  qed
qed

text \<open>What the in-place loop computes.\<close>

lemma scan_loop_spec:
  assumes "kept \<le> i" and "i \<le> n" and "length ret = n" and "length act = n"
  shows "\<exists>ret' act'. scan_loop prot n i kept ret act fs =
      Some (kept + length (filter prot (drop i ret)), ret', act',
        fs @ filter (\<lambda>o'. \<not> prot (fst o')) (zip (drop i ret) (drop i act))) \<and>
    length ret' = n \<and> length act' = n \<and>
    take (kept + length (filter prot (drop i ret))) ret' = take kept ret @ filter prot (drop i ret) \<and>
    zip (take (kept + length (filter prot (drop i ret))) ret')
        (take (kept + length (filter prot (drop i ret))) act') =
      zip (take kept ret) (take kept act) @ filter (\<lambda>o'. prot (fst o')) (zip (drop i ret) (drop i act))"
  using assms
proof (induction "n - i" arbitrary: i kept ret act fs)
  case 0
  then show ?case by (subst scan_loop.simps) simp
next
  case (Suc d)
  then have i: "i < n" and d: "d = n - Suc i" by simp_all
  have dr: "drop i ret = ret ! i # drop (Suc i) ret" "drop i act = act ! i # drop (Suc i) act"
    using i Suc.prems by (simp_all add: Cons_nth_drop_Suc)
  show ?case
  proof (cases "prot (ret ! i)")
    case True
    have run: "scan_loop prot n i kept ret act fs =
        scan_loop prot n (Suc i) (Suc kept) (ret[kept := ret ! i]) (act[kept := act ! i]) fs"
      using i True Suc.prems by (subst scan_loop.simps) simp
    have tk: "take (Suc kept) (xs[kept := xs ! i]) = take kept xs @ [xs ! i]"
      if "length xs = n" for xs :: "'c list"
      using that i Suc.prems by (simp add: take_Suc_conv_app_nth)
    have dd: "drop (Suc i) (xs[kept := y]) = drop (Suc i) xs" for xs :: "'c list" and y
      using Suc.prems by (simp add: drop_update_cancel)
    from Suc.hyps(1) [OF d, of "Suc kept" "ret[kept := ret ! i]" "act[kept := act ! i]" fs]
    show ?thesis using i Suc.prems True
      by (simp add: run dr tk dd)
  next
    case False
    have run: "scan_loop prot n i kept ret act fs =
        scan_loop prot n (Suc i) kept ret act (fs @ [(ret ! i, act ! i)])"
      using i False Suc.prems by (subst scan_loop.simps) simp
    from Suc.hyps(1) [OF d, of kept ret act "fs @ [(ret ! i, act ! i)]"]
    show ?thesis using i Suc.prems False by (simp add: run dr)
  qed
qed

subsection \<open>The slot registry\<close>

definition owned :: "'act hazard \<Rightarrow> nat set" where
  "owned s = {i. i < MAX_THREADS \<and> hs_owner (hz_slots s ! i) \<noteq> 0}"

definition active_list :: "'act hazard \<Rightarrow> int list" where
  "active_list s = take (unat (hz_count s)) (hz_active s)"

text \<open>
  Every slot has its four pointers; the registry lists exactly the owned slots, once each,
  and holds the marker \<open>-1\<close> behind them; a slot is owned by exactly the thread that recorded
  it.
\<close>

definition slots_ok :: "'act hazard \<Rightarrow> bool" where
  "slots_ok s \<longleftrightarrow> length (hz_slots s) = MAX_THREADS \<and>
     (\<forall>i < MAX_THREADS. length (hs_hp (hz_slots s ! i)) = HAZARD_POINTERS) \<and>
     length (hz_active s) = MAX_THREADS \<and> unat (hz_count s) \<le> MAX_THREADS \<and>
     distinct (active_list s) \<and> set (active_list s) = int ` owned s \<and>
     (\<forall>x \<in> set (drop (unat (hz_count s)) (hz_active s)). x = - 1) \<and>
     (\<forall>th < length (hz_tls s). ht_slot (htls s th) = - 1 \<or>
        (\<exists>i \<in> owned s. ht_slot (htls s th) = int i)) \<and>
     (\<forall>i \<in> owned s. \<exists>!th. th < length (hz_tls s) \<and> ht_slot (htls s th) = int i)"

lemma slots_ok_cong:
  assumes "hz_slots s' = hz_slots s" "hz_count s' = hz_count s" "hz_active s' = hz_active s"
    "map ht_slot (hz_tls s') = map ht_slot (hz_tls s)"
  shows "slots_ok s' = slots_ok s"
proof -
  have len: "length (hz_tls s') = length (hz_tls s)" using assms(4) by (rule map_eq_imp_length_eq)
  have "ht_slot (htls s' th) = ht_slot (htls s th)" if "th < length (hz_tls s)" for th
    using assms(4) that len by (metis nth_map)
  then show ?thesis
    by (simp add: slots_ok_def owned_def active_list_def assms(1-3) len cong: conj_cong)
qed

lemma owned_new [simp]: "owned (new_hazard n) = {}"
  by (auto simp: owned_def new_hazard_def new_hazard_slot_def)

lemma slots_ok_new: "slots_ok (new_hazard n)"
  unfolding slots_ok_def owned_new
  by (simp add: new_hazard_def active_list_def new_hazard_slot_def new_hz_thread_def)

text \<open>The scan of the registry finds a pointer exactly when some thread publishes it.\<close>

definition published :: "'act hazard \<Rightarrow> ptr set" where
  "published s = (\<Union>i \<in> owned s. set (hs_hp (hz_slots s ! i)))"

lemma is_protected_iff:
  assumes "slots_ok s"
  shows "is_protected s p \<longleftrightarrow> p \<in> published s"
proof -
  have "is_protected s p \<longleftrightarrow> (\<exists>idx \<in> int ` owned s. 0 \<le> idx \<and> hs_owner (hz_slots s ! nat idx) \<noteq> 0 \<and>
      p \<in> set (take HAZARD_POINTERS (hs_hp (hz_slots s ! nat idx))))"
    using assms unfolding slots_ok_def is_protected_def active_list_def list_ex_iff Let_def
    by (auto split: if_splits)
  also have "\<dots> \<longleftrightarrow> p \<in> published s"
    using assms by (auto simp: published_def slots_ok_def owned_def)
  finally show ?thesis .
qed

lemma published_iff_thread:
  assumes "slots_ok s"
  shows "p \<in> published s \<longleftrightarrow> (\<exists>th < length (hz_tls s). 0 \<le> ht_slot (htls s th) \<and>
    p \<in> set (hs_hp (hz_slots s ! nat (ht_slot (htls s th)))))" (is "_ \<longleftrightarrow> ?r")
proof
  assume "p \<in> published s"
  then obtain i where i: "i \<in> owned s" "p \<in> set (hs_hp (hz_slots s ! i))"
    by (auto simp: published_def)
  then obtain th where "th < length (hz_tls s)" "ht_slot (htls s th) = int i"
    using assms by (auto simp: slots_ok_def)
  with i show ?r by (intro exI [of _ th]) simp
next
  assume ?r
  then obtain th where th: "th < length (hz_tls s)" "0 \<le> ht_slot (htls s th)"
    "p \<in> set (hs_hp (hz_slots s ! nat (ht_slot (htls s th))))" by blast
  then obtain i where "i \<in> owned s" "ht_slot (htls s th) = int i"
    using assms by (force simp: slots_ok_def)
  with th show "p \<in> published s" by (auto simp: published_def)
qed

lemma card_owned: "slots_ok s \<Longrightarrow> card (owned s) = unat (hz_count s)"
proof -
  assume s: "slots_ok s"
  then have "card (set (active_list s)) = length (active_list s)"
    by (intro distinct_card) (simp add: slots_ok_def)
  also have "\<dots> = unat (hz_count s)" using s by (simp add: slots_ok_def active_list_def)
  finally show ?thesis using s by (simp add: slots_ok_def card_image)
qed

lemma owned_subset: "owned s \<subseteq> {..<MAX_THREADS}"
  by (auto simp: owned_def)

lemma put_htls_simps [simp]:
  "hz_slots (put_htls th ts s) = hz_slots s" "hz_count (put_htls th ts s) = hz_count s"
  "hz_active (put_htls th ts s) = hz_active s" "hz_late (put_htls th ts s) = hz_late s"
  "hz_outstanding (put_htls th ts s) = hz_outstanding s"
  "hz_next_owner (put_htls th ts s) = hz_next_owner s"
  "length (hz_tls (put_htls th ts s)) = length (hz_tls s)"
  "th < length (hz_tls s) \<Longrightarrow> htls (put_htls th ts s) th = ts"
  "th \<noteq> t \<Longrightarrow> htls (put_htls th ts s) t = htls s t"
  by (simp_all add: put_htls_def)

text \<open>
  Acquiring a slot: it succeeds when the thread has one or a slot is free, and otherwise
  never returns. The owner number 0 marks a free slot, so the counter must not wrap.
\<close>

lemma slot_spec:
  assumes ok: "slots_ok s" and th: "th < length (hz_tls s)" and id: "hz_next_owner s \<noteq> - 1"
    and free: "ht_slot (htls s th) = - 1 \<Longrightarrow> owned s \<noteq> {..<MAX_THREADS}"
  shows "\<exists>i s'. slot th s = Some (i, s') \<and> slots_ok s' \<and> i \<in> owned s' \<and>
    ht_slot (htls s' th) = int i \<and>
    (\<forall>j. hs_hp (hz_slots s' ! j) = hs_hp (hz_slots s ! j)) \<and>
    (\<forall>t. t \<noteq> th \<longrightarrow> htls s' t = htls s t) \<and> length (hz_tls s') = length (hz_tls s) \<and>
    ht_retired (htls s' th) = ht_retired (htls s th) \<and>
    ht_actions (htls s' th) = ht_actions (htls s th) \<and>
    hz_late s' = hz_late s \<and> hz_outstanding s' = hz_outstanding s"
proof (cases "ht_slot (htls s th) = - 1")
  case False
  then obtain i where i: "i \<in> owned s" "ht_slot (htls s th) = int i"
    using ok th by (auto simp: slots_ok_def)
  then have "slot th s = Some (i, s)" by (simp add: slot_def)
  with ok i show ?thesis by blast
next
  case True
  have len: "length (hz_slots s) = MAX_THREADS" "length (hz_active s) = MAX_THREADS"
    using ok by (simp_all add: slots_ok_def)
  obtain i where i: "free_slot (hz_slots s) 0 = Some i"
  proof (cases "free_slot (hz_slots s) 0")
    case None
    then have "owned s = {..<MAX_THREADS}" using len by (auto simp: free_slot_None owned_def)
    with free [OF True] show thesis by blast
  qed (rule that)
  then have i': "i < MAX_THREADS" "i \<notin> owned s"
    using free_slot_Some [of "hz_slots s" 0 i] len by (auto simp: owned_def)
  define sl where "sl = (hz_slots s)[i := (hz_slots s ! i)\<lparr>hs_owner := hz_next_owner s + 1\<rparr>]"
  define n where "n = unat (hz_count s)"
  have "owned s \<subset> {..<MAX_THREADS}" using owned_subset i' by blast
  then have "card (owned s) < card {..<MAX_THREADS}" by (rule psubset_card_mono [OF finite_lessThan])
  then have n: "n < MAX_THREADS" using card_owned [OF ok] by (simp add: n_def)
  then have un: "unat (hz_count s + 1) = Suc n"
    by (simp add: n_def MAX_THREADS_def unat_word_ariths)
  define s' where "s' = (put_htls th ((htls s th)\<lparr>ht_slot := int i\<rparr>) s)
    \<lparr>hz_slots := sl, hz_count := hz_count s + 1, hz_active := (hz_active s)[n := int i],
      hz_next_owner := hz_next_owner s + 1\<rparr>"
  have run: "slot th s = Some (i, s')"
    using True i n by (simp add: slot_def thread_owner_id_def register_active_def s'_def sl_def
        n_def put_htls_def Let_def)
  have nz: "hz_next_owner s + 1 \<noteq> 0" using id by (simp add: add_eq_0_iff2)
  have ow: "owned s' = insert i (owned s)"
    using i' len nz by (auto simp: owned_def s'_def sl_def nth_list_update)
  have al: "active_list s' = active_list s @ [int i]"
    using n len by (simp add: active_list_def s'_def un n_def [symmetric] take_Suc_conv_app_nth)
  have dr: "drop (unat (hz_count s')) (hz_active s') = drop (Suc n) (hz_active s)"
    by (simp add: s'_def un drop_update_cancel)
  have hp: "hs_hp (hz_slots s' ! j) = hs_hp (hz_slots s ! j)" for j
    using i' len by (cases "i = j") (simp_all add: s'_def sl_def)
  have tl: "htls s' t = (if t = th then (htls s th)\<lparr>ht_slot := int i\<rparr> else htls s t)" for t
    using th by (simp add: s'_def)
  have ln: "length (hz_tls s') = length (hz_tls s)" by (simp add: s'_def)
  have no: "ht_slot (htls s t) \<noteq> int i" if "t < length (hz_tls s)" for t
    using ok that i'(2) by (force simp: slots_ok_def)
  have basic: "length (hz_slots s') = MAX_THREADS" "length (hz_active s') = MAX_THREADS"
    "unat (hz_count s') \<le> MAX_THREADS"
    using len n by (simp_all add: s'_def sl_def un)
  have hp_len: "\<forall>j < MAX_THREADS. length (hs_hp (hz_slots s' ! j)) = HAZARD_POINTERS"
    using ok hp by (simp add: slots_ok_def)
  have "slots_ok s'"
    unfolding slots_ok_def
  proof (intro conjI)
    show "distinct (active_list s')" "set (active_list s') = int ` owned s'"
      using ok i'(2) by (auto simp: al ow slots_ok_def)
    show "\<forall>x \<in> set (drop (unat (hz_count s')) (hz_active s')). x = - 1"
      using ok set_drop_subset_set_drop [of n "Suc n" "hz_active s"]
      unfolding dr by (auto simp: slots_ok_def n_def)
    show "\<forall>t < length (hz_tls s'). ht_slot (htls s' t) = - 1 \<or>
        (\<exists>i \<in> owned s'. ht_slot (htls s' t) = int i)"
      using ok by (simp add: tl ow ln slots_ok_def) blast
    show "\<forall>j \<in> owned s'. \<exists>!t. t < length (hz_tls s') \<and> ht_slot (htls s' t) = int j"
    proof
      fix j assume "j \<in> owned s'"
      then consider "j = i" | "j \<in> owned s" "j \<noteq> i" by (auto simp: ow)
      then show "\<exists>!t. t < length (hz_tls s') \<and> ht_slot (htls s' t) = int j"
      proof cases
        case 1
        then show ?thesis using th no by (auto simp: tl ln split: if_splits)
      next
        case 2
        then obtain t where t: "t < length (hz_tls s)" "ht_slot (htls s t) = int j"
          "\<And>u. u < length (hz_tls s) \<Longrightarrow> ht_slot (htls s u) = int j \<Longrightarrow> u = t"
          using ok unfolding slots_ok_def by blast
        have "t \<noteq> th" using t(2) True by auto
        show ?thesis
        proof (rule ex1I [of _ t])
          show "t < length (hz_tls s') \<and> ht_slot (htls s' t) = int j"
            using t(1,2) \<open>t \<noteq> th\<close> by (simp add: tl ln)
          show "u = t" if "u < length (hz_tls s') \<and> ht_slot (htls s' u) = int j" for u
            using t(3) [of u] that 2(2) by (cases "u = th") (simp_all add: tl ln)
        qed
      qed
    qed
  qed (use basic hp_len in simp_all)
  then show ?thesis using run ow hp tl by (auto simp: s'_def)
qed

lemma slot_full:
  assumes "slots_ok s" and "ht_slot (htls s th) = - 1" and "owned s = {..<MAX_THREADS}"
  shows "slot th s = None"
proof -
  have "\<forall>sl \<in> set (hz_slots s). hs_owner sl \<noteq> 0"
    using assms by (auto simp: slots_ok_def owned_def in_set_conv_nth)
  then show ?thesis using assms(2)
    by (simp add: slot_def thread_owner_id_def free_slot_None [THEN iffD2])
qed

subsection \<open>Releasing a slot\<close>

lemma takeWhile_index:
  "x \<in> set xs \<Longrightarrow> length (takeWhile (\<lambda>y. y \<noteq> x) xs) < length xs \<and>
   xs ! length (takeWhile (\<lambda>y. y \<noteq> x) xs) = x"
  by (induction xs) auto

lemma unregister_active_eq:
  assumes "x \<in> set (active_list s)" and "length (hz_active s) = MAX_THREADS"
    and "unat (hz_count s) \<le> MAX_THREADS"
  shows "\<exists>k < unat (hz_count s). hz_active s ! k = x \<and> unregister_active x s =
    s\<lparr>hz_active := (hz_active s)[k := hz_active s ! (unat (hz_count s) - 1),
        unat (hz_count s) - 1 := - 1], hz_count := hz_count s - 1\<rparr>"
proof -
  define k where "k = length (takeWhile (\<lambda>y. y \<noteq> x) (active_list s))"
  have k: "k < length (active_list s)" "active_list s ! k = x"
    using takeWhile_index [OF assms(1)] by (simp_all add: k_def)
  moreover have "find_index x (take (unat (hz_count s)) (hz_active s)) 0 = Some k"
    using assms(1) by (simp add: find_index_spec k_def active_list_def)
  ultimately show ?thesis using assms(2,3)
    by (intro exI [of _ k]) (simp add: unregister_active_def active_list_def Let_def)
qed

lemma release_slot_spec:
  assumes ok: "slots_ok s" and th: "th < length (hz_tls s)"
  shows "slots_ok (release_slot th s) \<and> ht_slot (htls (release_slot th s) th) = - 1 \<and>
    owned (release_slot th s) = {i \<in> owned s. int i \<noteq> ht_slot (htls s th)} \<and>
    (\<forall>t. t \<noteq> th \<longrightarrow> htls (release_slot th s) t = htls s t) \<and>
    length (hz_tls (release_slot th s)) = length (hz_tls s) \<and>
    ht_retired (htls (release_slot th s) th) = ht_retired (htls s th) \<and>
    ht_actions (htls (release_slot th s) th) = ht_actions (htls s th) \<and>
    hz_late (release_slot th s) = hz_late s \<and> hz_outstanding (release_slot th s) = hz_outstanding s"
proof (cases "ht_slot (htls s th) = - 1")
  case True
  then show ?thesis using ok by (simp add: release_slot_def)
next
  case False
  then obtain i where i: "i \<in> owned s" "ht_slot (htls s th) = int i"
    using ok th by (auto simp: slots_ok_def)
  have len: "length (hz_slots s) = MAX_THREADS" "length (hz_active s) = MAX_THREADS"
    and n: "unat (hz_count s) \<le> MAX_THREADS"
    and al: "distinct (active_list s)" "set (active_list s) = int ` owned s"
    using ok by (simp_all add: slots_ok_def)
  define n where "n = unat (hz_count s)"
  have mem: "int i \<in> set (active_list s)" using i al by simp
  define sl where "sl = (hz_slots s)[i := (hz_slots s ! i)\<lparr>hs_owner := 0\<rparr>]"
  have "active_list (s\<lparr>hz_slots := sl\<rparr>) = active_list s" by (simp add: active_list_def)
  then obtain k where k: "k < n" "hz_active s ! k = int i"
    "unregister_active (int i) (s\<lparr>hz_slots := sl\<rparr>) =
      s\<lparr>hz_slots := sl, hz_active := (hz_active s)[k := hz_active s ! (n - 1), n - 1 := - 1],
        hz_count := hz_count s - 1\<rparr>"
    using unregister_active_eq [of "int i" "s\<lparr>hz_slots := sl\<rparr>"] mem len n by (auto simp: n_def)
  define s' where "s' = put_htls th ((htls s th)\<lparr>ht_slot := - 1\<rparr>)
    (s\<lparr>hz_slots := sl, hz_active := (hz_active s)[k := hz_active s ! (n - 1), n - 1 := - 1],
        hz_count := hz_count s - 1\<rparr>)"
  have run: "release_slot th s = s'"
    using i k(3) by (simp add: release_slot_def s'_def sl_def Let_def)
  have "hz_count s \<noteq> 0" using k(1) by (auto simp: n_def)
  then have un: "unat (hz_count s - 1) = n - 1" by (simp add: n_def unat_minus_one)
  have ow: "owned s' = owned s - {i}"
    using len i by (auto simp: owned_def s'_def sl_def nth_list_update)
  have lal: "length (active_list s) = n" using len n by (simp add: active_list_def n_def)
  have "active_list s' = (take (n - 1) (hz_active s))[k := hz_active s ! (n - 1), n - 1 := - 1]"
    by (simp add: active_list_def s'_def un take_update_swap)
  also have "\<dots> = (take (n - 1) (hz_active s))[k := hz_active s ! (n - 1)]"
    by (rule list_update_beyond) simp
  also have "\<dots> = take (n - 1) ((active_list s)[k := active_list s ! (n - 1)])"
    using k(1) by (simp add: active_list_def take_update_swap n_def [symmetric] min_def)
  finally have "active_list s' = take (n - 1) ((active_list s)[k := active_list s ! (n - 1)])" .
  moreover have "active_list s ! k = int i" using k(1,2) by (simp add: active_list_def n_def)
  ultimately have al': "distinct (active_list s')" "set (active_list s') = int ` owned s - {int i}"
    using move_last [OF al(1), of k "n - 1"] k(1) lal al(2) by simp_all
  have "drop (n - 1) (hz_active s') = - 1 # drop n (hz_active s)"
    using k(1) len n
    by (simp add: s'_def Cons_nth_drop_Suc [symmetric] drop_update_cancel n_def [symmetric])
  then have dr: "\<forall>x \<in> set (drop (unat (hz_count s')) (hz_active s')). x = - 1"
    using ok by (simp add: slots_ok_def s'_def un n_def [symmetric])
  have hp: "hs_hp (hz_slots s' ! j) = hs_hp (hz_slots s ! j)" if "j < MAX_THREADS" for j
    using that len by (cases "i = j") (simp_all add: s'_def sl_def)
  have tl: "htls s' t = (if t = th then (htls s th)\<lparr>ht_slot := - 1\<rparr> else htls s t)" for t
    using th by (simp add: s'_def)
  have ln: "length (hz_tls s') = length (hz_tls s)" by (simp add: s'_def)
  have uniq: "t = th" if "t < length (hz_tls s)" "ht_slot (htls s t) = int i" for t
    using ok i that th unfolding slots_ok_def by blast
  have basic: "length (hz_slots s') = MAX_THREADS" "length (hz_active s') = MAX_THREADS"
    "unat (hz_count s') \<le> MAX_THREADS"
    using len n by (simp_all add: s'_def sl_def un n_def)
  have hp_len: "\<forall>j < MAX_THREADS. length (hs_hp (hz_slots s' ! j)) = HAZARD_POINTERS"
    using ok hp by (simp add: slots_ok_def)
  have "slots_ok s'"
    unfolding slots_ok_def
  proof (intro conjI)
    show "\<forall>t < length (hz_tls s'). ht_slot (htls s' t) = - 1 \<or>
        (\<exists>i \<in> owned s'. ht_slot (htls s' t) = int i)"
    proof (intro allI impI)
      fix t assume "t < length (hz_tls s')"
      then have t: "t < length (hz_tls s)" by (simp add: ln)
      then have "ht_slot (htls s t) = - 1 \<or> (\<exists>i \<in> owned s. ht_slot (htls s t) = int i)"
        using ok by (simp add: slots_ok_def)
      then show "ht_slot (htls s' t) = - 1 \<or> (\<exists>i \<in> owned s'. ht_slot (htls s' t) = int i)"
        using uniq [OF t] by (cases "t = th") (auto simp: tl ow)
    qed
    show "\<forall>j \<in> owned s'. \<exists>!t. t < length (hz_tls s') \<and> ht_slot (htls s' t) = int j"
    proof
      fix j assume "j \<in> owned s'"
      then have j: "j \<in> owned s" "j \<noteq> i" by (simp_all add: ow)
      then obtain t where t: "t < length (hz_tls s)" "ht_slot (htls s t) = int j"
        "\<And>u. u < length (hz_tls s) \<Longrightarrow> ht_slot (htls s u) = int j \<Longrightarrow> u = t"
        using ok unfolding slots_ok_def by blast
      have "t \<noteq> th" using t(2) i(2) j(2) by auto
      show "\<exists>!t. t < length (hz_tls s') \<and> ht_slot (htls s' t) = int j"
      proof (rule ex1I [of _ t])
        show "t < length (hz_tls s') \<and> ht_slot (htls s' t) = int j"
          using t(1,2) \<open>t \<noteq> th\<close> by (simp add: tl ln)
        show "u = t" if "u < length (hz_tls s') \<and> ht_slot (htls s' u) = int j" for u
          using t(3) [of u] that by (cases "u = th") (simp_all add: tl ln)
      qed
    qed
    show "set (active_list s') = int ` owned s'" unfolding ow using al'(2) by (simp add: image_set_diff)
  qed (use basic hp_len al' dr in simp_all)
  moreover have "owned s' = {j \<in> owned s. int j \<noteq> ht_slot (htls s th)}" using i(2) by (auto simp: ow)
  moreover have "hz_late s' = hz_late s" "hz_outstanding s' = hz_outstanding s"
    by (simp_all add: s'_def)
  ultimately show ?thesis unfolding run by (simp add: tl ln)
qed

subsection \<open>Accounting\<close>

text \<open>
  \<open>hz_pending\<close> is the multiset of the retirements whose action has not run.
\<close>

definition ht_pending :: "'act hz_thread \<Rightarrow> (ptr \<times> 'act) multiset" where
  "ht_pending ts = mset (zip (ht_retired ts) (ht_actions ts))"

definition hz_pending :: "'act hazard \<Rightarrow> (ptr \<times> 'act) multiset" where
  "hz_pending s = sum_list (map ht_pending (hz_tls s)) + mset (hz_late s)"

definition ht_ok :: "'act hz_thread \<Rightarrow> bool" where
  "ht_ok ts \<longleftrightarrow> length (ht_actions ts) = length (ht_retired ts)"

definition hazard_ok :: "'act hazard \<Rightarrow> bool" where
  "hazard_ok s \<longleftrightarrow> slots_ok s \<and> (\<forall>ts \<in> set (hz_tls s). ht_ok ts) \<and>
     hz_outstanding s = of_nat (size (hz_pending s))"

lemma hz_pending_new: "hz_pending (new_hazard n) = {#}"
  by (simp add: hz_pending_def new_hazard_def ht_pending_def new_hz_thread_def)

lemma hazard_ok_new: "hazard_ok (new_hazard n)"
  by (simp add: hazard_ok_def hz_pending_new slots_ok_new)
    (simp add: new_hazard_def ht_ok_def new_hz_thread_def)

lemma hazard_ok_ht: "hazard_ok s \<Longrightarrow> th < length (hz_tls s) \<Longrightarrow> ht_ok (htls s th)"
  by (simp add: hazard_ok_def)

lemma hz_pending_put:
  "th < length (hz_tls s) \<Longrightarrow>
   hz_pending (put_htls th ts s) + ht_pending (htls s th) = hz_pending s + ht_pending ts"
  using sum_list_update_add [of th "map ht_pending (hz_tls s)" "ht_pending ts"]
  by (simp add: hz_pending_def put_htls_def map_update ac_simps)

lemma ht_ok_put:
  "hazard_ok s \<Longrightarrow> ht_ok ts \<Longrightarrow> \<forall>t \<in> set (hz_tls (put_htls th ts s)). ht_ok t"
  by (auto simp: hazard_ok_def put_htls_def dest: set_update_subset_insert [THEN subsetD])

lemma hz_pending_frame [simp]:
  "hz_pending (s\<lparr>hz_outstanding := k\<rparr>) = hz_pending s"
  by (simp add: hz_pending_def)

lemma slots_ok_frame [simp]:
  "slots_ok (s\<lparr>hz_outstanding := k\<rparr>) = slots_ok s" "slots_ok (s\<lparr>hz_late := l\<rparr>) = slots_ok s"
  "ht_slot ts = ht_slot (htls s th) \<Longrightarrow> slots_ok (put_htls th ts s) = slots_ok s"
proof -
  assume "ht_slot ts = ht_slot (htls s th)"
  then have "map ht_slot ((hz_tls s)[th := ts]) = map ht_slot (hz_tls s)"
    by (cases "th < length (hz_tls s)") (simp_all add: map_update list_update_same_conv list_update_beyond)
  then show "slots_ok (put_htls th ts s) = slots_ok s"
    by (intro slots_ok_cong) (simp_all add: put_htls_def)
qed (rule slots_ok_cong; simp)+

lemma published_frame [simp]:
  "published (s\<lparr>hz_outstanding := k\<rparr>) = published s" "published (s\<lparr>hz_late := l\<rparr>) = published s"
  "published (put_htls th ts s) = published s"
  by (simp_all add: published_def owned_def)

lemma drain_late_retire_spec:
  assumes ok: "hazard_ok s" and d: "drain_late_retire s = (fs, s')"
  shows "hazard_ok s' \<and> hz_pending s = hz_pending s' + mset fs \<and> hz_tls s' = hz_tls s \<and>
    published s' = published s \<and> fs = filter (\<lambda>x. fst x \<notin> published s) (hz_late s) \<and>
    hz_late s' = rev (filter (\<lambda>x. fst x \<in> published s) (hz_late s)) \<and> hz_slots s' = hz_slots s"
proof -
  have sl: "slots_ok s" using ok by (simp add: hazard_ok_def)
  then have prot: "is_protected (s\<lparr>hz_late := []\<rparr>) p \<longleftrightarrow> p \<in> published s" for p
    using is_protected_iff [of "s\<lparr>hz_late := []\<rparr>"] by simp
  define ks where "ks = filter (\<lambda>x. fst x \<in> published s) (hz_late s)"
  have fs: "fs = filter (\<lambda>x. fst x \<notin> published s) (hz_late s)"
    and s': "s' = s\<lparr>hz_outstanding := hz_outstanding s - of_nat (length fs), hz_late := rev ks\<rparr>"
    using d by (auto simp: drain_late_retire_def prot Let_def ks_def)
  have "mset (hz_late s) = mset ks + mset fs" unfolding fs ks_def by (induction "hz_late s") auto
  then have p: "hz_pending s = hz_pending s' + mset fs" by (simp add: hz_pending_def s')
  then have "size (hz_pending s) = size (hz_pending s') + length fs" by simp
  moreover have "hz_outstanding s' = hz_outstanding s - of_nat (length fs)" "slots_ok s'"
    "hz_tls s' = hz_tls s" using sl by (simp_all add: s')
  ultimately have "hazard_ok s'" using ok by (simp add: hazard_ok_def)
  with p fs show ?thesis by (simp add: s' ks_def)
qed

text \<open>
  A scan runs the actions of exactly the unprotected retirements: of the late chain, and of
  the calling thread, whose list it compacts in order.
\<close>

lemma scan_spec:
  assumes ok: "hazard_ok s" and th: "th < length (hz_tls s)"
  shows "\<exists>fs s'. scan th s = Some (fs, s') \<and> hazard_ok s' \<and> hz_pending s = hz_pending s' + mset fs \<and>
    (\<forall>x \<in> set fs. fst x \<notin> published s) \<and> published s' = published s \<and>
    (\<forall>x \<in> set (hz_late s'). fst x \<in> published s) \<and>
    ht_retired (htls s' th) = filter (\<lambda>p. p \<in> published s) (ht_retired (htls s th)) \<and>
    ht_slot (htls s' th) = ht_slot (htls s th) \<and> hz_slots s' = hz_slots s \<and>
    (\<forall>t. t \<noteq> th \<longrightarrow> htls s' t = htls s t) \<and> length (hz_tls s') = length (hz_tls s)"
proof -
  obtain fs1 s1 where d: "drain_late_retire s = (fs1, s1)" by force
  note d' = drain_late_retire_spec [OF ok d]
  define ts where "ts = htls s1 th"
  have th1: "th < length (hz_tls s1)" using th d' by simp
  have len: "length (ht_actions ts) = length (ht_retired ts)"
    using hazard_ok_ht [OF _ th1] d' by (simp add: ht_ok_def ts_def)
  have prot: "is_protected s1 = (\<lambda>p. p \<in> published s)"
    using is_protected_iff [of s1] d' by (intro ext) (simp add: hazard_ok_def)
  define n where "n = length (filter (\<lambda>p. p \<in> published s) (ht_retired ts))"
  define fs2 where "fs2 = filter (\<lambda>x. fst x \<notin> published s) (zip (ht_retired ts) (ht_actions ts))"
  obtain ret act where l: "scan_loop (is_protected s1) (length (ht_retired ts)) 0 0 (ht_retired ts)
      (ht_actions ts) [] = Some (n, ret, act, fs2)"
    "length ret = length (ht_retired ts)" "length act = length (ht_retired ts)"
    "take n ret = filter (\<lambda>p. p \<in> published s) (ht_retired ts)"
    "zip (take n ret) (take n act) =
      filter (\<lambda>x. fst x \<in> published s) (zip (ht_retired ts) (ht_actions ts))"
    using scan_loop_spec [of 0 0 "length (ht_retired ts)" "ht_retired ts" "ht_actions ts"
        "is_protected s1" "[]"] len
    by (auto simp: prot n_def fs2_def)
  define ts' where "ts' = ts\<lparr>ht_retired := take n ret, ht_actions := take n act\<rparr>"
  define s2 where "s2 = (put_htls th ts' s1)\<lparr>hz_outstanding := hz_outstanding s1 - of_nat (length fs2)\<rparr>"
  have run: "scan th s = Some (fs1 @ fs2, s2)"
    using d l(1) by (simp add: scan_def ts_def [symmetric] s2_def ts'_def put_htls_def)
  have tok: "ht_ok ts'" using l(2,3) by (simp add: ts'_def ht_ok_def)
  have "ht_pending ts = ht_pending ts' + mset fs2"
    unfolding ht_pending_def ts'_def fs2_def using l(5)
    by simp
  then have p: "hz_pending s1 = hz_pending s2 + mset fs2"
    using hz_pending_put [OF th1, of ts'] by (simp add: s2_def ts_def)
  then have sz: "size (hz_pending s1) = size (hz_pending s2) + length fs2" by simp
  have "slots_ok (put_htls th ts' s1)" using d' by (simp add: ts'_def ts_def hazard_ok_def)
  then have "hazard_ok s2"
    using d' sz ht_ok_put [OF _ tok, of s1 th] by (simp add: hazard_ok_def s2_def)
  moreover have "htls s2 th = ts'" "\<And>t. t \<noteq> th \<Longrightarrow> htls s2 t = htls s t"
    using th1 d' by (simp_all add: s2_def)
  moreover have "\<forall>x \<in> set (fs1 @ fs2). fst x \<notin> published s" using d' by (auto simp: fs2_def)
  moreover have "\<forall>x \<in> set (hz_late s2). fst x \<in> published s" using d' by (simp add: s2_def)
  moreover have "hz_pending s = hz_pending s2 + mset (fs1 @ fs2)" using d' p by simp
  moreover have "published s2 = published s" "length (hz_tls s2) = length (hz_tls s)"
    "hz_slots s2 = hz_slots s"
    using d' by (simp_all add: s2_def)
  moreover have "ht_retired ts' = filter (\<lambda>p. p \<in> published s) (ht_retired (htls s th))"
    "ht_slot ts' = ht_slot (htls s th)"
    using l(4) d' by (simp_all add: ts'_def ts_def)
  ultimately show ?thesis using run by (intro exI [of _ "fs1 @ fs2"] exI [of _ s2]) simp
qed

lemma retire_push_spec:
  fixes p :: ptr and act :: 'act
  assumes ok: "hazard_ok s" and th: "th < length (hz_tls s)"
  defines "ts \<equiv> htls s th"
  defines "s1 \<equiv> put_htls th (ts\<lparr>ht_retired := ht_retired ts @ [p], ht_actions := ht_actions ts @ [act]\<rparr>)
    (s\<lparr>hz_outstanding := hz_outstanding s + 1\<rparr>)"
  shows "hazard_ok s1 \<and> hz_pending s1 = add_mset (p, act) (hz_pending s) \<and> published s1 = published s"
proof -
  define ts' where "ts' = ts\<lparr>ht_retired := ht_retired ts @ [p], ht_actions := ht_actions ts @ [act]\<rparr>"
  have "ht_ok ts" unfolding ts_def using ok th by (rule hazard_ok_ht)
  then have tok: "ht_ok ts'" and pe: "ht_pending ts' = add_mset (p, act) (ht_pending ts)"
    by (simp_all add: ht_ok_def ts'_def ht_pending_def)
  have s1: "s1 = (put_htls th ts' s)\<lparr>hz_outstanding := hz_outstanding s + 1\<rparr>"
    by (simp add: s1_def ts'_def put_htls_def)
  have "hz_pending s1 + ht_pending ts = add_mset (p, act) (hz_pending s) + ht_pending ts"
    using hz_pending_put [OF th, of ts'] pe by (simp add: s1 ts_def)
  then have p: "hz_pending s1 = add_mset (p, act) (hz_pending s)" by simp
  have "slots_ok (put_htls th ts' s)" using ok by (simp add: ts'_def ts_def hazard_ok_def)
  moreover have "hz_outstanding s1 = hz_outstanding s + 1" by (simp add: s1)
  ultimately have "hazard_ok s1"
    using ok ht_ok_put [OF ok tok, of th] p unfolding hazard_ok_def by (simp add: s1)
  with p show ?thesis by (simp add: s1)
qed

lemma hz_retire_ok_spec:
  assumes ok: "hazard_ok s" and th: "th < length (hz_tls s)"
  shows "\<exists>fs s'. hz_retire th Push_ok p act s = Some (Inr fs, s') \<and> hazard_ok s' \<and>
    add_mset (p, act) (hz_pending s) = hz_pending s' + mset fs \<and>
    (\<forall>x \<in> set fs. fst x \<notin> published s) \<and> published s' = published s \<and>
    (length (ht_retired (htls s' th)) \<le> HAZARD_RETIRE_THRESHOLD \<or>
     set (ht_retired (htls s' th)) \<subseteq> published s) \<and>
    (\<forall>t. t \<noteq> th \<longrightarrow> htls s' t = htls s t) \<and> length (hz_tls s') = length (hz_tls s)"
proof -
  define ts where "ts = htls s th"
  define s1 where "s1 = put_htls th (ts\<lparr>ht_retired := ht_retired ts @ [p],
      ht_actions := ht_actions ts @ [act]\<rparr>) (s\<lparr>hz_outstanding := hz_outstanding s + 1\<rparr>)"
  have 1: "hazard_ok s1" "hz_pending s1 = add_mset (p, act) (hz_pending s)" "published s1 = published s"
    using retire_push_spec [where p = p and act = act, OF ok th] by (simp_all add: s1_def ts_def)
  have same: "length (hz_tls s1) = length (hz_tls s)" "\<forall>t. t \<noteq> th \<longrightarrow> htls s1 t = htls s t"
    "ht_retired (htls s1 th) = ht_retired ts @ [p]"
    using th by (simp_all add: s1_def)
  show ?thesis
  proof (cases "HAZARD_RETIRE_THRESHOLD < length (ht_retired ts @ [p])")
    case False
    then have "hz_retire th Push_ok p act s = Some (Inr [], s1)"
      by (simp add: hz_retire_def Let_def ts_def [symmetric] s1_def)
    with 1 same False show ?thesis by (intro exI [of _ "[]"] exI [of _ s1]) simp
  next
    case True
    have th1: "th < length (hz_tls s1)" using th same by simp
    obtain fs s' where r: "scan th s1 = Some (fs, s')" "hazard_ok s'"
      "hz_pending s1 = hz_pending s' + mset fs" "\<forall>x \<in> set fs. fst x \<notin> published s1"
      "published s' = published s1"
      "ht_retired (htls s' th) = filter (\<lambda>p. p \<in> published s1) (ht_retired (htls s1 th))"
      "\<forall>t. t \<noteq> th \<longrightarrow> htls s' t = htls s1 t" "length (hz_tls s') = length (hz_tls s1)"
      using scan_spec [OF 1(1) th1] by blast
    have "hz_retire th Push_ok p act s = Some (Inr fs, s')"
      using True r(1) by (simp add: hz_retire_def Let_def ts_def [symmetric] s1_def)
    with 1 r same show ?thesis by (intro exI [of _ fs] exI [of _ s']) auto
  qed
qed

lemma hz_retire_throw_spec:
  assumes ok: "hazard_ok s" and th: "th < length (hz_tls s)" and pu: "pu \<noteq> Push_ok"
  shows "hz_retire th pu p act s = Some (Inl Bad_alloc, s)"
proof -
  define ts where "ts = htls s th"
  have len: "length (ht_actions ts) = length (ht_retired ts)"
    using hazard_ok_ht [OF ok th] by (simp add: ht_ok_def ts_def)
  have "ts\<lparr>ht_retired := ht_retired ts, ht_actions := ht_actions ts\<rparr> = ts" by simp
  moreover have "(put_htls th ts (s\<lparr>hz_outstanding := hz_outstanding s + 1\<rparr>))
      \<lparr>hz_outstanding := hz_outstanding s\<rparr> = s"
    using th by (simp add: put_htls_def ts_def)
  ultimately show ?thesis using pu len
    by (cases pu) (auto simp: hz_retire_def Let_def ts_def [symmetric])
qed

lemma hz_drain_all_spec:
  assumes ok: "hazard_ok s" and th: "th < length (hz_tls s)"
  shows "\<exists>fs s'. hz_drain_all th s = Some (fs, s') \<and> hazard_ok s' \<and>
    hz_pending s = hz_pending s' + mset fs \<and> ht_pending (htls s' th) = {#} \<and>
    hz_late s' = rev (filter (\<lambda>x. fst x \<in> published s) (hz_late s)) \<and>
    (\<forall>t. t \<noteq> th \<longrightarrow> htls s' t = htls s t) \<and> length (hz_tls s') = length (hz_tls s)"
proof -
  obtain fs1 s1 where d: "drain_late_retire s = (fs1, s1)" by force
  note d' = drain_late_retire_spec [OF ok d]
  define ts where "ts = htls s1 th"
  have th1: "th < length (hz_tls s1)" using th d' by simp
  have len: "length (ht_actions ts) = length (ht_retired ts)"
    using hazard_ok_ht [OF _ th1] d' by (simp add: ht_ok_def ts_def)
  define ts' where "ts' = ts\<lparr>ht_retired := [], ht_actions := []\<rparr>"
  define fs2 where "fs2 = zip (ht_retired ts) (ht_actions ts)"
  define s2 where "s2 = (put_htls th ts' s1)\<lparr>hz_outstanding :=
    hz_outstanding s1 - of_nat (length (ht_retired ts))\<rparr>"
  have run: "hz_drain_all th s = Some (fs1 @ fs2, s2)"
    using d len by (simp add: hz_drain_all_def ts_def [symmetric] s2_def ts'_def fs2_def put_htls_def)
  have tok: "ht_ok ts'" and pe: "ht_pending ts' = {#}" by (simp_all add: ts'_def ht_ok_def ht_pending_def)
  have "mset fs2 = ht_pending ts" "length fs2 = length (ht_retired ts)"
    using len by (simp_all add: fs2_def ht_pending_def)
  then have p: "hz_pending s1 = hz_pending s2 + mset fs2" and fl: "length fs2 = length (ht_retired ts)"
    using hz_pending_put [OF th1, of ts'] pe by (simp_all add: s2_def ts_def)
  from p have "size (hz_pending s1) = size (hz_pending s2) + size (mset fs2)" by simp
  then have sz: "size (hz_pending s1) = size (hz_pending s2) + length (ht_retired ts)"
    using fl by simp
  have "slots_ok (put_htls th ts' s1)" using d' by (simp add: ts'_def ts_def hazard_ok_def)
  then have "hazard_ok s2"
    using d' sz ht_ok_put [OF _ tok, of s1 th] by (simp add: hazard_ok_def s2_def)
  moreover have "htls s2 th = ts'" "\<And>t. t \<noteq> th \<Longrightarrow> htls s2 t = htls s t"
    using th1 d' by (simp_all add: s2_def)
  moreover have "hz_pending s = hz_pending s2 + mset (fs1 @ fs2)" using d' p by simp
  moreover have "hz_late s2 = hz_late s1" "length (hz_tls s2) = length (hz_tls s)"
    using d' by (simp_all add: s2_def)
  ultimately show ?thesis using run pe d' by (intro exI [of _ "fs1 @ fs2"] exI [of _ s2]) simp
qed

text \<open>
  Once every thread has left its slot and its list, \<open>drain_all\<close> leaves nothing pending.
\<close>

lemma hz_pending_all_empty:
  assumes "hz_late s = []" and "\<And>t. t < length (hz_tls s) \<Longrightarrow> ht_pending (htls s t) = {#}"
  shows "hz_pending s = {#}"
proof -
  have "sum_list (map ht_pending (hz_tls s)) = {#}"
    by (rule sum_list_all_empty) (use assms(2) in \<open>auto simp: in_set_conv_nth\<close>)
  then show ?thesis using assms(1) by (simp add: hz_pending_def)
qed

text \<open>
  The late chain of \<open>finalize_thread\<close>: what the thread still holds moves to the chain.
\<close>

definition orphan_rest :: "thread \<Rightarrow> 'act hazard \<Rightarrow> 'act hazard" where
  "orphan_rest th s =
     (let ts = htls s th in
      (put_htls th (ts\<lparr>ht_retired := [], ht_actions := []\<rparr>) s)
        \<lparr>hz_late := zip (ht_retired ts) (ht_actions ts) @ hz_late s\<rparr>)"

lemma orphan_rest_spec:
  assumes ok: "hazard_ok s" and th: "th < length (hz_tls s)"
  defines "s' \<equiv> orphan_rest th s"
  shows "hazard_ok s' \<and> hz_pending s' = hz_pending s \<and> hz_slots s' = hz_slots s \<and>
    htls s' th = (htls s th)\<lparr>ht_retired := [], ht_actions := []\<rparr> \<and>
    (\<forall>t. t \<noteq> th \<longrightarrow> htls s' t = htls s t) \<and> length (hz_tls s') = length (hz_tls s)"
proof -
  define ts where "ts = htls s th"
  define ts' where "ts' = ts\<lparr>ht_retired := [], ht_actions := []\<rparr>"
  have s': "s' = (put_htls th ts' s)\<lparr>hz_late := zip (ht_retired ts) (ht_actions ts) @ hz_late s\<rparr>"
    by (simp add: s'_def orphan_rest_def ts_def ts'_def Let_def)
  have tok: "ht_ok ts'" and pe: "ht_pending ts' = {#}" by (simp_all add: ts'_def ht_ok_def ht_pending_def)
  have "hz_pending (put_htls th ts' s) + ht_pending ts = hz_pending s"
    using hz_pending_put [OF th, of ts'] pe by (simp add: ts_def)
  moreover have "hz_pending s' = hz_pending (put_htls th ts' s) + ht_pending ts"
    by (simp add: s' hz_pending_def ht_pending_def)
  ultimately have p: "hz_pending s' = hz_pending s" by simp
  have "slots_ok (put_htls th ts' s)" using ok by (simp add: ts'_def ts_def hazard_ok_def)
  then have "slots_ok s'" by (simp add: s')
  moreover have "hz_outstanding s' = hz_outstanding s" "hz_tls s' = hz_tls (put_htls th ts' s)"
    by (simp_all add: s')
  ultimately have "hazard_ok s'"
    using ok ht_ok_put [OF ok tok, of th] p by (simp add: hazard_ok_def)
  with p th show ?thesis by (simp add: s' ts'_def ts_def)
qed

lemma hz_finalize_thread_spec:
  assumes ok: "hazard_ok s" and th: "th < length (hz_tls s)"
  shows "\<exists>fs s'. hz_finalize_thread th s = Some (fs, s') \<and> hazard_ok s' \<and>
    hz_pending s = hz_pending s' + mset fs \<and> (\<forall>x \<in> set fs. fst x \<notin> published s) \<and>
    htls s' th = new_hz_thread \<and> owned s' = {i \<in> owned s. int i \<noteq> ht_slot (htls s th)} \<and>
    (\<forall>t. t \<noteq> th \<longrightarrow> htls s' t = htls s t) \<and> length (hz_tls s') = length (hz_tls s)"
proof -
  obtain fs s1 where r: "scan th s = Some (fs, s1)" "hazard_ok s1"
    "hz_pending s = hz_pending s1 + mset fs" "\<forall>x \<in> set fs. fst x \<notin> published s"
    "ht_slot (htls s1 th) = ht_slot (htls s th)" "hz_slots s1 = hz_slots s"
    "\<forall>t. t \<noteq> th \<longrightarrow> htls s1 t = htls s t" "length (hz_tls s1) = length (hz_tls s)"
    using scan_spec [OF ok th] by blast
  have th1: "th < length (hz_tls s1)" using th r(8) by simp
  have al: "length (ht_actions (htls s1 th)) = length (ht_retired (htls s1 th))"
    using hazard_ok_ht [OF r(2) th1] by (simp add: ht_ok_def)
  define s2 where "s2 = orphan_rest th s1"
  note o = orphan_rest_spec [OF r(2) th1, folded s2_def]
  have s2: "(if ht_retired (htls s1 th) = [] then s1 else s2) = s2"
  proof (cases "ht_retired (htls s1 th) = []")
    case True
    with al have "(htls s1 th)\<lparr>ht_retired := [], ht_actions := []\<rparr> = htls s1 th" by simp
    with True show ?thesis using th1 by (simp add: s2_def orphan_rest_def put_htls_def)
  qed simp
  have th2: "th < length (hz_tls s2)" using o th1 by simp
  have "slots_ok s2" using o by (simp add: hazard_ok_def)
  note e = release_slot_spec [OF this th2]
  define s3 where "s3 = release_slot th s2"
  have run: "hz_finalize_thread th s = Some (fs, s3)"
    using r(1) s2 al unfolding hz_finalize_thread_def s3_def
    by (cases "ht_retired (htls s1 th) = []") (simp_all add: s2_def orphan_rest_def Let_def)
  have t3: "htls s3 th = new_hz_thread"
    using e o by (simp add: s3_def new_hz_thread_def)
  have "map ht_pending (hz_tls s3) = map ht_pending (hz_tls s2)"
  proof (rule nth_equalityI)
    fix t assume "t < length (map ht_pending (hz_tls s3))"
    then show "map ht_pending (hz_tls s3) ! t = map ht_pending (hz_tls s2) ! t"
      using e o t3 by (cases "t = th") (simp_all add: s3_def ht_pending_def new_hz_thread_def)
  qed (use e in \<open>simp add: s3_def\<close>)
  then have p: "hz_pending s3 = hz_pending s2" using e by (simp add: hz_pending_def s3_def)
  have "ht_ok (htls s3 t)" if "t < length (hz_tls s3)" for t
    using that e o t3 hazard_ok_ht [of s2 t]
    by (cases "t = th") (simp_all add: s3_def ht_ok_def new_hz_thread_def)
  then have "hazard_ok s3"
    using e o p by (auto simp: hazard_ok_def s3_def in_set_conv_nth)
  moreover have "owned s2 = owned s" using o r(6) by (simp add: owned_def)
  ultimately show ?thesis
    using run r o e p t3 by (intro exI [of _ fs] exI [of _ s3]) (simp add: s3_def)
qed

text \<open>A scan leaves at most the published pointers: the retire lists stay bounded.\<close>

lemma card_published: "slots_ok s \<Longrightarrow> card (published s) \<le> HAZARD_POINTERS * unat (hz_count s)"
proof -
  assume s: "slots_ok s"
  have fin: "finite (owned s)" using owned_subset finite_subset by blast
  have "card (published s) \<le> (\<Sum>i \<in> owned s. card (set (hs_hp (hz_slots s ! i))))"
    unfolding published_def by (rule card_UN_le [OF fin])
  also have "\<dots> \<le> (\<Sum>i \<in> owned s. HAZARD_POINTERS)"
    using s by (intro sum_mono) (metis (no_types, lifting) card_length mem_Collect_eq owned_def slots_ok_def)
  also have "\<dots> = HAZARD_POINTERS * unat (hz_count s)" using card_owned [OF s] by simp
  finally show ?thesis .
qed

subsection \<open>Publishing a pointer\<close>

text \<open>What \<open>protect\<close> needs: a slot of the thread's own, or a free one and a usable owner number.\<close>

definition slot_available :: "thread \<Rightarrow> 'act hazard \<Rightarrow> bool" where
  "slot_available th s \<longleftrightarrow> ht_slot (htls s th) \<noteq> - 1 \<or>
     (owned s \<noteq> {..<MAX_THREADS} \<and> hz_next_owner s \<noteq> - 1)"

text \<open>Retiring, scanning and draining do not touch the slots.\<close>

definition slots_same :: "'act hazard \<Rightarrow> 'act hazard \<Rightarrow> bool" where
  "slots_same s s' \<longleftrightarrow> hz_slots s' = hz_slots s \<and> hz_next_owner s' = hz_next_owner s \<and>
     map ht_slot (hz_tls s') = map ht_slot (hz_tls s)"

lemma slots_same_put:
  "ht_slot ts = ht_slot (htls s th) \<Longrightarrow> slots_same s (put_htls th ts s)"
  by (cases "th < length (hz_tls s)")
    (simp_all add: slots_same_def map_update list_update_same_conv list_update_beyond put_htls_def)

lemma slots_same_simps [simp]:
  "slots_same s s" "slots_same s (s'\<lparr>hz_outstanding := n\<rparr>) = slots_same s s'"
  "slots_same s (s'\<lparr>hz_late := l\<rparr>) = slots_same s s'"
  "slots_same (s\<lparr>hz_outstanding := n\<rparr>) s' = slots_same s s'"
  by (simp_all add: slots_same_def)

lemma slots_same_trans: "slots_same s s' \<Longrightarrow> slots_same s' s'' \<Longrightarrow> slots_same s s''"
  by (simp add: slots_same_def)

lemma slots_same_drain_late: "drain_late_retire s = (fs, s') \<Longrightarrow> slots_same s s' \<and> hz_tls s' = hz_tls s"
  by (auto simp: drain_late_retire_def Let_def)

lemma slots_same_scan:
  assumes "scan th s = Some (fs, s')" shows "slots_same s s'"
proof -
  obtain fs1 s1 where d: "drain_late_retire s = (fs1, s1)" by force
  obtain kept ret act fs2 where l: "scan_loop (is_protected s1) (length (ht_retired (htls s1 th))) 0 0
      (ht_retired (htls s1 th)) (ht_actions (htls s1 th)) [] = Some (kept, ret, act, fs2)"
    using assms d by (auto simp: scan_def Let_def split: bind_splits)
  define ts where "ts = (htls s1 th)\<lparr>ht_retired := take kept ret, ht_actions := take kept act\<rparr>"
  have "s' = put_htls th ts (s1\<lparr>hz_outstanding := hz_outstanding s1 - of_nat (length fs2)\<rparr>)"
    using assms d l by (simp add: scan_def ts_def)
  moreover have "slots_same (s1\<lparr>hz_outstanding := hz_outstanding s1 - of_nat (length fs2)\<rparr>)
      (put_htls th ts (s1\<lparr>hz_outstanding := hz_outstanding s1 - of_nat (length fs2)\<rparr>))"
    by (rule slots_same_put) (simp add: ts_def)
  ultimately show ?thesis using slots_same_drain_late [OF d] slots_same_trans by auto
qed

lemma slots_same_retire:
  assumes "hz_retire th Push_ok p act s = Some (r, s')" shows "slots_same s s'"
proof -
  define s1 where "s1 = s\<lparr>hz_outstanding := hz_outstanding s + 1\<rparr>"
  define ts where "ts = (htls s1 th)\<lparr>ht_retired := ht_retired (htls s1 th) @ [p],
    ht_actions := ht_actions (htls s1 th) @ [act]\<rparr>"
  have "slots_same s1 (put_htls th ts s1)" by (rule slots_same_put) (simp add: ts_def)
  then have 1: "slots_same s (put_htls th ts s1)" by (simp add: s1_def)
  have "s' = put_htls th ts s1 \<or> (\<exists>fs. scan th (put_htls th ts s1) = Some (fs, s'))"
    using assms by (auto simp: hz_retire_def Let_def ts_def s1_def split: if_splits bind_splits)
  with 1 show ?thesis using slots_same_scan slots_same_trans by blast
qed

lemma slots_same_drain_all:
  assumes "hz_drain_all th s = Some (fs, s')" shows "slots_same s s'"
proof -
  obtain fs1 s1 where d: "drain_late_retire s = (fs1, s1)" by force
  define ts where "ts = (htls s1 th)\<lparr>ht_retired := [], ht_actions := []\<rparr>"
  define n where "n = hz_outstanding s1 - of_nat (length (ht_retired (htls s1 th)))"
  have "s' = put_htls th ts (s1\<lparr>hz_outstanding := n\<rparr>)"
    using assms d by (simp add: hz_drain_all_def ts_def n_def Let_def split: if_splits)
  moreover have "slots_same (s1\<lparr>hz_outstanding := n\<rparr>) (put_htls th ts (s1\<lparr>hz_outstanding := n\<rparr>))"
    by (rule slots_same_put) (simp add: ts_def)
  ultimately show ?thesis using slots_same_drain_late [OF d] slots_same_trans by auto
qed

lemma slot_available_same:
  "slots_same s s' \<Longrightarrow> th < length (hz_tls s) \<Longrightarrow> slot_available th s' = slot_available th s"
  using nth_map [of th "hz_tls s" ht_slot] nth_map [of th "hz_tls s'" ht_slot]
    map_eq_imp_length_eq [of ht_slot "hz_tls s'" ht_slot "hz_tls s"]
  by (simp add: slot_available_def slots_same_def owned_def)

lemma set_hp_slots_ok:
  fixes p :: ptr and idx :: nat
  assumes "slots_ok s" and "i < MAX_THREADS"
  defines "sl \<equiv> hz_slots s ! i"
  defines "s' \<equiv> s\<lparr>hz_slots := (hz_slots s)[i := sl\<lparr>hs_hp := (hs_hp sl)[idx := p]\<rparr>]\<rparr>"
  shows "slots_ok s' \<and> owned s' = owned s"
proof -
  have len: "length (hz_slots s) = MAX_THREADS" using assms(1) by (simp add: slots_ok_def)
  have own: "hs_owner (hz_slots s' ! j) = hs_owner (hz_slots s ! j)" for j
    using len assms(2) by (cases "i = j") (simp_all add: s'_def sl_def)
  then have ow: "owned s' = owned s" by (simp add: owned_def)
  have hp: "length (hs_hp (hz_slots s' ! j)) = length (hs_hp (hz_slots s ! j))" for j
    using len assms(2) by (cases "i = j") (simp_all add: s'_def sl_def)
  have same: "hz_active s' = hz_active s" "hz_count s' = hz_count s" "hz_tls s' = hz_tls s"
    "active_list s' = active_list s" "length (hz_slots s') = length (hz_slots s)"
    by (simp_all add: s'_def active_list_def)
  show ?thesis using assms(1) by (simp add: slots_ok_def ow hp same)
qed

lemma protect_spec:
  assumes ok: "hazard_ok s" and th: "th < length (hz_tls s)" and av: "slot_available th s"
    and idx: "idx < HAZARD_POINTERS"
  shows "\<exists>s'. protect th idx p s = Some s' \<and> hazard_ok s' \<and> hz_pending s' = hz_pending s \<and>
    slot_available th s' \<and> p \<in> published s' \<and> length (hz_tls s') = length (hz_tls s)"
proof -
  have "slots_ok s" using ok by (simp add: hazard_ok_def)
  moreover have "\<exists>i s'. slot th s = Some (i, s') \<and> slots_ok s' \<and> i \<in> owned s' \<and>
      ht_slot (htls s' th) = int i \<and>
      (\<forall>t. t \<noteq> th \<longrightarrow> htls s' t = htls s t) \<and> length (hz_tls s') = length (hz_tls s) \<and>
      ht_retired (htls s' th) = ht_retired (htls s th) \<and>
      ht_actions (htls s' th) = ht_actions (htls s th) \<and>
      hz_late s' = hz_late s \<and> hz_outstanding s' = hz_outstanding s"
  proof (cases "ht_slot (htls s th) = - 1")
    case True
    then show ?thesis using slot_spec [OF calculation th] av by (auto simp: slot_available_def)
  next
    case False
    then obtain i where "i \<in> owned s" "ht_slot (htls s th) = int i"
      using calculation th by (auto simp: slots_ok_def)
    then show ?thesis using calculation by (intro exI [of _ i] exI [of _ s]) (simp add: slot_def)
  qed
  ultimately obtain i s1 where 1: "slot th s = Some (i, s1)" "slots_ok s1" "i \<in> owned s1"
    "ht_slot (htls s1 th) = int i" "\<forall>t. t \<noteq> th \<longrightarrow> htls s1 t = htls s t"
    "length (hz_tls s1) = length (hz_tls s)" "ht_retired (htls s1 th) = ht_retired (htls s th)"
    "ht_actions (htls s1 th) = ht_actions (htls s th)" "hz_late s1 = hz_late s"
    "hz_outstanding s1 = hz_outstanding s" by blast
  have i: "i < MAX_THREADS" using 1(3) by (simp add: owned_def)
  define s2 where "s2 = s1\<lparr>hz_slots := (hz_slots s1)
    [i := (hz_slots s1 ! i)\<lparr>hs_hp := (hs_hp (hz_slots s1 ! i))[idx := p]\<rparr>]\<rparr>"
  have s2: "slots_ok s2" "owned s2 = owned s1"
    using set_hp_slots_ok [OF 1(2) i, of idx p] by (simp_all add: s2_def)
  have tls: "ht_pending (htls s1 t) = ht_pending (htls s t) \<and> ht_ok (htls s1 t) = ht_ok (htls s t)" for t
    using 1(5,7,8) by (cases "t = th") (simp_all add: ht_pending_def ht_ok_def)
  then have "map ht_pending (hz_tls s1) = map ht_pending (hz_tls s)"
    using 1(6) by (intro nth_equalityI) simp_all
  then have pe: "hz_pending s2 = hz_pending s" using 1(9) by (simp add: hz_pending_def s2_def)
  have "\<forall>ts \<in> set (hz_tls s1). ht_ok ts"
    using tls 1(6) hazard_ok_ht [OF ok] by (auto simp: in_set_conv_nth)
  then have "hazard_ok s2" using ok s2(1) pe 1(10) by (simp add: hazard_ok_def) (simp add: s2_def)
  moreover have "protect th idx p s = Some s2" using 1(1) by (simp add: protect_def s2_def Let_def)
  moreover have "slot_available th s2" using 1(4) by (simp add: slot_available_def s2_def)
  moreover have "p \<in> published s2"
  proof -
    have "length (hz_slots s1) = MAX_THREADS" "length (hs_hp (hz_slots s1 ! i)) = HAZARD_POINTERS"
      using 1(2) i by (simp_all add: slots_ok_def)
    then have "p \<in> set (hs_hp (hz_slots s2 ! i))"
      using i idx by (simp add: s2_def set_update_memI)
    then show ?thesis using 1(3) s2(2) by (auto simp: published_def)
  qed
  ultimately show ?thesis using pe 1(6) by (intro exI [of _ s2]) (simp add: s2_def)
qed

end
