(* ===== verification/Reclaimer.thy ===== *)
theory Reclaimer
  imports EpochReclaim HazardReclaim
begin

section \<open>The reclaimer interface\<close>

text \<open>
  Both engines take the reclaimer as a template parameter and use the same members of it
  (\<open>detail/reclamation.hpp\<close> selects the scheme). The record \<open>reclaimer_ops\<close> holds them, with the
  calling thread fixed: the guard's constructor and destructor, \<open>protect\<close>, \<open>retire\<close>,
  \<open>drain_all\<close> and the constant \<open>NEEDS_REVALIDATION\<close>. The locale \<open>reclaim_contract\<close> states the
  contract the engines rely on: a retirement is taken over, nothing is lost, nothing is
  freed twice, and a failed retirement changes nothing. Both schemes are interpreted.
\<close>

record ('act, 'r) reclaimer_ops =
  rc_revalidate :: bool
  rc_enter :: "'r \<Rightarrow> 'r"
  rc_exit :: "'r \<Rightarrow> 'r"
  rc_protect :: "nat \<Rightarrow> ptr \<Rightarrow> 'r \<Rightarrow> 'r option"
  rc_retire :: "push \<Rightarrow> ptr \<Rightarrow> 'act \<Rightarrow> 'r \<Rightarrow> ((exn + (ptr \<times> 'act) list) \<times> 'r) option"
  rc_drain_all :: "'r \<Rightarrow> ((ptr \<times> 'act) list \<times> 'r) option"

text \<open>
  The epoch scheme never calls \<open>protect\<close> (\<open>NEEDS_REVALIDATION\<close> is false; the member is a
  stub there), the guard of the hazard scheme is empty.
\<close>

definition epoch_rc :: "thread \<Rightarrow> ('act, 'act epoch) reclaimer_ops" where
  "epoch_rc th = \<lparr>rc_revalidate = False, rc_enter = epoch_enter th, rc_exit = epoch_exit th,
     rc_protect = (\<lambda>i p s. Some s), rc_retire = retire th, rc_drain_all = drain_all th\<rparr>"

definition hazard_rc :: "thread \<Rightarrow> ('act, 'act hazard) reclaimer_ops" where
  "hazard_rc th = \<lparr>rc_revalidate = True, rc_enter = (\<lambda>s. s), rc_exit = (\<lambda>s. s),
     rc_protect = protect th, rc_retire = hz_retire th, rc_drain_all = hz_drain_all th\<rparr>"

text \<open>
  A run of the interface: the retirements that were accepted, and the actions that ran.
\<close>

datatype 'act rc_call = Retire push ptr 'act | Drain_all

fun rc_run ::
  "('act, 'r) reclaimer_ops \<Rightarrow> 'act rc_call list \<Rightarrow> 'r \<Rightarrow>
   ((ptr \<times> 'act) list \<times> (ptr \<times> 'act) list \<times> 'r) option" where
  "rc_run rc [] s = Some ([], [], s)"
| "rc_run rc (Retire pu p act # cs) s =
     do { (r, s) \<leftarrow> rc_retire rc pu p act s;
          (acc, fr, s) \<leftarrow> rc_run rc cs s;
          Some (case r of Inl _ \<Rightarrow> (acc, fr, s) | Inr fs \<Rightarrow> ((p, act) # acc, fs @ fr, s)) }"
| "rc_run rc (Drain_all # cs) s =
     do { (fs, s) \<leftarrow> rc_drain_all rc s;
          (acc, fr, s) \<leftarrow> rc_run rc cs s;
          Some (acc, fs @ fr, s) }"

lemma account_step:
  fixes x :: "'b"
  assumes "add_mset x P = P1 + mset fs" and "P1 + mset acc = P2 + mset fr"
  shows "P + mset (x # acc) = P2 + mset (fs @ fr)"
proof -
  have "P + mset (x # acc) = add_mset x P + mset acc" by simp
  also have "\<dots> = (P1 + mset acc) + mset fs" unfolding assms(1) by (simp add: ac_simps)
  also have "\<dots> = P2 + mset (fs @ fr)" unfolding assms(2) by (simp add: ac_simps)
  finally show ?thesis .
qed

lemma distinct_mset_le:
  assumes "mset xs \<subseteq># mset ys" and "distinct ys"
  shows "distinct xs"
proof -
  obtain zs where "mset ys = mset xs + mset zs"
    using assms(1) by (metis ex_mset mset_subset_eq_exists_conv)
  then have "mset ys = mset (xs @ zs)" by simp
  from mset_eq_imp_distinct_iff [OF this] assms(2) show ?thesis by simp
qed

locale reclaim_contract =
  fixes rc :: "('act, 'r) reclaimer_ops"
    and ok :: "'r \<Rightarrow> bool"
    and pend :: "'r \<Rightarrow> (ptr \<times> 'act) multiset"
  assumes retire_ok: "ok s \<Longrightarrow> \<exists>fs s'. rc_retire rc Push_ok p act s = Some (Inr fs, s') \<and> ok s' \<and>
      add_mset (p, act) (pend s) = pend s' + mset fs"
    and retire_throw: "ok s \<Longrightarrow> pu \<noteq> Push_ok \<Longrightarrow> rc_retire rc pu p act s = Some (Inl Bad_alloc, s)"
    and drain_all: "ok s \<Longrightarrow> \<exists>fs s'. rc_drain_all rc s = Some (fs, s') \<and> ok s' \<and>
      pend s = pend s' + mset fs"
    and enter_ok: "ok s \<Longrightarrow> ok (rc_enter rc s) \<and> pend (rc_enter rc s) = pend s"
    and exit_ok: "ok s \<Longrightarrow> ok (rc_exit rc s) \<and> pend (rc_exit rc s) = pend s"
    and protect_ok: "ok s \<Longrightarrow> i < HAZARD_POINTERS \<Longrightarrow>
      \<exists>s'. rc_protect rc i p s = Some s' \<and> ok s' \<and> pend s' = pend s"
begin

text \<open>Every call returns, and the accepted retirements are pending or have run, once each.\<close>

lemma run_accounting:
  "ok s \<Longrightarrow> \<exists>acc fr s'. rc_run rc cs s = Some (acc, fr, s') \<and> ok s' \<and>
     pend s + mset acc = pend s' + mset fr"
proof (induction cs arbitrary: s)
  case Nil
  then show ?case by simp
next
  case (Cons c cs)
  show ?case
  proof (cases c)
    case (Retire pu p act)
    show ?thesis
    proof (cases "pu = Push_ok")
      case True
      obtain fs s1 where 1: "rc_retire rc Push_ok p act s = Some (Inr fs, s1)" "ok s1"
        "add_mset (p, act) (pend s) = pend s1 + mset fs"
        using retire_ok [OF Cons.prems] by blast
      obtain acc fr s' where 2: "rc_run rc cs s1 = Some (acc, fr, s')" "ok s'"
        "pend s1 + mset acc = pend s' + mset fr" using Cons.IH [OF 1(2)] by blast
      have "pend s + mset ((p, act) # acc) = pend s' + mset (fs @ fr)"
        using 1(3) 2(3) by (rule account_step)
      with Retire True 1 2 show ?thesis by simp
    next
      case False
      then show ?thesis using Retire Cons.IH [OF Cons.prems] retire_throw [OF Cons.prems False] by auto
    qed
  next
    case Drain_all
    obtain fs s1 where 1: "rc_drain_all rc s = Some (fs, s1)" "ok s1" "pend s = pend s1 + mset fs"
      using drain_all [OF Cons.prems] by blast
    obtain acc fr s' where 2: "rc_run rc cs s1 = Some (acc, fr, s')" "ok s'"
      "pend s1 + mset acc = pend s' + mset fr" using Cons.IH [OF 1(2)] by blast
    have "pend s + mset acc = pend s' + mset (fs @ fr)"
      using 1(3) 2(3) by (simp add: ac_simps)
    with Drain_all 1 2 show ?thesis by simp
  qed
qed

text \<open>Objects retired at most once are freed at most once.\<close>

lemma no_double_free:
  assumes "ok s" and "pend s = {#}" and "rc_run rc cs s = Some (acc, fr, s')"
    and "distinct (map fst acc)"
  shows "distinct (map fst fr) \<and> set (map fst fr) \<subseteq> set (map fst acc)"
proof -
  have eq: "mset acc = pend s' + mset fr" using run_accounting [OF assms(1), of cs] assms(2,3) by auto
  then have "mset (map fst acc) = image_mset fst (pend s') + mset (map fst fr)"
    by (metis image_mset_union mset_map)
  then have le: "mset (map fst fr) \<subseteq># mset (map fst acc)" by simp
  from distinct_mset_le [OF this assms(4)] have "distinct (map fst fr)" .
  then show ?thesis using le by (metis set_mset_mono set_mset_mset)
qed

end

text \<open>The states in which a thread can use a scheme, and the pending retirements.\<close>

definition epoch_ready :: "thread \<Rightarrow> 'act epoch \<Rightarrow> bool" where
  "epoch_ready th s \<longleftrightarrow> epoch_ok s \<and> th < length (e_tls s)"

definition epoch_pending :: "'act epoch \<Rightarrow> (ptr \<times> 'act) multiset" where
  "epoch_pending s = image_mset (\<lambda>(p, a, t). (p, a)) (pending s)"

definition hazard_ready :: "thread \<Rightarrow> 'act hazard \<Rightarrow> bool" where
  "hazard_ready th s \<longleftrightarrow> hazard_ok s \<and> th < length (hz_tls s) \<and> slot_available th s"

interpretation er: reclaim_contract "epoch_rc th" "epoch_ready th" epoch_pending for th
proof (unfold_locales, unfold epoch_ready_def epoch_pending_def)
  have tg: "image_mset (\<lambda>(p, a, t). (p, a)) (tagged t fs) = mset fs" for t and fs :: "(ptr \<times> 'a) list"
    by (simp add: tagged_def multiset.map_comp comp_def case_prod_beta)
  fix s :: "'a epoch" and p act pu
  assume s: "epoch_ok s \<and> th < length (e_tls s)"
  then obtain fs s' where r: "retire th Push_ok p act s = Some (Inr fs, s')" "epoch_ok s'"
    "add_mset (p, act, local_epoch (tls s th)) (pending s) =
      pending s' + tagged ((e_global s + 1) mod EPOCHS) fs"
    "length (e_tls s') = length (e_tls s)"
    using retire_ok_spec [of s th p act] by blast
  have "image_mset (\<lambda>(p, a, t). (p, a)) (add_mset (p, act, local_epoch (tls s th)) (pending s)) =
      image_mset (\<lambda>(p, a, t). (p, a)) (pending s') + mset fs"
    unfolding r(3) by (simp only: image_mset_union tg)
  with r(1,2,4) s show "\<exists>fs s'. rc_retire (epoch_rc th) Push_ok p act s = Some (Inr fs, s') \<and>
      (epoch_ok s' \<and> th < length (e_tls s')) \<and>
      add_mset (p, act) (image_mset (\<lambda>(p, a, t). (p, a)) (pending s)) =
        image_mset (\<lambda>(p, a, t). (p, a)) (pending s') + mset fs"
    by (auto simp: epoch_rc_def)
  show "pu \<noteq> Push_ok \<Longrightarrow> rc_retire (epoch_rc th) pu p act s = Some (Inl Bad_alloc, s)"
    using s by (simp add: epoch_rc_def retire_throw_spec)
  obtain fs s' ps where d: "drain_all th s = Some (fs, s')" "epoch_ok s'"
    "pending s = pending s' + ps" "image_mset (\<lambda>(p, a, t). (p, a)) ps = mset fs"
    "length (e_tls s') = length (e_tls s)"
    using drain_all_spec [of s th] s by blast
  then have "image_mset (\<lambda>(p, a, t). (p, a)) (pending s) =
      image_mset (\<lambda>(p, a, t). (p, a)) (pending s') + mset fs" by simp
  with d s show "\<exists>fs s'. rc_drain_all (epoch_rc th) s = Some (fs, s') \<and>
      (epoch_ok s' \<and> th < length (e_tls s')) \<and>
      image_mset (\<lambda>(p, a, t). (p, a)) (pending s) =
        image_mset (\<lambda>(p, a, t). (p, a)) (pending s') + mset fs"
    by (auto simp: epoch_rc_def)
  show "(epoch_ok (rc_enter (epoch_rc th) s) \<and> th < length (e_tls (rc_enter (epoch_rc th) s))) \<and>
      image_mset (\<lambda>(p, a, t). (p, a)) (pending (rc_enter (epoch_rc th) s)) =
        image_mset (\<lambda>(p, a, t). (p, a)) (pending s)"
    using s by (simp add: epoch_rc_def epoch_enter_spec)
  show "(epoch_ok (rc_exit (epoch_rc th) s) \<and> th < length (e_tls (rc_exit (epoch_rc th) s))) \<and>
      image_mset (\<lambda>(p, a, t). (p, a)) (pending (rc_exit (epoch_rc th) s)) =
        image_mset (\<lambda>(p, a, t). (p, a)) (pending s)"
    using s by (simp add: epoch_rc_def epoch_exit_ok)
  fix i
  show "\<exists>s'. rc_protect (epoch_rc th) i p s = Some s' \<and> (epoch_ok s' \<and> th < length (e_tls s')) \<and>
      image_mset (\<lambda>(p, a, t). (p, a)) (pending s') = image_mset (\<lambda>(p, a, t). (p, a)) (pending s)"
    using s by (simp add: epoch_rc_def)
qed

interpretation hr: reclaim_contract "hazard_rc th" "hazard_ready th" hz_pending for th
proof (unfold_locales, unfold hazard_ready_def)
  fix s :: "'a hazard" and p act pu
  assume s: "hazard_ok s \<and> th < length (hz_tls s) \<and> slot_available th s"
  show "\<exists>fs s'. rc_retire (hazard_rc th) Push_ok p act s = Some (Inr fs, s') \<and>
      (hazard_ok s' \<and> th < length (hz_tls s') \<and> slot_available th s') \<and>
      add_mset (p, act) (hz_pending s) = hz_pending s' + mset fs"
    using hz_retire_ok_spec [of s th p act] s slots_same_retire slot_available_same
    by (fastforce simp: hazard_rc_def)
  show "pu \<noteq> Push_ok \<Longrightarrow> rc_retire (hazard_rc th) pu p act s = Some (Inl Bad_alloc, s)"
    using s by (simp add: hazard_rc_def hz_retire_throw_spec)
  show "\<exists>fs s'. rc_drain_all (hazard_rc th) s = Some (fs, s') \<and>
      (hazard_ok s' \<and> th < length (hz_tls s') \<and> slot_available th s') \<and>
      hz_pending s = hz_pending s' + mset fs"
    using hz_drain_all_spec [of s th] s slots_same_drain_all slot_available_same
    by (fastforce simp: hazard_rc_def)
  fix i
  assume "i < HAZARD_POINTERS"
  then show "\<exists>s'. rc_protect (hazard_rc th) i p s = Some s' \<and>
      (hazard_ok s' \<and> th < length (hz_tls s') \<and> slot_available th s') \<and> hz_pending s' = hz_pending s"
    using protect_spec [of s th i p] s by (auto simp: hazard_rc_def)
qed (simp_all add: hazard_rc_def)

end
