(* ===== verification/TreeModel.thy ===== *)
theory TreeModel
  imports NodePool Reclaimer
begin

section \<open>The red-black tree engine: nodes, locks, path and fixups\<close>

text \<open>
  \<open>class rb_tree\<close> of \<open>detail/rb_tree.hpp\<close> as it is written: nodes in a memory, child
  pointers, a lock bit per node, the stack of locked nodes, rotations that rewire pointers,
  and the two fixups. An operation is a function of the engine state (\<open>tree\<close>); it is
  undefined (\<open>None\<close>) when it dereferences a null or dangling pointer, overflows the path
  array, or spins on a lock that is held (alone, nothing will release it).

  The comparator \<open>Compare\<close> is the argument \<open>cmp\<close>, the reclaimer the record \<open>rc\<close>; the thread
  that runs the operation is \<open>th\<close> (it selects the pool shard).
\<close>

subsection \<open>State\<close>

datatype color = RED | BLACK

record ('k, 'v) node =
  n_left :: ptr
  n_right :: ptr
  n_locked :: bool
  n_color :: color
  n_key :: 'k
  n_value :: 'v
  n_owner :: alloc

text \<open>\<open>pool_link_left\<close>: a pooled node is linked through its left pointer.\<close>

definition pool_link_left :: "('k, 'v) node link" where
  "pool_link_left = \<lparr>link_get = n_left, link_set = (\<lambda>nd p. nd\<lparr>n_left := p\<rparr>), link_owner = n_owner\<rparr>"

interpretation tl: pool_link pool_link_left
  by unfold_locales (simp_all add: pool_link_left_def)

text \<open>
  The members of the engine (\<open>root_\<close>, \<open>count_\<close>, \<open>na_\<close>) and the statics it shares with the
  other engines of its type: memory, node pool and reclaimer.
\<close>

record ('k, 'v, 'r) tree =
  t_mem :: "('k, 'v) node mem"
  t_pool :: pool
  t_rc :: 'r
  t_root :: ptr
  t_count :: u64
  t_na :: alloc

definition TREE_MAX_HEIGHT :: nat where "TREE_MAX_HEIGHT = 256"

definition new_tree :: "alloc \<Rightarrow> ('k, 'v) node mem \<Rightarrow> pool \<Rightarrow> 'r \<Rightarrow> ('k, 'v, 'r) tree" where
  "new_tree a m p r = \<lparr>t_mem = m, t_pool = p, t_rc = r, t_root = 0, t_count = 0, t_na = a\<rparr>"

abbreviation node_at :: "('k, 'v, 'r) tree \<Rightarrow> ptr \<Rightarrow> ('k, 'v) node option" where
  "node_at t p \<equiv> load (t_mem t) p"

definition put_node :: "ptr \<Rightarrow> ('k, 'v) node \<Rightarrow> ('k, 'v, 'r) tree \<Rightarrow> ('k, 'v, 'r) tree" where
  "put_node p nd t = t\<lparr>t_mem := store p nd (t_mem t)\<rparr>"

definition set_left :: "ptr \<Rightarrow> ptr \<Rightarrow> ('k, 'v, 'r) tree \<Rightarrow> ('k, 'v, 'r) tree option" where
  "set_left p q t = do { nd \<leftarrow> node_at t p; Some (put_node p (nd\<lparr>n_left := q\<rparr>) t) }"

definition set_right :: "ptr \<Rightarrow> ptr \<Rightarrow> ('k, 'v, 'r) tree \<Rightarrow> ('k, 'v, 'r) tree option" where
  "set_right p q t = do { nd \<leftarrow> node_at t p; Some (put_node p (nd\<lparr>n_right := q\<rparr>) t) }"

definition set_color :: "ptr \<Rightarrow> color \<Rightarrow> ('k, 'v, 'r) tree \<Rightarrow> ('k, 'v, 'r) tree option" where
  "set_color p c t = do { nd \<leftarrow> node_at t p; Some (put_node p (nd\<lparr>n_color := c\<rparr>) t) }"

definition compare :: "('k \<Rightarrow> 'k \<Rightarrow> bool) \<Rightarrow> 'k \<Rightarrow> 'k \<Rightarrow> int" where
  "compare cmp a b = (if cmp a b then - 1 else if cmp b a then 1 else 0)"

definition is_black :: "ptr \<Rightarrow> ('k, 'v, 'r) tree \<Rightarrow> bool option" where
  "is_black n t = (if n = 0 then Some True else do { nd \<leftarrow> node_at t n; Some (n_color nd = BLACK) })"

subsection \<open>Locks\<close>

definition lock_node :: "ptr \<Rightarrow> ('k, 'v, 'r) tree \<Rightarrow> ('k, 'v, 'r) tree option" where
  "lock_node n t =
     do { nd \<leftarrow> node_at t n;
          if n_locked nd then None else Some (put_node n (nd\<lparr>n_locked := True\<rparr>) t) }"

definition unlock_node :: "ptr \<Rightarrow> ('k, 'v, 'r) tree \<Rightarrow> ('k, 'v, 'r) tree option" where
  "unlock_node n t =
     do { nd \<leftarrow> node_at t n; Some (put_node n (nd\<lparr>n_locked := False\<rparr>) t) }"

subsection \<open>Allocation\<close>

text \<open>
  \<open>alloc_node\<close> runs the constructor \<open>node()\<close>, which leaves the payload default-initialised:
  \<open>pl\<close> stands for that value. The container constructs the real payload over it.
\<close>

definition alloc_node ::
  "thread \<Rightarrow> ptr option \<Rightarrow> 'k \<times> 'v \<Rightarrow> ('k, 'v, 'r) tree \<Rightarrow>
   ((exn + ptr) \<times> ('k, 'v, 'r) tree) option" where
  "alloc_node th blk pl t =
     do {
       (r, m, p) \<leftarrow> acquire pool_link_left th (t_na t) blk (t_mem t) (t_pool t);
       let t = t\<lparr>t_mem := m, t_pool := p\<rparr>;
       case r of
         Inl e \<Rightarrow> Some (Inl e, t)
       | Inr n \<Rightarrow> Some (Inr n, put_node n \<lparr>n_left = 0, n_right = 0, n_locked = False, n_color = RED,
           n_key = fst pl, n_value = snd pl, n_owner = t_na t\<rparr> t)
     }"

definition construct_payload ::
  "ptr \<Rightarrow> 'k \<Rightarrow> 'v \<Rightarrow> ('k, 'v, 'r) tree \<Rightarrow> ('k, 'v, 'r) tree option" where
  "construct_payload n k v t =
     do { nd \<leftarrow> node_at t n; Some (put_node n (nd\<lparr>n_key := k, n_value := v\<rparr>) t) }"

text \<open>\<open>node::free_node\<close>: destroy the payload and give the block to the pool.\<close>

definition free_node :: "thread \<Rightarrow> ptr \<Rightarrow> ('k, 'v, 'r) tree \<Rightarrow> ('k, 'v, 'r) tree option" where
  "free_node th n t =
     do { (m, p) \<leftarrow> release pool_link_left th n (t_mem t) (t_pool t);
          Some (t\<lparr>t_mem := m, t_pool := p\<rparr>) }"

definition destroy_node :: "thread \<Rightarrow> ptr \<Rightarrow> ('k, 'v, 'r) tree \<Rightarrow> ('k, 'v, 'r) tree option" where
  "destroy_node th n t = free_node th n t"

text \<open>The actions that the reclaimer runs: every one of them is \<open>free_node\<close>.\<close>

fun run_actions :: "thread \<Rightarrow> (ptr \<times> unit) list \<Rightarrow> ('k, 'v, 'r) tree \<Rightarrow> ('k, 'v, 'r) tree option" where
  "run_actions th [] t = Some t"
| "run_actions th ((p, _) # fs) t = do { t \<leftarrow> free_node th p t; run_actions th fs t }"

definition retire_node ::
  "(unit, 'r) reclaimer_ops \<Rightarrow> thread \<Rightarrow> push \<Rightarrow> ptr \<Rightarrow> ('k, 'v, 'r) tree \<Rightarrow>
   ((exn + unit) \<times> ('k, 'v, 'r) tree) option" where
  "retire_node rc th pu n t =
     do {
       (r, s) \<leftarrow> rc_retire rc pu n () (t_rc t);
       let t = t\<lparr>t_rc := s\<rparr>;
       case r of
         Inl e \<Rightarrow> Some (Inl e, t)
       | Inr fs \<Rightarrow> do { t \<leftarrow> run_actions th fs t; Some (Inr (), t) }
     }"

subsection \<open>The locked path\<close>

text \<open>
  \<open>path_stack\<close>: the array \<open>nodes[0 .. depth)\<close>, kept with the most recent entry first, so that
  \<open>path ! 0\<close> is \<open>at(depth - 1)\<close>. An entry past the array is an undefined behaviour.
\<close>

type_synonym path_stack = "ptr list"

abbreviation depth :: "path_stack \<Rightarrow> nat" where "depth \<equiv> length"

definition path_push :: "ptr \<Rightarrow> path_stack \<Rightarrow> path_stack option" where
  "path_push n path = (if depth path < TREE_MAX_HEIGHT then Some (n # path) else None)"

definition path_top :: "path_stack \<Rightarrow> ptr option" where
  "path_top path = (case path of [] \<Rightarrow> None | n # _ \<Rightarrow> Some n)"

definition path_at :: "nat \<Rightarrow> path_stack \<Rightarrow> ptr option" where
  "path_at i path = (if i < depth path then Some (path ! (depth path - 1 - i)) else None)"

definition path_set :: "nat \<Rightarrow> ptr \<Rightarrow> path_stack \<Rightarrow> path_stack option" where
  "path_set i n path = (if i < depth path then Some (path[depth path - 1 - i := n]) else None)"

fun unlock_path :: "path_stack \<Rightarrow> ('k, 'v, 'r) tree \<Rightarrow> ('k, 'v, 'r) tree option" where
  "unlock_path [] t = Some t"
| "unlock_path (n # path) t = do { t \<leftarrow> unlock_node n t; unlock_path path t }"

text \<open>
  The descent from a locked node. The result of \<open>lock_path\<close> is 1 (found), 0 (the top of the
  path is the parent, \<open>side\<close> the position) or -1 (empty tree, or the path array is full).
\<close>

partial_function (option) lock_descend ::
  "('k \<Rightarrow> 'k \<Rightarrow> bool) \<Rightarrow> 'k \<Rightarrow> ptr \<Rightarrow> path_stack \<Rightarrow> ('k, 'v, 'r) tree \<Rightarrow>
   (int \<times> path_stack \<times> int \<times> ('k, 'v, 'r) tree) option" where
  "lock_descend cmp k cur path t =
     do {
       nd \<leftarrow> node_at t cur;
       let c = compare cmp k (n_key nd);
       if c = 0 then Some (1, path, 0, t)
       else do {
         let child = (if c < 0 then n_left nd else n_right nd);
         if child = 0 then Some (0, path, if c < 0 then 0 else 1, t)
         else if TREE_MAX_HEIGHT \<le> depth path then do {
           t \<leftarrow> unlock_path path t;
           Some (- 1, [], 0, t)
         }
         else do {
           t \<leftarrow> lock_node child t;
           path \<leftarrow> path_push child path;
           lock_descend cmp k child path t
         }
       }
     }"

definition lock_path ::
  "('k \<Rightarrow> 'k \<Rightarrow> bool) \<Rightarrow> 'k \<Rightarrow> ('k, 'v, 'r) tree \<Rightarrow>
   (int \<times> path_stack \<times> int \<times> ('k, 'v, 'r) tree) option" where
  "lock_path cmp k t =
     (let cur = t_root t in
      if cur = 0 then Some (- 1, [], 0, t)
      else do {
        t \<leftarrow> lock_node cur t;
        path \<leftarrow> path_push cur [];
        lock_descend cmp k cur path t
      })"

subsection \<open>Rotations\<close>

definition rotate_inner :: "ptr \<Rightarrow> ptr \<Rightarrow> int \<Rightarrow> ('k, 'v, 'r) tree \<Rightarrow> ('k, 'v, 'r) tree option" where
  "rotate_inner p n side t =
     (if side = 0 then do {
        nd \<leftarrow> node_at t n;
        let middle = n_right nd;
        t \<leftarrow> set_right n p t;
        set_left p middle t
      }
      else do {
        nd \<leftarrow> node_at t n;
        let middle = n_left nd;
        t \<leftarrow> set_left n p t;
        set_right p middle t
      })"

definition rewire_child :: "ptr \<Rightarrow> ptr \<Rightarrow> ptr \<Rightarrow> ('k, 'v, 'r) tree \<Rightarrow> ('k, 'v, 'r) tree option" where
  "rewire_child parent old_child new_child t =
     do {
       nd \<leftarrow> node_at t parent;
       if n_left nd = old_child then set_left parent new_child t else set_right parent new_child t
     }"

text \<open>\<open>NOT_IN_PATH\<close> is \<open>None\<close>.\<close>

definition rotate ::
  "ptr \<Rightarrow> int \<Rightarrow> path_stack \<Rightarrow> nat option \<Rightarrow> ('k, 'v, 'r) tree \<Rightarrow> ('k, 'v, 'r) tree option" where
  "rotate p side path p_index t =
     do {
       nd \<leftarrow> node_at t p;
       let n = (if side = 0 then n_left nd else n_right nd);
       t \<leftarrow> rotate_inner p n side t;
       case p_index of
         None \<Rightarrow> Some t
       | Some i \<Rightarrow>
           if 0 < i then do { q \<leftarrow> path_at (i - 1) path; rewire_child q p n t }
           else Some (t\<lparr>t_root := n\<rparr>)
     }"

subsection \<open>Insert fixup\<close>

definition child_of :: "ptr \<Rightarrow> bool \<Rightarrow> ('k, 'v, 'r) tree \<Rightarrow> ptr option" where
  "child_of p lft t = do { nd \<leftarrow> node_at t p; Some (if lft then n_left nd else n_right nd) }"

definition is_red_node :: "ptr \<Rightarrow> ('k, 'v, 'r) tree \<Rightarrow> bool option" where
  "is_red_node n t = (if n = 0 then Some False else do { nd \<leftarrow> node_at t n; Some (n_color nd = RED) })"

partial_function (option) fixup_insert ::
  "path_stack \<Rightarrow> ('k, 'v, 'r) tree \<Rightarrow> (path_stack \<times> ('k, 'v, 'r) tree) option" where
  "fixup_insert path t =
     (if depth path < 3 then Some (path, t)
      else do {
        x \<leftarrow> path_top path;
        p \<leftarrow> path_at (depth path - 2) path;
        pn \<leftarrow> node_at t p;
        if n_color pn \<noteq> RED then Some (path, t)
        else do {
          g \<leftarrow> path_at (depth path - 3) path;
          gn \<leftarrow> node_at t g;
          let p_is_left = (p = n_left gn);
          let uncle = (if p_is_left then n_right gn else n_left gn);
          uncle_red \<leftarrow> is_red_node uncle t;
          if uncle_red then do {
            t \<leftarrow> lock_node uncle t;
            t \<leftarrow> set_color p BLACK t;
            t \<leftarrow> set_color uncle BLACK t;
            t \<leftarrow> set_color g RED t;
            t \<leftarrow> unlock_node uncle t;
            t \<leftarrow> unlock_node x t;
            t \<leftarrow> unlock_node p t;
            fixup_insert (drop 2 path) t
          }
          else do {
            inner \<leftarrow> child_of p (\<not> p_is_left) t;
            (x, p, path, t) \<leftarrow>
              (if x = inner then do {
                 t \<leftarrow> rotate p (if p_is_left then 1 else 0) path (Some (depth path - 2)) t;
                 path \<leftarrow> path_set (depth path - 2) x path;
                 path \<leftarrow> path_set (depth path - 1) p path;
                 let x = p;
                 p \<leftarrow> path_at (depth path - 2) path;
                 Some (x, p, path, t)
               }
               else Some (x, p, path, t));
            t \<leftarrow> set_color p BLACK t;
            t \<leftarrow> set_color g RED t;
            t \<leftarrow> rotate g (if p_is_left then 0 else 1) path (Some (depth path - 3)) t;
            t \<leftarrow> unlock_node g t;
            path \<leftarrow> path_set (depth path - 3) p path;
            q \<leftarrow> path_at (depth path - 1) path;
            t \<leftarrow> unlock_node q t;
            Some (drop 2 path, t)
          }
        }
      })"

subsection \<open>Delete fixup\<close>

partial_function (option) fixup_delete ::
  "path_stack \<Rightarrow> ptr \<Rightarrow> int \<Rightarrow> ('k, 'v, 'r) tree \<Rightarrow> (path_stack \<times> ('k, 'v, 'r) tree) option" where
  "fixup_delete path x x_side t =
     (if depth path = 0 then do {
        let r = t_root t;
        t \<leftarrow> (if r \<noteq> 0 then do {
                 t \<leftarrow> lock_node r t;
                 t \<leftarrow> set_color r BLACK t;
                 unlock_node r t
               }
               else Some t);
        Some (path, t)
      }
      else do {
        x_red \<leftarrow> is_red_node x t;
        if x_red then do { t \<leftarrow> set_color x BLACK t; Some (path, t) }
        else do {
          p \<leftarrow> path_top path;
          w \<leftarrow> child_of p (x_side \<noteq> 0) t;
          w_red \<leftarrow> is_red_node w t;
          if w_red then do {
            t \<leftarrow> lock_node w t;
            t \<leftarrow> set_color w BLACK t;
            t \<leftarrow> set_color p RED t;
            t \<leftarrow> rotate p (1 - x_side) path (Some (depth path - 1)) t;
            path \<leftarrow> path_set (depth path - 1) w path;
            path \<leftarrow> path_push p path;
            fixup_delete path x x_side t
          }
          else do {
            near \<leftarrow> (if w = 0 then Some 0 else child_of w (x_side = 0) t);
            far \<leftarrow> (if w = 0 then Some 0 else child_of w (x_side \<noteq> 0) t);
            near_black \<leftarrow> is_black near t;
            far_black \<leftarrow> is_black far t;
            (w, far, w_locked, t) \<leftarrow>
              (if w \<noteq> 0 \<and> \<not> near_black \<and> far_black then do {
                 t \<leftarrow> lock_node w t;
                 t \<leftarrow> lock_node near t;
                 t \<leftarrow> set_color near BLACK t;
                 t \<leftarrow> set_color w RED t;
                 t \<leftarrow> rotate w (if x_side = 0 then 0 else 1) path None t;
                 t \<leftarrow> rewire_child p w near t;
                 t \<leftarrow> unlock_node w t;
                 far \<leftarrow> child_of near (x_side \<noteq> 0) t;
                 Some (near, far, True, t)
               }
               else Some (w, far, False, t));
            w_black \<leftarrow> is_black w t;
            if w = 0 \<or> w_black then do {
              far_black \<leftarrow> is_black far t;
              if w = 0 \<or> far_black then do {
                t \<leftarrow> (if w \<noteq> 0 then do {
                         t \<leftarrow> (if \<not> w_locked then lock_node w t else Some t);
                         t \<leftarrow> set_color w RED t;
                         if \<not> w_locked then unlock_node w t else Some t
                       }
                       else Some t);
                let oldp = p;
                let x = oldp;
                let path = tl path;
                t \<leftarrow> unlock_node oldp t;
                x_side \<leftarrow> (if 1 \<le> depth path then do {
                    gp \<leftarrow> path_top path;
                    gl \<leftarrow> child_of gp True t;
                    Some (if gl = x then 0 else 1)
                  }
                  else Some x_side);
                fixup_delete path x x_side t
              }
              else do {
                t \<leftarrow> (if \<not> w_locked then lock_node w t else Some t);
                t \<leftarrow> (if far \<noteq> 0 then lock_node far t else Some t);
                pn \<leftarrow> node_at t p;
                t \<leftarrow> set_color w (n_color pn) t;
                t \<leftarrow> set_color p BLACK t;
                t \<leftarrow> (if far \<noteq> 0 then do { t \<leftarrow> set_color far BLACK t; unlock_node far t } else Some t);
                t \<leftarrow> rotate p (1 - x_side) path (Some (depth path - 1)) t;
                path \<leftarrow> path_set (depth path - 1) w path;
                t \<leftarrow> unlock_node p t;
                Some (path, t)
              }
            }
            else Some (path, t)
          }
        }
      })"

subsection \<open>Insert\<close>

text \<open>The last step of both updates: the root is made black.\<close>

definition blacken_root :: "path_stack \<Rightarrow> ('k, 'v, 'r) tree \<Rightarrow> ('k, 'v, 'r) tree option" where
  "blacken_root path t =
     (let r2 = t_root t in
      if r2 \<noteq> 0 then
        (if depth path = 0 then do {
           t \<leftarrow> lock_node r2 t;
           t \<leftarrow> set_color r2 BLACK t;
           unlock_node r2 t
         }
         else set_color r2 BLACK t)
      else Some t)"

text \<open>The body of \<open>insert_node\<close> once the path to the parent is locked.\<close>

definition insert_below ::
  "ptr \<Rightarrow> path_stack \<Rightarrow> int \<Rightarrow> ('k, 'v, 'r) tree \<Rightarrow> ('k, 'v, 'r) tree option" where
  "insert_below n path side t =
     do {
       parent \<leftarrow> path_top path;
       t \<leftarrow> lock_node n t;
       t \<leftarrow> (if side = 0 then set_left parent n t else set_right parent n t);
       t \<leftarrow> set_color n RED t;
       path \<leftarrow> path_push n path;
       (path, t) \<leftarrow> fixup_insert path t;
       t \<leftarrow> blacken_root path t;
       unlock_path path t
     }"

text \<open>
  The \<open>continue\<close> after a failed compare-and-swap is a call of the whole function: with a
  full path array and nobody else to change the tree it never ends.
\<close>

partial_function (option) insert_node ::
  "('k \<Rightarrow> 'k \<Rightarrow> bool) \<Rightarrow> ptr \<Rightarrow> 'k \<Rightarrow> ('k, 'v, 'r) tree \<Rightarrow> (bool \<times> ('k, 'v, 'r) tree) option" where
  "insert_node cmp n k t =
     do {
       (r, path, side, t) \<leftarrow> lock_path cmp k t;
       if r = 1 then do { t \<leftarrow> unlock_path path t; Some (False, t) }
       else if r < 0 then
         (if t_root t = 0 then do {
            let t = t\<lparr>t_root := n\<rparr>;
            t \<leftarrow> set_color n BLACK t;
            Some (True, t\<lparr>t_count := t_count t + 1\<rparr>)
          }
          else insert_node cmp n k t)
       else do {
         t \<leftarrow> insert_below n path side t;
         Some (True, t\<lparr>t_count := t_count t + 1\<rparr>)
       }
     }"

subsection \<open>Erase\<close>

text \<open>
  The walk to the in-order successor; the second component is \<open>None\<close> when the path array is
  full and the operation starts again.
\<close>

partial_function (option) lock_successor ::
  "ptr \<Rightarrow> path_stack \<Rightarrow> ('k, 'v, 'r) tree \<Rightarrow>
   ((ptr \<times> path_stack) option \<times> ('k, 'v, 'r) tree) option" where
  "lock_successor succ path t =
     do {
       l \<leftarrow> child_of succ True t;
       if l = 0 then Some (Some (succ, path), t)
       else if TREE_MAX_HEIGHT \<le> depth path then do {
         t \<leftarrow> unlock_path path t;
         Some (None, t)
       }
       else do {
         t \<leftarrow> lock_node l t;
         path \<leftarrow> path_push l path;
         lock_successor l path t
       }
     }"

text \<open>The removal when the target has at most one child.\<close>

definition erase_unlink ::
  "path_stack \<Rightarrow> ptr \<Rightarrow> ptr \<Rightarrow> ('k, 'v, 'r) tree \<Rightarrow> (path_stack \<times> ('k, 'v, 'r) tree) option" where
  "erase_unlink path target child t =
     do {
       x_side \<leftarrow> (if 2 \<le> depth path then do {
           q \<leftarrow> path_at (depth path - 2) path;
           l \<leftarrow> child_of q True t;
           Some (if l = target then 0 else 1)
         }
         else Some 1);
       t \<leftarrow> (if 2 \<le> depth path then do {
                q \<leftarrow> path_at (depth path - 2) path;
                rewire_child q target child t
              }
              else Some (t\<lparr>t_root := child\<rparr>));
       let path = tl path;
       t \<leftarrow> unlock_node target t;
       tn \<leftarrow> node_at t target;
       (path, t) \<leftarrow> (if n_color tn = BLACK then fixup_delete path child x_side t else Some (path, t));
       t \<leftarrow> blacken_root path t;
       t \<leftarrow> unlock_path path t;
       Some (path, t)
     }"

text \<open>
  The removal when it has two: the successor is unlinked and takes the target's place and
  colour. The result is the fixup path, the position \<open>x\<close> with its side, and the colour that
  the successor had.
\<close>

definition successor_swap ::
  "path_stack \<Rightarrow> nat \<Rightarrow> ptr \<Rightarrow> ptr \<Rightarrow> ptr \<Rightarrow> ptr \<Rightarrow> ('k, 'v, 'r) tree \<Rightarrow>
   (path_stack \<times> ptr \<times> int \<times> color \<times> ('k, 'v, 'r) tree) option" where
  "successor_swap path target_index target left right succ t =
     do {
       succ_parent \<leftarrow> path_at (depth path - 2) path;
       sn \<leftarrow> node_at t succ;
       let succ_right = n_right sn;
       let succ_color = n_color sn;
       (x_side, t) \<leftarrow>
         (if succ_parent = target then do { t \<leftarrow> set_right target succ_right t; Some (1, t) }
          else do { t \<leftarrow> set_left succ_parent succ_right t; Some (0, t) });
       t \<leftarrow> (if 1 \<le> target_index then do {
                q \<leftarrow> path_at (target_index - 1) path;
                rewire_child q target succ t
              }
              else Some (t\<lparr>t_root := succ\<rparr>));
       t \<leftarrow> set_left succ left t;
       t \<leftarrow> set_right succ (if succ = right then succ_right else right) t;
       tn \<leftarrow> node_at t target;
       t \<leftarrow> set_color succ (n_color tn) t;
       t \<leftarrow> set_left target 0 t;
       t \<leftarrow> set_right target 0 t;
       path \<leftarrow> path_set target_index succ path;
       let path = (if succ = right then drop (depth path - (target_index + 1)) path else tl path);
       let x = succ_right;
       let x_side = (if succ = right then 1 else x_side);
       Some (path, x, x_side, succ_color, t)
     }"

definition erase_replace ::
  "path_stack \<Rightarrow> nat \<Rightarrow> ptr \<Rightarrow> ptr \<Rightarrow> ptr \<Rightarrow> ptr \<Rightarrow> ('k, 'v, 'r) tree \<Rightarrow>
   (path_stack \<times> ('k, 'v, 'r) tree) option" where
  "erase_replace path target_index target left right succ t =
     do {
       (path, x, x_side, succ_color, t) \<leftarrow> successor_swap path target_index target left right succ t;
       (path, t) \<leftarrow> (if succ_color = BLACK then fixup_delete path x x_side t else Some (path, t));
       t \<leftarrow> unlock_node target t;
       t \<leftarrow> blacken_root path t;
       t \<leftarrow> unlock_path path t;
       Some (path, t)
     }"

partial_function (option) erase_node ::
  "(unit, 'r) reclaimer_ops \<Rightarrow> ('k \<Rightarrow> 'k \<Rightarrow> bool) \<Rightarrow> thread \<Rightarrow> push \<Rightarrow> 'k \<Rightarrow> ('k, 'v, 'r) tree \<Rightarrow>
   ((exn + bool) \<times> ('k, 'v, 'r) tree) option" where
  "erase_node rc cmp th pu k t =
     do {
       (r, path, side, t) \<leftarrow> lock_path cmp k t;
       if r = 0 then do { t \<leftarrow> unlock_path path t; Some (Inr False, t) }
       else if r < 0 then Some (Inr False, t)
       else do {
         target \<leftarrow> path_top path;
         tn \<leftarrow> node_at t target;
         let left = n_left tn;
         let right = n_right tn;
         res \<leftarrow>
           (if left = 0 \<or> right = 0 then do {
              (path, t) \<leftarrow> erase_unlink path target (if left \<noteq> 0 then left else right) t;
              Some (Inr t)
            }
            else do {
              let target_index = depth path - 1;
              path \<leftarrow> path_push right path;
              t \<leftarrow> lock_node right t;
              (s, t) \<leftarrow> lock_successor right path t;
              case s of
                None \<Rightarrow> Some (Inl t)
              | Some (succ, path) \<Rightarrow> do {
                  (path, t) \<leftarrow> erase_replace path target_index target left right succ t;
                  Some (Inr t)
                }
            });
         case res of
           Inl t \<Rightarrow> erase_node rc cmp th pu k t
         | Inr t \<Rightarrow> do {
             (r, t) \<leftarrow> retire_node rc th pu target t;
             case r of
               Inl e \<Rightarrow> Some (Inl e, t)
             | Inr _ \<Rightarrow> Some (Inr True, t\<lparr>t_count := t_count t - 1\<rparr>)
           }
       }
     }"

end
