(* ===== verification/TreeHeap.thy ===== *)
theory TreeHeap
  imports TreeModel
begin

section \<open>Trees in memory\<close>

text \<open>
  The abstract view of the engine's memory. A \<open>gtree\<close> is a red-black tree whose nodes carry
  their address and data; a list of frames is the path from a position up to the root, each
  frame with the subtree on its other side. \<open>tree_at\<close> and \<open>ctx_at\<close> say that the memory holds
  them: the nodes of a path are locked by the running operation, all others are unlocked.
\<close>

subsection \<open>Trees and contexts\<close>

datatype 'd gtree = Leaf | Nd ptr color 'd "'d gtree" "'d gtree"

text \<open>\<open>Fr lft a c d s\<close>: node \<open>a\<close>, whose left child (if \<open>lft\<close>) is the position, with \<open>s\<close> opposite.\<close>

datatype 'd frame = Fr bool ptr color 'd "'d gtree"

fun rp :: "'d gtree \<Rightarrow> ptr" where
  "rp Leaf = 0"
| "rp (Nd a c d l r) = a"

fun gcolor :: "'d gtree \<Rightarrow> color" where
  "gcolor Leaf = BLACK"
| "gcolor (Nd a c d l r) = c"

fun items :: "'d gtree \<Rightarrow> (ptr \<times> 'd) list" where
  "items Leaf = []"
| "items (Nd a c d l r) = items l @ (a, d) # items r"

fun branch :: "bool \<Rightarrow> ptr \<Rightarrow> color \<Rightarrow> 'd \<Rightarrow> 'd gtree \<Rightarrow> 'd gtree \<Rightarrow> 'd gtree" where
  "branch True a c d g s = Nd a c d g s"
| "branch False a c d g s = Nd a c d s g"

fun plug :: "'d frame list \<Rightarrow> 'd gtree \<Rightarrow> 'd gtree" where
  "plug [] g = g"
| "plug (Fr lft a c d s # fs) g = plug fs (branch lft a c d g s)"

fun fptr :: "'d frame \<Rightarrow> ptr" where
  "fptr (Fr lft a c d s) = a"

fun before :: "'d frame list \<Rightarrow> (ptr \<times> 'd) list" where
  "before [] = []"
| "before (Fr lft a c d s # fs) = before fs @ (if lft then [] else items s @ [(a, d)])"

fun after :: "'d frame list \<Rightarrow> (ptr \<times> 'd) list" where
  "after [] = []"
| "after (Fr lft a c d s # fs) = (if lft then (a, d) # items s else []) @ after fs"

lemma items_branch:
  "items (branch lft a c d g s) = (if lft then items g @ (a, d) # items s else items s @ (a, d) # items g)"
  by (cases lft) auto

lemma items_plug: "items (plug fs g) = before fs @ items g @ after fs"
  by (induction fs g rule: plug.induct) (auto simp: items_branch)

lemma plug_append: "plug (fs @ gs) g = plug gs (plug fs g)"
  by (induction fs g rule: plug.induct) auto

lemma before_append: "before (fs @ gs) = before gs @ before fs"
  by (induction fs rule: before.induct) auto

lemma after_append: "after (fs @ gs) = after fs @ after gs"
  by (induction fs rule: after.induct) auto

abbreviation ptrs :: "'d gtree \<Rightarrow> ptr list" where
  "ptrs g \<equiv> map fst (items g)"

text \<open>The nodes of a tree and of a context, and that none is used twice.\<close>

fun nodes_of :: "'d gtree \<Rightarrow> ptr set" where
  "nodes_of Leaf = {}"
| "nodes_of (Nd a c d l r) = insert a (nodes_of l \<union> nodes_of r)"

fun cnodes :: "'d frame list \<Rightarrow> ptr set" where
  "cnodes [] = {}"
| "cnodes (Fr lft a c d s # fs) = insert a (nodes_of s \<union> cnodes fs)"

fun tdist :: "'d gtree \<Rightarrow> bool" where
  "tdist Leaf \<longleftrightarrow> True"
| "tdist (Nd a c d l r) \<longleftrightarrow> a \<notin> nodes_of l \<and> a \<notin> nodes_of r \<and> nodes_of l \<inter> nodes_of r = {} \<and>
     tdist l \<and> tdist r"

fun cdist :: "'d frame list \<Rightarrow> bool" where
  "cdist [] \<longleftrightarrow> True"
| "cdist (Fr lft a c d s # fs) \<longleftrightarrow> a \<notin> nodes_of s \<and> a \<notin> cnodes fs \<and> nodes_of s \<inter> cnodes fs = {} \<and>
     tdist s \<and> cdist fs"

definition apart :: "'d frame list \<Rightarrow> 'd gtree \<Rightarrow> bool" where
  "apart fs g \<longleftrightarrow> cdist fs \<and> tdist g \<and> nodes_of g \<inter> cnodes fs = {}"

lemma set_ptrs [simp]: "fst ` set (items g) = nodes_of g"
  by (induction g) (auto simp: image_Un)

lemma tdist_iff: "tdist g \<longleftrightarrow> distinct (ptrs g)"
  by (induction g) auto

lemma nodes_of_branch [simp]: "nodes_of (branch lft a c d g s) = insert a (nodes_of g \<union> nodes_of s)"
  by (cases lft) auto

lemma tdist_branch [simp]: "tdist (branch lft a c d g s) \<longleftrightarrow> a \<notin> nodes_of g \<and> a \<notin> nodes_of s \<and>
    nodes_of g \<inter> nodes_of s = {} \<and> tdist g \<and> tdist s"
  by (cases lft) auto

lemma nodes_of_plug [simp]: "nodes_of (plug fs g) = nodes_of g \<union> cnodes fs"
  by (induction fs g rule: plug.induct) auto

lemma tdist_plug: "tdist (plug fs g) \<longleftrightarrow> apart fs g"
  by (induction fs g rule: plug.induct) (auto simp: apart_def)

lemma apart_iff: "apart fs g \<longleftrightarrow> distinct (ptrs (plug fs g))"
  by (simp add: tdist_plug [symmetric] tdist_iff)

lemma items_eq_nodes: "items g = items g' \<Longrightarrow> nodes_of g = nodes_of g' \<and> tdist g = tdist g'"
  by (metis set_ptrs tdist_iff)

lemma fptr_cnodes: "fptr ` set fs \<subseteq> cnodes fs"
  by (induction fs rule: cnodes.induct) auto

lemma rp_nodes: "rp g \<noteq> 0 \<Longrightarrow> rp g \<in> nodes_of g"
  by (cases g) auto

subsection \<open>The memory holds a tree\<close>

type_synonym ('k, 'v) data = "'k \<times> 'v \<times> alloc"

definition mk_node :: "ptr \<Rightarrow> ptr \<Rightarrow> bool \<Rightarrow> color \<Rightarrow> ('k, 'v) data \<Rightarrow> ('k, 'v) node" where
  "mk_node l r lk c d = \<lparr>n_left = l, n_right = r, n_locked = lk, n_color = c,
     n_key = fst d, n_value = fst (snd d), n_owner = snd (snd d)\<rparr>"

lemma mk_node_simps [simp]:
  "n_left (mk_node l r lk c d) = l" "n_right (mk_node l r lk c d) = r"
  "n_locked (mk_node l r lk c d) = lk" "n_color (mk_node l r lk c d) = c"
  "n_key (mk_node l r lk c d) = fst d" "n_value (mk_node l r lk c d) = fst (snd d)"
  "n_owner (mk_node l r lk c d) = snd (snd d)"
  "(mk_node l r lk c d)\<lparr>n_left := x\<rparr> = mk_node x r lk c d"
  "(mk_node l r lk c d)\<lparr>n_right := x\<rparr> = mk_node l x lk c d"
  "(mk_node l r lk c d)\<lparr>n_locked := b\<rparr> = mk_node l r b c d"
  "(mk_node l r lk c d)\<lparr>n_color := e\<rparr> = mk_node l r lk e d"
  by (simp_all add: mk_node_def)

lemma mk_node_inject [simp]:
  "mk_node l r lk c d = mk_node l' r' lk' c' d' \<longleftrightarrow> l = l' \<and> r = r' \<and> lk = lk' \<and> c = c' \<and> d = d'"
  by (auto simp: mk_node_def prod_eq_iff)

fun tree_at :: "('k, 'v, 'r) tree \<Rightarrow> ('k, 'v) data gtree \<Rightarrow> bool" where
  "tree_at t Leaf \<longleftrightarrow> True"
| "tree_at t (Nd a c d l r) \<longleftrightarrow>
     node_at t a = Some (mk_node (rp l) (rp r) False c d) \<and> tree_at t l \<and> tree_at t r"

text \<open>A subtree whose root is locked.\<close>

fun locked_at :: "('k, 'v, 'r) tree \<Rightarrow> ('k, 'v) data gtree \<Rightarrow> bool" where
  "locked_at t Leaf \<longleftrightarrow> False"
| "locked_at t (Nd a c d l r) \<longleftrightarrow>
     node_at t a = Some (mk_node (rp l) (rp r) True c d) \<and> tree_at t l \<and> tree_at t r"

fun ctx_at :: "('k, 'v, 'r) tree \<Rightarrow> ('k, 'v) data frame list \<Rightarrow> ptr \<Rightarrow> bool" where
  "ctx_at t [] p \<longleftrightarrow> t_root t = p"
| "ctx_at t (Fr lft a c d s # fs) p \<longleftrightarrow>
     node_at t a = Some (mk_node (if lft then p else rp s) (if lft then rp s else p) True c d) \<and>
     tree_at t s \<and> ctx_at t fs a"

subsection \<open>Writes and frames\<close>

text \<open>The heap of \<open>t'\<close> differs from that of \<open>t\<close> on the nodes \<open>S\<close> only, and so does the root.\<close>

definition same_but :: "ptr set \<Rightarrow> ('k, 'v, 'r) tree \<Rightarrow> ('k, 'v, 'r) tree \<Rightarrow> bool" where
  "same_but S t t' \<longleftrightarrow> t_pool t' = t_pool t \<and> t_rc t' = t_rc t \<and> t_count t' = t_count t \<and>
     t_na t' = t_na t \<and> live (t_mem t') = live (t_mem t) \<and>
     (\<forall>b. b \<notin> S \<longrightarrow> node_at t' b = node_at t b)"

lemma same_but_refl [simp]: "same_but S t t"
  by (simp add: same_but_def)

lemma same_but_trans: "same_but S t t' \<Longrightarrow> same_but S t' t'' \<Longrightarrow> same_but S t t''"
  by (simp add: same_but_def)

lemma same_but_mono: "same_but S t t' \<Longrightarrow> S \<subseteq> S' \<Longrightarrow> same_but S' t t'"
  by (auto simp: same_but_def)

lemma put_node_simps [simp]:
  "t_root (put_node a nd t) = t_root t" "t_pool (put_node a nd t) = t_pool t"
  "t_rc (put_node a nd t) = t_rc t" "t_count (put_node a nd t) = t_count t"
  "t_na (put_node a nd t) = t_na t" "live (t_mem (put_node a nd t)) = live (t_mem t)"
  "node_at (put_node a nd t) b = (if b = a \<and> a \<noteq> 0 then Some nd else node_at t b)"
  "put_node a nd (put_node a nd' t) = put_node a nd t"
  by (simp_all add: put_node_def)

lemma same_but_put [simp]: "a \<in> S \<Longrightarrow> same_but S t (put_node a nd t') = same_but S t t'"
  by (auto simp: same_but_def)

lemma same_but_root [simp]: "same_but S t (t'\<lparr>t_root := p\<rparr>) = same_but S t t'"
  by (simp add: same_but_def)

lemma put_node_root [simp]: "(put_node a nd t)\<lparr>t_root := p\<rparr> = put_node a nd (t\<lparr>t_root := p\<rparr>)"
  by (simp add: put_node_def)

lemma node_at_SomeD: "node_at t a = Some nd \<Longrightarrow> a \<noteq> 0"
  by auto

lemma tree_at_same:
  "same_but S t t' \<Longrightarrow> nodes_of g \<inter> S = {} \<Longrightarrow> tree_at t' g = tree_at t g"
  by (induction g) (auto simp: same_but_def)

lemma tree_at_put [simp, frame]: "a \<notin> nodes_of g \<Longrightarrow> tree_at (put_node a nd t) g = tree_at t g"
  by (induction g) auto

lemma tree_at_root [simp]: "tree_at (t\<lparr>t_root := p\<rparr>) g = tree_at t g"
  by (induction g) auto

lemma tree_at_ne0: "tree_at t g \<Longrightarrow> a \<in> nodes_of g \<Longrightarrow> a \<noteq> 0"
  by (induction g) auto

lemma tree_at_rp0: "tree_at t g \<Longrightarrow> rp g = 0 \<longleftrightarrow> g = Leaf"
  by (cases g) auto

lemma ctx_at_put [simp, frame]:
  "a \<notin> cnodes fs \<Longrightarrow> ctx_at (put_node a nd t) fs p = ctx_at t fs p"
  by (induction t fs p rule: ctx_at.induct) auto

lemma ctx_at_same:
  "same_but S t t' \<Longrightarrow> t_root t' = t_root t \<Longrightarrow> cnodes fs \<inter> S = {} \<Longrightarrow> ctx_at t' fs p = ctx_at t fs p"
proof (induction t fs p rule: ctx_at.induct)
  case (2 t lft a c d s fs p)
  have "nodes_of s \<inter> S = {}" "cnodes fs \<inter> S = {}" "a \<notin> S" using 2(4) by auto
  moreover from this have "node_at t' a = node_at t a" using 2(2) by (simp add: same_but_def)
  ultimately show ?case using 2 tree_at_same [OF 2(2)] by simp
qed simp

text \<open>The child pointer of the nearest frame, or the root, is where a subtree hangs.\<close>

fun rehang :: "('k, 'v) data frame list \<Rightarrow> ptr \<Rightarrow> ('k, 'v, 'r) tree \<Rightarrow> ('k, 'v, 'r) tree" where
  "rehang [] q t = t\<lparr>t_root := q\<rparr>"
| "rehang (Fr lft a c d s # fs) q t =
     put_node a (mk_node (if lft then q else rp s) (if lft then rp s else q) True c d) t"

lemma rehang_ctx: "ctx_at t fs p \<Longrightarrow> cdist fs \<Longrightarrow> ctx_at (rehang fs q t) fs q"
  by (cases fs rule: cnodes.cases) (auto dest: node_at_SomeD)

lemma rehang_same [simp]: "cnodes fs \<subseteq> S \<Longrightarrow> same_but S t (rehang fs q t') = same_but S t t'"
  by (cases fs rule: cnodes.cases) auto

lemma rehang_tree [simp]: "nodes_of g \<inter> cnodes fs = {} \<Longrightarrow> tree_at (rehang fs q t) g = tree_at t g"
  by (cases fs rule: cnodes.cases) auto

lemma rehang_node [simp]: "a \<notin> cnodes fs \<Longrightarrow> node_at (rehang fs q t) a = node_at t a"
  by (cases fs rule: cnodes.cases) auto

text \<open>Unlocking a path turns its context and the subtree below it into a tree.\<close>

lemma unlock_path_spec:
  assumes "ctx_at t fs (rp g)" and "tree_at t g" and "apart fs g"
  shows "\<exists>t'. unlock_path (map fptr fs) t = Some t' \<and> tree_at t' (plug fs g) \<and>
    t_root t' = rp (plug fs g) \<and> same_but (nodes_of (plug fs g)) t t'"
  using assms
proof (induction fs g arbitrary: t rule: plug.induct)
  case (1 g)
  then show ?case by simp
next
  case (2 lft a c d s fs g)
  define t1 where "t1 = put_node a (mk_node (if lft then rp g else rp s) (if lft then rp s else rp g) False c d) t"
  have a: "node_at t a = Some (mk_node (if lft then rp g else rp s) (if lft then rp s else rp g) True c d)"
    and fs: "ctx_at t fs a" and s: "tree_at t s" using 2(2) by simp_all
  have d: "a \<notin> cnodes fs" "a \<notin> nodes_of g" "a \<notin> nodes_of s" using 2(4) by (auto simp: apart_def)
  have ap: "apart fs (branch lft a c d g s)" using 2(4) by (auto simp: apart_def)
  have "ctx_at t1 fs (rp (branch lft a c d g s))"
    using fs d by (cases lft) (simp_all add: t1_def)
  moreover have "tree_at t1 (branch lft a c d g s)"
    using 2(3) s d node_at_SomeD [OF a] by (cases lft) (simp_all add: t1_def)
  ultimately obtain t' where t': "unlock_path (map fptr fs) t1 = Some t'"
    "tree_at t' (plug fs (branch lft a c d g s))" "t_root t' = rp (plug fs (branch lft a c d g s))"
    "same_but (nodes_of (plug fs (branch lft a c d g s))) t1 t'"
    using 2(1) ap by blast
  have "same_but (nodes_of (plug fs (branch lft a c d g s))) t t1" by (simp add: t1_def)
  with t' have "same_but (nodes_of (plug fs (branch lft a c d g s))) t t'" by (blast intro: same_but_trans)
  moreover have "unlock_node a t = Some t1" using a by (simp add: unlock_node_def t1_def)
  ultimately show ?case using t' by simp
qed

end
