(* ===== verification/TreeBalance.thy ===== *)
theory TreeBalance
  imports TreeHeap
begin

section \<open>Red-black balance\<close>

text \<open>
  \<open>rbt n g\<close>: every path of \<open>g\<close> has \<open>n\<close> black nodes and no red node has a red child.
  \<open>rbctx n c fs\<close>: what is left when a subtree of black height \<open>n\<close> and root colour \<open>c\<close> is
  taken out of such a tree with a black root. A fixup keeps a context valid for one colour
  or height while the subtree in it has another.
\<close>

fun rbt :: "nat \<Rightarrow> 'd gtree \<Rightarrow> bool" where
  "rbt n Leaf \<longleftrightarrow> n = 0"
| "rbt n (Nd a RED d l r) \<longleftrightarrow> gcolor l = BLACK \<and> gcolor r = BLACK \<and> rbt n l \<and> rbt n r"
| "rbt 0 (Nd a BLACK d l r) \<longleftrightarrow> False"
| "rbt (Suc n) (Nd a BLACK d l r) \<longleftrightarrow> rbt n l \<and> rbt n r"

fun rbctx :: "nat \<Rightarrow> color \<Rightarrow> 'd frame list \<Rightarrow> bool" where
  "rbctx n c [] \<longleftrightarrow> c = BLACK"
| "rbctx n c (Fr lft a BLACK d s # fs) \<longleftrightarrow> rbt n s \<and> rbctx (Suc n) BLACK fs"
| "rbctx n c (Fr lft a RED d s # fs) \<longleftrightarrow> c = BLACK \<and> gcolor s = BLACK \<and> rbt n s \<and> rbctx n RED fs"

text \<open>Balance with a root of any colour, and the invariant of the engine.\<close>

definition balanced :: "'d gtree \<Rightarrow> bool" where
  "balanced g \<longleftrightarrow> (\<exists>n. rbt n g)"

definition red_black :: "'d gtree \<Rightarrow> bool" where
  "red_black g \<longleftrightarrow> gcolor g = BLACK \<and> balanced g"

lemma rbt_black: "rbt n (Nd a BLACK d l r) \<longleftrightarrow> (\<exists>m. n = Suc m \<and> rbt m l \<and> rbt m r)"
  by (cases n) auto

lemma gcolor_neq [simp]: "c \<noteq> RED \<longleftrightarrow> c = BLACK" "c \<noteq> BLACK \<longleftrightarrow> c = RED"
  by (cases c; simp)+

lemma gcolor_branch [simp]: "gcolor (branch lft a c d g s) = c"
  by (cases lft) auto

lemma rbt_branch_red [simp]: "rbt n (branch lft a RED d g s) \<longleftrightarrow>
    gcolor g = BLACK \<and> gcolor s = BLACK \<and> rbt n g \<and> rbt n s"
  by (cases lft) auto

lemma rbt_branch_black [simp]: "rbt (Suc n) (branch lft a BLACK d g s) \<longleftrightarrow> rbt n g \<and> rbt n s"
  by (cases lft) auto

lemma rbctx_black: "rbctx n c fs \<Longrightarrow> rbctx n BLACK fs"
  by (cases "(n, c, fs)" rule: rbctx.cases) auto

lemma plug_balanced: "rbt n g \<Longrightarrow> rbctx n (gcolor g) fs \<Longrightarrow> red_black (plug fs g)"
proof (induction fs arbitrary: n g)
  case Nil
  then show ?case by (auto simp: red_black_def balanced_def)
next
  case (Cons f fs)
  obtain lft a c d s where f: "f = Fr lft a c d s" by (cases f)
  show ?case
  proof (cases c)
    case RED
    then show ?thesis using Cons.prems Cons.IH [of n "branch lft a RED d g s"] by (simp add: f)
  next
    case BLACK
    then show ?thesis using Cons.prems Cons.IH [of "Suc n" "branch lft a BLACK d g s"] by (simp add: f)
  qed
qed

text \<open>Taking a balanced tree apart.\<close>

lemma plug_split: "red_black (plug fs g) \<Longrightarrow> \<exists>n. rbt n g \<and> rbctx n (gcolor g) fs"
proof (induction fs arbitrary: g)
  case Nil
  then show ?case by (auto simp: red_black_def balanced_def)
next
  case (Cons f fs)
  obtain lft a c d s where f: "f = Fr lft a c d s" by (cases f)
  obtain n where n: "rbt n (branch lft a c d g s)" "rbctx n c fs"
    using Cons.IH [of "branch lft a c d g s"] Cons.prems by (auto simp: f)
  show ?case
  proof (cases c)
    case RED
    then show ?thesis using n by (auto simp: f)
  next
    case BLACK
    then obtain m where "n = Suc m" using n(1) by (cases n; cases lft) auto
    then show ?thesis using n BLACK by (auto simp: f)
  qed
qed

lemma balanced_plugI: "rbt n g \<Longrightarrow> rbctx n BLACK fs \<Longrightarrow> gcolor g = BLACK \<or> fs = [] \<Longrightarrow> balanced (plug fs g)"
  using plug_balanced [of n g fs] by (auto simp: red_black_def balanced_def)

subsection \<open>Height\<close>

fun height :: "'d gtree \<Rightarrow> nat" where
  "height Leaf = 0"
| "height (Nd a c d l r) = Suc (max (height l) (height r))"

lemma rbt_height: "rbt n g \<Longrightarrow> height g \<le> 2 * n + (if gcolor g = RED then 1 else 0)"
  by (induction n g rule: rbt.induct) (auto split: if_splits)

lemma rbt_size: "rbt n g \<Longrightarrow> 2 ^ n \<le> Suc (length (items g))"
  by (induction n g rule: rbt.induct) auto

lemma branch_height: "height (branch lft a c d g s) = Suc (max (height g) (height s))"
  by (cases lft) auto

lemma plug_height: "length fs + height g \<le> height (plug fs g)"
proof (induction fs g rule: plug.induct)
  case (2 lft a c d s fs g)
  have "Suc (height g) \<le> height (branch lft a c d g s)" by (simp add: branch_height)
  then show ?case using 2 by simp
qed simp

text \<open>
  Addresses are 64-bit words and a node is not at address 0, so a tree has fewer than
  \<open>2 ^ 64\<close> nodes; a balanced one is at most 128 high, half of the path array.
\<close>

lemma tree_size:
  assumes "distinct (ptrs g)" and "0 \<notin> nodes_of g"
  shows "length (items g) < 2 ^ 64"
proof -
  have "set (ptrs g) \<subseteq> UNIV - {0}" using assms(2) by auto
  then have "card (set (ptrs g)) \<le> card (UNIV - {0 :: u64})" by (intro card_mono) auto
  also have "\<dots> = 2 ^ 64 - 1" by (simp add: card_word card_Diff_singleton)
  finally show ?thesis using distinct_card [OF assms(1)] by simp
qed

lemma red_black_height:
  assumes "red_black g" and "distinct (ptrs g)" and "0 \<notin> nodes_of g"
  shows "height g \<le> 128"
proof -
  obtain n where n: "rbt n g" "gcolor g = BLACK" using assms(1) by (auto simp: red_black_def balanced_def)
  have "2 ^ n \<le> Suc (length (items g))" using n(1) by (rule rbt_size)
  also have "\<dots> \<le> 2 ^ 64" using tree_size [OF assms(2,3)] by simp
  finally have "(2::nat) ^ n \<le> 2 ^ 64" .
  then have "n \<le> 64" by (rule power_le_imp_le_exp [rotated]) simp
  then show ?thesis using rbt_height [OF n(1)] n(2) by simp
qed

lemma balanced_height:
  assumes "balanced g" and "distinct (ptrs g)" and "0 \<notin> nodes_of g"
  shows "height g \<le> 129"
proof -
  obtain n where n: "rbt n g" using assms(1) by (auto simp: balanced_def)
  have "2 ^ n \<le> Suc (length (items g))" using n(1) by (rule rbt_size)
  also have "\<dots> \<le> 2 ^ 64" using tree_size [OF assms(2,3)] by simp
  finally have "(2::nat) ^ n \<le> 2 ^ 64" .
  then have "n \<le> 64" by (rule power_le_imp_le_exp [rotated]) simp
  then show ?thesis using rbt_height [OF n(1)] by (auto split: if_splits)
qed

subsection \<open>Blackening the root\<close>

fun blacken :: "'d gtree \<Rightarrow> 'd gtree" where
  "blacken Leaf = Leaf"
| "blacken (Nd a c d l r) = Nd a BLACK d l r"

lemma blacken_simps [simp]:
  "items (blacken g) = items g" "rp (blacken g) = rp g" "gcolor (blacken g) = BLACK"
  "nodes_of (blacken g) = nodes_of g" "tdist (blacken g) = tdist g"
  by (cases g; simp)+

lemma blacken_red_black: "balanced g \<Longrightarrow> red_black (blacken g)"
proof (cases g)
  case (Nd a c d l r)
  assume "balanced g"
  then obtain n where n: "rbt n g" by (auto simp: balanced_def)
  have "\<exists>m. rbt m (Nd a BLACK d l r)"
  proof (cases c)
    case RED
    then have "rbt (Suc n) (Nd a BLACK d l r)" using n Nd by simp
    then show ?thesis ..
  next
    case BLACK
    then show ?thesis using n Nd by blast
  qed
  then show ?thesis by (simp add: red_black_def balanced_def Nd)
qed (auto simp: red_black_def balanced_def)

text \<open>Blackening the root of a plugged tree, in the context or in the subtree.\<close>

fun blacken_last :: "'d frame list \<Rightarrow> 'd frame list" where
  "blacken_last [] = []"
| "blacken_last [Fr lft a c d s] = [Fr lft a BLACK d s]"
| "blacken_last (f # fs) = f # blacken_last fs"

lemma blacken_plug: "blacken (plug fs g) = (if fs = [] then blacken g else plug (blacken_last fs) g)"
proof (induction fs arbitrary: g rule: blacken_last.induct)
  case (2 lft a c d s)
  then show ?case by (cases lft) auto
next
  case (3 f f' fs)
  then show ?case by (cases f) auto
qed simp

lemma blacken_last_simps [simp]:
  "map fptr (blacken_last fs) = map fptr fs" "cnodes (blacken_last fs) = cnodes fs"
  "cdist (blacken_last fs) = cdist fs" "blacken_last fs = [] \<longleftrightarrow> fs = []"
proof -
  show "map fptr (blacken_last fs) = map fptr fs"
    by (induction fs rule: blacken_last.induct) auto
  show c: "cnodes (blacken_last fs) = cnodes fs" for fs :: "'d frame list"
  proof (induction fs rule: blacken_last.induct)
    case (3 f f' fs)
    then show ?case by (cases f) simp
  qed auto
  show "cdist (blacken_last fs) = cdist fs"
  proof (induction fs rule: blacken_last.induct)
    case (3 f f' fs)
    then show ?case by (cases f) (simp add: c)
  qed auto
  show "blacken_last fs = [] \<longleftrightarrow> fs = []" by (cases fs rule: blacken_last.cases) auto
qed

end
