(* ===== verification/TreeInsert.thy ===== *)
theory TreeInsert
  imports TreeBalance
begin

section \<open>Insertion\<close>

lemmas node_ops = lock_node_def unlock_node_def set_color_def set_left_def set_right_def
  child_of_def rewire_child_def rotate_inner_def

lemmas path_ops = path_push_def path_top_def path_at_def path_set_def TREE_MAX_HEIGHT_def

lemma is_red_tree [simp]: "tree_at t g \<Longrightarrow> is_red_node (rp g) t = Some (gcolor g = RED)"
  by (cases g) (auto simp: is_red_node_def)

lemma is_red_at [simp]: "node_at t a = Some nd \<Longrightarrow> is_red_node a t = Some (n_color nd = RED)"
  by (auto simp: is_red_node_def)

lemma is_black_tree [simp]: "tree_at t g \<Longrightarrow> is_black (rp g) t = Some (gcolor g = BLACK)"
  by (cases g) (auto simp: is_black_def)

lemma is_black_at [simp]: "node_at t a = Some nd \<Longrightarrow> is_black a t = Some (n_color nd = BLACK)"
  by (auto simp: is_black_def)

text \<open>Redirecting the pointer that leads to a rotated node.\<close>

lemma rotate_root:
  "returns (rotate p side path (Some 0) t) Q \<longleftrightarrow> returns (node_at t p) (\<lambda>nd.
     let n = (if side = 0 then n_left nd else n_right nd) in
     returns (rotate_inner p n side t) (\<lambda>t. Q (t\<lparr>t_root := n\<rparr>)))"
  by (simp add: rotate_def Let_def)

lemma rehang_rewire:
  assumes "ctx_at t (f # fs) g" and "g \<noteq> 0" and "g \<notin> cnodes (f # fs)"
  shows "rewire_child (fptr f) g q t = Some (rehang (f # fs) q t)"
proof -
  obtain lft a c d s where f: "f = Fr lft a c d s" by (cases f)
  have "rp s \<noteq> g" using assms(2,3) rp_nodes [of s] by (auto simp: f)
  then show ?thesis using assms(1) by (auto simp: f rewire_child_def set_left_def set_right_def)
qed

text \<open>A rotation at a node below the context \<open>fs\<close>: first the inner swap, then the redirection.\<close>

lemma rotate_in_path:
  assumes "path = xs @ map fptr fs" and "i = length fs"
    and ch: "child_of p (side = 0) t = Some n"
    and "returns (rotate_inner p n side t) (\<lambda>t'. ctx_at t' fs p \<and> Q (rehang fs n t'))"
    and "p \<notin> cnodes fs"
  shows "returns (rotate p side path (Some i) t) Q"
proof -
  obtain nd where nd: "node_at t p = Some nd" "n = (if side = 0 then n_left nd else n_right nd)"
    using ch by (auto simp: child_of_def bind_eq_Some_conv)
  obtain t' where t': "rotate_inner p n side t = Some t'" "ctx_at t' fs p" "Q (rehang fs n t')"
    using assms(4) by (rule returnsE) blast
  show ?thesis
  proof (cases fs)
    case Nil
    then show ?thesis using t' assms(2) nd by (simp add: rotate_def)
  next
    case (Cons f fs')
    have "path_at (i - 1) path = Some (fptr f)"
      using assms(1,2) Cons by (simp add: path_at_def nth_append)
    moreover have "p \<noteq> 0" using nd(1) by auto
    ultimately show ?thesis
      using t' assms(2,5) nd Cons rehang_rewire [of t' f fs' p n] by (simp add: rotate_def)
  qed
qed

lemma rotate_not_in_path:
  "returns (rotate p side path None t) Q \<longleftrightarrow> returns (node_at t p) (\<lambda>nd.
     returns (rotate_inner p (if side = 0 then n_left nd else n_right nd) side t) Q)"
  by (simp add: rotate_def Let_def)

subsection \<open>The fixup\<close>

text \<open>
  What the fixup leaves: the top of the path is the locked root of a subtree, the rest of
  the path its context; the nodes are in the same order and the whole is balanced.
\<close>

definition ins_post ::
  "('k, 'v, 'r) tree \<Rightarrow> ('k, 'v) data gtree \<Rightarrow> path_stack \<times> ('k, 'v, 'r) tree \<Rightarrow> bool" where
  "ins_post t h = (\<lambda>(path', t'). \<exists>fs g. path' = rp g # map fptr fs \<and> locked_at t' g \<and>
     ctx_at t' fs (rp g) \<and> items (plug fs g) = items h \<and> balanced (plug fs g) \<and>
     same_but (nodes_of h) t t')"

lemma ins_postI:
  assumes "locked_at t' g" "ctx_at t' fs (rp g)" "items (plug fs g) = items h"
    "balanced (plug fs g)" "same_but (nodes_of h) t t'" "path' = rp g # map fptr fs"
  shows "ins_post t h (path', t')"
  using assms unfolding ins_post_def by blast

lemma ins_post_trans:
  assumes "ins_post t1 h1 r" and "items h1 = items h" and "same_but (nodes_of h) t t1"
  shows "ins_post t h r"
proof -
  have "nodes_of h1 = nodes_of h" using items_eq_nodes [OF assms(2)] by simp
  then show ?thesis using assms by (auto simp: ins_post_def intro: same_but_trans)
qed

text \<open>One iteration with a red uncle.\<close>

lemma fixup_insert_recolour:
  assumes x: "locked_at t (Nd x RED d l r)"
    and c: "ctx_at t (Fr pl p RED dp sp # Fr gl g cg dg (Nd u RED du ul ur) # fs) x"
    and ap: "apart (Fr pl p RED dp sp # Fr gl g cg dg (Nd u RED du ul ur) # fs) (Nd x RED d l r)"
    and rec: "\<And>t'. locked_at t' (branch gl g RED dg (branch pl p BLACK dp (Nd x RED d l r) sp)
        (Nd u BLACK du ul ur)) \<Longrightarrow> ctx_at t' fs g \<Longrightarrow>
      same_but {p, u, g, x} t t' \<Longrightarrow> returns (fixup_insert (g # map fptr fs) t') Q"
  shows "returns (fixup_insert (x # p # g # map fptr fs) t) Q"
proof -
  have ne: "x \<noteq> 0" "p \<noteq> 0" "g \<noteq> 0" "u \<noteq> 0" using x c by (auto dest: node_at_SomeD)
  have d: "x \<noteq> p" "x \<noteq> g" "x \<noteq> u" "p \<noteq> g" "p \<noteq> u" "g \<noteq> u"
    using ap by (auto simp: apart_def)
  note d' = d d [symmetric]
  have n: "{x, p, g, u} \<inter> (nodes_of l \<union> nodes_of r \<union> nodes_of sp \<union> nodes_of ul \<union> nodes_of ur \<union> cnodes fs) = {}"
    using ap by (auto simp: apart_def)
  show ?thesis
    apply (subst fixup_insert.simps)
    using x c ne d' n
    apply (cases gl; cases pl)
       apply (simp_all add: node_ops path_ops)
       apply (rule rec; simp)+
    done
qed

text \<open>The rotations: \<open>x\<close> is the outer or the inner grandchild.\<close>

lemma fixup_insert_outer:
  assumes x: "locked_at t (Nd x RED d l r)"
    and c: "ctx_at t (Fr gl p RED dp sp # Fr gl g cg dg u # fs) x"
    and ap: "apart (Fr gl p RED dp sp # Fr gl g cg dg u # fs) (Nd x RED d l r)"
    and u: "gcolor u = BLACK"
    and Q: "\<And>t'. locked_at t' (branch gl p BLACK dp (Nd x RED d l r) (branch gl g RED dg sp u)) \<Longrightarrow>
      ctx_at t' fs p \<Longrightarrow> same_but ({x, p, g} \<union> cnodes fs) t t' \<Longrightarrow> Q (p # map fptr fs, t')"
  shows "returns (fixup_insert (x # p # g # map fptr fs) t) Q"
proof -
  have ne: "x \<noteq> 0" "p \<noteq> 0" "g \<noteq> 0" using x c by (auto dest: node_at_SomeD)
  have d: "x \<noteq> p" "x \<noteq> g" "p \<noteq> g" using ap by (auto simp: apart_def)
  note d' = d d [symmetric]
  have n: "{x, p, g} \<inter> (nodes_of l \<union> nodes_of r \<union> nodes_of sp \<union> nodes_of u \<union> cnodes fs) = {}"
    "nodes_of l \<inter> cnodes fs = {}" "nodes_of r \<inter> cnodes fs = {}" "nodes_of sp \<inter> cnodes fs = {}"
    "nodes_of u \<inter> cnodes fs = {}" "cdist fs"
    using ap by (auto simp: apart_def)
  have rp: "rp u \<noteq> p" "rp sp \<noteq> x" "p \<noteq> rp u" "x \<noteq> rp sp"
    using n ne rp_nodes [of u] rp_nodes [of sp] by auto
  have sub: "cnodes fs \<subseteq> insert x (insert p (insert g (cnodes fs)))" by auto
  show ?thesis
    apply (subst fixup_insert.simps)
    using x c ne d' n u rp sub
    apply (cases gl)
     apply (simp_all add: node_ops path_ops)
     apply (rule rotate_in_path [where fs = fs and xs = "[x, p, g]" and n = p])
         apply (simp_all add: node_ops rehang_ctx [where p = g])
     apply (rule Q; simp add: rehang_ctx [where p = g])
    apply (rule rotate_in_path [where fs = fs and xs = "[x, p, g]" and n = p])
        apply (simp_all add: node_ops rehang_ctx [where p = g])
    apply (rule Q; simp add: rehang_ctx [where p = g])
    done
qed

lemma fixup_insert_inner:
  assumes x: "locked_at t (Nd x RED d l r)"
    and c: "ctx_at t (Fr pl p RED dp sp # Fr gl g cg dg u # fs) x" and gl: "gl = (\<not> pl)"
    and ap: "apart (Fr pl p RED dp sp # Fr gl g cg dg u # fs) (Nd x RED d l r)"
    and u: "gcolor u = BLACK"
    and Q: "\<And>t'. locked_at t' (if gl then Nd x BLACK d (Nd p RED dp sp l) (Nd g RED dg r u)
        else Nd x BLACK d (Nd g RED dg u l) (Nd p RED dp r sp)) \<Longrightarrow>
      ctx_at t' fs x \<Longrightarrow> same_but ({x, p, g} \<union> cnodes fs) t t' \<Longrightarrow> Q (x # map fptr fs, t')"
  shows "returns (fixup_insert (x # p # g # map fptr fs) t) Q"
proof -
  have ne: "x \<noteq> 0" "p \<noteq> 0" "g \<noteq> 0" using x c by (auto dest: node_at_SomeD)
  have d: "x \<noteq> p" "x \<noteq> g" "p \<noteq> g" using ap by (auto simp: apart_def)
  note d' = d d [symmetric]
  have n: "{x, p, g} \<inter> (nodes_of l \<union> nodes_of r \<union> nodes_of sp \<union> nodes_of u \<union> cnodes fs) = {}"
    "nodes_of l \<inter> cnodes fs = {}" "nodes_of r \<inter> cnodes fs = {}" "nodes_of sp \<inter> cnodes fs = {}"
    "nodes_of u \<inter> cnodes fs = {}" "cdist fs"
    using ap by (auto simp: apart_def)
  have rp: "rp u \<noteq> p" "rp sp \<noteq> x" "p \<noteq> rp u" "x \<noteq> rp sp"
    using n ne rp_nodes [of u] rp_nodes [of sp] by auto
  have sub: "cnodes fs \<subseteq> insert x (insert p (insert g (cnodes fs)))" by auto
  show ?thesis
    apply (subst fixup_insert.simps)
    using x c ne d' n u rp sub gl
    apply (cases gl)
     apply (simp_all add: node_ops path_ops)
     apply (rule rotate_in_path [where fs = "Fr True g cg dg u # fs" and xs = "[x, p]" and n = x])
         apply (simp_all add: node_ops)
     apply (rule rotate_in_path [where fs = fs and xs = "[p, x, g]" and n = x])
         apply (simp_all add: node_ops rehang_ctx [where p = g])
     apply (rule Q; simp add: rehang_ctx [where p = g])
    apply (rule rotate_in_path [where fs = "Fr False g cg dg u # fs" and xs = "[x, p]" and n = x])
        apply (simp_all add: node_ops)
    apply (rule rotate_in_path [where fs = fs and xs = "[p, x, g]" and n = x])
        apply (simp_all add: node_ops rehang_ctx [where p = g])
    apply (rule Q; simp add: rehang_ctx [where p = g])
    done
qed

text \<open>The loop.\<close>

lemma fixup_insert_spec:
  assumes "locked_at t (Nd x RED d l r)" and "ctx_at t fs x" and "apart fs (Nd x RED d l r)"
    and "rbt n (Nd x RED d l r)" and "rbctx n BLACK fs"
  shows "returns (fixup_insert (x # map fptr fs) t) (ins_post t (plug fs (Nd x RED d l r)))"
  using assms
proof (induction "length fs" arbitrary: fs x d l r t n rule: less_induct)
  case less
  let ?x = "Nd x RED d l r"
  note x = less.prems(1) and c = less.prems(2) and ap = less.prems(3)
  have exit: "ins_post t (plug fs ?x) (x # map fptr fs, t)" if "balanced (plug fs ?x)"
    using x c that by (intro ins_postI [where g = ?x and fs = fs]) simp_all
  show ?case
  proof (cases "length fs < 2")
    case True
    have "balanced (plug fs ?x)"
    proof (cases fs)
      case Nil
      then show ?thesis using less.prems(4) by (auto simp: balanced_def)
    next
      case (Cons f fs')
      then have "fs = [f]" using True by simp
      then have "rbctx n RED fs" using less.prems(5) by (cases "(n, BLACK, fs)" rule: rbctx.cases) auto
      then show ?thesis using plug_balanced [of n ?x fs] less.prems(4) by (simp add: red_black_def)
    qed
    then show ?thesis using exit True by (subst fixup_insert.simps) simp
  next
    case False
    then obtain pl p cp dp sp gl g cg dg u fs' where
      fs: "fs = Fr pl p cp dp sp # Fr gl g cg dg u # fs'"
      by (metis (no_types, lifting) One_nat_def frame.exhaust fptr.cases length_Cons lessI
          less_Suc_eq list.exhaust list.size(3) numeral_2_eq_2 zero_less_Suc)
    show ?thesis
    proof (cases cp)
      case BLACK
      then have "rbctx n RED fs" using less.prems(5) by (simp add: fs)
      then have "balanced (plug fs ?x)" using plug_balanced [of n ?x fs] less.prems(4)
        by (simp add: red_black_def)
      moreover have "node_at t p = Some (mk_node (if pl then x else rp sp) (if pl then rp sp else x) True BLACK dp)"
        using c BLACK by (simp add: fs)
      ultimately show ?thesis using exit BLACK
        by (subst fixup_insert.simps) (simp add: fs path_ops)
    next
      case RED
      then have sp: "gcolor sp = BLACK" "rbt n sp" and "rbctx n RED (Fr gl g cg dg u # fs')"
        using less.prems(5) by (simp_all add: fs)
      then have cg: "cg = BLACK" and u: "rbt n u" and fs': "rbctx (Suc n) BLACK fs'"
        by (cases cg; simp)+
      have lr: "gcolor l = BLACK" "gcolor r = BLACK" "rbt n l" "rbt n r" using less.prems(4) by simp_all
      have c': "ctx_at t (Fr pl p RED dp sp # Fr gl g BLACK dg u # fs') x"
        and ap': "apart (Fr pl p RED dp sp # Fr gl g BLACK dg u # fs') ?x"
        using c ap by (simp_all add: fs RED cg)
      have path: "x # map fptr fs = x # p # g # map fptr fs'" by (simp add: fs)
      show ?thesis
      proof (cases "gcolor u = RED")
        case True
        then obtain ua du ul ur where ueq: "u = Nd ua RED du ul ur" by (cases u) auto
        let ?g = "branch gl g RED dg (branch pl p BLACK dp ?x sp) (Nd ua BLACK du ul ur)"
        have bal: "rbt (Suc n) ?g" using sp u lr by (cases gl; cases pl) (simp_all add: ueq)
        have it: "items (plug fs' ?g) = items (plug fs ?x)"
          by (simp add: items_plug items_branch fs ueq)
        have nd: "{p, ua, g, x} \<subseteq> nodes_of (plug fs ?x)" by (auto simp: fs ueq)
        have apg: "apart fs' ?g" using it ap by (metis apart_iff)
        show ?thesis unfolding path
        proof (rule fixup_insert_recolour [OF x c' [unfolded ueq] ap' [unfolded ueq]])
          fix t' assume t': "locked_at t' ?g" "ctx_at t' fs' g" "same_but {p, ua, g, x} t t'"
          obtain l' r' where lr': "?g = Nd g RED dg l' r'" by (cases gl) auto
          have "returns (fixup_insert (g # map fptr fs') t') (ins_post t' (plug fs' ?g))"
            unfolding lr' using t' bal apg fs'
            by (intro less.hyps [where n = "Suc n"]) (simp_all add: fs lr')
          then show "returns (fixup_insert (g # map fptr fs') t') (ins_post t (plug fs ?x))"
            by (rule returns_mono) (rule ins_post_trans [OF _ it same_but_mono [OF t'(3) nd]])
        qed
      next
        case False
        then have ub: "gcolor u = BLACK" by simp
        have nd: "{x, p, g} \<union> cnodes fs' \<subseteq> nodes_of (plug fs ?x)" by (auto simp: fs)
        show ?thesis
        proof (cases "pl = gl")
          case True
          let ?p = "branch gl p BLACK dp ?x (branch gl g RED dg sp u)"
          have "rbt (Suc n) ?p" using sp u lr ub by (cases gl) simp_all
          then have bal: "balanced (plug fs' ?p)" using fs' by (intro balanced_plugI) simp_all
          have it: "items (plug fs' ?p) = items (plug fs ?x)"
            by (cases gl) (simp_all add: items_plug items_branch fs True)
          show ?thesis unfolding path True
            by (rule fixup_insert_outer [OF x c' [unfolded True] ap' [unfolded True] ub],
                rule ins_postI [OF _ _ it bal same_but_mono [OF _ nd]])
              (cases gl; simp)+
        next
          case False
          let ?q = "if gl then Nd x BLACK d (Nd p RED dp sp l) (Nd g RED dg r u)
            else Nd x BLACK d (Nd g RED dg u l) (Nd p RED dp r sp)"
          have "rbt (Suc n) ?q" using sp u lr ub by (cases gl) simp_all
          then have bal: "balanced (plug fs' ?q)" using fs' by (intro balanced_plugI) simp_all
          have it: "items (plug fs' ?q) = items (plug fs ?x)"
            using False by (cases gl) (simp_all add: items_plug items_branch fs)
          show ?thesis unfolding path
            by (rule fixup_insert_inner [OF x c' _ ap' ub], use False in simp,
                rule ins_postI [OF _ _ it bal same_but_mono [OF _ nd]])
              (cases gl; simp)+
        qed
      qed
    qed
  qed
qed

subsection \<open>Making the root black and releasing the path\<close>

text \<open>The engine between two operations: an unlocked red-black tree hangs off the root.\<close>

definition tree_rel :: "('k, 'v, 'r) tree \<Rightarrow> ('k, 'v) data gtree \<Rightarrow> bool" where
  "tree_rel t g \<longleftrightarrow> tree_at t g \<and> t_root t = rp g \<and> tdist g \<and> red_black g"

lemma ctx_last:
  "ctx_at t fs p \<Longrightarrow> fs \<noteq> [] \<Longrightarrow> \<exists>lft a c d s q. last fs = Fr lft a c d s \<and> t_root t = a \<and>
     node_at t a = Some (mk_node (if lft then q else rp s) (if lft then rp s else q) True c d)"
proof (induction t fs p rule: ctx_at.induct)
  case (2 t lft a c d s fs p)
  then show ?case by (cases "fs = []") auto
qed simp

lemma last_cnodes: "fs \<noteq> [] \<Longrightarrow> fptr (last fs) \<in> cnodes fs"
  using fptr_cnodes last_in_set by blast

lemma ctx_blacken_last:
  assumes "ctx_at t fs p" and "fs \<noteq> []" and "cdist fs"
  shows "\<exists>t'. set_color (t_root t) BLACK t = Some t' \<and> ctx_at t' (blacken_last fs) p \<and>
    same_but {fptr (last fs)} t t' \<and> t_root t' = t_root t"
  using assms
proof (induction fs arbitrary: p rule: blacken_last.induct)
  case (2 lft a c d s)
  then show ?case by (auto simp: set_color_def dest: node_at_SomeD)
next
  case (3 f f' fs)
  obtain lft a c d s where f: "f = Fr lft a c d s" by (cases f)
  obtain t' where t': "set_color (t_root t) BLACK t = Some t'" "ctx_at t' (blacken_last (f' # fs)) a"
    "same_but {fptr (last (f' # fs))} t t'" "t_root t' = t_root t"
    using 3 f by auto
  have "fptr (last (f' # fs)) \<in> cnodes (f' # fs)" by (rule last_cnodes) simp
  then have na: "a \<noteq> fptr (last (f' # fs))" and ns: "fptr (last (f' # fs)) \<notin> nodes_of s"
    using 3(4) f by auto
  have "node_at t' a = node_at t a" using t'(3) na by (simp add: same_but_def)
  moreover have "tree_at t' s = tree_at t s" using tree_at_same [OF t'(3)] ns by simp
  ultimately show ?case using t' 3(2) by (intro exI [of _ t']) (simp add: f)
qed simp

lemma finish_spec:
  assumes c: "ctx_at t fs (rp g)" and g: "tree_at t g" and ap: "apart fs g"
    and bal: "balanced (plug fs g)" and same: "same_but (nodes_of (plug fs g)) t0 t"
  shows "returns (blacken_root (map fptr fs) t) (\<lambda>t. returns (unlock_path (map fptr fs) t)
    (\<lambda>t'. tree_rel t' (blacken (plug fs g)) \<and> same_but (nodes_of (plug fs g)) t0 t'))"
proof (cases "fs = []")
  case True
  then have root: "t_root t = rp g" using c by simp
  show ?thesis
  proof (cases g)
    case Leaf
    then show ?thesis using True root same
      by (simp add: blacken_root_def tree_rel_def red_black_def balanced_def)
  next
    case (Nd a cl d l r)
    have "red_black (Nd a BLACK d l r)" using blacken_red_black [OF bal] Nd True by simp
    then show ?thesis using True root same g ap Nd
      by (auto simp: blacken_root_def node_ops tree_rel_def apart_def)
  qed
next
  case False
  have cd: "cdist fs" and disj: "nodes_of g \<inter> cnodes fs = {}" using ap by (simp_all add: apart_def)
  obtain t1 where t1: "set_color (t_root t) BLACK t = Some t1" "ctx_at t1 (blacken_last fs) (rp g)"
    "same_but {fptr (last fs)} t t1" using ctx_blacken_last [OF c False cd] by blast
  have lc: "fptr (last fs) \<in> cnodes fs" using False by (rule last_cnodes)
  then have "tree_at t1 g" using tree_at_same [OF t1(3), of g] g disj by auto
  moreover have "apart (blacken_last fs) g" using ap by (simp add: apart_def)
  ultimately obtain t2 where t2: "unlock_path (map fptr (blacken_last fs)) t1 = Some t2"
    "tree_at t2 (plug (blacken_last fs) g)" "t_root t2 = rp (plug (blacken_last fs) g)"
    "same_but (nodes_of (plug (blacken_last fs) g)) t1 t2"
    using unlock_path_spec t1(2) by blast
  have bl: "blacken (plug fs g) = plug (blacken_last fs) g" using False by (simp add: blacken_plug)
  have nd: "nodes_of (plug (blacken_last fs) g) = nodes_of (plug fs g)" by simp
  have "same_but (nodes_of (plug fs g)) t t1" using lc by (intro same_but_mono [OF t1(3)]) simp
  then have "same_but (nodes_of (plug fs g)) t0 t2" using same t2(4) unfolding nd
    by (blast intro: same_but_trans)
  moreover have "tree_rel t2 (blacken (plug fs g))"
    using t2(2,3) ap blacken_red_black [OF bal]
    by (simp add: tree_rel_def bl tdist_plug) (simp add: apart_def)
  moreover have "t_root t \<noteq> 0" using ctx_last [OF c False] by auto
  ultimately show ?thesis using t1(1) t2(1) False by (simp add: blacken_root_def)
qed

lemma locked_frame:
  "locked_at t (Nd a c d l r) \<Longrightarrow> ctx_at t fs a \<Longrightarrow> apart fs (Nd a c d l r) \<Longrightarrow>
   ctx_at t (Fr True a c d r # fs) (rp l) \<and> tree_at t l \<and> apart (Fr True a c d r # fs) l"
  by (auto simp: apart_def)

subsection \<open>The descent\<close>

text \<open>\<open>route\<close>: at every node of the path the comparison chose the side of the frame.\<close>

fun route :: "('k \<Rightarrow> 'k \<Rightarrow> bool) \<Rightarrow> 'k \<Rightarrow> ('k, 'v) data frame list \<Rightarrow> bool" where
  "route cmp k [] \<longleftrightarrow> True"
| "route cmp k (Fr lft a c d s # fs) \<longleftrightarrow> (if lft then compare cmp k (fst d) < 0 else 0 < compare cmp k (fst d)) \<and>
     route cmp k fs"

text \<open>The two outcomes of a descent in a non-empty tree \<open>h\<close>.\<close>

definition lock_post ::
  "('k \<Rightarrow> 'k \<Rightarrow> bool) \<Rightarrow> 'k \<Rightarrow> ('k, 'v, 'r) tree \<Rightarrow> ('k, 'v) data gtree \<Rightarrow>
   int \<times> path_stack \<times> int \<times> ('k, 'v, 'r) tree \<Rightarrow> bool" where
  "lock_post cmp k t h = (\<lambda>(r, path', side, t'). same_but (nodes_of h) t t' \<and>
     (\<exists>fs. route cmp k fs \<and>
       ((\<exists>a c d l rt. r = 1 \<and> h = plug fs (Nd a c d l rt) \<and> compare cmp k (fst d) = 0 \<and>
          path' = a # map fptr fs \<and> locked_at t' (Nd a c d l rt) \<and> ctx_at t' fs a) \<or>
        (\<exists>lft a c d s fs'. r = 0 \<and> h = plug fs Leaf \<and> fs = Fr lft a c d s # fs' \<and>
          side = (if lft then 0 else 1) \<and> path' = map fptr fs \<and> ctx_at t' fs 0))))"

lemma lock_post_found:
  "same_but (nodes_of (plug fs (Nd a c d l r))) t t' \<Longrightarrow> route cmp k fs \<Longrightarrow> compare cmp k (fst d) = 0 \<Longrightarrow>
   locked_at t' (Nd a c d l r) \<Longrightarrow> ctx_at t' fs a \<Longrightarrow>
   lock_post cmp k t (plug fs (Nd a c d l r)) (1, a # map fptr fs, side, t')"
  unfolding lock_post_def by blast

lemma lock_post_absent:
  "same_but (nodes_of (plug fs Leaf)) t t' \<Longrightarrow> route cmp k fs \<Longrightarrow> fs = Fr lft a c d s # fs' \<Longrightarrow>
   ctx_at t' fs 0 \<Longrightarrow> side = (if lft then 0 else 1) \<Longrightarrow>
   lock_post cmp k t (plug fs Leaf) (0, map fptr fs, side, t')"
  unfolding lock_post_def by blast

lemma lock_postI:
  assumes "lock_post cmp k t1 h r" and "same_but (nodes_of h) t t1"
  shows "lock_post cmp k t h r"
proof -
  obtain r0 path' side t' where r: "r = (r0, path', side, t')" by (cases r)
  have "same_but (nodes_of h) t1 t'" using assms(1) by (simp add: lock_post_def r)
  then have "same_but (nodes_of h) t t'" using assms(2) by (blast intro: same_but_trans)
  with assms(1) show ?thesis by (simp add: lock_post_def r)
qed

lemma lock_child:
  assumes "tree_at t (Nd a c d l r)" and "ctx_at t fs a" and "apart fs (Nd a c d l r)"
  shows "returns (lock_node a t) (\<lambda>t'. locked_at t' (Nd a c d l r) \<and> ctx_at t' fs a \<and> same_but {a} t t')"
  using assms by (auto simp: lock_node_def apart_def dest: node_at_SomeD)

lemma lock_descend_spec:
  fixes t :: "('k, 'v, 'r) tree"
  assumes "locked_at t g" and "ctx_at t fs (rp g)" and "apart fs g" and "route cmp k fs"
    and "length fs + height g \<le> TREE_MAX_HEIGHT"
  shows "returns (lock_descend cmp k (rp g) (rp g # map fptr fs) t) (lock_post cmp k t (plug fs g))"
  using assms
proof (induction g arbitrary: fs t)
  case Leaf
  then show ?case by simp
next
  case (Nd a c d l r)
  note IHs = Nd.IH and prems = Nd.prems
  have a: "node_at t a = Some (mk_node (rp l) (rp r) True c d)" and l: "tree_at t l" and r: "tree_at t r"
    using prems(1) by simp_all
  define cv where "cv = compare cmp k (fst d)"
  show ?case
  proof (cases "cv = 0")
    case True
    then have "lock_descend cmp k a (a # map fptr fs) t = Some (1, a # map fptr fs, 0, t)"
      using a by (subst lock_descend.simps) (simp add: cv_def)
    moreover have "lock_post cmp k t (plug fs (Nd a c d l r)) (1, a # map fptr fs, 0, t)"
      using prems True by (intro lock_post_found) (simp_all add: cv_def)
    ultimately show ?thesis by simp
  next
    case False
    define lft where "lft = (cv < 0)"
    define ch where "ch = (if lft then l else r)"
    define sib where "sib = (if lft then r else l)"
    define fs1 where "fs1 = Fr lft a c d sib # fs"
    have pl: "plug fs1 ch = plug fs (Nd a c d l r)" by (simp add: fs1_def ch_def sib_def)
    have rt: "route cmp k fs1" using prems(4) False by (auto simp: fs1_def lft_def cv_def)
    have c1: "ctx_at t fs1 (rp ch)"
      using prems(1,2) by (simp add: fs1_def ch_def sib_def)
    have tch: "tree_at t ch" using l r by (simp add: ch_def)
    have ap1: "apart fs1 ch" using prems(3) by (simp add: apart_iff pl [symmetric])
    have child: "(if cv < 0 then n_left (mk_node (rp l) (rp r) True c d)
        else n_right (mk_node (rp l) (rp r) True c d)) = rp ch" by (simp add: ch_def lft_def)
    show ?thesis
    proof (cases ch)
      case Leaf
      have "lock_descend cmp k a (a # map fptr fs) t =
          Some (0, a # map fptr fs, if cv < 0 then 0 else 1, t)"
        using a False child Leaf by (subst lock_descend.simps) (simp add: cv_def split: if_splits)
      moreover have "lock_post cmp k t (plug fs1 Leaf) (0, map fptr fs1, if cv < 0 then 0 else 1, t)"
        using rt c1 Leaf by (intro lock_post_absent [OF _ _ fs1_def]) (simp_all add: lft_def)
      ultimately show ?thesis using Leaf pl by (simp add: fs1_def)
    next
      case (Nd b cb db lb rb)
      have h: "length fs1 + height ch \<le> TREE_MAX_HEIGHT"
        using prems(5) by (auto simp: fs1_def ch_def)
      then have dep: "Suc (length fs) < TREE_MAX_HEIGHT" using Nd by (simp add: fs1_def)
      have b0: "b \<noteq> 0" using tch Nd by (auto dest: node_at_SomeD)
      have ap2: "apart fs1 (Nd b cb db lb rb)" using ap1 Nd by simp
      have run: "lock_descend cmp k a (a # map fptr fs) t =
          do { t \<leftarrow> lock_node b t; lock_descend cmp k b (b # map fptr fs1) t }"
        using a False child Nd b0 dep
        by (subst lock_descend.simps) (simp add: cv_def path_push_def fs1_def split: if_splits)
      have step: "returns (lock_node b t) (\<lambda>t'. locked_at t' (Nd b cb db lb rb) \<and> ctx_at t' fs1 b \<and>
          same_but {b} t t')"
        using lock_child [of t b cb db lb rb fs1] tch c1 ap2 Nd by auto
      have sub: "{b} \<subseteq> nodes_of (plug fs1 ch)" by (simp add: Nd)
      have IH: "returns (lock_descend cmp k (rp ch) (rp ch # map fptr fs1) t')
          (lock_post cmp k t' (plug fs1 ch))"
        if "locked_at t' ch" "ctx_at t' fs1 (rp ch)" for t' :: "('k, 'v, 'r) tree"
        using IHs that ap1 rt h by (cases lft) (simp_all add: ch_def)
      show ?thesis
        unfolding rp.simps run returns_simps(3)
      proof (rule returns_mono [OF step])
        fix t'
        assume t': "locked_at t' (Nd b cb db lb rb) \<and> ctx_at t' fs1 b \<and> same_but {b} t t'"
        then have "returns (lock_descend cmp k b (b # map fptr fs1) t') (lock_post cmp k t' (plug fs1 ch))"
          using IH [of t'] by (simp add: Nd)
        then show "returns (lock_descend cmp k b (b # map fptr fs1) t')
            (lock_post cmp k t (plug fs (Nd a c d l r)))"
          unfolding pl [symmetric]
          by (rule returns_mono) (rule lock_postI [OF _ same_but_mono [OF _ sub]], use t' in auto)
      qed
    qed
  qed
qed

lemma lock_path_spec:
  assumes rel: "tree_rel t g" and "g \<noteq> Leaf"
  shows "returns (lock_path cmp k t) (lock_post cmp k t g)"
proof -
  obtain a c d l r where g: "g = Nd a c d l r" using assms(2) by (cases g) auto
  have t: "tree_at t g" "t_root t = a" "apart [] g" using rel by (simp_all add: tree_rel_def g apart_def)
  have a0: "a \<noteq> 0" using t(1) g by (auto dest: node_at_SomeD)
  have "0 \<notin> nodes_of g" using tree_at_ne0 [OF t(1)] by blast
  then have "height g \<le> 128"
    using rel by (intro red_black_height) (simp_all add: tree_rel_def tdist_iff)
  then have h: "length ([] :: ('a, 'b) data frame list) + height g \<le> TREE_MAX_HEIGHT"
    by (simp add: TREE_MAX_HEIGHT_def)
  have step: "returns (lock_node a t) (\<lambda>t'. locked_at t' g \<and> ctx_at t' [] a \<and> same_but {a} t t')"
    using lock_child [of t a c d l r "[]"] t g by simp
  have desc: "returns (lock_descend cmp k a [a] t') (lock_post cmp k t g)"
    if "locked_at t' g" "ctx_at t' [] a" "same_but {a} t t'" for t'
    using lock_descend_spec [OF that(1) _ t(3), of cmp k] that(2) h g
    by (auto elim!: returns_mono intro: lock_postI [OF _ same_but_mono [OF that(3)]])
  have "lock_path cmp k t = do { t \<leftarrow> lock_node a t; lock_descend cmp k a [a] t }"
    using t(2) a0 by (simp add: lock_path_def path_push_def TREE_MAX_HEIGHT_def)
  then show ?thesis using step desc by (auto elim!: returns_mono)
qed

subsection \<open>Inserting a node\<close>

text \<open>
  The new node is outside the tree, unlocked and without children. A duplicate leaves the
  tree as it was; otherwise the node appears where the route of its key leads, and the
  result is a red-black tree again, with no lock held.
\<close>

definition insert_post ::
  "('k \<Rightarrow> 'k \<Rightarrow> bool) \<Rightarrow> ptr \<Rightarrow> ('k, 'v) data \<Rightarrow> ('k, 'v, 'r) tree \<Rightarrow> ('k, 'v) data gtree \<Rightarrow>
   bool \<times> ('k, 'v, 'r) tree \<Rightarrow> bool" where
  "insert_post cmp n nd t g = (\<lambda>(b, t'). \<exists>fs. route cmp (fst nd) fs \<and>
     ((\<exists>a c d l r. \<not> b \<and> g = plug fs (Nd a c d l r) \<and> compare cmp (fst nd) (fst d) = 0 \<and>
        tree_rel t' g \<and> same_but (nodes_of g) t t') \<or>
      (\<exists>g'. b \<and> g = plug fs Leaf \<and> items g' = before fs @ (n, nd) # after fs \<and> tree_rel t' g' \<and>
        same_but (nodes_of g') (t\<lparr>t_count := t_count t + 1\<rparr>) t')))"

lemma same_but_count [simp]:
  "same_but S (t\<lparr>t_count := x\<rparr>) (t'\<lparr>t_count := x\<rparr>) = same_but S (t\<lparr>t_count := t_count t'\<rparr>) t'"
  by (auto simp: same_but_def)

lemma same_but_countI: "same_but S t t' \<Longrightarrow> x = t_count t + y \<Longrightarrow>
   same_but S (t\<lparr>t_count := t_count t + y\<rparr>) (t'\<lparr>t_count := x\<rparr>)"
  by (auto simp: same_but_def)

lemma tree_rel_count [simp]: "tree_rel (t\<lparr>t_count := x\<rparr>) g = tree_rel t g"
proof -
  have "tree_at (t\<lparr>t_count := x\<rparr>) g = tree_at t g" for g :: "('a, 'b) data gtree"
    by (induction g) auto
  then show ?thesis by (simp add: tree_rel_def)
qed

lemma insert_node_empty:
  assumes rel: "tree_rel t Leaf" and n: "node_at t n = Some (mk_node 0 0 False c nd)" and nd: "fst nd = k"
  shows "returns (insert_node cmp n k t) (insert_post cmp n nd t Leaf)"
proof -
  have root: "t_root t = 0" using rel by (simp add: tree_rel_def)
  have n0: "n \<noteq> 0" using n by auto
  define t' where "t' = (put_node n (mk_node 0 0 False BLACK nd) (t\<lparr>t_root := n\<rparr>))\<lparr>t_count := t_count t + 1\<rparr>"
  have run: "insert_node cmp n k t = Some (True, t')"
    using root n by (subst insert_node.simps) (simp add: lock_path_def set_color_def t'_def)
  have "tree_rel t' (Nd n BLACK nd Leaf Leaf)"
    using n0 by (auto simp: t'_def tree_rel_def red_black_def balanced_def intro: exI [of _ 1])
  moreover have "same_but {n} (t\<lparr>t_count := t_count t + 1\<rparr>) t'"
    by (simp add: t'_def same_but_def)
  ultimately have "insert_post cmp n nd t Leaf (True, t')"
    unfolding insert_post_def
    by (auto intro!: exI [of _ "[]"] exI [of _ "Nd n BLACK nd Leaf Leaf"])
  then show ?thesis by (simp add: run)
qed

lemma route_items:
  "route cmp k (Fr lft a c d s # fs) \<Longrightarrow> route cmp k fs"
  by (auto split: if_splits)

text \<open>Hanging the new node below the locked parent.\<close>

lemma link_node:
  assumes c: "ctx_at t (Fr lft a ca d s # fs) 0" and n: "node_at t n = Some (mk_node 0 0 False cn nd)"
    and nn: "n \<notin> cnodes (Fr lft a ca d s # fs)" and cd: "cdist (Fr lft a ca d s # fs)"
  shows "returns (lock_node n t) (\<lambda>t1. returns (if lft then set_left a n t1 else set_right a n t1)
    (\<lambda>t2. returns (set_color n RED t2) (\<lambda>t'. locked_at t' (Nd n RED nd Leaf Leaf) \<and>
      ctx_at t' (Fr lft a ca d s # fs) n \<and> same_but {n, a} t t')))"
  using assms by (cases lft) (auto simp: node_ops dest: node_at_SomeD)

lemma insert_node_absent:
  assumes rel: "tree_rel t g" and ne: "g \<noteq> Leaf" and nn: "n \<notin> nodes_of g"
    and n: "node_at t1 n = Some (mk_node 0 0 False c nd)"
    and same: "same_but (nodes_of g) t t1"
    and gfs: "g = plug fs Leaf" and fs: "fs = Fr lft a ca d s # fs'"
    and c: "ctx_at t1 fs 0"
    and side: "side = (if lft then 0 else 1)"
  shows "returns (insert_below n (map fptr fs) side t1) (\<lambda>t7.
    \<exists>g'. items g' = before fs @ (n, nd) # after fs \<and> tree_rel t7 g' \<and> same_but (nodes_of g') t t7)"
proof -
  let ?x = "Nd n RED nd Leaf Leaf"
  have ap: "apart fs Leaf" and rb: "red_black g" using rel by (simp_all add: tree_rel_def gfs tdist_plug)
  then have cd: "cdist fs" by (simp add: apart_def)
  have nfs: "n \<notin> cnodes fs" using nn by (simp add: gfs)
  have apx: "apart fs ?x" using cd nfs by (simp add: apart_def)
  obtain m where "rbt m (Leaf :: ('a, 'b) data gtree)" "rbctx m BLACK fs"
    using plug_split [of fs Leaf] rb by (auto simp: gfs)
  then have bal: "rbt 0 ?x" "rbctx 0 BLACK fs" by simp_all
  have it: "items (plug fs ?x) = before fs @ (n, nd) # after fs" by (simp add: items_plug)
  have sub: "{n, a} \<subseteq> nodes_of (plug fs ?x)" "nodes_of g \<subseteq> nodes_of (plug fs ?x)"
    by (auto simp: fs gfs)
  have "0 \<notin> nodes_of g" using rel tree_at_ne0 by (auto simp: tree_rel_def)
  then have "height g \<le> 128"
    using rel by (intro red_black_height) (simp_all add: tree_rel_def tdist_iff)
  then have dep: "length fs < TREE_MAX_HEIGHT"
    using plug_height [of fs "Leaf :: ('a, 'b) data gtree"] by (simp add: gfs TREE_MAX_HEIGHT_def)
  have link: "returns (lock_node n t1) (\<lambda>t2. returns (if lft then set_left a n t2 else set_right a n t2)
    (\<lambda>t3. returns (set_color n RED t3) (\<lambda>t4. locked_at t4 ?x \<and> ctx_at t4 fs n \<and> same_but {n, a} t1 t4)))"
    using link_node [of t1 lft a ca d s fs' n c nd] c n nfs cd by (simp add: fs)
  have fin: "returns (fixup_insert (n # map fptr fs) t4) (\<lambda>(path, t5). returns (blacken_root path t5) (\<lambda>t6.
      returns (unlock_path path t6) (\<lambda>t7. \<exists>g'. items g' = before fs @ (n, nd) # after fs \<and>
          tree_rel t7 g' \<and> same_but (nodes_of g') t t7)))"
    if t4: "locked_at t4 ?x" "ctx_at t4 fs n" "same_but {n, a} t1 t4" for t4
  proof (rule returns_mono [OF fixup_insert_spec [OF t4(1,2) apx bal]])
    fix r assume post: "ins_post t4 (plug fs ?x) r"
    obtain path t5 where r: "r = (path, t5)" by force
    obtain fs2 g2 where f: "path = rp g2 # map fptr fs2" "locked_at t5 g2" "ctx_at t5 fs2 (rp g2)"
      "items (plug fs2 g2) = items (plug fs ?x)" "balanced (plug fs2 g2)"
      "same_but (nodes_of (plug fs ?x)) t4 t5"
      using post by (auto simp: ins_post_def r)
    obtain b cb db lb rb where g2: "g2 = Nd b cb db lb rb" using f(2) by (cases g2) auto
    have nd2: "nodes_of (plug fs2 g2) = nodes_of (plug fs ?x)" and "apart fs2 g2"
      using items_eq_nodes [OF f(4)] apx by (simp_all add: tdist_plug)
    then have fr: "ctx_at t5 (Fr True b cb db rb # fs2) (rp lb)" "tree_at t5 lb"
      "apart (Fr True b cb db rb # fs2) lb"
      using locked_frame [of t5 b cb db lb rb fs2] f(2,3) g2 by auto
    have path: "path = map fptr (Fr True b cb db rb # fs2)" by (simp add: f(1) g2)
    have pl: "plug (Fr True b cb db rb # fs2) lb = plug fs2 g2" by (simp add: g2)
    have "same_but (nodes_of (plug fs ?x)) t t5"
      using same_but_mono [OF same sub(2)] same_but_mono [OF t4(3) sub(1)] f(6)
      by (blast intro: same_but_trans)
    then have sm: "same_but (nodes_of (plug (Fr True b cb db rb # fs2) lb)) t t5"
      unfolding pl nd2 .
    have "balanced (plug (Fr True b cb db rb # fs2) lb)" using f(5) pl by simp
    note fin = finish_spec [OF fr this sm]
    have "items (blacken (plug (Fr True b cb db rb # fs2) lb)) = before fs @ (n, nd) # after fs"
      unfolding pl using f(4) it by simp
    then show "case r of (path, t5) \<Rightarrow> returns (blacken_root path t5) (\<lambda>t6.
        returns (unlock_path path t6) (\<lambda>t7. \<exists>g'. items g' = before fs @ (n, nd) # after fs \<and>
          tree_rel t7 g' \<and> same_but (nodes_of g') t t7))"
      unfolding r prod.case path
      apply -
      apply (rule returns_mono [OF fin])
      apply (erule returns_mono)
      apply (rule exI [of _ "blacken (plug (Fr True b cb db rb # fs2) lb)"])
      apply simp
      done
  qed
  have push: "path_push n (map fptr fs) = Some (n # map fptr fs)" using dep by (simp add: path_push_def)
  have top: "path_top (map fptr fs) = Some a" by (simp add: fs path_top_def)
  have "(side = 0) = lft" using side by simp
  then show ?thesis
    unfolding insert_below_def push top returns_simps(2,3) returns_case_prod
    apply (simp only:)
    apply (rule returns_mono [OF link])
    apply (erule returns_mono)
    apply (erule returns_mono)
    apply (blast intro: fin)
    done
qed

text \<open>Releasing the path to a node that was found leaves the tree as it was.\<close>

lemma unlock_found:
  assumes rel: "tree_rel t g" and g: "g = plug fs (Nd a c d l r)" and x: "locked_at t1 (Nd a c d l r)"
    and c: "ctx_at t1 fs a" and same: "same_but (nodes_of g) t t1"
  shows "returns (unlock_path (a # map fptr fs) t1) (\<lambda>t'. tree_rel t' g \<and> same_but (nodes_of g) t t')"
proof -
  have "apart fs (Nd a c d l r)" using rel by (simp add: tree_rel_def g tdist_plug)
  then have f: "ctx_at t1 (Fr True a c d r # fs) (rp l)" "tree_at t1 l" "apart (Fr True a c d r # fs) l"
    using locked_frame [of t1 a c d l r fs] x c by auto
  obtain t' where t': "unlock_path (map fptr (Fr True a c d r # fs)) t1 = Some t'"
    "tree_at t' (plug (Fr True a c d r # fs) l)" "t_root t' = rp (plug (Fr True a c d r # fs) l)"
    "same_but (nodes_of (plug (Fr True a c d r # fs) l)) t1 t'"
    using unlock_path_spec [OF f] by blast
  have pl: "plug (Fr True a c d r # fs) l = g" by (simp add: g)
  have "same_but (nodes_of g) t t'" using same t'(4) unfolding pl by (rule same_but_trans)
  moreover have "tree_rel t' g" using t'(2,3) rel unfolding pl by (simp add: tree_rel_def)
  ultimately show ?thesis using t'(1) by (simp add: returns_def)
qed

lemma unlock_absent:
  assumes rel: "tree_rel t g" and g: "g = plug fs Leaf"
    and c: "ctx_at t1 fs 0" and same: "same_but (nodes_of g) t t1"
  shows "returns (unlock_path (map fptr fs) t1) (\<lambda>t'. tree_rel t' g \<and> same_but (nodes_of g) t t')"
proof -
  have ap: "apart fs Leaf" using rel by (simp add: tree_rel_def g tdist_plug)
  obtain t' where t': "unlock_path (map fptr fs) t1 = Some t'" "tree_at t' (plug fs Leaf)"
    "t_root t' = rp (plug fs Leaf)" "same_but (nodes_of (plug fs Leaf)) t1 t'"
    using unlock_path_spec [of t1 fs Leaf] c ap by auto
  have "same_but (nodes_of g) t t'" using same t'(4) unfolding g by (rule same_but_trans)
  moreover have "tree_rel t' g" using t'(2,3) rel unfolding g by (simp add: tree_rel_def)
  ultimately show ?thesis using t'(1) by (simp add: returns_def)
qed

lemma insert_post_dup:
  "route cmp (fst nd) fs \<Longrightarrow> g = plug fs (Nd a c d l r) \<Longrightarrow> compare cmp (fst nd) (fst d) = 0 \<Longrightarrow>
   tree_rel t' g \<and> same_but (nodes_of g) t t' \<Longrightarrow> insert_post cmp n nd t g (False, t')"
  unfolding insert_post_def prod.case by blast

lemma insert_post_new:
  assumes "route cmp (fst nd) fs" and "g = plug fs Leaf"
    and "\<exists>g'. items g' = before fs @ (n, nd) # after fs \<and> tree_rel t' g' \<and> same_but (nodes_of g') t t'"
  shows "insert_post cmp n nd t g (True, t'\<lparr>t_count := t_count t' + 1\<rparr>)"
proof -
  obtain g' where g': "items g' = before fs @ (n, nd) # after fs" "tree_rel t' g'"
    "same_but (nodes_of g') t t'" using assms(3) by blast
  have "t_count t' = t_count t" using g'(3) by (simp add: same_but_def)
  then have "same_but (nodes_of g') (t\<lparr>t_count := t_count t + 1\<rparr>) (t'\<lparr>t_count := t_count t' + 1\<rparr>)"
    using same_but_countI [OF g'(3)] by simp
  moreover have "tree_rel (t'\<lparr>t_count := t_count t' + 1\<rparr>) g'" using g'(2) by simp
  ultimately show ?thesis
    unfolding insert_post_def prod.case using assms(1,2) g'(1) by blast
qed

lemma lock_postE:
  assumes "lock_post cmp k t g (r, path, side, t1)"
  obtains (found) fs a c d l rt where "same_but (nodes_of g) t t1" "route cmp k fs" "r = 1"
      "g = plug fs (Nd a c d l rt)" "compare cmp k (fst d) = 0" "path = a # map fptr fs"
      "locked_at t1 (Nd a c d l rt)" "ctx_at t1 fs a"
  | (absent) fs lft a c d s fs' where "same_but (nodes_of g) t t1" "route cmp k fs" "r = 0"
      "g = plug fs Leaf" "fs = Fr lft a c d s # fs'" "side = (if lft then 0 else 1)"
      "path = map fptr fs" "ctx_at t1 fs 0"
  using assms unfolding lock_post_def prod.case by blast

lemma insert_node_spec:
  assumes rel: "tree_rel t g" and nn: "n \<notin> nodes_of g"
    and n: "node_at t n = Some (mk_node 0 0 False c nd)" and k: "fst nd = k"
  shows "returns (insert_node cmp n k t) (insert_post cmp n nd t g)"
proof (cases "g = Leaf")
  case True
  then show ?thesis using insert_node_empty [OF _ n k] rel by simp
next
  case False
  obtain r path side t1 where lp: "lock_path cmp k t = Some (r, path, side, t1)"
    and post: "lock_post cmp k t g (r, path, side, t1)"
    using lock_path_spec [OF rel False, of cmp k] by (auto elim!: returnsE)
  have n1: "node_at t1 n = Some (mk_node 0 0 False c nd)" if "same_but (nodes_of g) t t1"
    using that nn n by (simp add: same_but_def)
  from post show ?thesis
  proof (cases rule: lock_postE)
    case (found fs a ca d l rt)
    have "returns (unlock_path path t1) (\<lambda>t'. insert_post cmp n nd t g (False, t'))"
      unfolding found(6)
      by (rule returns_mono [OF unlock_found [OF rel found(4,7,8,1)]])
        (use found(2,4,5) k in \<open>blast intro: insert_post_dup\<close>)
    then show ?thesis using lp found(3) by (subst insert_node.simps) simp
  next
    case (absent fs lft a ca d s fs')
    have "returns (insert_below n path side t1)
        (\<lambda>t'. insert_post cmp n nd t g (True, t'\<lparr>t_count := t_count t' + 1\<rparr>))"
      unfolding absent(7)
      by (rule returns_mono [OF insert_node_absent [OF rel False nn n1 absent(1,4,5,8,6)]])
        (use absent(1,2,4) k in \<open>auto intro: insert_post_new\<close>)
    then show ?thesis using lp absent(3) by (subst insert_node.simps) simp
  qed
qed

end
