(* ===== verification/TreeErase.thy ===== *)
theory TreeErase
  imports TreeInsert
begin

section \<open>Erasure\<close>

subsection \<open>The fixup\<close>

text \<open>
  The position of the missing black node is the top of the path: its subtree \<open>g\<close> is one
  black node lower than its context asks for. What the fixup leaves is a balanced tree with
  the nodes in the same order, still locked along the path.
\<close>

definition del_post ::
  "('k, 'v, 'r) tree \<Rightarrow> ('k, 'v) data gtree \<Rightarrow> path_stack \<times> ('k, 'v, 'r) tree \<Rightarrow> bool" where
  "del_post t h = (\<lambda>(path', t'). \<exists>fs g. path' = map fptr fs \<and> tree_at t' g \<and>
     ctx_at t' fs (rp g) \<and> items (plug fs g) = items h \<and> balanced (plug fs g) \<and>
     same_but (nodes_of h) t t')"

lemma del_postI:
  assumes "tree_at t' g" "ctx_at t' fs (rp g)" "items (plug fs g) = items h"
    "balanced (plug fs g)" "same_but (nodes_of h) t t'" "path' = map fptr fs"
  shows "del_post t h (path', t')"
  using assms unfolding del_post_def by blast

lemma del_post_trans:
  assumes "del_post t1 h1 r" and "items h1 = items h" and "same_but (nodes_of h) t t1"
  shows "del_post t h r"
proof -
  have "nodes_of h1 = nodes_of h" using items_eq_nodes [OF assms(2)] by simp
  then show ?thesis using assms by (auto simp: del_post_def intro: same_but_trans)
qed

text \<open>The side of a position under its parent.\<close>

fun side_of :: "'d frame list \<Rightarrow> int \<Rightarrow> int" where
  "side_of [] s = s"
| "side_of (Fr lft a c d w # fs) s = (if lft then 0 else 1)"

lemma child_at: "node_at t p = Some nd \<Longrightarrow> child_of p lft t = Some (if lft then n_left nd else n_right nd)"
  by (simp add: child_of_def)

lemma side_lookup:
  assumes "ctx_at t fs p" and "p \<noteq> 0" and "p \<notin> cnodes fs"
  shows "(if 1 \<le> length fs then do { gp \<leftarrow> path_top (map fptr fs); gl \<leftarrow> child_of gp True t;
      Some (if gl = p then 0 else 1) } else Some s) = Some (side_of fs s)"
proof (cases fs)
  case (Cons f fs')
  obtain lft a c d sib where f: "f = Fr lft a c d sib" by (cases f)
  have "rp sib \<noteq> p" using assms(2,3) rp_nodes [of sib] by (auto simp: Cons f)
  then show ?thesis using assms(1) by (simp add: Cons f path_top_def child_of_def)
qed simp

lemma fixup_delete_case1:
  assumes g: "tree_at t g" "gcolor g = BLACK"
    and c: "ctx_at t (Fr lft p cp dp (branch lft w RED dw near far) # fs) (rp g)"
    and ap: "apart (Fr lft p cp dp (branch lft w RED dw near far) # fs) g"
    and dep: "Suc (length fs) < TREE_MAX_HEIGHT"
    and rec: "\<And>t'. tree_at t' g \<Longrightarrow> ctx_at t' (Fr lft p RED dp near # Fr lft w BLACK dw far # fs) (rp g) \<Longrightarrow>
      same_but ({p, w} \<union> cnodes fs) t t' \<Longrightarrow>
      returns (fixup_delete (p # w # map fptr fs) (rp g) (if lft then 0 else 1) t') Q"
  shows "returns (fixup_delete (p # map fptr fs) (rp g) (if lft then 0 else 1) t) Q"
proof -
  have ne: "p \<noteq> 0" "w \<noteq> 0" using c by (cases lft; auto dest: node_at_SomeD)+
  have d: "p \<noteq> w" "w \<noteq> p" using ap by (auto simp: apart_def)
  have n: "{p, w} \<inter> (nodes_of g \<union> nodes_of near \<union> nodes_of far \<union> cnodes fs) = {}"
    "nodes_of g \<inter> cnodes fs = {}" "nodes_of near \<inter> cnodes fs = {}" "nodes_of far \<inter> cnodes fs = {}"
    "cdist fs" using ap by (auto simp: apart_def)
  have sub: "cnodes fs \<subseteq> insert p (insert w (cnodes fs))" by auto
  show ?thesis
    apply (subst fixup_delete.simps)
    using g c ne d n sub dep rec
    apply (induct lft)
     apply (simp_all add: node_ops path_ops)
     apply (rule rotate_in_path [where fs = fs and xs = "[p]" and n = w])
         apply (simp_all add: node_ops rehang_ctx [where p = p])
    apply (rule rotate_in_path [where fs = fs and xs = "[p]" and n = w])
        apply (simp_all add: node_ops rehang_ctx [where p = p])
    done
qed

lemma fixup_delete_case2:
  assumes g: "tree_at t g" "gcolor g = BLACK" and w: "gcolor near = BLACK" "gcolor far = BLACK"
    and c: "ctx_at t (Fr lft p cp dp (branch lft w BLACK dw near far) # fs) (rp g)"
    and ap: "apart (Fr lft p cp dp (branch lft w BLACK dw near far) # fs) g"
    and rec: "\<And>t'. tree_at t' (branch lft p cp dp g (branch lft w RED dw near far)) \<Longrightarrow> ctx_at t' fs p \<Longrightarrow>
      same_but {p, w} t t' \<Longrightarrow>
      returns (fixup_delete (map fptr fs) p (side_of fs (if lft then 0 else 1)) t') Q"
  shows "returns (fixup_delete (p # map fptr fs) (rp g) (if lft then 0 else 1) t) Q"
proof -
  have ne: "p \<noteq> 0" "w \<noteq> 0" using c by (cases lft; auto dest: node_at_SomeD)+
  have d: "p \<noteq> w" "w \<noteq> p" using ap by (auto simp: apart_def)
  have n: "{p, w} \<inter> (nodes_of g \<union> nodes_of near \<union> nodes_of far \<union> cnodes fs) = {}"
    using ap by (auto simp: apart_def)
  show ?thesis
    apply (subst fixup_delete.simps)
    using g c ne d n w rec
    apply (induct lft)
     apply (simp_all add: lock_node_def unlock_node_def set_color_def path_top_def Let_def
        side_lookup [unfolded One_nat_def] child_at)
    done
qed

lemma fixup_delete_case4:
  assumes g: "tree_at t g" "gcolor g = BLACK"
    and c: "ctx_at t (Fr lft p cp dp (branch lft w BLACK dw near (Nd fa RED df fl fr)) # fs) (rp g)"
    and ap: "apart (Fr lft p cp dp (branch lft w BLACK dw near (Nd fa RED df fl fr)) # fs) g"
    and Q: "\<And>t'. tree_at t' (branch lft p BLACK dp g near) \<Longrightarrow>
      ctx_at t' (Fr lft w cp dw (Nd fa BLACK df fl fr) # fs) p \<Longrightarrow>
      same_but ({p, w, fa} \<union> cnodes fs) t t' \<Longrightarrow> Q (w # map fptr fs, t')"
  shows "returns (fixup_delete (p # map fptr fs) (rp g) (if lft then 0 else 1) t) Q"
proof -
  have ne: "p \<noteq> 0" "w \<noteq> 0" "fa \<noteq> 0" using c by (cases lft; auto dest: node_at_SomeD)+
  have d: "p \<noteq> w" "w \<noteq> p" "p \<noteq> fa" "fa \<noteq> p" "w \<noteq> fa" "fa \<noteq> w" using ap by (auto simp: apart_def)
  have n: "{p, w, fa} \<inter> (nodes_of g \<union> nodes_of near \<union> nodes_of fl \<union> nodes_of fr \<union> cnodes fs) = {}"
    "nodes_of g \<inter> cnodes fs = {}" "nodes_of near \<inter> cnodes fs = {}" "nodes_of fl \<inter> cnodes fs = {}"
    "nodes_of fr \<inter> cnodes fs = {}" "cdist fs" using ap by (auto simp: apart_def)
  have sub: "cnodes fs \<subseteq> insert p (insert w (insert fa (cnodes fs)))" by auto
  show ?thesis
    apply (subst fixup_delete.simps)
    using g c ne d n sub Q
    apply (induct lft)
     apply (simp_all add: node_ops path_ops)
     apply (rule rotate_in_path [where fs = fs and xs = "[p]" and n = w])
         apply (simp_all add: node_ops rehang_ctx [where p = p])
    apply (rule rotate_in_path [where fs = fs and xs = "[p]" and n = w])
        apply (simp_all add: node_ops rehang_ctx [where p = p])
    done
qed

lemma fixup_delete_case3:
  assumes g: "tree_at t g" "gcolor g = BLACK" and far: "gcolor far = BLACK"
    and c: "ctx_at t (Fr lft p cp dp (branch lft w BLACK dw (branch lft na RED dn n1 n2) far) # fs) (rp g)"
    and ap: "apart (Fr lft p cp dp (branch lft w BLACK dw (branch lft na RED dn n1 n2) far) # fs) g"
    and Q: "\<And>t'. tree_at t' (branch lft p BLACK dp g n1) \<Longrightarrow>
      ctx_at t' (Fr lft na cp dn (branch lft w BLACK dw n2 far) # fs) p \<Longrightarrow>
      same_but ({p, w, na} \<union> cnodes fs) t t' \<Longrightarrow> Q (na # map fptr fs, t')"
  shows "returns (fixup_delete (p # map fptr fs) (rp g) (if lft then 0 else 1) t) Q"
proof -
  have ne: "p \<noteq> 0" "w \<noteq> 0" "na \<noteq> 0" using c by (cases lft; auto dest: node_at_SomeD)+
  have d: "p \<noteq> w" "w \<noteq> p" "p \<noteq> na" "na \<noteq> p" "w \<noteq> na" "na \<noteq> w" using ap by (auto simp: apart_def)
  have n: "{p, w, na} \<inter> (nodes_of g \<union> nodes_of far \<union> nodes_of n1 \<union> nodes_of n2 \<union> cnodes fs) = {}"
    "nodes_of g \<inter> cnodes fs = {}" "nodes_of far \<inter> cnodes fs = {}" "nodes_of n1 \<inter> cnodes fs = {}"
    "nodes_of n2 \<inter> cnodes fs = {}" "cdist fs" using ap by (auto simp: apart_def)
  have sub: "cnodes fs \<subseteq> insert p (insert w (insert na (cnodes fs)))" by auto
  have rp: "rp g \<noteq> w" using n(1) ne rp_nodes [of g] by auto
  show ?thesis
    apply (subst fixup_delete.simps)
    using g c ne d n sub far rp Q
    apply (induct lft)
     apply (simp_all add: node_ops path_ops rotate_not_in_path)
     apply (rule rotate_in_path [where fs = fs and xs = "[p]" and n = na])
         apply (simp_all add: node_ops rehang_ctx [where p = p])
    apply (rule rotate_in_path [where fs = fs and xs = "[p]" and n = na])
        apply (simp_all add: node_ops rehang_ctx [where p = p])
    done
qed

subsection \<open>The loop\<close>

text \<open>It stops at a red node, which is made black, or at the root.\<close>

lemma fixup_delete_stop:
  assumes g: "tree_at t g" and c: "ctx_at t fs (rp g)" and ap: "apart fs g"
    and stop: "gcolor g = RED \<or> fs = []" and bal: "balanced (plug fs (blacken g))"
  shows "returns (fixup_delete (map fptr fs) (rp g) s t) (del_post t (plug fs g))"
proof (cases g)
  case Leaf
  then have "fs = []" using stop by simp
  then show ?thesis using Leaf c bal
    by (subst fixup_delete.simps) (auto simp: del_post_def intro!: exI [of _ "[]"] exI [of _ Leaf])
next
  case (Nd x cx d l r)
  define t' where "t' = put_node x (mk_node (rp l) (rp r) False BLACK d) t"
  have x: "node_at t x = Some (mk_node (rp l) (rp r) False cx d)" "x \<noteq> 0" and lr: "tree_at t l" "tree_at t r"
    using g Nd by (auto dest: node_at_SomeD)
  have n: "x \<notin> nodes_of l" "x \<notin> nodes_of r" "x \<notin> cnodes fs" using ap Nd by (auto simp: apart_def)
  have "fixup_delete (map fptr fs) (rp g) s t = Some (map fptr fs, t')"
  proof (cases "fs = []")
    case True
    then show ?thesis using x c Nd
      by (subst fixup_delete.simps) (simp add: lock_node_def unlock_node_def set_color_def t'_def)
  next
    case False
    then show ?thesis using x stop Nd
      by (subst fixup_delete.simps) (simp add: set_color_def t'_def)
  qed
  moreover have "del_post t (plug fs g) (map fptr fs, t')"
    using x lr n c Nd bal
    by (intro del_postI [where g = "blacken g" and fs = fs]) (simp_all add: t'_def items_plug)
  ultimately show ?thesis by simp
qed

text \<open>The iterations with a black sibling.\<close>

lemma fixup_delete_wblack:
  fixes t :: "('k, 'v, 'r) tree"
  assumes g: "tree_at t g" "gcolor g = BLACK" "rbt n g"
    and c: "ctx_at t (Fr lft p cp dp w # fs) (rp g)" and ap: "apart (Fr lft p cp dp w # fs) g"
    and ctx: "rbctx (Suc n) BLACK (Fr lft p cp dp w # fs)" and w: "gcolor w = BLACK"
    and rec: "\<And>(t' :: ('k, 'v, 'r) tree) g2 s. cp = BLACK \<Longrightarrow> tree_at t' g2 \<Longrightarrow> ctx_at t' fs (rp g2) \<Longrightarrow>
      apart fs g2 \<Longrightarrow> rbt (Suc n) g2 \<Longrightarrow> rbctx (Suc (Suc n)) BLACK fs \<Longrightarrow>
      returns (fixup_delete (map fptr fs) (rp g2) (side_of fs s) t') (del_post t' (plug fs g2))"
  shows "returns (fixup_delete (p # map fptr fs) (rp g) (if lft then 0 else 1) t)
    (del_post t (plug (Fr lft p cp dp w # fs) g))"
proof -
  let ?h = "plug (Fr lft p cp dp w # fs) g"
  have rw: "rbt (Suc n) w" and rfs: "rbctx (Suc n) cp fs \<or> cp = BLACK \<and> rbctx (Suc (Suc n)) BLACK fs"
    using ctx by (cases cp; simp)+
  then obtain wa dw near far where weq: "w = branch lft wa BLACK dw near far"
    using w by (cases w; cases lft) (auto intro: that)
  have nf: "rbt n near" "rbt n far" using rw by (simp_all add: weq)
  note c' = c [unfolded weq] and ap' = ap [unfolded weq]
  have done': "balanced (plug fs (branch lft a cp d g1 g2))"
    if "rbt (Suc n) (branch lft a cp d g1 g2)" "cp = RED" for a d and g1 g2 :: "('k, 'v) data gtree"
    using that rfs plug_balanced [of "Suc n" "branch lft a cp d g1 g2" fs] by (simp add: red_black_def)
  show ?thesis
  proof (cases "gcolor near = BLACK \<and> gcolor far = BLACK")
    case True
    let ?g2 = "branch lft p cp dp g (branch lft wa RED dw near far)"
    have it: "items (plug fs ?g2) = items ?h" by (simp add: items_plug items_branch weq)
    have ap2: "apart fs ?g2" using it ap by (metis apart_iff)
    have sub: "{p, wa} \<subseteq> nodes_of ?h" by (simp add: weq)
    have "returns (fixup_delete (map fptr fs) p (side_of fs (if lft then 0 else 1)) t') (del_post t ?h)"
      if t': "tree_at t' ?g2" "ctx_at t' fs p" "same_but {p, wa} t t'" for t' :: "('k, 'v, 'r) tree"
    proof -
      have c2: "ctx_at t' fs (rp ?g2)" and rp2: "rp ?g2 = p" using t'(2) by (cases lft; simp)+
      have "returns (fixup_delete (map fptr fs) (rp ?g2) (side_of fs (if lft then 0 else 1)) t')
          (del_post t' (plug fs ?g2))"
      proof (cases cp)
        case RED
        have "rbt (Suc n) (branch lft p BLACK dp g (branch lft wa RED dw near far))"
          using g(3) nf True by simp
        then have "red_black (plug fs (branch lft p BLACK dp g (branch lft wa RED dw near far)))"
          using rfs RED by (intro plug_balanced) (auto intro: rbctx_black)
        then have "balanced (plug fs (blacken ?g2))" by (cases lft) (simp_all add: red_black_def)
        then show ?thesis using t'(1) c2 ap2 RED by (intro fixup_delete_stop) simp_all
      next
        case BLACK
        then show ?thesis using rec [of t' ?g2] t'(1) c2 ap2 rfs g(3) nf True ctx
          by (simp add: BLACK)
      qed
      then show ?thesis unfolding rp2
        by (rule returns_mono) (rule del_post_trans [OF _ it same_but_mono [OF t'(3) sub]])
    qed
    then show ?thesis using fixup_delete_case2 [OF g(1,2) _ _ c' ap'] True by simp
  next
    case False
    have fin: "balanced (plug (Fr lft a cp d f # fs) g1)"
      if "rbt n' f" "rbt n' g1" "n' = Suc n" "gcolor g1 = BLACK" "gcolor f = BLACK" for a d f g1 n'
    proof -
      have "rbctx n' (gcolor g1) (Fr lft a cp d f # fs)"
        using that ctx by (cases cp) simp_all
      then show ?thesis
        using that plug_balanced [of n' g1 "Fr lft a cp d f # fs"] by (simp add: red_black_def)
    qed
    show ?thesis
    proof (cases "gcolor far")
      case RED
      then obtain fa df fl fr where far: "far = Nd fa RED df fl fr" by (cases far) auto
      have it: "items (plug (Fr lft wa cp dw (Nd fa BLACK df fl fr) # fs) (branch lft p BLACK dp g near)) = items ?h"
        by (simp add: items_plug items_branch weq far)
      have bal: "balanced (plug (Fr lft wa cp dw (Nd fa BLACK df fl fr) # fs) (branch lft p BLACK dp g near))"
        using nf g(3) by (intro fin [of "Suc n"]) (simp_all add: far)
      have sub: "{p, wa, fa} \<union> cnodes fs \<subseteq> nodes_of ?h" by (auto simp: weq far)
      show ?thesis
        by (rule fixup_delete_case4 [OF g(1,2) c' [unfolded far] ap' [unfolded far]],
            rule del_postI [OF _ _ it bal same_but_mono [OF _ sub]]) (cases lft; simp)+
    next
      case BLACK
      then have "gcolor near = RED" using False by simp
      then obtain na dn n1 n2 where near: "near = branch lft na RED dn n1 n2"
        by (cases near; cases lft) (auto intro: that)
      let ?w = "branch lft wa BLACK dw n2 far"
      have it: "items (plug (Fr lft na cp dn ?w # fs) (branch lft p BLACK dp g n1)) = items ?h"
        by (simp add: items_plug items_branch weq near)
      have bal: "balanced (plug (Fr lft na cp dn ?w # fs) (branch lft p BLACK dp g n1))"
        using nf g(3) by (intro fin [of "Suc n"]) (simp_all add: near)
      have sub: "{p, wa, na} \<union> cnodes fs \<subseteq> nodes_of ?h" by (auto simp: weq near)
      show ?thesis
        by (rule fixup_delete_case3 [OF g(1,2) BLACK c' [unfolded near] ap' [unfolded near]],
            rule del_postI [OF _ _ it bal same_but_mono [OF _ sub]]) (cases lft; simp)+
    qed
  qed
qed

lemma fixup_delete_spec:
  fixes t :: "('k, 'v, 'r) tree"
  assumes "tree_at t g" and "ctx_at t fs (rp g)" and "apart fs g" and "rbt n g"
    and "rbctx (Suc n) BLACK fs" and "length fs < TREE_MAX_HEIGHT"
  shows "returns (fixup_delete (map fptr fs) (rp g) (side_of fs s) t) (del_post t (plug fs g))"
  using assms
proof (induction fs arbitrary: g t n s)
  case Nil
  have "balanced (plug [] (blacken g))"
    using Nil.prems(4) blacken_red_black [of g] by (auto simp: balanced_def red_black_def)
  then show ?case using Nil.prems fixup_delete_stop [where fs = "[]" and t = t and g = g] by simp
next
  case (Cons f fs)
  obtain lft p cp dp w where f: "f = Fr lft p cp dp w" by (cases f)
  note prems = Cons.prems [unfolded f]
  have side: "side_of (f # fs) s = (if lft then 0 else 1)" by (simp add: f)
  show ?case
  proof (cases "gcolor g")
    case RED
    have "\<exists>m. rbt m (blacken g) \<and> m = Suc n" using RED prems(4) by (cases g) auto
    then have "balanced (plug (f # fs) (blacken g))"
      using plug_balanced [of "Suc n" "blacken g" "f # fs"] Cons.prems(5) by (simp add: red_black_def)
    then show ?thesis using Cons.prems RED by (intro fixup_delete_stop) simp_all
  next
    case BLACK
    have IH: "returns (fixup_delete (map fptr fs) (rp g2) (side_of fs s) t') (del_post t' (plug fs g2))"
      if "tree_at t' g2" "ctx_at t' fs (rp g2)" "apart fs g2" "rbt m g2" "rbctx (Suc m) BLACK fs"
      for t' :: "('k, 'v, 'r) tree" and g2 s m
      using Cons.IH [OF that] prems(6) by simp
    show ?thesis
    proof (cases "gcolor w")
      case wb: BLACK
      show ?thesis
        using fixup_delete_wblack [OF prems(1) BLACK prems(4,2,3,5) wb] IH by (simp add: f)
    next
      case wr: RED
      have cp: "cp = BLACK" using prems(5) wr by (cases cp) simp_all
      then have rw: "rbt (Suc n) w" and rfs: "rbctx (Suc (Suc n)) BLACK fs" using prems(5) by simp_all
      obtain wa dw near far where weq: "w = branch lft wa RED dw near far"
        using wr by (cases w; cases lft) (auto intro: that)
      have nf: "gcolor near = BLACK" "gcolor far = BLACK" "rbt (Suc n) near" "rbt (Suc n) far"
        using rw by (simp_all add: weq)
      let ?fs = "Fr lft p RED dp near # Fr lft wa BLACK dw far # fs"
      have it: "items (plug ?fs g) = items (plug (f # fs) g)"
        by (simp add: items_plug items_branch f weq)
      have ap2: "apart ?fs g" using it Cons.prems(3) by (metis apart_iff)
      have ctx2: "rbctx (Suc n) BLACK ?fs" using nf rfs by simp
      have sub: "{p, wa} \<union> cnodes fs \<subseteq> nodes_of (plug (f # fs) g)" by (auto simp: f weq)
      have dep: "Suc (length fs) < TREE_MAX_HEIGHT" using prems(6) by simp
      have "returns (fixup_delete (p # wa # map fptr fs) (rp g) (if lft then 0 else 1) t')
          (del_post t (plug (f # fs) g))"
        if t': "tree_at t' g" "ctx_at t' ?fs (rp g)" "same_but ({p, wa} \<union> cnodes fs) t t'"
        for t' :: "('k, 'v, 'r) tree"
      proof -
        have "returns (fixup_delete (p # map fptr (Fr lft wa BLACK dw far # fs)) (rp g)
            (if lft then 0 else 1) t') (del_post t' (plug ?fs g))"
          by (rule fixup_delete_wblack [OF t'(1) BLACK prems(4) t'(2) ap2 ctx2 nf(1)]) simp
        then show ?thesis
          by (simp only: list.map fptr.simps)
            (erule returns_mono, rule del_post_trans [OF _ it same_but_mono [OF t'(3) sub]])
      qed
      then show ?thesis
        using fixup_delete_case1 [OF prems(1) BLACK prems(2) [unfolded weq] prems(3) [unfolded weq] dep]
        by (simp add: f)
    qed
  qed
qed

subsection \<open>Unlinking a node\<close>

text \<open>The fixup runs when the removed node was black.\<close>

lemma fix_step:
  assumes g: "tree_at t g" "ctx_at t fs (rp g)" "apart fs g"
    and black: "cl = BLACK \<Longrightarrow> \<exists>m. rbt m g \<and> rbctx (Suc m) BLACK fs"
    and red: "cl = RED \<Longrightarrow> balanced (plug fs g)" and dep: "length fs < TREE_MAX_HEIGHT"
  shows "returns (if cl = BLACK then fixup_delete (map fptr fs) (rp g) (side_of fs s) t
    else Some (map fptr fs, t)) (del_post t (plug fs g))"
proof (cases cl)
  case RED
  have "del_post t (plug fs g) (map fptr fs, t)"
    using g red RED by (intro del_postI [where g = g and fs = fs]) simp_all
  then show ?thesis by (simp add: RED)
next
  case BLACK
  then show ?thesis using black fixup_delete_spec [OF g(1,2,3) _ _ dep] by auto
qed

lemma locked_depth:
  assumes "tree_rel t (plug fs g)" and "g \<noteq> Leaf"
  shows "length fs + height g \<le> 128" and "length fs < 128"
proof -
  have "tree_at t (plug fs g)" using assms(1) by (simp add: tree_rel_def)
  then have "0 \<notin> nodes_of (plug fs g)" using tree_at_ne0 by blast
  then have "height (plug fs g) \<le> 128"
    using assms(1) by (intro red_black_height) (simp_all add: tree_rel_def tdist_iff)
  then show "length fs + height g \<le> 128" using plug_height [of fs g] by simp
  moreover have "0 < height g" using assms(2) by (cases g) auto
  ultimately show "length fs < 128" by simp
qed

end
