(* ===== verification/TreeRemove.thy ===== *)
theory TreeRemove
  imports TreeErase
begin

section \<open>Unlinking the target\<close>

text \<open>
  \<open>erase_node\<close>: a target with at most one child is replaced by that child; otherwise its
  in-order successor takes its place and colour. The fixup then starts at the position that
  lost a node.
\<close>

subsection \<open>Balance\<close>

lemma cut_ctx:
  assumes "red_black (plug fs (Nd a c d l r))" and "l = Leaf \<or> r = Leaf"
  shows "\<exists>m. rbt m (if l = Leaf then r else l) \<and> rbctx (if c = BLACK then Suc m else m) BLACK fs \<and>
    (c = RED \<longrightarrow> gcolor (if l = Leaf then r else l) = BLACK)"
proof -
  obtain n where n: "rbt n (Nd a c d l r)" "rbctx n c fs" using plug_split [OF assms(1)] by auto
  show ?thesis
  proof (cases c)
    case RED
    then show ?thesis using n rbctx_black [OF n(2)] by auto
  next
    case BLACK
    then show ?thesis using n by (auto simp: rbt_black)
  qed
qed

lemma fix_after_cut:
  assumes g: "tree_at t g" "ctx_at t fs (rp g)" "apart fs g"
    and bal: "rbt m g" "rbctx (if cl = BLACK then Suc m else m) BLACK fs" "cl = RED \<longrightarrow> gcolor g = BLACK"
    and dep: "length fs < TREE_MAX_HEIGHT"
  shows "returns (if cl = BLACK then fixup_delete (map fptr fs) (rp g) (side_of fs s) t
    else Some (map fptr fs, t)) (del_post t (plug fs g))"
proof (rule fix_step [OF g _ _ dep])
  show "\<exists>m. rbt m g \<and> rbctx (Suc m) BLACK fs" if "cl = BLACK" using bal that by auto
  show "balanced (plug fs g)" if "cl = RED" using bal that by (intro balanced_plugI) auto
qed

lemma rbctx_relabel:
  "rbctx n cl (sfs @ Fr b a c d w # fs) \<longleftrightarrow> rbctx n cl (sfs @ Fr b a' c d' w # fs)"
proof (induction sfs arbitrary: n cl)
  case Nil
  then show ?case by (cases c) simp_all
next
  case (Cons f sfs)
  obtain lft x cx dx s where f: "f = Fr lft x cx dx s" by (cases f)
  show ?case using Cons by (cases cx) (simp_all add: f)
qed

subsection \<open>Finishing\<close>

text \<open>After the fixup the removed node \<open>a\<close> may still be written (its lock bit).\<close>

lemma del_finish:
  assumes post: "del_post t3 h (path, t4)" and dist: "tdist h"
    and same: "same_but {a} t4 t5" and root: "t_root t5 = t_root t4" and a: "a \<notin> nodes_of h"
  shows "returns (blacken_root path t5) (\<lambda>t6. returns (unlock_path path t6) (\<lambda>t'.
    \<exists>g'. tree_rel t' g' \<and> items g' = items h \<and> same_but (insert a (nodes_of h)) t3 t' \<and>
      node_at t' a = node_at t5 a))"
proof -
  obtain fs g where g: "path = map fptr fs" "tree_at t4 g" "ctx_at t4 fs (rp g)"
    "items (plug fs g) = items h" "balanced (plug fs g)" "same_but (nodes_of h) t3 t4"
    using post by (auto simp: del_post_def)
  have nd: "nodes_of (plug fs g) = nodes_of h" and td: "tdist (plug fs g)"
    using items_eq_nodes [OF g(4)] dist by simp_all
  then have ap: "apart fs g" by (simp add: tdist_plug)
  have dj: "nodes_of g \<inter> {a} = {}" "cnodes fs \<inter> {a} = {}" using nd a by auto
  have "tree_at t5 g" using tree_at_same [OF same dj(1)] g(2) by simp
  moreover have "ctx_at t5 fs (rp g)" using ctx_at_same [OF same root dj(2)] g(3) by simp
  ultimately have fin: "returns (blacken_root (map fptr fs) t5) (\<lambda>t. returns (unlock_path (map fptr fs) t)
      (\<lambda>t'. tree_rel t' (blacken (plug fs g)) \<and> same_but (nodes_of (plug fs g)) t5 t'))"
    using ap g(5) by (intro finish_spec) simp_all
  have "\<exists>g'. tree_rel t' g' \<and> items g' = items h \<and> same_but (insert a (nodes_of h)) t3 t' \<and>
      node_at t' a = node_at t5 a"
    if "tree_rel t' (blacken (plug fs g))" "same_but (nodes_of (plug fs g)) t5 t'" for t'
  proof (intro exI conjI)
    show "tree_rel t' (blacken (plug fs g))" by fact
    show "items (blacken (plug fs g)) = items h" using g(4) by simp
    have "same_but (insert a (nodes_of h)) t5 t'" using that(2) unfolding nd by (rule same_but_mono) auto
    moreover have "same_but (insert a (nodes_of h)) t4 t5" using same by (rule same_but_mono) auto
    moreover have "same_but (insert a (nodes_of h)) t3 t4" using g(6) by (rule same_but_mono) auto
    ultimately show "same_but (insert a (nodes_of h)) t3 t'" by (blast intro: same_but_trans)
    show "node_at t' a = node_at t5 a" using that(2) a unfolding nd by (simp add: same_but_def)
  qed
  then show ?thesis unfolding g(1) using fin by (auto elim!: returns_mono)
qed

text \<open>What is left of the tree \<open>h\<close> when the node \<open>a\<close> is taken out, leaving \<open>xs\<close>.\<close>

definition removed ::
  "ptr \<Rightarrow> ('k, 'v) data \<Rightarrow> (ptr \<times> ('k, 'v) data) list \<Rightarrow> ('k, 'v, 'r) tree \<Rightarrow> ('k, 'v) data gtree \<Rightarrow>
   ('k, 'v, 'r) tree \<Rightarrow> bool" where
  "removed a d xs t h t' \<longleftrightarrow> (\<exists>g'. tree_rel t' g' \<and> items g' = xs) \<and> same_but (nodes_of h) t t' \<and>
     (\<exists>p q c. node_at t' a = Some (mk_node p q False c d))"

lemma ctx_at_path_at:
  "fs \<noteq> [] \<Longrightarrow> path_at (length fs - 1) (xs @ map fptr fs) = Some (fptr (hd fs))"
  by (cases fs) (auto simp: path_at_def nth_append)

lemma erase_unlink_spec:
  assumes rel: "tree_rel t h" and h: "h = plug fs (Nd a c d l r)" and lf: "l = Leaf \<or> r = Leaf"
    and x: "locked_at t1 (Nd a c d l r)" and cx: "ctx_at t1 fs a"
    and same: "same_but (nodes_of h) t t1"
  shows "returns (erase_unlink (a # map fptr fs) a (rp (if l = Leaf then r else l)) t1)
    (\<lambda>(path, t'). removed a d (before fs @ items l @ items r @ after fs) t h t')"
proof -
  define ch where "ch = (if l = Leaf then r else l)"
  have ap: "apart fs (Nd a c d l r)" and rb: "red_black h"
    using rel by (simp_all add: tree_rel_def h tdist_plug)
  have disj: "a \<notin> nodes_of l" "a \<notin> nodes_of r" "a \<notin> cnodes fs" "nodes_of l \<inter> cnodes fs = {}"
    "nodes_of r \<inter> cnodes fs = {}" "cdist fs" "tdist l" "tdist r" using ap by (auto simp: apart_def)
  have a0: "a \<noteq> 0" using x by (auto dest: node_at_SomeD)
  have dep: "length fs < TREE_MAX_HEIGHT"
    using locked_depth(2) [of t fs "Nd a c d l r"] rel by (simp add: h TREE_MAX_HEIGHT_def)
  define t2 where "t2 = rehang fs (rp ch) t1"
  define t3 where "t3 = put_node a (mk_node (rp l) (rp r) False c d) t2"
  have a2: "node_at t2 a = Some (mk_node (rp l) (rp r) True c d)"
    using x disj(3) by (simp add: t2_def)
  have nch: "a \<notin> nodes_of ch" "nodes_of ch \<inter> cnodes fs = {}" using disj by (simp_all add: ch_def)
  have tch: "tree_at t1 ch" using x by (simp add: ch_def)
  have ch3: "tree_at t3 ch" using tch nch by (simp add: t3_def t2_def)
  have cx3: "ctx_at t3 fs (rp ch)" using rehang_ctx [OF cx disj(6)] disj(3) by (simp add: t3_def t2_def)
  have apch: "apart fs ch" using ap by (auto simp: apart_def ch_def)
  obtain m where m: "rbt m ch" "rbctx (if c = BLACK then Suc m else m) BLACK fs" "c = RED \<longrightarrow> gcolor ch = BLACK"
    using cut_ctx [of fs a c d l r] rb lf unfolding h ch_def by blast
  note fixup = fix_after_cut [OF ch3 cx3 apch m dep, of 1]
  have it: "items (plug fs ch) = before fs @ items l @ items r @ after fs"
    using lf by (auto simp: items_plug ch_def)
  have nh: "insert a (nodes_of (plug fs ch)) = nodes_of h" using lf by (auto simp: h ch_def)
  have same3: "same_but (nodes_of h) t t3"
  proof -
    have "cnodes fs \<subseteq> nodes_of h" "a \<in> nodes_of h" by (auto simp: h)
    then show ?thesis using same by (simp add: t3_def t2_def)
  qed
  have fin: "returns (blacken_root path t4) (\<lambda>t6. returns (unlock_path path t6) (\<lambda>t'.
      removed a d (before fs @ items l @ items r @ after fs) t h t'))"
    if "del_post t3 (plug fs ch) (path, t4)" for path t4
  proof -
    have an: "a \<notin> nodes_of (plug fs ch)" using disj nch by simp
    have sm: "same_but (nodes_of (plug fs ch)) t3 t4" using that by (auto simp: del_post_def)
    then have a4: "node_at t4 a = node_at t3 a" using an by (simp add: same_but_def)
    have fin: "returns (blacken_root path t4) (\<lambda>t6. returns (unlock_path path t6) (\<lambda>t'.
      \<exists>g'. tree_rel t' g' \<and> items g' = items (plug fs ch) \<and> same_but (insert a (nodes_of (plug fs ch))) t3 t' \<and>
        node_at t' a = node_at t4 a))"
      using apch by (intro del_finish [OF that _ _ _ an]) (simp_all add: tdist_plug)
    have "removed a d (before fs @ items l @ items r @ after fs) t h t'"
      if "\<exists>g'. tree_rel t' g' \<and> items g' = items (plug fs ch) \<and> same_but (insert a (nodes_of (plug fs ch))) t3 t' \<and>
        node_at t' a = node_at t4 a" for t'
      using that a0 same_but_trans [OF same3, of t'] unfolding removed_def nh it a4
      by (auto simp: t3_def)
    with fin show ?thesis by (auto elim!: returns_mono)
  qed
  have run: "erase_unlink (a # map fptr fs) a (rp ch) t1 =
    do { (path, t4) \<leftarrow> (if c = BLACK then fixup_delete (map fptr fs) (rp ch) (side_of fs 1) t3
           else Some (map fptr fs, t3));
         t6 \<leftarrow> blacken_root path t4; t7 \<leftarrow> unlock_path path t6; Some (path, t7) }"
  proof (cases fs)
    case Nil
    then show ?thesis using a2 a0
      by (simp add: erase_unlink_def unlock_node_def t3_def t2_def)
  next
    case (Cons f fs')
    obtain lft q cq dq w where f: "f = Fr lft q cq dq w" by (cases f)
    have rw: "rewire_child (fptr f) a (rp ch) t1 = Some t2"
      using rehang_rewire [of t1 f fs' a "rp ch"] cx a0 disj(3) by (simp add: Cons t2_def)
    have "rp w \<noteq> a" using disj(3) a0 rp_nodes [of w] by (auto simp: Cons f)
    then have "(if (if lft then a else rp w) = a then 0 else (1::int)) = side_of fs 1"
      by (simp add: Cons f)
    moreover have "child_of q True t1 = Some (if lft then a else rp w)"
      using cx by (simp add: Cons f child_of_def)
    moreover have "path_at (depth (a # map fptr fs) - 2) (a # map fptr fs) = Some (fptr f)"
      by (simp add: Cons path_at_def)
    ultimately show ?thesis using a2 a0 rw
      by (simp add: erase_unlink_def Cons unlock_node_def t3_def f Let_def)
  qed
  show ?thesis
    unfolding ch_def [symmetric] run returns_simps(3) returns_case_prod
    by (rule returns_mono [OF fixup]) (auto elim!: returns_mono dest!: fin)
qed

subsection \<open>The successor\<close>

fun on_left :: "'d frame \<Rightarrow> bool" where
  "on_left (Fr lft a c d s) = lft"

definition succ_post ::
  "('k, 'v, 'r) tree \<Rightarrow> ('k, 'v) data frame list \<Rightarrow> ('k, 'v) data gtree \<Rightarrow>
   (ptr \<times> path_stack) option \<times> ('k, 'v, 'r) tree \<Rightarrow> bool" where
  "succ_post t fs g = (\<lambda>(res, t'). \<exists>sfs s c d r. res = Some (s, s # map fptr (sfs @ fs)) \<and>
     g = plug sfs (Nd s c d Leaf r) \<and> list_all on_left sfs \<and> locked_at t' (Nd s c d Leaf r) \<and>
     ctx_at t' (sfs @ fs) s \<and> same_but (nodes_of g) t t')"

lemma succ_postI:
  assumes "locked_at t' (Nd s c d Leaf r)" and "ctx_at t' (sfs @ fs) s" and "list_all on_left sfs"
    and "same_but (nodes_of (plug sfs (Nd s c d Leaf r))) t t'"
  shows "succ_post t fs (plug sfs (Nd s c d Leaf r)) (Some (s, s # map fptr (sfs @ fs)), t')"
  using assms unfolding succ_post_def by blast

lemma succ_post_down:
  assumes "succ_post t1 (Fr True a c d r # fs) l res" and "same_but {b} t t1" and "b \<in> nodes_of l"
  shows "succ_post t fs (Nd a c d l r) res"
proof -
  obtain sfs s cs ds rs t' where p: "res = (Some (s, s # map fptr (sfs @ Fr True a c d r # fs)), t')"
    "l = plug sfs (Nd s cs ds Leaf rs)" "list_all on_left sfs" "locked_at t' (Nd s cs ds Leaf rs)"
    "ctx_at t' (sfs @ Fr True a c d r # fs) s" "same_but (nodes_of l) t1 t'"
    using assms(1) by (auto simp: succ_post_def)
  have pl: "Nd a c d l r = plug (sfs @ [Fr True a c d r]) (Nd s cs ds Leaf rs)"
    by (simp add: plug_append p(2))
  have "same_but (nodes_of (Nd a c d l r)) t t'"
    using same_but_mono [OF assms(2), of "nodes_of (Nd a c d l r)"]
      same_but_mono [OF p(6), of "nodes_of (Nd a c d l r)"] assms(3) by (auto intro: same_but_trans)
  then have "succ_post t fs (plug (sfs @ [Fr True a c d r]) (Nd s cs ds Leaf rs))
      (Some (s, s # map fptr ((sfs @ [Fr True a c d r]) @ fs)), t')"
    using p by (intro succ_postI) (simp_all add: pl [symmetric])
  then show ?thesis by (simp add: p(1) pl)
qed

lemma lock_successor_spec:
  fixes t :: "('k, 'v, 'r) tree"
  assumes "locked_at t g" and "ctx_at t fs (rp g)" and "apart fs g"
    and "length fs + height g \<le> TREE_MAX_HEIGHT"
  shows "returns (lock_successor (rp g) (rp g # map fptr fs) t) (succ_post t fs g)"
  using assms
proof (induction g arbitrary: fs t)
  case Leaf
  then show ?case by simp
next
  case (Nd a c d l r)
  note prems = Nd.prems and IH = Nd.IH(1)
  have a: "node_at t a = Some (mk_node (rp l) (rp r) True c d)" and l: "tree_at t l"
    using prems(1) by simp_all
  show ?case
  proof (cases l)
    case Leaf
    have "lock_successor a (a # map fptr fs) t = Some (Some (a, a # map fptr fs), t)"
      using a Leaf by (subst lock_successor.simps) (simp add: child_of_def)
    moreover have "succ_post t fs (plug [] (Nd a c d Leaf r)) (Some (a, a # map fptr ([] @ fs)), t)"
      using prems Leaf by (intro succ_postI) simp_all
    ultimately show ?thesis using Leaf by simp
  next
    case (Nd b cb db lb rb)
    define fs1 where "fs1 = Fr True a c d r # fs"
    have fr: "ctx_at t fs1 b" "apart fs1 l"
      using locked_frame [of t a c d l r fs] prems Nd by (simp_all add: fs1_def)
    have b0: "b \<noteq> 0" using l Nd by (auto dest: node_at_SomeD)
    have h: "length fs1 + height l \<le> TREE_MAX_HEIGHT" using prems(4) by (auto simp: fs1_def)
    then have dep: "Suc (length fs) < TREE_MAX_HEIGHT" by (simp add: fs1_def Nd)
    have run: "lock_successor a (a # map fptr fs) t =
        do { t \<leftarrow> lock_node b t; lock_successor b (b # map fptr fs1) t }"
      using a Nd b0 dep by (subst lock_successor.simps) (simp add: child_of_def path_push_def fs1_def)
    have step: "returns (lock_node b t) (\<lambda>t'. locked_at t' l \<and> ctx_at t' fs1 b \<and> same_but {b} t t')"
      using lock_child [of t b cb db lb rb fs1] l fr Nd by simp
    show ?thesis
      unfolding rp.simps run returns_simps(3)
    proof (rule returns_mono [OF step])
      fix t' :: "('k, 'v, 'r) tree"
      assume t': "locked_at t' l \<and> ctx_at t' fs1 b \<and> same_but {b} t t'"
      then have "returns (lock_successor b (b # map fptr fs1) t') (succ_post t' fs1 l)"
        using IH [of t' fs1] fr(2) h by (simp add: Nd)
      then show "returns (lock_successor b (b # map fptr fs1) t') (succ_post t fs (Nd a c d l r))"
        by (rule returns_mono) (rule succ_post_down, use t' in \<open>auto simp: fs1_def Nd\<close>)
    qed
  qed
qed

subsection \<open>Contexts that are appended\<close>

fun up :: "'d frame list \<Rightarrow> ptr \<Rightarrow> ptr" where
  "up [] p = p"
| "up (f # fs) p = up fs (fptr f)"

text \<open>\<open>ctx_at\<close> without the root.\<close>

fun seg_at :: "('k, 'v, 'r) tree \<Rightarrow> ('k, 'v) data frame list \<Rightarrow> ptr \<Rightarrow> bool" where
  "seg_at t [] p \<longleftrightarrow> True"
| "seg_at t (Fr lft a c d s # fs) p \<longleftrightarrow>
     node_at t a = Some (mk_node (if lft then p else rp s) (if lft then rp s else p) True c d) \<and>
     tree_at t s \<and> seg_at t fs a"

lemma ctx_at_append: "ctx_at t (fs @ gs) p \<longleftrightarrow> seg_at t fs p \<and> ctx_at t gs (up fs p)"
  by (induction t fs p rule: seg_at.induct) auto

lemma seg_at_put [simp]: "a \<notin> cnodes fs \<Longrightarrow> seg_at (put_node a nd t) fs p = seg_at t fs p"
  by (induction t fs p rule: seg_at.induct) auto

lemma seg_at_root [simp]: "seg_at (t\<lparr>t_root := q\<rparr>) fs p = seg_at t fs p"
  by (induction t fs p rule: seg_at.induct) auto

lemma seg_at_rehang [simp]: "cnodes fs \<inter> cnodes gs = {} \<Longrightarrow> seg_at (rehang gs q t) fs p = seg_at t fs p"
  using fptr_cnodes [of gs] by (cases gs rule: cnodes.cases) auto

lemma cnodes_append [simp]: "cnodes (fs @ gs) = cnodes fs \<union> cnodes gs"
  by (induction fs rule: cnodes.induct) auto

lemma cdist_append: "cdist (fs @ gs) \<longleftrightarrow> cdist fs \<and> cdist gs \<and> cnodes fs \<inter> cnodes gs = {}"
  by (induction fs rule: cnodes.induct) auto

lemma rp_plug: "rp (plug fs g) = up fs (rp g)"
  by (induction fs g rule: plug.induct) (simp_all split: if_splits, metis branch.simps rp.simps(2))

lemma up_nonempty: "fs \<noteq> [] \<Longrightarrow> up fs p = up fs q"
  by (cases fs) auto

lemma up_in: "fs \<noteq> [] \<Longrightarrow> up fs p \<in> cnodes fs"
proof (induction fs arbitrary: p)
  case (Cons f fs)
  then show ?case by (cases f; cases "fs = []") auto
qed simp


subsection \<open>Swapping the successor in\<close>

text \<open>What the swap leaves: \<open>s\<close> in the place of \<open>a\<close>, with its colour, and \<open>a\<close> cut off.\<close>

definition swap_post ::
  "('k, 'v, 'r) tree \<Rightarrow> ('k, 'v) data frame list \<Rightarrow> ptr \<Rightarrow> color \<Rightarrow> ('k, 'v) data \<Rightarrow> color \<Rightarrow>
   ('k, 'v) data gtree \<Rightarrow> path_stack \<times> ptr \<times> int \<times> color \<times> ('k, 'v, 'r) tree \<Rightarrow> bool" where
  "swap_post t fs a c d sc sr = (\<lambda>(path, x, x_side, succ_color, t').
     path = map fptr fs \<and> x = rp sr \<and> x_side = side_of fs 1 \<and> succ_color = sc \<and>
     tree_at t' sr \<and> ctx_at t' fs (rp sr) \<and> node_at t' a = Some (mk_node 0 0 True c d) \<and>
     same_but (insert a (nodes_of (plug fs sr))) t t')"

lemma path_at_idx: "i = length fs - Suc 0 \<Longrightarrow> fs \<noteq> [] \<Longrightarrow> path_at i (xs @ map fptr fs) = Some (fptr (hd fs))"
  using ctx_at_path_at by force

lemma rewire_target_cases:
  assumes "ctx_at t fs a" and "a \<noteq> 0" and "a \<notin> cnodes fs"
  shows "Suc 0 \<le> length fs \<Longrightarrow> path_at (length fs - Suc 0) (xs @ map fptr fs) = Some (fptr (hd fs)) \<and>
      rewire_child (fptr (hd fs)) a s t = Some (rehang fs s t)"
    and "\<not> Suc 0 \<le> length fs \<Longrightarrow> t\<lparr>t_root := s\<rparr> = rehang fs s t"
  using assms ctx_at_path_at [of fs xs] rehang_rewire [of t "hd fs" "tl fs" a s] by (cases fs; simp)+

lemma rewire_target:
  assumes "ctx_at t fs a" and "a \<noteq> 0" and "a \<notin> cnodes fs"
  shows "(if 1 \<le> length fs then do { q \<leftarrow> path_at (length fs - 1) (xs @ map fptr fs); rewire_child q a s t }
    else Some (t\<lparr>t_root := s\<rparr>)) = Some (rehang fs s t)"
proof (cases fs)
  case (Cons f fs')
  have "path_at (length fs - 1) (xs @ map fptr fs) = Some (fptr f)"
    using ctx_at_path_at [of fs xs] by (simp add: Cons)
  then show ?thesis using rehang_rewire [of t f fs' a s] assms by (simp add: Cons)
qed simp

lemma successor_swap_child:
  assumes x: "locked_at t (Nd s sc sd Leaf sr)" and cx: "ctx_at t (Fr False a c d l # fs) s"
    and ap: "apart (Fr False a c d l # fs) (Nd s sc sd Leaf sr)"
  shows "returns (successor_swap (s # a # map fptr fs) (length fs) a (rp l) s s t)
    (swap_post t (Fr False s c sd l # fs) a c d sc sr)"
proof -
  have ne: "a \<noteq> 0" "s \<noteq> 0" using x cx by (auto dest: node_at_SomeD)
  have d: "a \<noteq> s" "s \<noteq> a" "a \<notin> cnodes fs" "s \<notin> cnodes fs" "cdist fs" "a \<notin> nodes_of l" "a \<notin> nodes_of sr"
    "s \<notin> nodes_of l" "s \<notin> nodes_of sr" "nodes_of l \<inter> cnodes fs = {}" "nodes_of sr \<inter> cnodes fs = {}"
    using ap by (auto simp: apart_def)
  define t1 where "t1 = put_node a (mk_node (rp l) (rp sr) True c d) t"
  have t1: "ctx_at t1 fs a" using cx d by (simp add: t1_def)
  have top: "path_at (Suc (length fs) - 1) (s # a # map fptr fs) = Some a"
    by (simp add: path_at_def)
  have rw: "(if 1 \<le> length fs then do { q \<leftarrow> path_at (length fs - 1) (s # a # map fptr fs); rewire_child q a s t1 }
    else Some (t1\<lparr>t_root := s\<rparr>)) = Some (rehang fs s t1)"
    using rewire_target [OF t1 ne(1) d(3), of "[s, a]" s] by (simp only: append.simps)
  have sub: "cnodes fs \<subseteq> insert a (insert s (nodes_of l \<union> nodes_of sr \<union> cnodes fs))" by auto
  have root: "ctx_at (rehang fs s t1) fs s" using t1 d by (intro rehang_ctx)
  have nds: "node_at (rehang fs s t1) a = Some (mk_node (rp l) (rp sr) True c d)"
    "node_at (rehang fs s t1) s = Some (mk_node 0 (rp sr) True sc sd)"
    using x d ne by (simp_all add: t1_def)
  have run: "successor_swap (s # a # map fptr fs) (length fs) a (rp l) s s t =
    Some (s # map fptr fs, rp sr, 1, sc,
      put_node a (mk_node 0 0 True c d) (put_node s (mk_node (rp l) (rp sr) True c sd) (rehang fs s t1)))"
    using x cx ne d rw top nds
    by (simp add: successor_swap_def set_left_def set_right_def set_color_def Let_def path_set_def
        t1_def [symmetric] cong: if_cong)
  show ?thesis
    unfolding run using x cx ne d root sub nds
    by (simp add: swap_post_def) (simp add: t1_def)
qed

lemma successor_swap_far:
  assumes x: "locked_at t (Nd s sc sd Leaf sr)" and left: "list_all on_left sfs" and ne': "sfs \<noteq> []"
    and cx: "ctx_at t (sfs @ Fr False a c d l # fs) s"
    and ap: "apart (sfs @ Fr False a c d l # fs) (Nd s sc sd Leaf sr)"
  shows "returns (successor_swap (s # map fptr sfs @ a # map fptr fs) (length fs) a (rp l) (up sfs s) s t)
    (swap_post t (sfs @ Fr False s c sd l # fs) a c d sc sr)"
proof -
  obtain q cq dq w sfs' where sfs: "sfs = Fr True q cq dq w # sfs'"
    using left ne' by (cases sfs; cases "hd sfs") auto
  have cx': "node_at t q = Some (mk_node s (rp w) True cq dq)" "tree_at t w" "seg_at t sfs' q"
    "node_at t a = Some (mk_node (rp l) (up sfs s) True c d)" "tree_at t l" "ctx_at t fs a"
    using cx by (simp_all add: ctx_at_append sfs)
  have ne: "a \<noteq> 0" "s \<noteq> 0" "q \<noteq> 0" using x cx' by (auto dest: node_at_SomeD)
  have dd: "a \<noteq> s" "a \<noteq> q" "s \<noteq> q" using ap by (auto simp: apart_def cdist_append sfs)
  have nn: "{a, s, q} \<inter> (cnodes fs \<union> nodes_of l \<union> nodes_of sr \<union> nodes_of w \<union> cnodes sfs') = {}"
    using ap by (auto simp: apart_def cdist_append sfs)
  have dj: "cdist fs" "nodes_of l \<inter> cnodes fs = {}" "nodes_of sr \<inter> cnodes fs = {}"
    "nodes_of w \<inter> cnodes fs = {}" "cnodes sfs' \<inter> cnodes fs = {}"
    using ap by (auto simp: apart_def cdist_append sfs)
  note d = dd dd [symmetric]
  have us: "up sfs s \<noteq> s" using up_in [OF ne', of s] ap by (auto simp: apart_def)
  define t1 where "t1 = put_node q (mk_node (rp sr) (rp w) True cq dq) t"
  have t1: "ctx_at t1 fs a" using cx' nn by (simp add: t1_def)
  have len: "depth (s # map fptr sfs @ a # map fptr fs) = Suc (Suc (Suc (length sfs' + length fs)))"
    by (simp add: sfs)
  have top: "path_at (Suc (length sfs' + length fs)) (s # map fptr sfs @ a # map fptr fs) = Some q"
    by (simp add: path_at_def sfs)
  have an: "a \<notin> cnodes fs" using nn by blast
  note rw = rewire_target_cases(1) [OF t1 ne(1) an, of "s # map fptr sfs @ [a]" s,
      unfolded append.simps append_assoc]
    rewire_target_cases(2) [OF t1 ne(1) an, of s]
  have set_path: "path_set (length fs) s (s # map fptr sfs @ a # map fptr fs) =
      Some (s # map fptr sfs @ s # map fptr fs)"
    by (simp add: path_set_def list_update_append nth_append sfs)
  have t1s: "node_at t1 a = Some (mk_node (rp l) (up sfs s) True c d)"
    "node_at t1 s = Some (mk_node 0 (rp sr) True sc sd)"
    using cx' x ne d by (simp_all add: t1_def)
  define S where "S = insert a (nodes_of (plug (sfs @ Fr False s c sd l # fs) sr))"
  have sub: "cnodes fs \<subseteq> S" "a \<in> S" "s \<in> S" "q \<in> S" by (auto simp: S_def sfs)
  have root: "ctx_at (rehang fs s t1) fs s" using t1 dj by (intro rehang_ctx)
  have upq: "up sfs' q = up sfs s" by (simp add: sfs)
  have seg: "seg_at (rehang fs s t1) sfs' q" "tree_at (rehang fs s t1) w" "tree_at (rehang fs s t1) l"
    "tree_at (rehang fs s t1) sr" using cx' x nn dj by (simp_all add: t1_def)
  have nds: "node_at (rehang fs s t1) q = Some (mk_node (rp sr) (rp w) True cq dq)"
    "node_at (rehang fs s t1) a = Some (mk_node (rp l) (up sfs s) True c d)"
    "node_at (rehang fs s t1) s = Some (mk_node 0 (rp sr) True sc sd)"
    using cx' x nn ne d by (simp_all add: t1_def)
  have sm: "same_but S t (rehang fs s t1)" using sub by (simp add: t1_def)
  have run: "successor_swap (s # map fptr sfs @ a # map fptr fs) (length fs) a (rp l) (up sfs s) s t =
    Some (map fptr (sfs @ Fr False s c sd l # fs), rp sr, 0, sc,
      put_node a (mk_node 0 0 True c d) (put_node s (mk_node (rp l) (up sfs s) True c sd) (rehang fs s t1)))"
    apply (simp only: successor_swap_def len)
    apply (simp only: Let_def top diff_Suc_Suc diff_zero Option.bind.simps numeral_2_eq_2)
    using x cx' ne d nds us
    apply (simp add: set_left_def set_right_def set_color_def t1_def [symmetric])
    using rw nds set_path ne d t1s
    apply (cases "Suc 0 \<le> length fs")
     apply simp_all
    done
  define t2 where "t2 = rehang fs s t1"
  define t' where "t' = put_node a (mk_node 0 0 True c d)
    (put_node s (mk_node (rp l) (up sfs s) True c sd) t2)"
  have n: "a \<notin> nodes_of sr" "s \<notin> nodes_of sr" "a \<notin> nodes_of l" "s \<notin> nodes_of l" "a \<notin> cnodes fs"
    "s \<notin> cnodes fs" "a \<notin> cnodes sfs'" "s \<notin> cnodes sfs'" "a \<notin> nodes_of w" "s \<notin> nodes_of w"
    using nn by blast+
  have sr': "tree_at t' sr" using seg(4) n(1,2) by (simp add: t'_def t2_def)
  have "seg_at t' sfs (rp sr)"
    using seg(1,2) nds(1) n d by (simp add: t'_def t2_def sfs)
  moreover have "up sfs (rp sr) = up sfs s" using ne' by (rule up_nonempty)
  moreover have "ctx_at t' (Fr False s c sd l # fs) (up sfs s)"
    using root seg(3) n d ne by (simp add: t'_def t2_def)
  ultimately have cx2: "ctx_at t' (sfs @ Fr False s c sd l # fs) (rp sr)" by (simp only: ctx_at_append)
  have a': "node_at t' a = Some (mk_node 0 0 True c d)" using ne by (simp add: t'_def)
  have sm': "same_but S t t'" using sm sub by (simp add: t'_def t2_def)
  have "side_of (sfs @ Fr False s c sd l # fs) 1 = 0" by (simp add: sfs)
  then show ?thesis
    unfolding run t2_def [symmetric] t'_def [symmetric] returns_simps(2) swap_post_def prod.case
    using sr' cx2 a' sm' S_def by simp
qed


subsection \<open>Erasing a node with two children\<close>

lemma successor_swap_spec:
  assumes "locked_at t (Nd s sc sd Leaf sr)" and "list_all on_left sfs"
    and "ctx_at t (sfs @ Fr False a c d l # fs) s"
    and "apart (sfs @ Fr False a c d l # fs) (Nd s sc sd Leaf sr)"
  shows "returns (successor_swap (s # map fptr (sfs @ Fr False a c d l # fs)) (length fs) a (rp l) (up sfs s) s t)
    (swap_post t (sfs @ Fr False s c sd l # fs) a c d sc sr)"
  using assms successor_swap_child [of t s sc sd sr a c d l fs]
    successor_swap_far [of t s sc sd sr sfs a c d l fs]
  by (cases "sfs = []") simp_all

lemma before_left [simp]: "list_all on_left fs \<Longrightarrow> before fs = []"
proof (induction fs)
  case (Cons f fs)
  then show ?case by (cases f) simp
qed simp

lemma erase_replace_spec:
  assumes rel: "tree_rel t h" and h: "h = plug fs (Nd a c d l r)"
    and r: "r = plug sfs (Nd s sc sd Leaf sr)" and left: "list_all on_left sfs"
    and x: "locked_at t1 (Nd s sc sd Leaf sr)" and cx: "ctx_at t1 (sfs @ Fr False a c d l # fs) s"
    and same: "same_but (nodes_of h) t t1"
  shows "returns (erase_replace (s # map fptr (sfs @ Fr False a c d l # fs)) (length fs) a (rp l) (rp r) s t1)
    (\<lambda>(path, t'). removed a d (before fs @ items l @ items r @ after fs) t h t')"
proof -
  define FS0 where "FS0 = sfs @ Fr False a c d l # fs"
  define FS where "FS = sfs @ Fr False s c sd l # fs"
  have hp: "h = plug FS0 (Nd s sc sd Leaf sr)" by (simp add: h r FS0_def plug_append)
  have ap: "apart FS0 (Nd s sc sd Leaf sr)" and rb: "red_black h"
    using rel by (simp_all add: tree_rel_def hp tdist_plug)
  have apFS: "apart FS sr" and an: "a \<notin> nodes_of (plug FS sr)"
    using ap by (auto simp: apart_def FS_def FS0_def cdist_append)
  have nh: "insert a (nodes_of (plug FS sr)) = nodes_of h" by (auto simp: hp FS_def FS0_def)
  have it: "items (plug FS sr) = before fs @ items l @ items r @ after fs"
    using left by (simp add: items_plug FS_def r before_append after_append)
  have a0: "a \<noteq> 0" using cx by (auto simp: ctx_at_append dest: node_at_SomeD)
  have dep: "length FS < TREE_MAX_HEIGHT"
    using locked_depth(2) [of t FS0 "Nd s sc sd Leaf sr"] rel hp
    by (simp add: TREE_MAX_HEIGHT_def FS_def FS0_def)
  obtain m where m: "rbt m sr" "rbctx (if sc = BLACK then Suc m else m) BLACK FS0" "sc = RED \<longrightarrow> gcolor sr = BLACK"
    using cut_ctx [of FS0 s sc sd Leaf sr] rb unfolding hp by auto
  have mF: "rbctx (if sc = BLACK then Suc m else m) BLACK FS"
    using m(2) rbctx_relabel [of _ BLACK sfs False a c d l fs s sd] unfolding FS_def FS0_def by simp
  obtain path x x_side cl t2 where sw: "successor_swap (s # map fptr FS0) (length fs) a (rp l) (rp r) s t1 =
      Some (path, x, x_side, cl, t2)" and post: "swap_post t1 FS a c d sc sr (path, x, x_side, cl, t2)"
    using successor_swap_spec [OF x left cx ap [unfolded FS0_def]]
    by (auto simp: r rp_plug FS_def FS0_def elim!: returnsE)
  note p = post [unfolded swap_post_def prod.case, THEN conjunct1]
    post [unfolded swap_post_def prod.case, THEN conjunct2, THEN conjunct1]
    post [unfolded swap_post_def prod.case, THEN conjunct2, THEN conjunct2, THEN conjunct1]
  have cl: "cl = sc" and sr2: "tree_at t2 sr" and cx2: "ctx_at t2 FS (rp sr)"
    and a2: "node_at t2 a = Some (mk_node 0 0 True c d)" and sm2: "same_but (nodes_of h) t1 t2"
    using post unfolding swap_post_def prod.case nh by blast+
  note fixup = fix_after_cut [OF sr2 cx2 apFS m(1) mF m(3) dep, of 1]
  have same2: "same_but (nodes_of h) t t2" using same sm2 by (rule same_but_trans)
  have fin: "returns (unlock_node a t4) (\<lambda>t5. returns (blacken_root path t5) (\<lambda>t6. returns (unlock_path path t6)
      (\<lambda>t'. removed a d (before fs @ items l @ items r @ after fs) t h t')))"
    if "del_post t2 (plug FS sr) (path, t4)" for path t4
  proof -
    have "same_but (nodes_of (plug FS sr)) t2 t4" using that by (auto simp: del_post_def)
    then have a4: "node_at t4 a = Some (mk_node 0 0 True c d)" using an a2 by (simp add: same_but_def)
    define t5 where "t5 = put_node a (mk_node 0 0 False c d) t4"
    have un: "unlock_node a t4 = Some t5" using a4 by (simp add: unlock_node_def t5_def)
    have a5: "node_at t5 a = Some (mk_node 0 0 False c d)" using a0 by (simp add: t5_def)
    have fin: "returns (blacken_root path t5) (\<lambda>t6. returns (unlock_path path t6) (\<lambda>t'.
      \<exists>g'. tree_rel t' g' \<and> items g' = items (plug FS sr) \<and> same_but (insert a (nodes_of (plug FS sr))) t2 t' \<and>
        node_at t' a = node_at t5 a))"
      using apFS by (intro del_finish [OF that _ _ _ an]) (simp_all add: tdist_plug t5_def)
    have "removed a d (before fs @ items l @ items r @ after fs) t h t'"
      if "\<exists>g'. tree_rel t' g' \<and> items g' = items (plug FS sr) \<and> same_but (insert a (nodes_of (plug FS sr))) t2 t' \<and>
        node_at t' a = node_at t5 a" for t'
      using that same_but_trans [OF same2, of t'] unfolding removed_def nh it a5 by blast
    with fin show ?thesis unfolding un returns_simps(2) by (auto elim!: returns_mono)
  qed
  show ?thesis
    unfolding erase_replace_def FS0_def [symmetric] sw returns_simps(2,3) returns_case_prod prod.case
      Option.bind.simps p cl
    by (rule returns_mono [OF fixup]) (auto elim!: returns_mono dest!: fin)
qed


subsection \<open>The whole operation\<close>

text \<open>
  What \<open>erase_node\<close> does: nothing when the key is absent; otherwise it takes out the node
  that the route of the key reaches, retires it, and only then counts the removal.
\<close>

definition retire_count ::
  "(unit, 'r) reclaimer_ops \<Rightarrow> thread \<Rightarrow> push \<Rightarrow> ptr \<Rightarrow> ('k, 'v, 'r) tree \<Rightarrow>
   ((exn + bool) \<times> ('k, 'v, 'r) tree) option" where
  "retire_count rc th pu target t =
     do { (r, t) \<leftarrow> retire_node rc th pu target t;
          case r of Inl e \<Rightarrow> Some (Inl e, t) | Inr _ \<Rightarrow> Some (Inr True, t\<lparr>t_count := t_count t - 1\<rparr>) }"

lemma lock_right:
  assumes x: "locked_at t (Nd a c d l r)" and cx: "ctx_at t fs a" and ap: "apart fs (Nd a c d l r)"
    and r: "r \<noteq> Leaf" and dep: "length fs + height (Nd a c d l r) \<le> TREE_MAX_HEIGHT"
  shows "returns (lock_node (rp r) t) (\<lambda>t1. returns (lock_successor (rp r) (rp r # a # map fptr fs) t1)
    (\<lambda>(res, t'). \<exists>sfs s sc sd sr. res = Some (s, s # map fptr (sfs @ Fr False a c d l # fs)) \<and>
      r = plug sfs (Nd s sc sd Leaf sr) \<and> list_all on_left sfs \<and> locked_at t' (Nd s sc sd Leaf sr) \<and>
      ctx_at t' (sfs @ Fr False a c d l # fs) s \<and> same_but (nodes_of r) t t'))"
proof -
  obtain b cb db lb rb where rb: "r = Nd b cb db lb rb" using r by (cases r) auto
  have fr: "tree_at t r" "ctx_at t (Fr False a c d l # fs) b" "apart (Fr False a c d l # fs) r"
    using x cx ap by (auto simp: apart_def rb)
  have dep': "length (Fr False a c d l # fs) + height r \<le> TREE_MAX_HEIGHT" using dep by simp
  have step: "returns (lock_node b t) (\<lambda>t'. locked_at t' r \<and> ctx_at t' (Fr False a c d l # fs) b \<and> same_but {b} t t')"
    using lock_child [of t b cb db lb rb "Fr False a c d l # fs"] fr rb by simp
  have walk: "returns (lock_successor (rp r) (rp r # a # map fptr fs) t1)
    (\<lambda>(res, t'). \<exists>sfs s sc sd sr. res = Some (s, s # map fptr (sfs @ Fr False a c d l # fs)) \<and>
      r = plug sfs (Nd s sc sd Leaf sr) \<and> list_all on_left sfs \<and> locked_at t' (Nd s sc sd Leaf sr) \<and>
      ctx_at t' (sfs @ Fr False a c d l # fs) s \<and> same_but (nodes_of r) t t')"
    if t1: "locked_at t1 r" "ctx_at t1 (Fr False a c d l # fs) b" "same_but {b} t t1" for t1
  proof -
    have "same_but (nodes_of r) t t1" using t1(3) by (rule same_but_mono) (simp add: rb)
    moreover have "returns (lock_successor (rp r) (rp r # map fptr (Fr False a c d l # fs)) t1)
        (succ_post t1 (Fr False a c d l # fs) r)"
      using lock_successor_spec [OF t1(1) _ fr(3) dep'] t1(2) by (simp add: rb)
    ultimately show ?thesis
      by (auto simp: succ_post_def elim!: returns_mono) (blast intro: same_but_trans)
  qed
  have "rp r = b" by (simp add: rb)
  with step walk show ?thesis by (auto elim!: returns_mono)
qed

lemma erase_node_found:
  assumes rel: "tree_rel t h" and h: "h = plug fs (Nd a c d l r)" and route: "compare cmp k (fst d) = 0"
    and x: "locked_at t1 (Nd a c d l r)" and cx: "ctx_at t1 fs a" and same: "same_but (nodes_of h) t t1"
    and lp: "lock_path cmp k t = Some (1, a # map fptr fs, side, t1)"
    and Q: "\<And>t'. removed a d (before fs @ items l @ items r @ after fs) t h t' \<Longrightarrow>
      returns (retire_count rc th pu a t') Q"
  shows "returns (erase_node rc cmp th pu k t) Q"
proof -
  have a: "node_at t1 a = Some (mk_node (rp l) (rp r) True c d)" and lr: "tree_at t1 l" "tree_at t1 r"
    using x by simp_all
  have ap: "apart fs (Nd a c d l r)" using rel by (simp add: tree_rel_def h tdist_plug)
  have depth: "length fs + height (Nd a c d l r) \<le> 128"
    using locked_depth(1) [of t fs "Nd a c d l r"] rel by (simp add: h)
  have "erase_node rc cmp th pu k t =
    Option.bind (if rp l = 0 \<or> rp r = 0 then do {
              (path, t) \<leftarrow> erase_unlink (a # map fptr fs) a (if rp l \<noteq> 0 then rp l else rp r) t1;
              Some (Inr t)
            }
            else do {
              path \<leftarrow> path_push (rp r) (a # map fptr fs);
              t \<leftarrow> lock_node (rp r) t1;
              (s, t) \<leftarrow> lock_successor (rp r) path t;
              case s of
                None \<Rightarrow> Some (Inl t)
              | Some (succ, path) \<Rightarrow> do {
                  (path, t) \<leftarrow> erase_replace path (length fs) a (rp l) (rp r) succ t;
                  Some (Inr t)
                }
            })
      (case_sum (erase_node rc cmp th pu k) (retire_count rc th pu a))"
    by (subst erase_node.simps) (simp add: lp a path_top_def retire_count_def [abs_def] Let_def
        cong: prod.case_cong option.case_cong)
  note unfold = arg_cong [OF this, of "\<lambda>m. returns m Q", unfolded returns_simps(3)]
  show ?thesis
  proof (cases "l = Leaf \<or> r = Leaf")
    case True
    have "(if rp l \<noteq> 0 then rp l else rp r) = rp (if l = Leaf then r else l)"
      using tree_at_rp0 lr by auto
    moreover have "rp l = 0 \<or> rp r = 0" using True by auto
    ultimately show ?thesis
      unfolding unfold using erase_unlink_spec [OF rel h True x cx same] Q
      by (auto elim!: returns_mono)
  next
    case False
    then have ne: "rp l \<noteq> 0" "rp r \<noteq> 0" using tree_at_rp0 lr by auto
    have sub: "same_but (nodes_of h) t t'" if "same_but (nodes_of r) t1 t'" for t'
      using same same_but_mono [OF that, of "nodes_of h"] by (auto simp: h intro: same_but_trans)
    have swapped: "returns (erase_replace (s # map fptr (sfs @ Fr False a c d l # fs)) (length fs) a (rp l) (rp r) s t')
        (\<lambda>(path, t). returns (retire_count rc th pu a t) Q)"
      if "r = plug sfs (Nd s sc sd Leaf sr)" "list_all on_left sfs" "locked_at t' (Nd s sc sd Leaf sr)"
        "ctx_at t' (sfs @ Fr False a c d l # fs) s" "same_but (nodes_of h) t t'" for s sfs sc sd sr t'
      by (rule returns_mono [OF erase_replace_spec [OF rel h that]]) (auto intro: Q)
    have "0 < height r" using False by (cases r) auto
    then have "path_push (rp r) (a # map fptr fs) = Some (rp r # a # map fptr fs)"
      using depth by (simp add: path_push_def TREE_MAX_HEIGHT_def)
    moreover have "returns (lock_node (rp r) t1) (\<lambda>t1'. returns (lock_successor (rp r) (rp r # a # map fptr fs) t1')
      (\<lambda>(res, t'). returns (case res of
                None \<Rightarrow> Some (Inl t')
              | Some (succ, path) \<Rightarrow> do {
                  (path, t) \<leftarrow> erase_replace path (length fs) a (rp l) (rp r) succ t';
                  Some (Inr t)
                }) (\<lambda>res. returns (case res of Inl t \<Rightarrow> erase_node rc cmp th pu k t | Inr t \<Rightarrow> retire_count rc th pu a t) Q)))"
    proof (rule returns_mono [OF lock_right [OF x cx ap]])
      show "r \<noteq> Leaf" "length fs + height (Nd a c d l r) \<le> TREE_MAX_HEIGHT"
        using False depth by (simp_all add: TREE_MAX_HEIGHT_def)
    qed (erule returns_mono, use swapped [OF _ _ _ _ sub] in \<open>fastforce\<close>)
    ultimately show ?thesis unfolding unfold using ne by simp
  qed
qed

text \<open>The three outcomes, for a continuation \<open>Q\<close>.\<close>

lemma erase_node_spec:
  fixes t :: "('k, 'v, 'r) tree"
  assumes rel: "tree_rel t h"
    and absent: "\<And>fs t'. h = plug fs Leaf \<Longrightarrow> route cmp k fs \<Longrightarrow> tree_rel t' h \<Longrightarrow> same_but (nodes_of h) t t' \<Longrightarrow>
      Q (Inr False, t')"
    and found: "\<And>fs a c d l r t'. h = plug fs (Nd a c d l r) \<Longrightarrow> route cmp k fs \<Longrightarrow> compare cmp k (fst d) = 0 \<Longrightarrow>
      removed a d (before fs @ items l @ items r @ after fs) t h t' \<Longrightarrow>
      returns (retire_count rc th pu a t') Q"
  shows "returns (erase_node rc cmp th pu k t) Q"
proof (cases "h = Leaf")
  case True
  then have "lock_path cmp k t = Some (- 1, [], 0, t)" using rel by (simp add: lock_path_def tree_rel_def)
  then show ?thesis using absent [of "[]" t] rel True by (subst erase_node.simps) simp
next
  case False
  obtain r path side t1 where lp: "lock_path cmp k t = Some (r, path, side, t1)"
    and post: "lock_post cmp k t h (r, path, side, t1)"
    using lock_path_spec [OF rel False, of cmp k] by (auto elim!: returnsE)
  from post show ?thesis
  proof (cases rule: lock_postE)
    case p: (found fs a c d l rt)
    show ?thesis
      by (rule erase_node_found [OF rel p(4,5,7,8,1)]) (use lp p in \<open>auto intro: found\<close>)
  next
    case p: (absent fs lft a ca d s fs')
    have "returns (unlock_path path t1) (\<lambda>t'. Q (Inr False, t'))"
      unfolding p(7)
      by (rule returns_mono [OF unlock_absent [OF rel p(4,8,1)]]) (use p(2,4) in \<open>auto intro: absent\<close>)
    then show ?thesis using lp p(3) by (subst erase_node.simps) simp
  qed
qed

end
