(* ===== verification/TreeOrder.thy ===== *)
theory TreeOrder
  imports TreeRemove
begin

section \<open>Keys and order\<close>

text \<open>
  The documented requirement on \<open>Compare\<close> is a strict weak order (\<open>strict_weak_order\<close>). Under it
  the tree keeps its items sorted, and what the containers promise is stated on the list of
  the entries in key order: looking up, inserting, removing and bounds are functions of that
  list (\<open>find_entry\<close>, \<open>ins_entry\<close>, \<open>del_entry\<close>, \<open>bound_entry\<close>), which the tree implements.
\<close>

subsection \<open>The abstract map\<close>

type_synonym ('k, 'v) entries = "('k \<times> 'v) list"

definition same_key :: "('k \<Rightarrow> 'k \<Rightarrow> bool) \<Rightarrow> 'k \<Rightarrow> 'k \<Rightarrow> bool" where
  "same_key cmp a b \<longleftrightarrow> \<not> cmp a b \<and> \<not> cmp b a"

definition find_entry :: "('k \<Rightarrow> 'k \<Rightarrow> bool) \<Rightarrow> 'k \<Rightarrow> ('k, 'v) entries \<Rightarrow> ('k \<times> 'v) option" where
  "find_entry cmp k es = List.find (\<lambda>e. same_key cmp k (fst e)) es"

definition ins_entry :: "('k \<Rightarrow> 'k \<Rightarrow> bool) \<Rightarrow> 'k \<Rightarrow> 'v \<Rightarrow> ('k, 'v) entries \<Rightarrow> ('k, 'v) entries" where
  "ins_entry cmp k v es =
     takeWhile (\<lambda>e. cmp (fst e) k) es @ (k, v) # dropWhile (\<lambda>e. cmp (fst e) k) es"

definition del_entry :: "('k \<Rightarrow> 'k \<Rightarrow> bool) \<Rightarrow> 'k \<Rightarrow> ('k, 'v) entries \<Rightarrow> ('k, 'v) entries" where
  "del_entry cmp k es = filter (\<lambda>e. \<not> same_key cmp k (fst e)) es"

definition set_entry :: "('k \<Rightarrow> 'k \<Rightarrow> bool) \<Rightarrow> 'k \<Rightarrow> 'v \<Rightarrow> ('k, 'v) entries \<Rightarrow> ('k, 'v) entries" where
  "set_entry cmp k v es = map (\<lambda>e. if same_key cmp k (fst e) then (fst e, v) else e) es"

text \<open>The first entry that is not below \<open>k\<close>, or (strictly) the first above it.\<close>

definition bound_entry :: "('k \<Rightarrow> 'k \<Rightarrow> bool) \<Rightarrow> bool \<Rightarrow> 'k \<Rightarrow> ('k, 'v) entries \<Rightarrow> ('k \<times> 'v) option" where
  "bound_entry cmp strict k es =
     List.find (\<lambda>e. if strict then cmp k (fst e) else \<not> cmp (fst e) k) es"

definition sorted_entries :: "('k \<Rightarrow> 'k \<Rightarrow> bool) \<Rightarrow> ('k, 'v) entries \<Rightarrow> bool" where
  "sorted_entries cmp es \<longleftrightarrow> sorted_wrt (\<lambda>a b. cmp (fst a) (fst b)) es"

fun entry :: "ptr \<times> ('k, 'v) data \<Rightarrow> 'k \<times> 'v" where
  "entry (a, k, v, ow) = (k, v)"

definition entries :: "('k, 'v) data gtree \<Rightarrow> ('k, 'v) entries" where
  "entries g = map entry (items g)"

lemma fst_entry [simp]: "fst (entry x) = fst (snd x)"
  by (cases x rule: entry.cases) simp

lemma find_skip: "\<forall>x \<in> set xs. \<not> P x \<Longrightarrow> List.find P (xs @ ys) = List.find P ys"
  by (induction xs) auto

lemma find_none: "\<forall>x \<in> set xs. \<not> P x \<Longrightarrow> List.find P xs = None"
  by (simp add: find_None_iff)

lemma find_drop: "\<not> P x \<Longrightarrow> List.find P (xs @ x # ys) = List.find P (xs @ ys)"
  by (induction xs) auto

lemma find_filter: "(\<And>x. P x \<Longrightarrow> Q x) \<Longrightarrow> List.find P (filter Q xs) = List.find P xs"
  by (induction xs) auto

lemma filter_id: "\<forall>x \<in> set xs. P x \<Longrightarrow> filter P xs = xs"
  by (induction xs) auto

lemma compare_simps [simp]:
  "compare cmp a b < 0 \<longleftrightarrow> cmp a b"
  "compare cmp a b = 0 \<longleftrightarrow> same_key cmp a b"
  "0 < compare cmp a b \<longleftrightarrow> \<not> cmp a b \<and> cmp b a"
  "compare cmp a b \<le> 0 \<longleftrightarrow> \<not> (\<not> cmp a b \<and> cmp b a)"
  by (auto simp: compare_def same_key_def)

subsection \<open>Strict weak orders\<close>

locale strict_weak_order =
  fixes cmp :: "'k \<Rightarrow> 'k \<Rightarrow> bool"
  assumes irrefl: "\<not> cmp x x"
    and trans: "cmp x y \<Longrightarrow> cmp y z \<Longrightarrow> cmp x z"
    and same_trans: "same_key cmp x y \<Longrightarrow> same_key cmp y z \<Longrightarrow> same_key cmp x z"
begin

lemma asym: "cmp x y \<Longrightarrow> \<not> cmp y x"
  using irrefl trans by blast

lemma same_sym: "same_key cmp x y \<Longrightarrow> same_key cmp y x"
  by (simp add: same_key_def)

lemma same_refl: "same_key cmp x x"
  by (simp add: same_key_def irrefl)

lemma less_same: "cmp x y \<Longrightarrow> same_key cmp y z \<Longrightarrow> cmp x z"
  using same_trans [of x z y] trans [of z x y] asym by (auto simp: same_key_def)

lemma same_less: "same_key cmp x y \<Longrightarrow> cmp y z \<Longrightarrow> cmp x z"
  using same_trans [of y x z] trans [of y z x] asym by (auto simp: same_key_def)

lemma less_not_same: "cmp x y \<Longrightarrow> \<not> same_key cmp x y \<and> \<not> same_key cmp y x"
  by (simp add: same_key_def)

text \<open>What a route says of the entries on both sides.\<close>

definition splits :: "'k \<Rightarrow> ('k \<times> 'v) list \<Rightarrow> ('k \<times> 'v) list \<Rightarrow> bool" where
  "splits k bs as \<longleftrightarrow> (\<forall>e \<in> set bs. cmp (fst e) k) \<and> (\<forall>e \<in> set as. cmp k (fst e))"

lemma route_splits:
  "route cmp k fs \<Longrightarrow> sorted_entries cmp (map entry (items (plug fs g))) \<Longrightarrow>
   splits k (map entry (before fs)) (map entry (after fs))"
proof (induction fs arbitrary: g)
  case Nil
  then show ?case by (simp add: splits_def)
next
  case (Cons f fs)
  obtain lft a c d s where f: "f = Fr lft a c d s" by (cases f)
  have IH: "splits k (map entry (before fs)) (map entry (after fs))"
    using Cons by (auto simp: f split: if_splits)
  have srt: "sorted_entries cmp (map entry (items (branch lft a c d g s)))"
    using Cons.prems(2) by (simp add: f items_plug sorted_entries_def sorted_wrt_append)
  show ?case
  proof (cases lft)
    case True
    then have k: "cmp k (fst d)" using Cons.prems(1) by (simp add: f)
    have "\<forall>x \<in> set (items s). cmp (fst d) (fst (snd x))"
      using srt True by (auto simp: sorted_entries_def sorted_wrt_append)
    then have "\<forall>x \<in> set (items s). cmp k (fst (snd x))" using k trans by blast
    then show ?thesis using IH k True by (auto simp: f splits_def)
  next
    case False
    then have k: "cmp (fst d) k" using Cons.prems(1) by (simp add: f)
    have "\<forall>x \<in> set (items s). cmp (fst (snd x)) (fst d)"
      using srt False by (auto simp: sorted_entries_def sorted_wrt_append)
    then have "\<forall>x \<in> set (items s). cmp (fst (snd x)) k" using k trans by blast
    then show ?thesis using IH k False by (auto simp: f splits_def)
  qed
qed

lemma found_split:
  assumes "sorted_entries cmp (entries g)" and "route cmp k fs"
    and "g = plug fs (Nd a c d l r)" and "same_key cmp k (fst d)"
  shows "splits k (map entry (before fs @ items l)) (map entry (items r @ after fs))"
proof -
  have "splits k (map entry (before fs)) (map entry (after fs))"
    using route_splits [OF assms(2)] assms(1) by (simp add: entries_def assms(3))
  moreover have "\<forall>x \<in> set (items l). cmp (fst (snd x)) (fst d)" "\<forall>x \<in> set (items r). cmp (fst d) (fst (snd x))"
    using assms(1) by (simp_all add: entries_def assms(3) items_plug sorted_entries_def sorted_wrt_append ball_Un)
  ultimately show ?thesis
    using assms(4) less_same [OF _ same_sym [OF assms(4)]] same_less [OF assms(4)] by (auto simp: splits_def)
qed

lemma entries_found:
  "g = plug fs (Nd a c d l r) \<Longrightarrow>
   entries g = map entry (before fs @ items l) @ entry (a, d) # map entry (items r @ after fs)"
  by (simp add: entries_def items_plug)

subsubsection \<open>The list operations at a split\<close>

lemma find_split_absent: "splits k bs as \<Longrightarrow> find_entry cmp k (bs @ as) = None"
  using less_not_same by (fastforce simp: find_entry_def find_None_iff splits_def)

lemma ins_split: "splits k bs as \<Longrightarrow> ins_entry cmp k v (bs @ as) = bs @ (k, v) # as"
proof -
  assume s: "splits k bs as"
  have "takeWhile (\<lambda>e. cmp (fst e) k) as = []" "dropWhile (\<lambda>e. cmp (fst e) k) as = as"
    using s asym by (cases as; force simp: splits_def)+
  then show ?thesis using s by (simp add: ins_entry_def splits_def takeWhile_append2 dropWhile_append2)
qed

lemma find_split_found:
  "splits k bs as \<Longrightarrow> same_key cmp k (fst e) \<Longrightarrow> find_entry cmp k (bs @ e # as) = Some e"
  using less_not_same by (auto simp: find_entry_def splits_def find_skip)

lemma del_split_found:
  assumes "splits k bs as" and "same_key cmp k (fst e)"
  shows "del_entry cmp k (bs @ e # as) = bs @ as"
  using assms less_not_same by (auto simp: del_entry_def splits_def intro!: filter_id)

lemma del_split_absent: "splits k bs as \<Longrightarrow> del_entry cmp k (bs @ as) = bs @ as"
  using less_not_same by (auto simp: del_entry_def splits_def intro!: filter_id)

lemma set_split_found:
  assumes "splits k bs as" and "same_key cmp k (fst e)"
  shows "set_entry cmp k v (bs @ e # as) = bs @ (fst e, v) # as"
  using assms less_not_same by (auto simp: set_entry_def splits_def intro!: map_idI)

lemma bound_split:
  assumes "splits k bs as"
  shows "bound_entry cmp strict k (bs @ as) = (case as of [] \<Rightarrow> None | e # _ \<Rightarrow> Some e)"
proof -
  have "\<forall>e \<in> set bs. \<not> (if strict then cmp k (fst e) else \<not> cmp (fst e) k)"
    using assms asym by (auto simp: splits_def)
  then show ?thesis using assms asym
    by (cases as) (auto simp: bound_entry_def find_skip find_none splits_def)
qed

subsubsection \<open>Laws of the abstract map\<close>

lemma sorted_split:
  assumes "sorted_entries cmp es"
  obtains (absent) bs as where "es = bs @ as" "splits k bs as"
  | (found) bs e as where "es = bs @ e # as" "splits k bs as" "same_key cmp k (fst e)"
proof -
  let ?bs = "takeWhile (\<lambda>e. cmp (fst e) k) es" and ?ds = "dropWhile (\<lambda>e. cmp (fst e) k) es"
  have es: "es = ?bs @ ?ds" by simp
  have bs: "\<forall>e \<in> set ?bs. cmp (fst e) k" using set_takeWhileD by fast
  have srt: "sorted_entries cmp ?ds" using assms by (simp add: sorted_entries_def sorted_wrt_dropWhile)
  show thesis
  proof (cases ?ds)
    case Nil
    then have "splits k ?bs []" using bs by (simp add: splits_def)
    then show ?thesis using absent [of ?bs "[]"] es Nil by simp
  next
    case (Cons e ds)
    have ge: "\<not> cmp (fst e) k" using Cons by (metis dropWhile_eq_Cons_conv)
    have rest: "\<forall>x \<in> set ds. cmp (fst e) (fst x)" using srt Cons by (simp add: sorted_entries_def)
    show ?thesis
    proof (cases "cmp k (fst e)")
      case True
      then have "splits k ?bs (e # ds)" using bs rest trans by (auto simp: splits_def)
      then show ?thesis using absent [of ?bs "e # ds"] es Cons by simp
    next
      case False
      then have s: "same_key cmp k (fst e)" using ge by (simp add: same_key_def)
      then have "splits k ?bs ds" using bs rest same_less by (auto simp: splits_def)
      then show ?thesis using found [of ?bs e ds] es Cons s by simp
    qed
  qed
qed

lemma splits_append: "splits k bs as \<Longrightarrow> sorted_entries cmp (bs @ as) \<Longrightarrow> sorted_entries cmp (bs @ (k, v) # as)"
  by (auto simp: sorted_entries_def sorted_wrt_append splits_def)

lemma ins_sorted:
  assumes "sorted_entries cmp es" and "find_entry cmp k es = None"
  shows "sorted_entries cmp (ins_entry cmp k v es)"
  using assms(1)
proof (cases rule: sorted_split [where k = k])
  case (absent bs as)
  then show ?thesis using assms(1) by (simp add: ins_split splits_append)
next
  case (found bs e as)
  then show ?thesis using assms(2) by (simp add: find_split_found)
qed

lemma del_sorted: "sorted_entries cmp es \<Longrightarrow> sorted_entries cmp (del_entry cmp k es)"
  by (simp add: sorted_entries_def del_entry_def sorted_wrt_filter)

lemma set_sorted: "sorted_entries cmp es \<Longrightarrow> sorted_entries cmp (set_entry cmp k v es)"
  by (induction es) (auto simp: sorted_entries_def set_entry_def)

lemma find_ins:
  assumes "sorted_entries cmp es" and "find_entry cmp k es = None"
  shows "find_entry cmp k' (ins_entry cmp k v es) =
    (if same_key cmp k' k then Some (k, v) else find_entry cmp k' es)"
  using assms(1)
proof (cases rule: sorted_split [where k = k])
  case (absent bs as)
  show ?thesis
  proof (cases "same_key cmp k' k")
    case True
    have "\<not> same_key cmp k' (fst e)" if "e \<in> set bs" for e
    proof
      assume "same_key cmp k' (fst e)"
      then have "same_key cmp k (fst e)" using same_trans same_sym True by blast
      then show False using absent(2) that less_not_same by (auto simp: splits_def)
    qed
    then show ?thesis using absent True by (simp add: ins_split find_entry_def find_skip)
  next
    case False
    then show ?thesis using absent by (simp add: ins_split find_entry_def find_drop)
  qed
next
  case (found bs e as)
  then show ?thesis using assms(2) by (simp add: find_split_found)
qed

lemma find_del:
  assumes "sorted_entries cmp es"
  shows "find_entry cmp k' (del_entry cmp k es) = (if same_key cmp k' k then None else find_entry cmp k' es)"
proof -
  have "find_entry cmp k' (del_entry cmp k es) = None" if "same_key cmp k' k"
    using that same_trans [OF same_sym [OF that]] by (auto simp: find_entry_def del_entry_def find_None_iff)
  moreover have "find_entry cmp k' (del_entry cmp k es) = find_entry cmp k' es" if "\<not> same_key cmp k' k"
    unfolding find_entry_def del_entry_def
  proof (rule find_filter)
    fix e :: "'k \<times> 'c"
    assume "same_key cmp k' (fst e)"
    then show "\<not> same_key cmp k (fst e)" using that same_trans same_sym by blast
  qed
  ultimately show ?thesis by simp
qed

end

subsection \<open>\<open>std::less\<close>\<close>

definition std_less :: "'k::linorder \<Rightarrow> 'k \<Rightarrow> bool" where
  "std_less a b \<longleftrightarrow> a < b"

interpretation sl: strict_weak_order std_less
  by unfold_locales (auto simp: std_less_def same_key_def)

lemma std_same [simp]: "same_key std_less a b \<longleftrightarrow> a = b"
  by (auto simp: same_key_def std_less_def)

end
