(* ===== verification/TreeEngine.thy ===== *)
theory TreeEngine
  imports TreeOrder
begin

section \<open>Memory accounting of the tree engine\<close>

text \<open>
  Every node that was allocated and not yet given back to its allocator is in exactly one
  place: owned by a container (in its tree, or on its way into it), pending in the reclaimer,
  or pooled. \<open>mem_ok\<close> states it for the nodes \<open>N\<close> that the containers own; the operations move
  nodes between the three places.
\<close>

definition retired_nodes :: "('r \<Rightarrow> (ptr \<times> unit) multiset) \<Rightarrow> 'r \<Rightarrow> ptr multiset" where
  "retired_nodes pd s = image_mset fst (pd s)"

definition node_live :: "('k, 'v, 'r) tree \<Rightarrow> ptr \<Rightarrow> bool" where
  "node_live t a \<longleftrightarrow> (\<exists>nd. node_at t a = Some nd \<and> live (t_mem t) a = Some (n_owner nd))"

definition pool_at :: "('k, 'v, 'r) tree \<Rightarrow> ptr list list \<Rightarrow> bool" where
  "pool_at t xss \<longleftrightarrow> pool_rel pool_link_left (t_mem t) (t_pool t) xss"

definition stored :: "('r \<Rightarrow> (ptr \<times> unit) multiset) \<Rightarrow> ('k, 'v, 'r) tree \<Rightarrow> ptr set \<Rightarrow> ptr list list \<Rightarrow> bool" where
  "stored pd t N xss \<longleftrightarrow> pool_at t xss \<and>
     (\<forall>a. count (retired_nodes pd (t_rc t)) a \<le> 1) \<and>
     set_mset (retired_nodes pd (t_rc t)) \<inter> N = {} \<and>
     pooled xss \<inter> (N \<union> set_mset (retired_nodes pd (t_rc t))) = {} \<and>
     (\<forall>a \<in> N \<union> set_mset (retired_nodes pd (t_rc t)). node_live t a) \<and>
     (\<forall>a. live (t_mem t) a \<noteq> None \<longrightarrow> a \<in> N \<union> set_mset (retired_nodes pd (t_rc t)) \<union> pooled xss)"

definition mem_ok ::
  "('r \<Rightarrow> bool) \<Rightarrow> ('r \<Rightarrow> (ptr \<times> unit) multiset) \<Rightarrow> ('k, 'v, 'r) tree \<Rightarrow> ptr set \<Rightarrow> bool" where
  "mem_ok ok pd t N \<longleftrightarrow> ok (t_rc t) \<and> (\<exists>xss. stored pd t N xss)"

text \<open>What every operation leaves alone: the nodes \<open>N\<close>, the root, the count, the allocator.\<close>

definition kept :: "ptr set \<Rightarrow> ('k, 'v, 'r) tree \<Rightarrow> ('k, 'v, 'r) tree \<Rightarrow> bool" where
  "kept N t t' \<longleftrightarrow> t_root t' = t_root t \<and> t_count t' = t_count t \<and> t_na t' = t_na t \<and>
     (\<forall>a \<in> N. node_at t' a = node_at t a \<and> live (t_mem t') a = live (t_mem t) a)"

text \<open>The nodes of other containers.\<close>

definition others :: "ptr set \<Rightarrow> ('k, 'v, 'r) tree \<Rightarrow> ('k, 'v, 'r) tree \<Rightarrow> bool" where
  "others W t t' \<longleftrightarrow> t_na t' = t_na t \<and>
     (\<forall>a \<in> W. node_at t' a = node_at t a \<and> live (t_mem t') a = live (t_mem t) a)"

lemma kept_others: "kept N t t' \<Longrightarrow> W \<subseteq> N \<Longrightarrow> others W t t'"
  by (auto simp: kept_def others_def)

lemma others_trans: "others W t t' \<Longrightarrow> others W t' t'' \<Longrightarrow> others W t t''"
  by (simp add: others_def)

lemma kept_refl [simp]: "kept N t t"
  by (simp add: kept_def)

lemma kept_trans: "kept N t t' \<Longrightarrow> kept N t' t'' \<Longrightarrow> kept N t t''"
  by (simp add: kept_def)

lemma kept_mono: "kept N t t' \<Longrightarrow> M \<subseteq> N \<Longrightarrow> kept M t t'"
  by (auto simp: kept_def)

lemma kept_live: "kept N t t' \<Longrightarrow> a \<in> N \<Longrightarrow> node_live t' a = node_live t a"
  by (simp add: kept_def node_live_def)

lemma kept_tree_at: "kept N t t' \<Longrightarrow> nodes_of g \<subseteq> N \<Longrightarrow> tree_at t' g = tree_at t g"
  by (induction g) (auto simp: kept_def)

lemma kept_tree_rel: "kept N t t' \<Longrightarrow> nodes_of g \<subseteq> N \<Longrightarrow> tree_rel t' g = tree_rel t g"
  by (simp add: tree_rel_def kept_tree_at) (simp add: kept_def)

lemma load_live [simp, heap_simps]: "load (m\<lparr>live := l\<rparr>) b = load m b"
  by (simp add: load_def)

subsection \<open>Freeing nodes\<close>

lemma pooled_update:
  "i < length xss \<Longrightarrow> pooled xss - set (xss ! i) \<union> set xs \<subseteq> pooled (xss[i := xs])"
  unfolding pooled_def
proof (intro subsetI)
  fix x assume i: "i < length xss" and x: "x \<in> (\<Union>xs \<in> set xss. set xs) - set (xss ! i) \<union> set xs"
  then consider "x \<in> set xs" | ys where "ys \<in> set xss" "x \<in> set ys" "ys \<noteq> xss ! i"
    by blast
  then show "x \<in> (\<Union>xs \<in> set (xss[i := xs]). set xs)"
  proof cases
    case 1
    then show ?thesis using set_update_memI [OF i, of xs] by blast
  next
    case 2
    then obtain j where "j < length xss" "ys = xss ! j" "j \<noteq> i" by (metis in_set_conv_nth)
    then have "ys = xss[i := xs] ! j" "j < length (xss[i := xs])" by simp_all
    then have "ys \<in> set (xss[i := xs])" using nth_mem by metis
    then show ?thesis using 2 by blast
  qed
qed

lemma free_node_spec:
  assumes pool: "pool_at t xss" and live: "node_live t n" and n: "n \<notin> pooled xss"
  shows "\<exists>t' xss'. free_node th n t = Some t' \<and> pool_at t' xss' \<and> pooled xss' \<subseteq> insert n (pooled xss) \<and>
    t_rc t' = t_rc t \<and> kept (- insert n (pooled xss)) t t' \<and>
    (\<forall>b. live (t_mem t') b \<noteq> None \<longrightarrow> live (t_mem t) b \<noteq> None \<and> (b \<in> insert n (pooled xss) \<longrightarrow> b \<in> pooled xss'))"
proof -
  obtain nd where nd: "node_at t n = Some nd" "live (t_mem t) n = Some (link_owner pool_link_left nd)"
    using live by (auto simp: node_live_def pool_link_left_def)
  obtain i p1 where my: "my_shard th (t_pool t) = (i, p1)" by force
  have rel: "pool_rel pool_link_left (t_mem t) (t_pool t) xss" using pool by (simp add: pool_at_def)
  have i: "i < SHARDS" "length xss = SHARDS" using my_shard_spec [OF rel my] rel by (simp_all add: pool_rel_def)
  have sub: "set (xss ! i) \<subseteq> pooled xss" using in_pooledI [OF rel i(1)] .
  from tl.release_spec [OF rel nd n my]
  obtain m' p' where r: "release pool_link_left th n (t_mem t) (t_pool t) = Some (m', p')"
    and post: "if length (xss ! i) < PER_SHARD_WATERMARK
     then pool_rel pool_link_left m' p' (xss[i := n # xss ! i]) \<and> live m' = live (t_mem t) \<and>
       (\<forall>b. b \<noteq> n \<longrightarrow> load m' b = load (t_mem t) b)
     else pool_rel pool_link_left m' p' (xss[i := []]) \<and> freed (insert n (set (xss ! i))) (t_mem t) m'"
    by blast
  define xss' where "xss' = (if length (xss ! i) < PER_SHARD_WATERMARK then xss[i := n # xss ! i] else xss[i := []])"
  define t' where "t' = t\<lparr>t_mem := m', t_pool := p'\<rparr>"
  have "free_node th n t = Some t'" by (simp add: free_node_def r t'_def)
  moreover have "pool_at t' xss'" using post by (simp add: pool_at_def t'_def xss'_def split: if_splits)
  moreover have "pooled xss' \<subseteq> insert n (pooled xss)"
    using sub by (auto simp: xss'_def pooled_def dest!: set_update_subset_insert [THEN subsetD])
  moreover have "kept (- insert n (pooled xss)) t t'"
    using post sub by (auto simp: kept_def t'_def freed_def split: if_splits)
  moreover have "t_rc t' = t_rc t" by (simp add: t'_def)
  moreover have "live (t_mem t) b \<noteq> None \<and> (b \<in> insert n (pooled xss) \<longrightarrow> b \<in> pooled xss')"
    if "live (t_mem t') b \<noteq> None" for b
  proof (cases "length (xss ! i) < PER_SHARD_WATERMARK")
    case True
    then have "insert n (pooled xss) \<subseteq> pooled xss'"
      using pooled_update [of i xss "n # xss ! i"] i by (auto simp: xss'_def)
    then show ?thesis using that post True by (auto simp: t'_def)
  next
    case False
    then have "b \<notin> insert n (set (xss ! i))" "live (t_mem t) b \<noteq> None"
      using that post by (auto simp: t'_def freed_def split: if_splits)
    then show ?thesis using False pooled_update [of i xss "[]"] i by (auto simp: xss'_def)
  qed
  ultimately show ?thesis by blast
qed

lemma run_actions_spec:
  assumes "pool_at t xss" and "distinct (map fst fs)" and "set (map fst fs) \<inter> pooled xss = {}"
    and "\<And>a. a \<in> set (map fst fs) \<Longrightarrow> node_live t a"
  shows "\<exists>t' xss'. run_actions th fs t = Some t' \<and> pool_at t' xss' \<and>
    pooled xss' \<subseteq> set (map fst fs) \<union> pooled xss \<and> t_rc t' = t_rc t \<and>
    kept (- (set (map fst fs) \<union> pooled xss)) t t' \<and>
    (\<forall>b. live (t_mem t') b \<noteq> None \<longrightarrow> live (t_mem t) b \<noteq> None \<and>
      (b \<in> set (map fst fs) \<union> pooled xss \<longrightarrow> b \<in> pooled xss'))"
  using assms
proof (induction fs arbitrary: t xss)
  case Nil
  then show ?case by auto
next
  case (Cons f fs)
  obtain n where f: "f = (n, ())" by (cases f) auto
  obtain t1 xss1 where 1: "free_node th n t = Some t1" "pool_at t1 xss1" "pooled xss1 \<subseteq> insert n (pooled xss)"
    "t_rc t1 = t_rc t" "kept (- insert n (pooled xss)) t t1"
    "\<And>b. live (t_mem t1) b \<noteq> None \<Longrightarrow> live (t_mem t) b \<noteq> None \<and> (b \<in> insert n (pooled xss) \<longrightarrow> b \<in> pooled xss1)"
    using free_node_spec [of t xss n th] Cons.prems by (auto simp: f)
  have dist: "distinct (map fst fs)" "n \<notin> set (map fst fs)" using Cons.prems(2) by (auto simp: f)
  have disj: "set (map fst fs) \<inter> insert n (pooled xss) = {}" using Cons.prems(3) dist(2) by auto
  have lv: "node_live t1 a" if "a \<in> set (map fst fs)" for a
    using Cons.prems(4) [of a] kept_live [OF 1(5), of a] that disj by (auto simp: f)
  obtain t' xss' where 2: "run_actions th fs t1 = Some t'" "pool_at t' xss'"
    "pooled xss' \<subseteq> set (map fst fs) \<union> pooled xss1" "t_rc t' = t_rc t1"
    "kept (- (set (map fst fs) \<union> pooled xss1)) t1 t'"
    "\<And>b. live (t_mem t') b \<noteq> None \<Longrightarrow> live (t_mem t1) b \<noteq> None \<and>
      (b \<in> set (map fst fs) \<union> pooled xss1 \<longrightarrow> b \<in> pooled xss')"
    using Cons.IH [OF 1(2) dist(1) _ lv] disj 1(3) by blast
  have "kept (- (set (map fst (f # fs)) \<union> pooled xss)) t t'"
    by (rule kept_trans [OF kept_mono [OF 1(5)] kept_mono [OF 2(5)]]) (use 1(3) in \<open>auto simp: f\<close>)
  moreover have "pooled xss' \<subseteq> set (map fst (f # fs)) \<union> pooled xss" using 1(3) 2(3) by (auto simp: f)
  moreover have "run_actions th (f # fs) t = Some t'" using 1(1) 2(1) by (simp add: f)
  moreover have "t_rc t' = t_rc t" using 1(4) 2(4) by simp
  moreover have "live (t_mem t) b \<noteq> None \<and> (b \<in> set (map fst (f # fs)) \<union> pooled xss \<longrightarrow> b \<in> pooled xss')"
    if "live (t_mem t') b \<noteq> None" for b
    using 2(6) [OF that] 1(6) [of b] by (auto simp: f)
  ultimately show ?case using 2(2) by blast
qed


lemma storedI:
  assumes "pool_at t xss" and "\<And>a. count (retired_nodes pd (t_rc t)) a \<le> 1"
    and "set_mset (retired_nodes pd (t_rc t)) \<inter> N = {}"
    and "pooled xss \<inter> (N \<union> set_mset (retired_nodes pd (t_rc t))) = {}"
    and "\<And>a. a \<in> N \<union> set_mset (retired_nodes pd (t_rc t)) \<Longrightarrow> node_live t a"
    and "\<And>a. live (t_mem t) a \<noteq> None \<Longrightarrow> a \<in> N \<union> set_mset (retired_nodes pd (t_rc t)) \<union> pooled xss"
  shows "stored pd t N xss"
  using assms unfolding stored_def by blast

lemma storedD:
  assumes "stored pd t N xss"
  shows "pool_at t xss" "\<And>a. count (retired_nodes pd (t_rc t)) a \<le> 1"
    "set_mset (retired_nodes pd (t_rc t)) \<inter> N = {}"
    "pooled xss \<inter> (N \<union> set_mset (retired_nodes pd (t_rc t))) = {}"
    "\<And>a. a \<in> N \<union> set_mset (retired_nodes pd (t_rc t)) \<Longrightarrow> node_live t a"
    "\<And>a. live (t_mem t) a \<noteq> None \<Longrightarrow> a \<in> N \<union> set_mset (retired_nodes pd (t_rc t)) \<union> pooled xss"
  using assms unfolding stored_def by blast+

lemma mem_ok_live: "mem_ok ok pd t N \<Longrightarrow> a \<in> N \<Longrightarrow> node_live t a"
  by (auto simp: mem_ok_def stored_def)

text \<open>Destroying a node that the containers own.\<close>

lemma destroy_spec:
  assumes m: "mem_ok ok pd t (insert n N)" and n: "n \<notin> N"
  shows "\<exists>t'. free_node th n t = Some t' \<and> mem_ok ok pd t' N \<and> kept N t t' \<and> t_rc t' = t_rc t"
proof -
  obtain xss where st: "stored pd t (insert n N) xss" using m by (auto simp: mem_ok_def)
  let ?P = "retired_nodes pd (t_rc t)"
  have nP: "n \<notin> set_mset ?P" "n \<notin> pooled xss" and live: "node_live t n"
    and pool: "pool_at t xss" using st by (auto simp: stored_def)
  obtain t' xss' where 1: "free_node th n t = Some t'" "pool_at t' xss'" "pooled xss' \<subseteq> insert n (pooled xss)"
    "t_rc t' = t_rc t" "kept (- insert n (pooled xss)) t t'"
    "\<And>b. live (t_mem t') b \<noteq> None \<Longrightarrow> live (t_mem t) b \<noteq> None \<and> (b \<in> insert n (pooled xss) \<longrightarrow> b \<in> pooled xss')"
    using free_node_spec [OF pool live nP(2), of th] by blast
  have out: "N \<union> set_mset ?P \<subseteq> - insert n (pooled xss)" using st n nP by (auto simp: stored_def)
  have "stored pd t' N xss'"
  proof (rule storedI, unfold 1(4))
    show "node_live t' a" if "a \<in> N \<union> set_mset ?P" for a
      using kept_live [OF 1(5), of a] that out storedD(5) [OF st, of a] by auto
    show "pooled xss' \<inter> (N \<union> set_mset ?P) = {}" using 1(3) out by blast
    show "a \<in> N \<union> set_mset ?P \<union> pooled xss'" if "live (t_mem t') a \<noteq> None" for a
      using 1(6) [OF that] storedD(6) [OF st, of a] by blast
  qed (use storedD [OF st] 1(2) in auto)
  then have "mem_ok ok pd t' N" using m 1(4) by (auto simp: mem_ok_def)
  moreover have "kept N t t'" using kept_mono [OF 1(5)] out by blast
  ultimately show ?thesis using 1(1,4) by blast
qed

text \<open>A new node: reused from the pool, or a fresh block.\<close>

lemma acquired_new:
  fixes k :: 'k and v :: 'v and t :: "('k, 'v, 'r) tree"
  assumes st: "stored pd t N xss" and ok: "ok (t_rc t)"
    and pool: "pool_rel pool_link_left m' p' xss'" and sub: "pooled xss' \<subseteq> pooled xss"
    and n: "n \<noteq> 0" "n \<notin> N" "n \<notin> set_mset (retired_nodes pd (t_rc t))" "n \<notin> pooled xss'"
    and live: "live m' n = Some (t_na t)"
    and frame: "\<And>b. b \<in> N \<union> set_mset (retired_nodes pd (t_rc t)) \<Longrightarrow> load m' b = node_at t b \<and> live m' b = live (t_mem t) b"
    and all: "\<And>b. live m' b \<noteq> None \<Longrightarrow> b \<in> insert n N \<union> set_mset (retired_nodes pd (t_rc t)) \<union> pooled xss'"
  defines "t' \<equiv> put_node n (mk_node 0 0 False RED (k, v, t_na t)) (t\<lparr>t_mem := m', t_pool := p'\<rparr>)"
  shows "mem_ok ok pd t' (insert n N) \<and> kept N t t'"
proof -
  let ?P = "retired_nodes pd (t_rc t)"
  have rc: "t_rc t' = t_rc t" by (simp add: t'_def)
  have k: "kept (N \<union> set_mset ?P) t t'"
    using frame n by (auto simp: kept_def t'_def put_node_def)
  have "stored pd t' (insert n N) xss'"
  proof (rule storedI, unfold rc)
    show "pool_at t' xss'"
      using n(1,4) by (auto simp: pool_at_def t'_def put_node_def intro!: pool_rel_frame [OF pool])
    have "node_live t' n" using n(1) live by (auto simp: node_live_def t'_def put_node_def)
    then show "node_live t' a" if "a \<in> insert n N \<union> set_mset ?P" for a
      using kept_live [OF k, of a] storedD(5) [OF st, of a] that by blast
    show "a \<in> insert n N \<union> set_mset ?P \<union> pooled xss'" if "live (t_mem t') a \<noteq> None" for a
      using all [of a] that by (simp add: t'_def put_node_def)
  qed (use storedD [OF st] n sub in auto)
  then show ?thesis using ok rc kept_mono [OF k] by (auto simp: mem_ok_def)
qed

lemma alloc_spec:
  assumes m: "mem_ok ok pd t N" and blk: "\<And>b. blk = Some b \<Longrightarrow> fresh_block (t_mem t) b"
  shows "\<exists>r t'. alloc_node th blk pl t = Some (r, t') \<and> kept N t t' \<and> t_rc t' = t_rc t \<and>
    (case r of Inl e \<Rightarrow> e = Bad_alloc \<and> blk = None \<and> mem_ok ok pd t' N
     | Inr n \<Rightarrow> n \<notin> N \<and> node_at t' n = Some (mk_node 0 0 False RED (fst pl, snd pl, t_na t)) \<and>
         mem_ok ok pd t' (insert n N))"
proof -
  obtain xss where st: "stored pd t N xss" and ok: "ok (t_rc t)" using m by (auto simp: mem_ok_def)
  let ?P = "retired_nodes pd (t_rc t)"
  have rel: "pool_rel pool_link_left (t_mem t) (t_pool t) xss" using st by (simp add: stored_def pool_at_def)
  obtain i p1 where my: "my_shard th (t_pool t) = (i, p1)" by force
  have i: "i < SHARDS" "length xss = SHARDS" using my_shard_spec [OF rel my] rel by (simp_all add: pool_rel_def)
  obtain r m' p' where a: "acquire pool_link_left th (t_na t) blk (t_mem t) (t_pool t) = Some (r, m', p')"
    and post: "case xss ! i of
       [] \<Rightarrow> pool_rel pool_link_left m' p' xss \<and> (r, m') = allocate (t_na t) blk (t_mem t)
     | x # xs \<Rightarrow> pool_rel pool_link_left m' p' (xss[i := xs]) \<and>
         (if live (t_mem t) x = Some (t_na t) then r = Inr x \<and> m' = t_mem t
          else \<exists>m1. freed {x} (t_mem t) m1 \<and> (r, m') = allocate (t_na t) blk m1)"
    using tl.acquire_spec [OF rel my blk] by blast
  define xss' where "xss' = (case xss ! i of [] \<Rightarrow> xss | x # xs \<Rightarrow> xss[i := xs])"
  have pool': "pool_rel pool_link_left m' p' xss'" using post by (simp add: xss'_def split: list.splits)
  have sub: "pooled xss' \<subseteq> pooled xss"
    using in_pooledI [OF rel i(1)]
    by (auto simp: xss'_def pooled_def split: list.splits dest!: set_update_subset_insert [THEN subsetD])
  have liveP: "live (t_mem t) b \<noteq> None" if "b \<in> N \<union> set_mset ?P" for b
    using st that by (auto simp: stored_def node_live_def)
  have node: "\<lparr>n_left = 0, n_right = 0, n_locked = False, n_color = RED, n_key = fst pl, n_value = snd pl,
      n_owner = t_na t\<rparr> = mk_node 0 0 False RED (fst pl, snd pl, t_na t)" by (simp add: mk_node_def)
  define t1 where "t1 = t\<lparr>t_mem := m', t_pool := p'\<rparr>"
  have run: "alloc_node th blk pl t = Some (case r of Inl e \<Rightarrow> (Inl e, t1)
      | Inr n \<Rightarrow> (Inr n, put_node n (mk_node 0 0 False RED (fst pl, snd pl, t_na t)) t1))"
    by (cases r) (simp_all add: alloc_node_def a t1_def node)
  have Inl: ?thesis if r: "(r, m') = allocate (t_na t) blk m1" "blk = None"
      and F: "freed F (t_mem t) m1" "F \<subseteq> pooled xss" "pooled xss - F \<subseteq> pooled xss'" for F m1
  proof -
    have m': "m' = m1" "r = Inl Bad_alloc" using r by (simp_all add: allocate_def)
    have out: "b \<notin> F" if "b \<in> N \<union> set_mset ?P" for b using that F(2) st by (auto simp: stored_def)
    have k: "kept (N \<union> set_mset ?P) t t1"
      using out freed_frame [OF F(1)] by (auto simp: kept_def t1_def m')
    have rc: "t_rc t1 = t_rc t" by (simp add: t1_def)
    have "stored pd t1 N xss'"
    proof (rule storedI, unfold rc)
      show "node_live t1 b" if "b \<in> N \<union> set_mset ?P" for b
        using kept_live [OF k that] storedD(5) [OF st that] by simp
      show "b \<in> N \<union> set_mset ?P \<union> pooled xss'" if "live (t_mem t1) b \<noteq> None" for b
      proof -
        have "b \<notin> F" "live (t_mem t) b \<noteq> None"
          using that F(1) by (auto simp: t1_def m' freed_def split: if_splits)
        then show ?thesis using storedD(6) [OF st, of b] F(3) by blast
      qed
    qed (use storedD [OF st] sub pool' in \<open>auto simp: pool_at_def t1_def\<close>)
    then have "mem_ok ok pd t1 N" using ok by (auto simp: mem_ok_def t1_def)
    then show ?thesis using run m' r(2) kept_mono [OF k, of N] by (simp add: t1_def)
  qed
  have Inr: ?thesis if r: "r = Inr n" and n: "n \<noteq> 0" "n \<notin> N" "n \<notin> set_mset ?P" "n \<notin> pooled xss'"
    and live: "live m' n = Some (t_na t)"
    and frame: "\<And>b. b \<in> N \<union> set_mset ?P \<Longrightarrow> load m' b = node_at t b \<and> live m' b = live (t_mem t) b"
    and all: "\<And>b. live m' b \<noteq> None \<Longrightarrow> b \<in> insert n N \<union> set_mset ?P \<union> pooled xss'" for n
  proof -
    have "mem_ok ok pd (put_node n (mk_node 0 0 False RED (fst pl, snd pl, t_na t)) t1) (insert n N) \<and>
        kept N t (put_node n (mk_node 0 0 False RED (fst pl, snd pl, t_na t)) t1)"
      unfolding t1_def by (rule acquired_new [where ok = ok, OF st ok pool' sub n live]) (rule frame, assumption, rule all, assumption)
    then show ?thesis using run r n by (simp add: t1_def)
  qed
  have fresh: ?thesis if r: "(r, m') = allocate (t_na t) blk m1"
      and F: "freed F (t_mem t) m1" "F \<subseteq> pooled xss" "pooled xss - F \<subseteq> pooled xss'" for F m1
  proof (cases blk)
    case None
    show ?thesis using Inl [OF r None F] .
  next
    case (Some a)
    have a: "a \<noteq> 0" "live (t_mem t) a = None" using blk [OF Some] by (simp_all add: fresh_block_def)
    have m': "m' = m1\<lparr>live := (live m1)(a \<mapsto> t_na t)\<rparr>" "r = Inr a" using r by (simp_all add: allocate_def Some)
    have out: "b \<notin> F" "b \<noteq> a" if "b \<in> N \<union> set_mset ?P" for b
      using that F(2) st liveP [OF that] a by (auto simp: stored_def)
    have "x \<noteq> a" if "x \<in> pooled xss" for x
    proof -
      obtain j where j: "j < SHARDS" "x \<in> set (xss ! j)"
        using \<open>x \<in> pooled xss\<close> i(2) by (auto simp: pooled_nth)
      then have "chain pool_link_left (t_mem t) (sh_head (shards (t_pool t) ! j)) (xss ! j)"
        using rel by (simp add: pool_rel_def shard_ok_def)
      then show ?thesis using chain_live j(2) a(2) by force
    qed
    then have "a \<notin> pooled xss'" using sub by blast
    moreover have "load m' b = node_at t b \<and> live m' b = live (t_mem t) b" if "b \<in> N \<union> set_mset ?P" for b
      using freed_frame [OF F(1) out(1) [OF that]] out(2) [OF that] by (simp add: m')
    moreover have "b \<in> insert a N \<union> set_mset ?P \<union> pooled xss'" if "live m' b \<noteq> None" for b
    proof (cases "b = a")
      case False
      then have "b \<notin> F" "live (t_mem t) b \<noteq> None"
        using that F(1) by (auto simp: m' freed_def split: if_splits)
      then show ?thesis using storedD(6) [OF st, of b] F(3) by blast
    qed simp
    moreover have "a \<notin> N" "a \<notin> set_mset ?P" using out by blast+
    ultimately show ?thesis using Inr m' a(1) by simp
  qed
  show ?thesis
  proof (cases "xss ! i")
    case Nil
    then have "(r, m') = allocate (t_na t) blk (t_mem t)" using post by simp
    moreover have "xss' = xss" using Nil by (simp add: xss'_def)
    ultimately show ?thesis using fresh [of "t_mem t" "{}"] by simp
  next
    case (Cons x xs)
    have xss': "xss' = xss[i := xs]" using Cons by (simp add: xss'_def)
    have up: "pooled xss - {x} \<subseteq> pooled xss'"
    proof
      fix y assume y: "y \<in> pooled xss - {x}"
      show "y \<in> pooled xss'"
      proof (cases "y \<in> set (xss ! i)")
        case True
        then have "y \<in> set xs" using y Cons by simp
        then show ?thesis using pooled_update [of i xss xs] i by (auto simp: xss')
      next
        case False
        then show ?thesis using pooled_update [of i xss xs] i y by (auto simp: xss')
      qed
    qed
    have x: "x \<in> pooled xss" using in_pooledI [OF rel i(1)] Cons by auto
    show ?thesis
    proof (cases "live (t_mem t) x = Some (t_na t)")
      case True
      have r: "r = Inr x" "m' = t_mem t" using post Cons True by simp_all
      have ok_i: "shard_ok pool_link_left (t_mem t) (shards (t_pool t) ! i) (x # xs)"
        using rel i(1) Cons by (auto simp: pool_rel_def)
      then have "x \<noteq> 0" "x \<notin> set xs" by (auto simp: shard_ok_def)
      moreover have "x \<notin> pooled (xss[i := xs])"
      proof
        assume "x \<in> pooled (xss[i := xs])"
        then obtain j where j: "j < SHARDS" "x \<in> set (xss[i := xs] ! j)"
          using i(2) by (auto simp: pooled_nth)
        then have "j \<noteq> i" "x \<in> set (xss ! j)" using i \<open>x \<notin> set xs\<close> by (auto simp: nth_list_update split: if_splits)
        then show False using rel i(1) j(1) Cons by (fastforce simp: pool_rel_def)
      qed
      moreover have "x \<notin> N" "x \<notin> set_mset ?P" using st x by (auto simp: stored_def)
      moreover have "b \<in> insert x N \<union> set_mset ?P \<union> pooled xss'" if "live m' b \<noteq> None" for b
        using storedD(6) [OF st, of b] that up unfolding r(2) by blast
      ultimately show ?thesis using Inr [OF r(1)] True r(2) by (simp add: xss')
    next
      case False
      then obtain m1 where "freed {x} (t_mem t) m1" "(r, m') = allocate (t_na t) blk m1"
        using post Cons by auto
      then show ?thesis using fresh [of m1 "{x}"] x up by simp
    qed
  qed
qed


subsection \<open>Retiring a node\<close>

locale tree_reclaimer = reclaim_contract rc ok pd
  for rc :: "(unit, 'r) reclaimer_ops" and ok :: "'r \<Rightarrow> bool" and pd :: "'r \<Rightarrow> (ptr \<times> unit) multiset"
begin

lemma retire_spec:
  fixes t :: "('k, 'v, 'r) tree"
  assumes m: "mem_ok ok pd t (insert a N)" and a: "a \<notin> N"
  shows "\<exists>t'. retire_node rc th Push_ok a t = Some (Inr (), t') \<and> mem_ok ok pd t' N \<and> kept N t t'"
proof -
  obtain xss where st: "stored pd t (insert a N) xss" and ok: "ok (t_rc t)" using m by (auto simp: mem_ok_def)
  let ?P = "retired_nodes pd (t_rc t)"
  obtain fs s' where r: "rc_retire rc Push_ok a () (t_rc t) = Some (Inr fs, s')" "ok s'"
    "add_mset (a, ()) (pd (t_rc t)) = pd s' + mset fs" using retire_ok [OF ok] by blast
  let ?P' = "retired_nodes pd s'"
  have P: "add_mset a ?P = ?P' + mset (map fst fs)"
    using arg_cong [OF r(3), of "image_mset fst"] by (simp add: retired_nodes_def)
  have one: "count (add_mset a ?P) x \<le> 1" for x
    using st by (cases "x = a") (auto simp: stored_def not_in_iff)
  then have cnt: "count ?P' x + count (mset (map fst fs)) x \<le> 1" for x by (metis P count_union)
  have dist: "distinct (map fst fs)" by (rule distinct_count_le) (use cnt add_leD2 in blast)
  have disj: "set_mset ?P' \<inter> set (map fst fs) = {}"
    using count_split_le [of ?P' "mset (map fst fs)"] cnt by (simp only: set_mset_mset)
  have un: "insert a (set_mset ?P) = set_mset ?P' \<union> set (map fst fs)"
    using arg_cong [OF P, of set_mset] by simp
  define t1 where "t1 = t\<lparr>t_rc := s'\<rparr>"
  have live1: "node_live t1 = node_live t" by (rule ext) (simp add: node_live_def t1_def)
  have pool1: "pool_at t1 xss" using st by (simp add: stored_def pool_at_def t1_def)
  have fsp: "set (map fst fs) \<subseteq> insert a (set_mset ?P)" using un by blast
  have out: "set (map fst fs) \<inter> pooled xss = {}" using fsp st by (auto simp: stored_def)
  have lv: "node_live t1 x" if "x \<in> set (map fst fs)" for x
    using fsp that st unfolding live1 by (auto simp: stored_def)
  obtain t' xss' where 1: "run_actions th fs t1 = Some t'" "pool_at t' xss'"
    "pooled xss' \<subseteq> set (map fst fs) \<union> pooled xss" "t_rc t' = t_rc t1"
    "kept (- (set (map fst fs) \<union> pooled xss)) t1 t'"
    "\<And>b. live (t_mem t') b \<noteq> None \<Longrightarrow> live (t_mem t1) b \<noteq> None \<and>
      (b \<in> set (map fst fs) \<union> pooled xss \<longrightarrow> b \<in> pooled xss')"
    using run_actions_spec [OF pool1 dist out lv] by blast
  have rest: "N \<union> set_mset ?P' \<subseteq> - (set (map fst fs) \<union> pooled xss)"
    using st a un disj fsp by (auto simp: stored_def)
  have rc': "t_rc t' = s'" using 1(4) by (simp add: t1_def)
  have "stored pd t' N xss'"
  proof (rule storedI, unfold rc')
    show "node_live t' x" if x: "x \<in> N \<union> set_mset ?P'" for x
    proof -
      have "x \<in> insert a N \<union> set_mset ?P" using x un by blast
      then have "node_live t x" by (rule storedD(5) [OF st])
      moreover have "x \<in> - (set (map fst fs) \<union> pooled xss)" using x rest by blast
      ultimately show ?thesis using kept_live [OF 1(5)] unfolding live1 by blast
    qed
    show "pooled xss' \<inter> (N \<union> set_mset ?P') = {}" using 1(3) rest by blast
    show "count ?P' x \<le> 1" for x using cnt [of x] by simp
    show "set_mset ?P' \<inter> N = {}" using un st a by (auto simp: stored_def)
    show "x \<in> N \<union> set_mset ?P' \<union> pooled xss'" if "live (t_mem t') x \<noteq> None" for x
    proof -
      have "live (t_mem t) x \<noteq> None" using 1(6) [OF that] by (simp add: t1_def)
      then have "x \<in> insert a N \<union> set_mset ?P \<union> pooled xss" by (rule storedD(6) [OF st])
      then show ?thesis using 1(6) [OF that] un by blast
    qed
  qed (rule 1(2))
  then have "mem_ok ok pd t' N" using r(2) 1(4) by (auto simp: mem_ok_def t1_def)
  moreover have "kept N t t'"
    using kept_mono [OF 1(5), of N] rest by (auto simp: kept_def t1_def)
  moreover have "retire_node rc th Push_ok a t = Some (Inr (), t')"
    using 1(1) by (simp add: retire_node_def r(1) t1_def)
  ultimately show ?thesis by blast
qed

lemma retire_throws:
  assumes "ok (t_rc t)" and "pu \<noteq> Push_ok"
  shows "retire_node rc th pu a t = Some (Inl Bad_alloc, t)"
  using retire_throw [OF assms, of a "()"] by (simp add: retire_node_def)

end

interpretation ter: tree_reclaimer "epoch_rc th" "epoch_ready th" epoch_pending for th
  by unfold_locales

interpretation thr: tree_reclaimer "hazard_rc th" "hazard_ready th" hz_pending for th
  by unfold_locales


subsection \<open>The engine invariant\<close>

text \<open>
  \<open>engine_ok\<close>: between operations the engine is an unlocked red-black tree in key order, the
  counter is its size, and the memory is accounted for; \<open>W\<close> are the nodes of the other
  containers that share pool and reclaimer.
\<close>

definition engine_ok ::
  "('r \<Rightarrow> bool) \<Rightarrow> ('r \<Rightarrow> (ptr \<times> unit) multiset) \<Rightarrow> ('k \<Rightarrow> 'k \<Rightarrow> bool) \<Rightarrow> ptr set \<Rightarrow> ('k, 'v, 'r) tree \<Rightarrow>
   ('k, 'v) data gtree \<Rightarrow> bool" where
  "engine_ok ok pd cmp W t g \<longleftrightarrow> tree_rel t g \<and> sorted_entries cmp (entries g) \<and>
     t_count t = of_nat (length (items g)) \<and> nodes_of g \<inter> W = {} \<and> mem_ok ok pd t (nodes_of g \<union> W)"

lemma tree_live: "tree_at t g \<Longrightarrow>
  (\<forall>a \<in> nodes_of g. node_live t a) \<longleftrightarrow> (\<forall>(a, d) \<in> set (items g). live (t_mem t) a = Some (snd (snd d)))"
proof (induction g)
  case (Nd a c d l r)
  have "node_live t a \<longleftrightarrow> live (t_mem t) a = Some (snd (snd d))"
    using Nd.prems by (auto simp: node_live_def)
  then show ?case using Nd by (auto simp: ball_Un)
qed simp

lemma mem_ok_same:
  assumes m: "mem_ok ok pd t N" and same: "same_but S t t'" and sub: "S \<subseteq> N"
    and live: "\<And>a. a \<in> S \<Longrightarrow> node_live t' a"
  shows "mem_ok ok pd t' N"
proof -
  obtain xss where st: "stored pd t N xss" and ok: "ok (t_rc t)" using m by (auto simp: mem_ok_def)
  have rc: "t_rc t' = t_rc t" "t_pool t' = t_pool t" "live (t_mem t') = live (t_mem t)"
    using same by (simp_all add: same_but_def)
  have out: "node_at t' b = node_at t b" if "b \<notin> S" for b using same that by (simp add: same_but_def)
  have "b \<notin> S" if "b \<in> pooled xss" for b using st sub that by (auto simp: stored_def)
  then have frame: "node_at t' b = node_at t b \<and> live (t_mem t') b = live (t_mem t) b" if "b \<in> pooled xss" for b
    using out rc(3) that by simp
  have "pool_rel pool_link_left (t_mem t) (t_pool t) xss" using st by (simp add: stored_def pool_at_def)
  then have "pool_at t' xss" unfolding pool_at_def rc by (rule pool_rel_frame) (rule frame)
  moreover have "node_live t' b" if "b \<in> N \<union> set_mset (retired_nodes pd (t_rc t))" for b
  proof (cases "b \<in> S")
    case False
    then have "node_live t' b = node_live t b" using out by (simp add: node_live_def rc)
    then show ?thesis using st that by (simp add: stored_def)
  qed (rule live)
  ultimately have "stored pd t' N xss" using st by (simp add: stored_def rc)
  then show ?thesis using ok by (auto simp: mem_ok_def rc)
qed

lemma entries_eq: "items g = bs @ x # as \<Longrightarrow> entries g = map entry bs @ entry x # map entry as"
  by (simp add: entries_def)

lemma entries_absent: "g = plug fs Leaf \<Longrightarrow> entries g = map entry (before fs) @ map entry (after fs)"
  by (simp add: entries_def items_plug)


subsection \<open>The engine\<close>

locale tree_engine = tree_reclaimer rc ok pd + strict_weak_order cmp
  for rc :: "(unit, 'r) reclaimer_ops" and ok pd and cmp :: "'k \<Rightarrow> 'k \<Rightarrow> bool"
begin

abbreviation engine :: "ptr set \<Rightarrow> ('k, 'v, 'r) tree \<Rightarrow> ('k, 'v) data gtree \<Rightarrow> bool" where
  "engine \<equiv> engine_ok ok pd cmp"

lemma engineD:
  assumes "engine W t g"
  shows "tree_rel t g" "sorted_entries cmp (entries g)" "t_count t = of_nat (length (items g))"
    "nodes_of g \<inter> W = {}" "mem_ok ok pd t (nodes_of g \<union> W)" "ok (t_rc t)" "tree_at t g"
    "\<And>a d. (a, d) \<in> set (items g) \<Longrightarrow> live (t_mem t) a = Some (snd (snd d))"
proof -
  show 1: "tree_rel t g" "sorted_entries cmp (entries g)" "t_count t = of_nat (length (items g))"
    "nodes_of g \<inter> W = {}" and m: "mem_ok ok pd t (nodes_of g \<union> W)"
    using assms by (simp_all add: engine_ok_def)
  show "ok (t_rc t)" using m by (simp add: mem_ok_def)
  show 2: "tree_at t g" using 1(1) by (simp add: tree_rel_def)
  show "live (t_mem t) a = Some (snd (snd d))" if "(a, d) \<in> set (items g)" for a d
  proof -
    have "\<forall>a \<in> nodes_of g. node_live t a" using mem_ok_live [OF m] by blast
    then show ?thesis using that tree_live [OF 2] by fast
  qed
qed

text \<open>Inserting a node that the container owns.\<close>

lemma insert_refines:
  assumes e: "engine (insert n W) t g" and nW: "n \<notin> W" and nd: "node_at t n = Some (mk_node 0 0 False c (k, v, ow))"
  shows "returns (insert_node cmp n k t) (\<lambda>(b, t').
    (if find_entry cmp k (entries g) = None
     then b \<and> (\<exists>g'. engine W t' g' \<and> entries g' = ins_entry cmp k v (entries g) \<and>
       (n, k, v, ow) \<in> set (items g') \<and> others W t t')
     else \<not> b \<and> engine (insert n W) t' g \<and> others (insert n W) t t'))"
proof -
  note E = engineD [OF e]
  have n: "n \<notin> nodes_of g" using E(4) by blast
  have m: "mem_ok ok pd t (insert n (nodes_of g \<union> W))" using E(5) by simp
  have own: "live (t_mem t) n = Some ow"
    using mem_ok_live [OF m, of n] nd by (simp add: node_live_def)
  have "if find_entry cmp k (entries g) = None
     then b \<and> (\<exists>g'. engine W t' g' \<and> entries g' = ins_entry cmp k v (entries g) \<and>
       (n, k, v, ow) \<in> set (items g') \<and> others W t t')
     else \<not> b \<and> engine (insert n W) t' g \<and> others (insert n W) t t'"
    if post: "insert_post cmp n (k, v, ow) t g (b, t')" for b t'
  proof -
  from post consider
    (dup) fs a c d l rt where "route cmp k fs" "\<not> b" "g = plug fs (Nd a c d l rt)" "same_key cmp k (fst d)"
      "tree_rel t' g" "same_but (nodes_of g) t t'"
  | (new) fs g' where "route cmp k fs" "b" "g = plug fs Leaf"
      "items g' = before fs @ (n, k, v, ow) # after fs" "tree_rel t' g'"
      "same_but (nodes_of g') (t\<lparr>t_count := t_count t + 1\<rparr>) t'"
    unfolding insert_post_def prod.case fst_conv compare_simps by blast
  then show ?thesis
  proof cases
    case dup
    have "find_entry cmp k (entries g) = Some (entry (a, d))"
      unfolding entries_found [OF dup(3)]
      using dup(4) by (intro find_split_found [OF found_split [OF E(2) dup(1,3,4)]]) simp
    moreover have lv: "node_live t' x" if "x \<in> nodes_of g" for x
    proof -
      have "tree_at t' g" using dup(5) by (simp add: tree_rel_def)
      moreover have "live (t_mem t') = live (t_mem t)" using dup(6) by (simp add: same_but_def)
      ultimately show ?thesis using tree_live [of t' g] E(8) that by fastforce
    qed
    moreover have "mem_ok ok pd t' (insert n (nodes_of g \<union> W))"
      using mem_ok_same [OF m dup(6) _ lv] by blast
    moreover have "others (insert n W) t t'"
      using dup(6) E(4) by (auto simp: others_def same_but_def)
    ultimately show ?thesis
      using dup E(2,3,4) by (auto simp: engine_ok_def same_but_def)
  next
    case new
    note sp = route_splits [OF new(1), of Leaf, folded new(3), folded entries_def, OF E(2)]
    have es: "entries g = map entry (before fs) @ map entry (after fs)" by (rule entries_absent [OF new(3)])
    have es': "entries g' = ins_entry cmp k v (entries g)"
      using entries_eq [OF new(4)] ins_split [OF sp, of v] by (simp add: es)
    have none: "find_entry cmp k (entries g) = None" using find_split_absent [OF sp] by (simp add: es)
    have nd': "nodes_of g' = insert n (nodes_of g)"
      using arg_cong [OF new(4), of "\<lambda>xs. fst ` set xs"] arg_cong [OF new(3), of "\<lambda>g. fst ` set (items g)"]
      by (simp add: items_plug image_Un)
    have lv: "node_live t' x" if "x \<in> nodes_of g'" for x
    proof -
      have ta: "tree_at t' g'" using new(5) by (simp add: tree_rel_def)
      have lm: "live (t_mem t') = live (t_mem t)" using new(6) by (simp add: same_but_def)
      have "live (t_mem t') a = Some (snd (snd d))" if "(a, d) \<in> set (items g')" for a d
        using that E(8) [of a d] own unfolding lm by (auto simp: new(3,4) items_plug)
      then show ?thesis using tree_live [OF ta] that by fast
    qed
    have m1: "mem_ok ok pd (t\<lparr>t_count := t_count t + 1\<rparr>) (insert n (nodes_of g \<union> W))"
      using m by (simp add: mem_ok_def stored_def pool_at_def node_live_def)
    have "mem_ok ok pd t' (insert n (nodes_of g \<union> W))"
      using mem_ok_same [OF m1 new(6) _ lv] nd' by blast
    moreover have "length (items g') = Suc (length (items g))" by (simp add: new(3,4) items_plug)
    moreover have "t_count t' = t_count t + 1" using new(6) by (simp add: same_but_def)
    ultimately have "engine W t' g'"
      using new(5) E(3,4) nW ins_sorted [OF E(2) none] by (auto simp: engine_ok_def es' nd')
    moreover have "others W t t'"
      using new(6) E(4) nW nd' by (auto simp: others_def same_but_def)
    moreover have "(n, k, v, ow) \<in> set (items g')" by (simp add: new(4))
    ultimately show ?thesis using none es' new(2) by auto
  qed
  qed
  then show ?thesis
    by (auto simp only: intro!: returns_mono [OF insert_node_spec [OF E(1) n nd fst_conv]])
qed

text \<open>
  Erasing. When the reclaimer cannot take the node (its vectors are out of memory) the node is
  already unlinked but the counter still includes it.
\<close>

lemma removed_state:
  assumes e: "engine W t g" and r: "removed a d (before fs @ items l @ items rt @ after fs) t g t1"
    and g: "g = plug fs (Nd a c d l rt)" and rt: "route cmp k fs" "same_key cmp k (fst d)"
  obtains g' where "tree_rel t1 g'" "entries g' = del_entry cmp k (entries g)"
    "mem_ok ok pd t1 (insert a (nodes_of g' \<union> W))" "a \<notin> nodes_of g' \<union> W" "others W t t1"
    "t_count t1 = t_count t" "Suc (length (items g')) = length (items g)"
    "find_entry cmp k (entries g) = Some (entry (a, d))" "nodes_of g' \<inter> W = {}"
proof -
  note E = engineD [OF e]
  obtain g' p q cl where g': "tree_rel t1 g'" "items g' = before fs @ items l @ items rt @ after fs"
    "same_but (nodes_of g) t t1" "node_at t1 a = Some (mk_node p q False cl d)"
    using r by (auto simp: removed_def)
  note sp = found_split [OF E(2) rt(1) g rt(2)]
  have es: "entries g' = del_entry cmp k (entries g)"
    unfolding entries_found [OF g] using rt(2) del_split_found [OF sp, of "entry (a, d)"]
    by (simp add: entries_def g'(2))
  have fnd: "find_entry cmp k (entries g) = Some (entry (a, d))"
    unfolding entries_found [OF g] using rt(2) by (intro find_split_found [OF sp]) simp
  have nd: "nodes_of g = insert a (nodes_of g')"
    using arg_cong [OF g'(2), of "\<lambda>xs. fst ` set xs"] arg_cong [OF g, of "\<lambda>g. fst ` set (items g)"]
    by (auto simp: items_plug image_Un)
  have "distinct (map fst (items g))" using E(1) by (simp add: tree_rel_def tdist_iff)
  then have an: "a \<notin> nodes_of g'"
    using arg_cong [OF g'(2), of "\<lambda>xs. fst ` set xs"] by (auto simp: g items_plug image_Un)
  have lm: "live (t_mem t1) = live (t_mem t)" using g'(3) by (simp add: same_but_def)
  have lv: "node_live t1 x" if "x \<in> nodes_of g" for x
  proof (cases "x = a")
    case True
    have "live (t_mem t) a = Some (snd (snd d))" by (rule E(8)) (simp add: g items_plug)
    then show ?thesis using g'(4) True by (simp add: node_live_def lm)
  next
    case False
    have ta: "tree_at t1 g'" using g'(1) by (simp add: tree_rel_def)
    have "live (t_mem t1) b = Some (snd (snd db))" if "(b, db) \<in> set (items g')" for b db
      using E(8) [of b db] that unfolding lm by (auto simp: g g'(2) items_plug)
    then show ?thesis using tree_live [OF ta] that False nd by fast
  qed
  have "mem_ok ok pd t1 (nodes_of g \<union> W)" using mem_ok_same [OF E(5) g'(3) _ lv] by blast
  then have m: "mem_ok ok pd t1 (insert a (nodes_of g' \<union> W))" by (simp add: nd)
  have "others W t t1" using g'(3) E(4) by (auto simp: others_def same_but_def)
  moreover have "a \<notin> nodes_of g' \<union> W" using an E(4) nd by auto
  moreover have "t_count t1 = t_count t" using g'(3) by (simp add: same_but_def)
  moreover have "Suc (length (items g')) = length (items g)" by (simp add: g'(2) g items_plug)
  moreover have "nodes_of g' \<inter> W = {}" using E(4) nd by auto
  ultimately show thesis using that g'(1) es m fnd by blast
qed

lemma engine_recount:
  assumes "tree_rel t1 g'" and "entries g' = del_entry cmp k (entries g)" and "engine W t g"
    and "mem_ok ok pd t2 (nodes_of g' \<union> W)" and "kept (nodes_of g' \<union> W) t1 t2"
    and "t_count t1 = t_count t" and "Suc (length (items g')) = length (items g)" and "nodes_of g' \<inter> W = {}"
  shows "engine W (t2\<lparr>t_count := t_count t2 - 1\<rparr>) g'"
proof -
  have "tree_rel t2 g'" using assms(1,5) kept_tree_rel by blast
  moreover have "t_count t2 = t_count t" using assms(5,6) by (simp add: kept_def)
  moreover have "t_count t = of_nat (Suc (length (items g')))" using assms(3,7) by (simp add: engine_ok_def)
  moreover have "sorted_entries cmp (entries g')" using assms(2,3) by (simp add: engine_ok_def del_sorted)
  moreover have "mem_ok ok pd (t2\<lparr>t_count := x\<rparr>) N = mem_ok ok pd t2 N" for x N
    by (simp add: mem_ok_def stored_def pool_at_def node_live_def)
  ultimately show ?thesis using assms(4,8) by (simp add: engine_ok_def)
qed

lemma erase_refines:
  assumes e: "engine W t g"
  shows "returns (erase_node rc cmp th pu k t) (\<lambda>(r, t'). others W t t' \<and>
    (if find_entry cmp k (entries g) = None then r = Inr False \<and> engine W t' g
     else if pu = Push_ok then r = Inr True \<and> (\<exists>g'. engine W t' g' \<and> entries g' = del_entry cmp k (entries g))
     else r = Inl Bad_alloc \<and> (\<exists>g' a. tree_rel t' g' \<and> entries g' = del_entry cmp k (entries g) \<and>
       a \<notin> nodes_of g' \<and> mem_ok ok pd t' (insert a (nodes_of g' \<union> W)) \<and> t_count t' = t_count t)))"
proof (rule erase_node_spec [OF engineD(1) [OF e]])
  note E = engineD [OF e]
  fix fs t'
  assume g: "g = plug fs Leaf" and rt: "route cmp k fs" and t': "tree_rel t' g" "same_but (nodes_of g) t t'"
  note sp = route_splits [OF rt, of Leaf, folded g, folded entries_def, OF E(2)]
  have none: "find_entry cmp k (entries g) = None"
    using find_split_absent [OF sp] by (simp add: entries_absent [OF g])
  have lv: "node_live t' x" if "x \<in> nodes_of g" for x
  proof -
    have "tree_at t' g" "live (t_mem t') = live (t_mem t)" using t' by (simp_all add: tree_rel_def same_but_def)
    then show ?thesis using tree_live [of t' g] E(8) that by fastforce
  qed
  have "mem_ok ok pd t' (nodes_of g \<union> W)" using mem_ok_same [OF E(5) t'(2) _ lv] by blast
  then have "engine W t' g" using E t' by (simp add: engine_ok_def same_but_def)
  moreover have "others W t t'" using t'(2) E(4) by (auto simp: others_def same_but_def)
  ultimately show "case (Inr False, t') of (r, t') \<Rightarrow> others W t t' \<and>
    (if find_entry cmp k (entries g) = None then r = Inr False \<and> engine W t' g
     else if pu = Push_ok then r = Inr True \<and> (\<exists>g'. engine W t' g' \<and> entries g' = del_entry cmp k (entries g))
     else r = Inl Bad_alloc \<and> (\<exists>g' a. tree_rel t' g' \<and> entries g' = del_entry cmp k (entries g) \<and>
       a \<notin> nodes_of g' \<and> mem_ok ok pd t' (insert a (nodes_of g' \<union> W)) \<and> t_count t' = t_count t))"
    using none by simp
next
  fix fs a c d l r t1
  assume g: "g = plug fs (Nd a c d l r)" and rt: "route cmp k fs" "compare cmp k (fst d) = 0"
    and rem: "removed a d (before fs @ items l @ items r @ after fs) t g t1"
  obtain g' where g': "tree_rel t1 g'" "entries g' = del_entry cmp k (entries g)"
    "mem_ok ok pd t1 (insert a (nodes_of g' \<union> W))" "a \<notin> nodes_of g' \<union> W" "others W t t1"
    "t_count t1 = t_count t" "Suc (length (items g')) = length (items g)"
    "find_entry cmp k (entries g) = Some (entry (a, d))" "nodes_of g' \<inter> W = {}"
    using removed_state [OF e rem g rt(1)] rt(2) by (metis compare_simps(2))
  show "returns (retire_count rc th pu a t1) (\<lambda>(r, t'). others W t t' \<and>
    (if find_entry cmp k (entries g) = None then r = Inr False \<and> engine W t' g
     else if pu = Push_ok then r = Inr True \<and> (\<exists>g'. engine W t' g' \<and> entries g' = del_entry cmp k (entries g))
     else r = Inl Bad_alloc \<and> (\<exists>g' a. tree_rel t' g' \<and> entries g' = del_entry cmp k (entries g) \<and>
       a \<notin> nodes_of g' \<and> mem_ok ok pd t' (insert a (nodes_of g' \<union> W)) \<and> t_count t' = t_count t)))"
  proof (cases "pu = Push_ok")
    case True
    obtain t2 where t2: "retire_node rc th Push_ok a t1 = Some (Inr (), t2)"
      "mem_ok ok pd t2 (nodes_of g' \<union> W)" "kept (nodes_of g' \<union> W) t1 t2"
      using retire_spec [OF g'(3,4), of th] by blast
    have "engine W (t2\<lparr>t_count := t_count t2 - 1\<rparr>) g'"
      by (rule engine_recount [OF g'(1,2) e t2(2,3) g'(6,7,9)])
    moreover have "others W t (t2\<lparr>t_count := t_count t2 - 1\<rparr>)"
      using others_trans [OF g'(5) kept_others [OF t2(3)]] by (simp add: others_def)
    ultimately show ?thesis using t2(1) g'(2,8) True by (auto simp: retire_count_def)
  next
    case False
    have "ok (t_rc t1)" using g'(3) by (simp add: mem_ok_def)
    then have "retire_node rc th pu a t1 = Some (Inl Bad_alloc, t1)" using False by (rule retire_throws)
    then show ?thesis using g' False by (auto simp: retire_count_def)
  qed
qed

end

text \<open>Both schemes, with the default comparator.\<close>

interpretation ete: tree_engine "epoch_rc th" "epoch_ready th" epoch_pending std_less for th
  by unfold_locales

interpretation hte: tree_engine "hazard_rc th" "hazard_ready th" hz_pending std_less for th
  by unfold_locales

end
