(* ===== verification/TreeAudit.thy ===== *)
theory TreeAudit
  imports TreeEngine
begin

section \<open>The audit hooks of the tree\<close>

text \<open>
  \<open>dbg_max_depth\<close>, \<open>dbg_rb_valid\<close>, \<open>dbg_dump_rb\<close> and \<open>dbg_validate\<close> of \<open>detail/rb_tree.hpp\<close>, which the
  tests call. They walk the tree with arrays of fixed size: writing past the end of an array
  is \<open>None\<close>. The messages they print on a failure are left out; \<open>dbg_dump_rb\<close> returns the rows it
  prints. The keys are compared with \<open><\<close>, not with the comparator.
\<close>

definition FRAMES :: nat where "FRAMES = 1024"
definition QUEUE :: nat where "QUEUE = 65536"
definition ORDER_STACK :: nat where "ORDER_STACK = 256"
definition ROUNDS :: nat where "ROUNDS = 100000"

subsection \<open>Walks with a stack of frames\<close>

definition push_frame :: "ptr \<Rightarrow> 'x \<Rightarrow> (ptr \<times> 'x) list \<Rightarrow> (ptr \<times> 'x) list option" where
  "push_frame n x st =
     (if n = 0 then Some st else if length st < FRAMES then Some ((n, x) # st) else None)"

partial_function (option) depth_loop ::
  "(ptr \<times> nat) list \<Rightarrow> nat \<Rightarrow> ('k, 'v, 'r) tree \<Rightarrow> nat option" where
  "depth_loop st best t =
     (case st of
        [] \<Rightarrow> Some best
      | (n, d) # st \<Rightarrow> do {
          let best = (if d > best then d else best);
          nd \<leftarrow> node_at t n;
          st \<leftarrow> push_frame (n_left nd) (d + 1) st;
          st \<leftarrow> push_frame (n_right nd) (d + 1) st;
          depth_loop st best t
        })"

definition dbg_max_depth :: "('k, 'v, 'r) tree \<Rightarrow> nat option" where
  "dbg_max_depth t = depth_loop (if t_root t \<noteq> 0 then [(t_root t, 1)] else []) 0 t"

definition red_at :: "ptr \<Rightarrow> ('k, 'v, 'r) tree \<Rightarrow> bool option" where
  "red_at n t = (if n = 0 then Some False else do { nd \<leftarrow> node_at t n; Some (n_color nd = RED) })"

partial_function (option) rb_loop ::
  "(ptr \<times> int) list \<Rightarrow> int \<Rightarrow> ('k, 'v, 'r) tree \<Rightarrow> bool option" where
  "rb_loop st target t =
     (case st of
        [] \<Rightarrow> Some True
      | (n, bh) # st \<Rightarrow> do {
          nd \<leftarrow> node_at t n;
          redred \<leftarrow> (if n_color nd = RED then do {
                       lred \<leftarrow> red_at (n_left nd) t;
                       if lred then Some True else red_at (n_right nd) t
                     }
                     else Some False);
          if redred then Some False
          else do {
            let nbh = bh + (if n_color nd = BLACK then 1 else 0);
            if n_left nd = 0 \<and> n_right nd = 0 then
              (if target < 0 then rb_loop st nbh t
               else if nbh \<noteq> target then Some False
               else rb_loop st target t)
            else do {
              st \<leftarrow> push_frame (n_left nd) nbh st;
              st \<leftarrow> push_frame (n_right nd) nbh st;
              rb_loop st target t
            }
          }
        })"

definition dbg_rb_valid :: "('k, 'v, 'r) tree \<Rightarrow> bool option" where
  "dbg_rb_valid t =
     (if t_root t = 0 then Some True
      else do {
        nd \<leftarrow> node_at t (t_root t);
        if n_color nd \<noteq> BLACK then Some False else rb_loop [(t_root t, 1)] (- 1) t
      })"

text \<open>A row of the dump: key, colour, the children's keys and colours, black height.\<close>

type_synonym 'k dump_row = "'k \<times> color \<times> ('k \<times> color) option \<times> ('k \<times> color) option \<times> int"

definition child_info :: "ptr \<Rightarrow> ('k, 'v, 'r) tree \<Rightarrow> ('k \<times> color) option option" where
  "child_info n t =
     (if n = 0 then Some None else do { nd \<leftarrow> node_at t n; Some (Some (n_key nd, n_color nd)) })"

partial_function (option) dump_loop ::
  "(ptr \<times> int) list \<Rightarrow> 'k dump_row list \<Rightarrow> ('k, 'v, 'r) tree \<Rightarrow> 'k dump_row list option" where
  "dump_loop st out t =
     (case st of
        [] \<Rightarrow> Some out
      | (n, bh) # st \<Rightarrow> do {
          nd \<leftarrow> node_at t n;
          let nbh = bh + (if n_color nd = BLACK then 1 else 0);
          li \<leftarrow> child_info (n_left nd) t;
          ri \<leftarrow> child_info (n_right nd) t;
          let out = out @ [(n_key nd, n_color nd, li, ri, nbh)];
          st \<leftarrow> push_frame (n_left nd) nbh st;
          st \<leftarrow> push_frame (n_right nd) nbh st;
          dump_loop st out t
        })"

definition dbg_dump_rb :: "('k, 'v, 'r) tree \<Rightarrow> 'k dump_row list option" where
  "dbg_dump_rb t = dump_loop (if t_root t \<noteq> 0 then [(t_root t, 0)] else []) [] t"

subsection \<open>\<open>dbg_validate\<close>\<close>

text \<open>
  A queue is the list of its unread entries and the write index \<open>qt\<close>, which only grows. The
  first phase looks for a locked node and drops children that do not fit; the second one,
  which counts and compares, does not check the index.
\<close>

partial_function (option) lock_scan ::
  "ptr list \<Rightarrow> nat \<Rightarrow> ('k, 'v, 'r) tree \<Rightarrow> bool option" where
  "lock_scan q qt t =
     (case q of
        [] \<Rightarrow> Some False
      | n # q \<Rightarrow> do {
          nd \<leftarrow> node_at t n;
          if n_locked nd then Some True
          else do {
            let (q, qt) = (if n_left nd \<noteq> 0 \<and> qt < QUEUE then (q @ [n_left nd], qt + 1) else (q, qt));
            let (q, qt) = (if n_right nd \<noteq> 0 \<and> qt < QUEUE then (q @ [n_right nd], qt + 1) else (q, qt));
            lock_scan q qt t
          }
        })"

text \<open>The rounds of the first phase; alone, no round changes what the next one sees.\<close>

fun wait_unlocked :: "nat \<Rightarrow> ('k, 'v, 'r) tree \<Rightarrow> unit option" where
  "wait_unlocked 0 t = Some ()"
| "wait_unlocked (Suc rounds) t =
     do {
       let cur = t_root t;
       any_locked \<leftarrow> lock_scan (if cur \<noteq> 0 then [cur] else []) (if cur \<noteq> 0 then 1 else 0) t;
       if \<not> any_locked then Some () else wait_unlocked rounds t
     }"

definition enqueue :: "ptr \<Rightarrow> ptr list \<times> nat \<Rightarrow> (ptr list \<times> nat) option" where
  "enqueue n = (\<lambda>(q, qt). if qt < QUEUE then Some (q @ [n], qt + 1) else None)"

text \<open>The structural pass: \<open>Some None\<close> when a child is out of order, else the number of nodes.\<close>

partial_function (option) structure_scan ::
  "ptr list \<times> nat \<Rightarrow> nat \<Rightarrow> ('k::linorder, 'v, 'r) tree \<Rightarrow> nat option option" where
  "structure_scan q visited t =
     (case q of
        ([], qt) \<Rightarrow> Some (Some visited)
      | (n # q, qt) \<Rightarrow> do {
          nd \<leftarrow> node_at t n;
          let visited = visited + 1;
          q \<leftarrow> (if n_left nd \<noteq> 0 then do {
                  lnd \<leftarrow> node_at t (n_left nd);
                  if \<not> n_key lnd < n_key nd then Some None
                  else do { q \<leftarrow> enqueue (n_left nd) (q, qt); Some (Some q) }
                }
                else Some (Some (q, qt)));
          case q of
            None \<Rightarrow> Some None
          | Some q \<Rightarrow> do {
              q \<leftarrow> (if n_right nd \<noteq> 0 then do {
                      rnd \<leftarrow> node_at t (n_right nd);
                      if \<not> n_key nd < n_key rnd then Some None
                      else do { q \<leftarrow> enqueue (n_right nd) q; Some (Some q) }
                    }
                    else Some (Some q));
              case q of None \<Rightarrow> Some None | Some q \<Rightarrow> structure_scan q visited t
            }
        })"

text \<open>The in-order pass: \<open>Some None\<close> when the stack of 256 nodes is full.\<close>

partial_function (option) order_lefts ::
  "ptr \<Rightarrow> ptr list \<Rightarrow> ('k, 'v, 'r) tree \<Rightarrow> ptr list option option" where
  "order_lefts n st t =
     (if n = 0 then Some (Some st)
      else if length st \<ge> ORDER_STACK then Some None
      else do { nd \<leftarrow> node_at t n; order_lefts (n_left nd) (n # st) t })"

partial_function (option) order_scan ::
  "ptr \<Rightarrow> ptr list \<Rightarrow> 'k option \<Rightarrow> ('k::linorder, 'v, 'r) tree \<Rightarrow> bool option" where
  "order_scan n st prev t =
     (if n = 0 \<and> st = [] then Some True
      else do {
        r \<leftarrow> order_lefts n st t;
        case r of
          None \<Rightarrow> Some False
        | Some [] \<Rightarrow> None
        | Some (n # st) \<Rightarrow> do {
            nd \<leftarrow> node_at t n;
            if (case prev of None \<Rightarrow> False | Some p \<Rightarrow> \<not> p < n_key nd) then Some False
            else order_scan (n_right nd) st (Some (n_key nd)) t
          }
      })"

definition dbg_validate :: "('k::linorder, 'v, 'r) tree \<Rightarrow> bool option" where
  "dbg_validate t =
     do {
       wait_unlocked ROUNDS t;
       let cur = t_root t;
       v \<leftarrow> structure_scan (if cur \<noteq> 0 then ([cur], 1) else ([], 0)) 0 t;
       case v of
         None \<Rightarrow> Some False
       | Some visited \<Rightarrow>
           if of_nat visited \<noteq> t_count t then Some False
           else order_scan (t_root t) [] None t
     }"

subsection \<open>The walks on a tree\<close>

definition frames :: "'d gtree \<Rightarrow> 'x \<Rightarrow> (ptr \<times> 'x) list" where
  "frames g x = (if g = Leaf then [] else [(rp g, x)])"

lemma frames_simps [simp]: "frames Leaf x = []" "frames (Nd a c d l r) x = [(a, x)]"
  by (simp_all add: frames_def)

lemma rp_zero: "tree_at t g \<Longrightarrow> rp g = 0 \<longleftrightarrow> g = Leaf"
  by (cases g) auto

lemma push_frames:
  assumes "tree_at t g" and "length st < FRAMES"
  shows "push_frame (rp g) x st = Some (frames g x @ st)"
  using assms by (cases g) (auto simp: push_frame_def)

text \<open>The two pushes of a node stay within the array when its tree does.\<close>

lemma push_children:
  assumes "tree_at t l" and "tree_at t r" and "length st + Suc (max (height l) (height r)) \<le> FRAMES"
  shows "push_frame (rp l) x st = Some (frames l x @ st)"
    and "push_frame (rp r) y (frames l x @ st) = Some (frames r y @ frames l x @ st)"
proof -
  show "push_frame (rp l) x st = Some (frames l x @ st)" using assms by (intro push_frames) auto
  show "push_frame (rp r) y (frames l x @ st) = Some (frames r y @ frames l x @ st)"
  proof (cases "r = Leaf")
    case False
    then have "0 < height r" by (cases r) auto
    then show ?thesis using assms by (intro push_frames) (auto simp: frames_def)
  qed (simp add: push_frame_def)
qed

definition deepest :: "nat \<Rightarrow> 'd gtree \<Rightarrow> nat \<Rightarrow> nat" where
  "deepest best g d = (if g = Leaf then best else max best (d + height g - 1))"

lemma depth_loop_tree:
  "tree_at t g \<Longrightarrow> length st + height g \<le> FRAMES \<Longrightarrow>
   depth_loop (frames g d @ st) best t = depth_loop st (deepest best g d) t"
proof (induction g arbitrary: st d best)
  case Leaf
  then show ?case by (simp add: deepest_def)
next
  case (Nd a c x l r)
  have t: "tree_at t l" "tree_at t r" using Nd.prems by simp_all
  have h: "length st + Suc (max (height l) (height r)) \<le> FRAMES" using Nd.prems by simp
  note push = push_children [OF t h]
  have fl: "length (frames l (d + 1)) \<le> 1" by (simp add: frames_def)
  have "length (frames l (d + 1) @ st) + height r \<le> FRAMES" using h fl by simp
  then have r: "depth_loop (frames r (d + 1) @ frames l (d + 1) @ st) b t =
      depth_loop (frames l (d + 1) @ st) (deepest b r (d + 1)) t" for b
    using Nd.IH(2) [OF t(2)] by blast
  have l: "depth_loop (frames l (d + 1) @ st) b t = depth_loop st (deepest b l (d + 1)) t" for b
    using Nd.IH(1) [OF t(1)] h by simp
  have "depth_loop (frames (Nd a c x l r) d @ st) best t =
      depth_loop (frames r (d + 1) @ frames l (d + 1) @ st) (max best d) t"
    using Nd.prems push by (subst depth_loop.simps) (simp add: Let_def max_def)
  also have "\<dots> = depth_loop st (deepest (deepest (max best d) r (d + 1)) l (d + 1)) t"
    unfolding r l ..
  also have "deepest (deepest (max best d) r (d + 1)) l (d + 1) = deepest best (Nd a c x l r) d"
    by (cases l; cases r) (auto simp: deepest_def max_def)
  finally show ?case .
qed

lemma max_depth_spec:
  assumes "tree_rel t g" and "height g \<le> FRAMES"
  shows "dbg_max_depth t = Some (height g)"
proof -
  have "dbg_max_depth t = depth_loop (frames g 1 @ []) 0 t"
    using assms(1) by (cases g) (auto simp: dbg_max_depth_def tree_rel_def)
  also have "\<dots> = depth_loop [] (deepest 0 g 1) t"
    using assms by (intro depth_loop_tree) (auto simp: tree_rel_def)
  also have "\<dots> = Some (height g)"
    by (subst depth_loop.simps) (cases g; simp add: deepest_def)
  finally show ?thesis .
qed

subsection \<open>The red-black check\<close>

lemma red_at_tree: "tree_at t g \<Longrightarrow> red_at (rp g) t = Some (gcolor g = RED)"
  by (cases g) (auto simp: red_at_def)

lemma rb_loop_tree:
  "tree_at t g \<Longrightarrow> rbt n g \<Longrightarrow> g \<noteq> Leaf \<Longrightarrow> length st + height g \<le> FRAMES \<Longrightarrow> 0 \<le> bh \<Longrightarrow>
   target < 0 \<or> target = bh + int n \<Longrightarrow>
   rb_loop ((rp g, bh) # st) target t = rb_loop st (bh + int n) t"
proof (induction g arbitrary: n bh st target)
  case Leaf
  then show ?case by simp
next
  case (Nd a c x l r)
  have t: "tree_at t l" "tree_at t r" using Nd.prems by simp_all
  have h: "length st + Suc (max (height l) (height r)) \<le> FRAMES" using Nd.prems by simp
  note push = push_children [OF t h]
  define nbh where "nbh = bh + (if c = BLACK then 1 else 0)"
  obtain m where m: "rbt m l" "rbt m r" "bh + int n = nbh + int m" "c = RED \<Longrightarrow> gcolor l = BLACK \<and> gcolor r = BLACK"
    using Nd.prems(2) by (cases c; cases n) (auto simp: nbh_def)
  have ne: "rp l = 0 \<longleftrightarrow> l = Leaf" "rp r = 0 \<longleftrightarrow> r = Leaf" using rp_zero t by blast+
  show ?case
  proof (cases "l = Leaf \<and> r = Leaf")
    case True
    then have "bh + int n = nbh" "\<not> (c = RED \<and> False)" using m by simp_all
    then show ?thesis
      using Nd.prems True by (subst rb_loop.simps) (auto simp: red_at_def nbh_def Let_def)
  next
    case False
    have IH: "g = l \<or> g = r \<Longrightarrow> length st' + height g \<le> FRAMES \<Longrightarrow> target' < 0 \<or> target' = nbh + int m \<Longrightarrow>
        rb_loop (frames g nbh @ st') target' t = rb_loop st' (if g = Leaf then target' else nbh + int m) t"
      for g st' target'
    proof (cases "g = Leaf")
      case g: False
      assume "g = l \<or> g = r" "length st' + height g \<le> FRAMES" "target' < 0 \<or> target' = nbh + int m"
      moreover have "0 \<le> nbh" using Nd.prems(5) by (simp add: nbh_def)
      ultimately show ?thesis
        using g Nd.IH(1) [OF t(1) m(1), of st' nbh target'] Nd.IH(2) [OF t(2) m(2), of st' nbh target']
        by (auto simp: frames_def)
    qed simp
    have fl: "length (frames l nbh @ st) + height r \<le> FRAMES" using h by (auto simp: frames_def)
    have "rb_loop ((rp (Nd a c x l r), bh) # st) target t = rb_loop (frames r nbh @ frames l nbh @ st) target t"
      using Nd.prems False ne push m(4)
      by (subst rb_loop.simps) (auto simp: red_at_tree t nbh_def Let_def)
    also have "\<dots> = rb_loop (frames l nbh @ st) (if r = Leaf then target else nbh + int m) t"
      using IH [OF disjI2 [OF refl] fl] Nd.prems(6) m(3) by simp
    also have "\<dots> = rb_loop st (if l = Leaf then (if r = Leaf then target else nbh + int m) else nbh + int m) t"
      using h Nd.prems(6) m(3) by (intro IH) (auto split: if_splits)
    also have "(if l = Leaf then (if r = Leaf then target else nbh + int m) else nbh + int m) = bh + int n"
      using False m(3) by simp
    finally show ?thesis .
  qed
qed

lemma rb_valid_spec:
  assumes "tree_rel t g" and "height g \<le> FRAMES"
  shows "dbg_rb_valid t = Some True"
proof (cases "g = Leaf")
  case True
  then show ?thesis using assms by (simp add: dbg_rb_valid_def tree_rel_def)
next
  case False
  obtain n where n: "rbt n g" "gcolor g = BLACK" using assms(1) by (auto simp: tree_rel_def red_black_def balanced_def)
  have "rb_loop [(rp g, 1)] (- 1) t = rb_loop [] (1 + int n) t"
    using assms n False by (intro rb_loop_tree) (auto simp: tree_rel_def)
  moreover have "rb_loop [] (1 + int n) t = Some True" by (subst rb_loop.simps) simp
  moreover obtain nd where "node_at t (rp g) = Some nd" "n_color nd = BLACK"
    using assms(1) n(2) False by (cases g) (auto simp: tree_rel_def)
  moreover have "rp g \<noteq> 0" using assms(1) False rp_zero by (auto simp: tree_rel_def)
  ultimately show ?thesis using assms(1) by (simp add: dbg_rb_valid_def tree_rel_def)
qed

text \<open>
  The black heights are compared only where a node has no child at all: a black root with a
  single black child passes the check.
\<close>

definition lopsided :: "(nat, unit, unit) tree" where
  "lopsided = put_node 64 (mk_node 128 0 False BLACK (2, (), 0))
     (put_node 128 (mk_node 0 0 False BLACK (1, (), 0))
       \<lparr>t_mem = \<lparr>heap = Map.empty, live = Map.empty\<rparr>, t_pool = new_pool, t_rc = (), t_root = 64,
        t_count = 2, t_na = 0\<rparr>)"

lemma lopsided_tree:
  "tree_at lopsided g \<Longrightarrow> rp g = t_root lopsided \<Longrightarrow>
   g = Nd 64 BLACK (2, (), 0) (Nd 128 BLACK (1, (), 0) Leaf Leaf) Leaf"
proof -
  assume g: "tree_at lopsided g" "rp g = t_root lopsided"
  then obtain c d l r where 1: "g = Nd 64 c d l r" by (cases g) (auto simp: lopsided_def put_node_def)
  then have 2: "rp l = 128" "rp r = 0" "c = BLACK" "d = (2, (), 0)" "tree_at lopsided l" "tree_at lopsided r"
    using g by (auto simp: lopsided_def put_node_def)
  then obtain c' d' l' r' where 3: "l = Nd 128 c' d' l' r'" by (cases l) auto
  then have 4: "rp l' = 0" "rp r' = 0" "c' = BLACK" "d' = (1, (), 0)" "tree_at lopsided l'" "tree_at lopsided r'"
    using 2 by (auto simp: lopsided_def put_node_def)
  have "l' = Leaf" "r' = Leaf" "r = Leaf" using 2 4 rp_zero by blast+
  then show ?thesis using 1 2 3 4 by simp
qed

lemma rb_valid_lopsided: "dbg_rb_valid lopsided = Some True \<and> (\<nexists>g. tree_rel lopsided g)"
proof
  show "dbg_rb_valid lopsided = Some True"
    by (simp add: dbg_rb_valid_def rb_loop.simps red_at_def push_frame_def FRAMES_def lopsided_def put_node_def Let_def)
  show "\<nexists>g. tree_rel lopsided g"
  proof
    assume "\<exists>g. tree_rel lopsided g"
    then obtain g n where g: "tree_at lopsided g" "rp g = t_root lopsided" "rbt n g"
      by (auto simp: tree_rel_def red_black_def balanced_def)
    then show False using lopsided_tree [OF g(1,2)] by (auto simp: rbt_black)
  qed
qed

subsection \<open>The dump\<close>

fun ginfo :: "('k, 'v) data gtree \<Rightarrow> ('k \<times> color) option" where
  "ginfo Leaf = None"
| "ginfo (Nd a c d l r) = Some (fst d, c)"

text \<open>The rows of a tree: each node, then its right and its left subtree.\<close>

fun rows :: "('k, 'v) data gtree \<Rightarrow> int \<Rightarrow> 'k dump_row list" where
  "rows Leaf bh = []"
| "rows (Nd a c d l r) bh = (let nbh = bh + (if c = BLACK then 1 else 0) in
     (fst d, c, ginfo l, ginfo r, nbh) # rows r nbh @ rows l nbh)"

lemma child_info_tree: "tree_at t g \<Longrightarrow> child_info (rp g) t = Some (ginfo g)"
  by (cases g) (auto simp: child_info_def)

lemma dump_loop_tree:
  "tree_at t g \<Longrightarrow> length st + height g \<le> FRAMES \<Longrightarrow>
   dump_loop (frames g bh @ st) out t = dump_loop st (out @ rows g bh) t"
proof (induction g arbitrary: st bh out)
  case Leaf
  then show ?case by simp
next
  case (Nd a c x l r)
  have t: "tree_at t l" "tree_at t r" using Nd.prems by simp_all
  have h: "length st + Suc (max (height l) (height r)) \<le> FRAMES" using Nd.prems by simp
  note push = push_children [OF t h]
  define nbh where "nbh = bh + (if c = BLACK then 1 else 0)"
  have "length (frames l nbh @ st) + height r \<le> FRAMES" using h by (auto simp: frames_def)
  then have r: "dump_loop (frames r nbh @ frames l nbh @ st) out' t = dump_loop (frames l nbh @ st) (out' @ rows r nbh) t"
    for out' using Nd.IH(2) [OF t(2)] by blast
  have l: "dump_loop (frames l nbh @ st) out' t = dump_loop st (out' @ rows l nbh) t" for out'
    using Nd.IH(1) [OF t(1)] h by simp
  have "dump_loop (frames (Nd a c x l r) bh @ st) out t =
      dump_loop (frames r nbh @ frames l nbh @ st) (out @ [(fst x, c, ginfo l, ginfo r, nbh)]) t"
    using Nd.prems push by (subst dump_loop.simps) (simp add: Let_def nbh_def child_info_tree)
  then show ?case unfolding r l by (simp add: nbh_def [symmetric] Let_def)
qed

lemma dump_spec:
  assumes "tree_rel t g" and "height g \<le> FRAMES"
  shows "dbg_dump_rb t = Some (rows g 0)"
proof -
  have "dbg_dump_rb t = dump_loop (frames g 0 @ []) [] t"
    using assms(1) by (cases g) (auto simp: dbg_dump_rb_def tree_rel_def)
  also have "\<dots> = dump_loop [] ([] @ rows g 0) t"
    using assms by (intro dump_loop_tree) (auto simp: tree_rel_def)
  also have "\<dots> = Some (rows g 0)" by (subst dump_loop.simps) simp
  finally show ?thesis .
qed

lemma rows_keys: "mset (map fst (rows g bh)) = mset (map (\<lambda>(a, d). fst d) (items g))"
  by (induction g arbitrary: bh) (simp_all add: Let_def case_prod_beta)

subsection \<open>The structural passes\<close>

definition forest :: "('k, 'v, 'r) tree \<Rightarrow> ('k, 'v) data gtree list \<Rightarrow> bool" where
  "forest t gs \<longleftrightarrow> (\<forall>g \<in> set gs. g \<noteq> Leaf \<and> tree_at t g)"

definition weight :: "'d gtree list \<Rightarrow> nat" where
  "weight gs = sum_list (map (\<lambda>g. length (items g)) gs)"

definition sprouts :: "'d gtree \<Rightarrow> 'd gtree list" where
  "sprouts g = (if g = Leaf then [] else [g])"

lemma forest_simps [simp]:
  "forest t []" "forest t (g # gs) \<longleftrightarrow> g \<noteq> Leaf \<and> tree_at t g \<and> forest t gs"
  "forest t (gs @ hs) \<longleftrightarrow> forest t gs \<and> forest t hs" "tree_at t g \<Longrightarrow> forest t (sprouts g)"
  by (auto simp: forest_def sprouts_def)

lemma weight_simps [simp]:
  "weight [] = 0" "weight (g # gs) = length (items g) + weight gs" "weight (gs @ hs) = weight gs + weight hs"
  "weight (sprouts g) = length (items g)"
  by (simp_all add: weight_def sprouts_def)

lemma weight_length: "forest t gs \<Longrightarrow> length gs \<le> weight gs"
proof (induction gs)
  case (Cons g gs)
  then show ?case by (cases g) auto
qed simp

lemma lock_scan_forest:
  "forest t gs \<Longrightarrow> lock_scan (map rp gs) qt t = Some False"
proof (induction "weight gs" arbitrary: gs qt rule: less_induct)
  case less
  show ?case
  proof (cases gs)
    case Nil
    then show ?thesis by (subst lock_scan.simps) simp
  next
    case (Cons g hs)
    obtain a c d l r where g: "g = Nd a c d l r" using less.prems Cons by (cases g) auto
    have IH: "forest t ks \<Longrightarrow> weight ks < weight gs \<Longrightarrow> lock_scan (map rp ks) qt' t = Some False" for ks qt'
      using less.hyps by blast
    have kids: "lock_scan (map rp (hs @ (if b then [l] else []) @ (if b' then [r] else []))) qt' t = Some False"
      if "b \<Longrightarrow> l \<noteq> Leaf" "b' \<Longrightarrow> r \<noteq> Leaf" for b b' qt'
      using less.prems that by (intro IH) (auto simp: Cons g)
    have ne: "rp l = 0 \<longleftrightarrow> l = Leaf" "rp r = 0 \<longleftrightarrow> r = Leaf" using rp_zero less.prems by (auto simp: Cons g)
    show ?thesis
      using less.prems ne kids [of True True] kids [of True False] kids [of False True] kids [of False False]
      by (subst lock_scan.simps) (auto simp: Cons g Let_def)
  qed
qed

lemma wait_unlocked_spec: "tree_rel t g \<Longrightarrow> wait_unlocked (Suc n) t = Some ()"
  using lock_scan_forest [of t "sprouts g"]
  by (cases g) (auto simp: tree_rel_def sprouts_def dest: spec [where x = 0])

text \<open>
  The structural pass on a queue of search trees: it counts all nodes, unless the array is
  too small, in which case it writes past its end.
\<close>

lemma root_key: "tree_at t g \<Longrightarrow> g \<noteq> Leaf \<Longrightarrow>
  \<exists>nd d. node_at t (rp g) = Some nd \<and> n_key nd = fst d \<and> (rp g, d) \<in> set (items g)"
  by (cases g) (auto simp del: split_paired_Ex)

lemma keys_split:
  "sorted_entries std_less (entries (Nd a c d l r)) \<Longrightarrow>
     sorted_entries std_less (entries l) \<and> sorted_entries std_less (entries r) \<and>
     (\<forall>(b, e) \<in> set (items l). fst e < fst d) \<and> (\<forall>(b, e) \<in> set (items r). fst d < fst e)"
  by (auto simp: entries_def sorted_entries_def sorted_wrt_append std_less_def case_prod_beta sorted_wrt_map)

lemma structure_scan_forest:
  "forest t gs \<Longrightarrow> \<forall>g \<in> set gs. sorted_entries std_less (entries g) \<Longrightarrow> qt \<le> QUEUE \<Longrightarrow>
   structure_scan (map rp gs, qt) v t =
     (if qt + weight gs \<le> QUEUE + length gs then Some (Some (v + weight gs)) else None)"
proof (induction "weight gs" arbitrary: gs qt v rule: less_induct)
  case less
  show ?case
  proof (cases gs)
    case Nil
    then show ?thesis using less.prems by (subst structure_scan.simps) simp
  next
    case (Cons g hs)
    obtain a c d l r where g: "g = Nd a c d l r" using less.prems Cons by (cases g) auto
    have t: "tree_at t l" "tree_at t r" "forest t hs" using less.prems by (simp_all add: Cons g)
    have ks: "sorted_entries std_less (entries l)" "sorted_entries std_less (entries r)"
      "\<forall>(b, e) \<in> set (items l). fst e < fst d" "\<forall>(b, e) \<in> set (items r). fst d < fst e"
      using keys_split [of a c d l r] less.prems(2) by (simp_all add: Cons g)
    have ne: "rp l = 0 \<longleftrightarrow> l = Leaf" "rp r = 0 \<longleftrightarrow> r = Leaf" using rp_zero t by blast+
    have lk: "l \<noteq> Leaf \<Longrightarrow> \<exists>nd. node_at t (rp l) = Some nd \<and> n_key nd < fst d"
      using root_key [OF t(1)] ks(3) by fastforce
    have rk: "r \<noteq> Leaf \<Longrightarrow> \<exists>nd. node_at t (rp r) = Some nd \<and> fst d < n_key nd"
      using root_key [OF t(2)] ks(4) by fastforce
    have IH: "structure_scan (map rp hs @ map rp (sprouts l) @ map rp (sprouts r), qt') (v + 1) t =
        (if qt' + (weight gs - 1) \<le> QUEUE + length (hs @ sprouts l @ sprouts r) then Some (Some (v + weight gs)) else None)"
      if "qt' \<le> QUEUE" for qt'
    proof -
      have "weight (hs @ sprouts l @ sprouts r) = weight gs - 1" by (simp add: Cons g)
      moreover have "weight (hs @ sprouts l @ sprouts r) < weight gs" by (simp add: Cons g)
      moreover have "\<forall>g \<in> set (hs @ sprouts l @ sprouts r). sorted_entries std_less (entries g)"
        using less.prems(2) ks by (auto simp: Cons sprouts_def split: if_splits)
      ultimately show ?thesis using less.hyps [of "hs @ sprouts l @ sprouts r" qt' "v + 1"] t that by (simp add: Cons g)
    qed
    have big: "g' \<noteq> Leaf \<Longrightarrow> \<exists>k. length (items g') = Suc k" for g' :: "('a, 'b) data gtree" by (cases g') auto
    have wl: "length hs \<le> weight hs" using weight_length t(3) .
    have step: "structure_scan (map rp gs, qt) v t =
      (if qt + length (sprouts l @ sprouts r) \<le> QUEUE
       then structure_scan (map rp hs @ map rp (sprouts l) @ map rp (sprouts r), qt + length (sprouts l @ sprouts r)) (v + 1) t
       else None)"
      using less.prems(1,3) lk rk
      by (subst structure_scan.simps) (auto simp: Cons g ne sprouts_def enqueue_def Let_def)
    show ?thesis
      unfolding step using IH [of "qt + length (sprouts l @ sprouts r)"] big [of l] big [of r] wl
      by (auto simp: Cons g sprouts_def)
  qed
qed

subsection \<open>The in-order pass\<close>

definition last_key :: "'k option \<Rightarrow> 'k list \<Rightarrow> 'k option" where
  "last_key prev ks = (if ks = [] then prev else Some (last ks))"

abbreviation keys :: "('k, 'v) data gtree \<Rightarrow> 'k list" where
  "keys g \<equiv> map (\<lambda>(a, d). fst d) (items g)"

text \<open>One step at a node: its left subtree is walked with the node on the stack.\<close>

lemma order_scan_left:
  assumes "tree_at t (Nd a c d l r)" and "length st < ORDER_STACK"
  shows "order_scan a st prev t = order_scan (rp l) (a # st) prev t"
proof -
  have a: "a \<noteq> 0" using assms(1) by auto
  have "order_lefts a st t = order_lefts (rp l) (a # st) t"
    using assms a by (subst order_lefts.simps) simp
  then show ?thesis
    using a order_scan.simps [of a st prev t] order_scan.simps [of "rp l" "a # st" prev t] by simp
qed

lemma order_scan_tree:
  "tree_at t g \<Longrightarrow> length st + height g \<le> ORDER_STACK \<Longrightarrow> sorted_wrt (<) (keys g) \<Longrightarrow>
   (\<And>p k. prev = Some p \<Longrightarrow> k \<in> set (keys g) \<Longrightarrow> p < k) \<Longrightarrow>
   order_scan (rp g) st prev t = order_scan 0 st (last_key prev (keys g)) t"
proof (induction g arbitrary: st prev)
  case Leaf
  then show ?case by (simp add: last_key_def)
next
  case (Nd a c d l r)
  have srt: "sorted_wrt (<) (keys l)" "sorted_wrt (<) (keys r)" "\<forall>k \<in> set (keys l). k < fst d"
    "\<forall>k \<in> set (keys r). fst d < k"
    using Nd.prems(3) by (auto simp: sorted_wrt_append)
  have prev: "last_key prev (keys l) = Some p \<Longrightarrow> p < fst d" for p
    using srt(3) Nd.prems(4) by (auto simp: last_key_def last_map split: if_splits)
  have "order_scan (rp (Nd a c d l r)) st prev t = order_scan (rp l) (a # st) prev t"
    using order_scan_left [OF Nd.prems(1)] Nd.prems(2) by simp
  also have "\<dots> = order_scan 0 (a # st) (last_key prev (keys l)) t"
    using Nd.prems srt by (intro Nd.IH(1)) auto
  also have "\<dots> = order_scan (rp r) st (Some (fst d)) t"
    using Nd.prems(1) prev by (subst order_scan.simps) (auto simp: order_lefts.simps split: option.splits)
  also have "\<dots> = order_scan 0 st (last_key (Some (fst d)) (keys r)) t"
    using Nd.prems srt by (intro Nd.IH(2)) auto
  also have "last_key (Some (fst d)) (keys r) = last_key prev (keys (Nd a c d l r))"
    by (simp add: last_key_def)
  finally show ?case .
qed

lemma order_scan_spec:
  assumes "tree_rel t g" and "height g \<le> ORDER_STACK" and "sorted_entries std_less (entries g)"
  shows "order_scan (t_root t) [] None t = Some True"
proof -
  have "sorted_wrt (<) (keys g)"
    using assms(3) by (simp add: sorted_entries_def entries_def std_less_def sorted_wrt_map case_prod_beta)
  then have "order_scan (rp g) [] None t = order_scan 0 [] (last_key None (keys g)) t"
    using assms by (intro order_scan_tree) (auto simp: tree_rel_def)
  also have "\<dots> = Some True" by (subst order_scan.simps) simp
  finally show ?thesis using assms(1) by (simp add: tree_rel_def)
qed

text \<open>\<open>dbg_validate\<close> accepts every engine of at most 65536 keys and overruns its queue beyond.\<close>

lemma validate_spec:
  assumes e: "engine_ok ok pd std_less W t g"
  shows "dbg_validate t = (if length (items g) \<le> QUEUE then Some True else None)"
proof -
  have rel: "tree_rel t g" and srt: "sorted_entries std_less (entries g)" and cnt: "t_count t = of_nat (length (items g))"
    using e by (simp_all add: engine_ok_def)
  have d: "tree_at t g" "distinct (ptrs g)" "red_black g" "t_root t = rp g"
    using rel by (simp_all add: tree_rel_def tdist_iff)
  have "0 \<notin> nodes_of g" using tree_at_ne0 [OF d(1)] by blast
  then have h: "height g \<le> ORDER_STACK" using red_black_height [OF d(3,2)] by (simp add: ORDER_STACK_def)
  have "structure_scan (map rp (sprouts g), length (sprouts g)) 0 t =
      (if length (sprouts g) + weight (sprouts g) \<le> QUEUE + length (sprouts g) then Some (Some (0 + weight (sprouts g))) else None)"
    using d(1) srt by (intro structure_scan_forest) (auto simp: sprouts_def QUEUE_def split: if_splits)
  moreover have "(map rp (sprouts g), length (sprouts g)) = (if t_root t \<noteq> 0 then ([t_root t], 1) else ([], 0))"
    using rp_zero [OF d(1)] d(4) by (auto simp: sprouts_def)
  ultimately have "structure_scan (if t_root t \<noteq> 0 then ([t_root t], 1) else ([], 0)) 0 t =
      (if length (items g) \<le> QUEUE then Some (Some (length (items g))) else None)" by simp
  moreover have "wait_unlocked ROUNDS t = Some ()"
    using wait_unlocked_spec [OF rel, of "ROUNDS - 1"] by (simp add: ROUNDS_def)
  ultimately show ?thesis using order_scan_spec [OF rel h srt] cnt by (simp add: dbg_validate_def Let_def)
qed

end
