(* ===== verification/TreeRead.thy ===== *)
theory TreeRead
  imports TreeEngine
begin

section \<open>Reading the tree, clearing and destroying it\<close>

text \<open>
  The operations of \<open>rb_tree\<close> that take no lock: \<open>search\<close> and what is built on it, the bounds,
  the iteration steps, the bulk operations and the audit hooks. A reader that meets a locked
  node starts again from the root; alone, it would do so for ever (\<open>None\<close>). The prefetch
  hints have no effect on the result and are not modelled.
\<close>

definition HP_ROOT :: nat where "HP_ROOT = 0"
definition HP_CUR :: nat where "HP_CUR = 1"

subsection \<open>Guards and protection\<close>

definition guard_in :: "('act, 'r) reclaimer_ops \<Rightarrow> ('k, 'v, 'r) tree \<Rightarrow> ('k, 'v, 'r) tree" where
  "guard_in rc t = t\<lparr>t_rc := rc_enter rc (t_rc t)\<rparr>"

definition guard_out :: "('act, 'r) reclaimer_ops \<Rightarrow> ('k, 'v, 'r) tree \<Rightarrow> ('k, 'v, 'r) tree" where
  "guard_out rc t = t\<lparr>t_rc := rc_exit rc (t_rc t)\<rparr>"

text \<open>\<open>if (reclaimer::NEEDS_REVALIDATION) reclaimer::protect(i, p)\<close>\<close>

definition publish ::
  "('act, 'r) reclaimer_ops \<Rightarrow> nat \<Rightarrow> ptr \<Rightarrow> ('k, 'v, 'r) tree \<Rightarrow> ('k, 'v, 'r) tree option" where
  "publish rc i p t =
     (if rc_revalidate rc then do { s \<leftarrow> rc_protect rc i p (t_rc t); Some (t\<lparr>t_rc := s\<rparr>) } else Some t)"

subsection \<open>Search\<close>

text \<open>
  The inner loop. The result is \<open>None\<close> when a locked node asks for a retry, otherwise the
  return value and \<open>out\<close>: (1, the node) or (0, the last node visited).
\<close>

partial_function (option) search_walk ::
  "('act, 'r) reclaimer_ops \<Rightarrow> ('k \<Rightarrow> 'k \<Rightarrow> bool) \<Rightarrow> 'k \<Rightarrow> ptr \<Rightarrow> ptr \<Rightarrow> ('k, 'v, 'r) tree \<Rightarrow>
   ((int \<times> ptr) option \<times> ('k, 'v, 'r) tree) option" where
  "search_walk rc cmp k cur parent t =
     (if cur = 0 then Some (Some (0, parent), t)
      else do {
        nd \<leftarrow> node_at t cur;
        if n_locked nd then Some (None, t)
        else do {
          let c = compare cmp k (n_key nd);
          if c = 0 then Some (Some (1, cur), t)
          else do {
            let child = (if c < 0 then n_left nd else n_right nd);
            nd2 \<leftarrow> node_at t cur;
            if n_locked nd2 then Some (None, t)
            else do {
              t \<leftarrow> publish rc HP_CUR child t;
              search_walk rc cmp k child cur t
            }
          }
        }
      })"

partial_function (option) search ::
  "('act, 'r) reclaimer_ops \<Rightarrow> ('k \<Rightarrow> 'k \<Rightarrow> bool) \<Rightarrow> 'k \<Rightarrow> ('k, 'v, 'r) tree \<Rightarrow>
   (int \<times> ptr \<times> ('k, 'v, 'r) tree) option" where
  "search rc cmp k t =
     do {
       let cur = t_root t;
       t \<leftarrow> publish rc HP_ROOT cur t;
       if rc_revalidate rc \<and> t_root t \<noteq> cur then search rc cmp k t
       else if cur = 0 then Some (0, 0, t)
       else do {
         (res, t) \<leftarrow> search_walk rc cmp k cur 0 t;
         case res of None \<Rightarrow> search rc cmp k t | Some (r, out) \<Rightarrow> Some (r, out, t)
       }
     }"

text \<open>\<open>find_node\<close>: the node, when the key is present.\<close>

definition find_node ::
  "('act, 'r) reclaimer_ops \<Rightarrow> ('k \<Rightarrow> 'k \<Rightarrow> bool) \<Rightarrow> 'k \<Rightarrow> ('k, 'v, 'r) tree \<Rightarrow>
   (ptr option \<times> ('k, 'v, 'r) tree) option" where
  "find_node rc cmp k t =
     do {
       let t = guard_in rc t;
       (r, found, t) \<leftarrow> search rc cmp k t;
       let t = guard_out rc t;
       Some (if r = 1 then Some found else None, t)
     }"

text \<open>\<open>find_value_ptr\<close>: the payload is reached through its node; \<open>0\<close> is the null pointer.\<close>

definition find_value_ptr ::
  "('act, 'r) reclaimer_ops \<Rightarrow> ('k \<Rightarrow> 'k \<Rightarrow> bool) \<Rightarrow> 'k \<Rightarrow> ('k, 'v, 'r) tree \<Rightarrow>
   (ptr \<times> ('k, 'v, 'r) tree) option" where
  "find_value_ptr rc cmp k t =
     do {
       let t = guard_in rc t;
       (r, found, t) \<leftarrow> search rc cmp k t;
       let t = guard_out rc t;
       Some (if r = 1 then found else 0, t)
     }"

subsection \<open>Bounds and iteration\<close>

text \<open>A locked node ends the walk with the candidate found so far.\<close>

partial_function (option) bound_walk ::
  "('act, 'r) reclaimer_ops \<Rightarrow> ('k \<Rightarrow> 'k \<Rightarrow> bool) \<Rightarrow> bool \<Rightarrow> 'k \<Rightarrow> ptr \<Rightarrow> ptr \<Rightarrow> ('k, 'v, 'r) tree \<Rightarrow>
   (ptr \<times> ('k, 'v, 'r) tree) option" where
  "bound_walk rc cmp strict k cur candidate t =
     (if cur = 0 then Some (candidate, t)
      else do {
        nd \<leftarrow> node_at t cur;
        if n_locked nd then Some (candidate, t)
        else do {
          let c = compare cmp k (n_key nd);
          let (candidate, child) =
            (if strict then (if c < 0 then (cur, n_left nd) else (candidate, n_right nd))
             else (if c \<le> 0 then (cur, n_left nd) else (candidate, n_right nd)));
          nd2 \<leftarrow> node_at t cur;
          if n_locked nd2 then Some (candidate, t)
          else do {
            t \<leftarrow> publish rc HP_CUR child t;
            bound_walk rc cmp strict k child candidate t
          }
        }
      })"

partial_function (option) bound_loop ::
  "('act, 'r) reclaimer_ops \<Rightarrow> ('k \<Rightarrow> 'k \<Rightarrow> bool) \<Rightarrow> bool \<Rightarrow> 'k \<Rightarrow> ('k, 'v, 'r) tree \<Rightarrow>
   ('k option \<times> ('k, 'v, 'r) tree) option" where
  "bound_loop rc cmp strict k t =
     do {
       let cur = t_root t;
       t \<leftarrow> publish rc HP_ROOT cur t;
       if rc_revalidate rc \<and> t_root t \<noteq> cur then bound_loop rc cmp strict k t
       else do {
         (candidate, t) \<leftarrow> bound_walk rc cmp strict k cur 0 t;
         if candidate \<noteq> 0 then do { nd \<leftarrow> node_at t candidate; Some (Some (n_key nd), t) }
         else Some (None, t)
       }
     }"

definition bound_node ::
  "('act, 'r) reclaimer_ops \<Rightarrow> ('k \<Rightarrow> 'k \<Rightarrow> bool) \<Rightarrow> 'k \<Rightarrow> bool \<Rightarrow> ('k, 'v, 'r) tree \<Rightarrow>
   ('k option \<times> ('k, 'v, 'r) tree) option" where
  "bound_node rc cmp k strict t =
     do {
       (r, t) \<leftarrow> bound_loop rc cmp strict k (guard_in rc t);
       Some (r, guard_out rc t)
     }"

text \<open>The walk to the leftmost node: \<open>None\<close> asks for a retry.\<close>

partial_function (option) first_walk ::
  "('act, 'r) reclaimer_ops \<Rightarrow> ptr \<Rightarrow> ('k, 'v, 'r) tree \<Rightarrow> ('k option \<times> ('k, 'v, 'r) tree) option" where
  "first_walk rc cur t =
     do {
       nd \<leftarrow> node_at t cur;
       if n_locked nd then Some (None, t)
       else do {
         let child = n_left nd;
         nd2 \<leftarrow> node_at t cur;
         if n_locked nd2 then Some (None, t)
         else if child = 0 then Some (Some (n_key nd), t)
         else do { t \<leftarrow> publish rc HP_CUR child t; first_walk rc child t }
       }
     }"

partial_function (option) first_loop ::
  "('act, 'r) reclaimer_ops \<Rightarrow> ('k, 'v, 'r) tree \<Rightarrow> ('k option \<times> ('k, 'v, 'r) tree) option" where
  "first_loop rc t =
     do {
       let cur = t_root t;
       t \<leftarrow> publish rc HP_ROOT cur t;
       if rc_revalidate rc \<and> t_root t \<noteq> cur then first_loop rc t
       else if cur = 0 then Some (None, t)
       else do {
         (r, t) \<leftarrow> first_walk rc cur t;
         case r of None \<Rightarrow> first_loop rc t | Some k \<Rightarrow> Some (Some k, t)
       }
     }"

definition first_node ::
  "('act, 'r) reclaimer_ops \<Rightarrow> ('k, 'v, 'r) tree \<Rightarrow> ('k option \<times> ('k, 'v, 'r) tree) option" where
  "first_node rc t = do { (r, t) \<leftarrow> first_loop rc (guard_in rc t); Some (r, guard_out rc t) }"

definition next_node ::
  "('act, 'r) reclaimer_ops \<Rightarrow> ('k \<Rightarrow> 'k \<Rightarrow> bool) \<Rightarrow> 'k \<Rightarrow> ('k, 'v, 'r) tree \<Rightarrow>
   ('k option \<times> ('k, 'v, 'r) tree) option" where
  "next_node rc cmp k t = bound_node rc cmp k True t"

definition tree_size :: "('k, 'v, 'r) tree \<Rightarrow> u64" where
  "tree_size t = t_count t"

definition tree_empty :: "('k, 'v, 'r) tree \<Rightarrow> bool" where
  "tree_empty t \<longleftrightarrow> tree_size t = 0"

subsection \<open>Clearing and destroying\<close>

text \<open>\<open>free_subtree\<close>, with its explicit stack (whose growth is taken to succeed).\<close>

partial_function (option) push_lefts ::
  "ptr \<Rightarrow> ptr list \<Rightarrow> ('k, 'v, 'r) tree \<Rightarrow> ptr list option" where
  "push_lefts cur stack t =
     (if cur = 0 then Some stack
      else do { nd \<leftarrow> node_at t cur; push_lefts (n_left nd) (cur # stack) t })"

partial_function (option) free_subtree ::
  "thread \<Rightarrow> ptr \<Rightarrow> ptr list \<Rightarrow> ('k, 'v, 'r) tree \<Rightarrow> ('k, 'v, 'r) tree option" where
  "free_subtree th cur stack t =
     (if cur = 0 \<and> stack = [] then Some t
      else do {
        stack \<leftarrow> push_lefts cur stack t;
        cur \<leftarrow> (case stack of [] \<Rightarrow> None | x # _ \<Rightarrow> Some x);
        let stack = tl stack;
        nd \<leftarrow> node_at t cur;
        let right = n_right nd;
        t \<leftarrow> free_node th cur t;
        free_subtree th right stack t
      })"

definition clear_impl :: "thread \<Rightarrow> ('k, 'v, 'r) tree \<Rightarrow> ('k, 'v, 'r) tree option" where
  "clear_impl th t =
     do {
       let cur = t_root t;
       let t = t\<lparr>t_root := 0\<rparr>;
       t \<leftarrow> free_subtree th cur [] t;
       Some (t\<lparr>t_count := 0\<rparr>)
     }"

definition pool_drain :: "('k, 'v, 'r) tree \<Rightarrow> ('k, 'v, 'r) tree option" where
  "pool_drain t = do { (m, p) \<leftarrow> drain pool_link_left (t_mem t) (t_pool t); Some (t\<lparr>t_mem := m, t_pool := p\<rparr>) }"

text \<open>The destructor frees the linked nodes, then drains the reclaimer and the pool.\<close>

definition destroy_tree ::
  "(unit, 'r) reclaimer_ops \<Rightarrow> thread \<Rightarrow> ('k, 'v, 'r) tree \<Rightarrow> ('k, 'v, 'r) tree option" where
  "destroy_tree rc th t =
     do {
       t \<leftarrow> free_subtree th (t_root t) [] t;
       (fs, s) \<leftarrow> rc_drain_all rc (t_rc t);
       t \<leftarrow> run_actions th fs (t\<lparr>t_rc := s\<rparr>);
       pool_drain t
     }"

lemma find_mid: "P y \<Longrightarrow> List.find P (xs @ y # ys) = Some (case List.find P xs of None \<Rightarrow> y | Some x \<Rightarrow> x)"
  by (induction xs) auto

subsection \<open>What reading leaves alone\<close>

text \<open>A reader changes at most its own hazard pointers.\<close>

context tree_engine
begin

definition reads :: "('k, 'v, 'r) tree \<Rightarrow> ('k, 'v, 'r) tree \<Rightarrow> bool" where
  "reads t t' \<longleftrightarrow> (\<exists>s. t' = t\<lparr>t_rc := s\<rparr> \<and> ok s \<and> pd s = pd (t_rc t))"

lemma reads_refl: "ok (t_rc t) \<Longrightarrow> reads t t"
  unfolding reads_def by (rule exI [of _ "t_rc t"]) simp

lemma reads_trans: "reads t t' \<Longrightarrow> reads t' t'' \<Longrightarrow> reads t t''"
  by (auto simp: reads_def)

lemma reads_simps:
  assumes "reads t t'"
  shows "t_root t' = t_root t" "t_mem t' = t_mem t" "t_count t' = t_count t" "ok (t_rc t')"
  using assms by (auto simp: reads_def)

lemma tree_at_rc [simp]: "tree_at (t\<lparr>t_rc := s\<rparr>) g = tree_at t g"
  by (induction g) auto

lemma reads_tree: "reads t t' \<Longrightarrow> tree_at t' g = tree_at t g"
  by (auto simp: reads_def)

lemma reads_engine: "engine W t g \<Longrightarrow> reads t t' \<Longrightarrow> engine W t' g"
  by (auto simp: reads_def engine_ok_def tree_rel_def mem_ok_def stored_def pool_at_def node_live_def
      retired_nodes_def)

lemma publish_spec:
  assumes "ok (t_rc t)" and "i < HAZARD_POINTERS"
  shows "returns (publish rc i p t) (reads t)"
  using protect_ok [OF assms, of p] assms(1) reads_refl [OF assms(1)] by (auto simp: publish_def reads_def)

lemma HP_less [simp]: "HP_ROOT < HAZARD_POINTERS" "HP_CUR < HAZARD_POINTERS"
  by (simp_all add: HP_ROOT_def HP_CUR_def HAZARD_POINTERS_def)

lemma guard_in_reads: "ok (t_rc t) \<Longrightarrow> reads t (guard_in rc t)"
  using enter_ok by (auto simp: reads_def guard_in_def)

lemma guard_out_reads: "ok (t_rc t) \<Longrightarrow> reads t (guard_out rc t)"
  using exit_ok by (auto simp: reads_def guard_out_def)

subsection \<open>Search\<close>

definition walk_post ::
  "'k \<Rightarrow> ptr \<Rightarrow> ('k, 'v, 'r) tree \<Rightarrow> ('k, 'v) data gtree \<Rightarrow> (int \<times> ptr) option \<times> ('k, 'v, 'r) tree \<Rightarrow> bool" where
  "walk_post k parent t g = (\<lambda>(res, t'). reads t t' \<and> (\<exists>fs. route cmp k fs \<and>
     ((\<exists>a c d l r. g = plug fs (Nd a c d l r) \<and> same_key cmp k (fst d) \<and> res = Some (1, a)) \<or>
      (g = plug fs Leaf \<and> res = Some (0, if fs = [] then parent else fptr (hd fs))))))"

lemma walk_down:
  assumes "walk_post k a t1 ch r" and "reads t t1" and "h = branch lft a c d ch s"
    and "if lft then cmp k (fst d) else \<not> cmp k (fst d) \<and> cmp (fst d) k"
  shows "walk_post k parent t h r"
proof -
  obtain res t' fs where r: "r = (res, t')" "reads t1 t'" "route cmp k fs"
    "(\<exists>a c d l r. ch = plug fs (Nd a c d l r) \<and> same_key cmp k (fst d) \<and> res = Some (1, a)) \<or>
     (ch = plug fs Leaf \<and> res = Some (0, if fs = [] then a else fptr (hd fs)))"
    using assms(1) unfolding walk_post_def case_prod_beta by (metis prod.collapse)
  define fs1 where "fs1 = fs @ [Fr lft a c d s]"
  have pl: "plug fs1 x = branch lft a c d (plug fs x) s" for x by (simp add: fs1_def plug_append)
  have rt: "route cmp k fs1"
    using r(3) assms(4) unfolding fs1_def by (induction fs rule: route.induct [of _ cmp k]) auto
  have hd: "(if fs1 = [] then parent else fptr (hd fs1)) = (if fs = [] then a else fptr (hd fs))"
    by (simp add: fs1_def)
  have "(\<exists>a c d l r. h = plug fs1 (Nd a c d l r) \<and> same_key cmp k (fst d) \<and> res = Some (1, a)) \<or>
     (h = plug fs1 Leaf \<and> res = Some (0, if fs1 = [] then parent else fptr (hd fs1)))"
    unfolding hd pl assms(3) using r(4) by metis
  then show ?thesis
    unfolding walk_post_def r(1) prod.case using r(2) reads_trans [OF assms(2)] rt by blast
qed

lemma search_walk_spec:
  fixes t :: "('k, 'v, 'r) tree"
  assumes "tree_at t g" and "ok (t_rc t)"
  shows "returns (search_walk rc cmp k (rp g) parent t) (walk_post k parent t g)"
  using assms
proof (induction g arbitrary: t parent)
  case Leaf
  have "walk_post k parent t Leaf (Some (0, parent), t)"
    unfolding walk_post_def using reads_refl [OF Leaf(2)] by (auto intro!: exI [of _ "[]"])
  then show ?case by (subst search_walk.simps) simp
next
  case (Nd a c d l r)
  have a: "node_at t a = Some (mk_node (rp l) (rp r) False c d)" and a0: "a \<noteq> 0"
    using Nd.prems(1) by (auto dest: node_at_SomeD)
  show ?case
  proof (cases "same_key cmp k (fst d)")
    case True
    have "walk_post k parent t (Nd a c d l r) (Some (1, a), t)"
      unfolding walk_post_def prod.case
      using reads_refl [OF Nd.prems(2)] True by (intro conjI exI [of _ "[]"] disjI1 exI) simp_all
    then show ?thesis using a a0 True by (subst search_walk.simps) simp
  next
    case False
    define lft where "lft = cmp k (fst d)"
    define ch where "ch = (if lft then l else r)"
    define s where "s = (if lft then r else l)"
    have h: "Nd a c d l r = branch lft a c d ch s" by (cases lft) (simp_all add: ch_def s_def)
    have dir: "if lft then cmp k (fst d) else \<not> cmp k (fst d) \<and> cmp (fst d) k"
      using False by (auto simp: lft_def same_key_def)
    have run: "search_walk rc cmp k a parent t =
        do { t \<leftarrow> publish rc HP_CUR (rp ch) t; search_walk rc cmp k (rp ch) a t }"
      using a a0 False by (subst search_walk.simps) (simp add: ch_def lft_def Let_def)
    have IH: "returns (search_walk rc cmp k (rp ch) a t1) (walk_post k parent t (Nd a c d l r))"
      if "reads t t1" for t1
    proof -
      have "tree_at t1 ch" "ok (t_rc t1)"
        using that Nd.prems(1) reads_tree [OF that] reads_simps [OF that] by (simp_all add: ch_def)
      then have "returns (search_walk rc cmp k (rp ch) a t1) (walk_post k a t1 ch)"
        using Nd.IH by (cases lft) (simp_all add: ch_def)
      then show ?thesis by (rule returns_mono) (rule walk_down [OF _ that h dir])
    qed
    show ?thesis unfolding rp.simps run returns_simps(3)
      by (rule returns_mono [OF publish_spec]) (use Nd.prems(2) IH in auto)
  qed
qed

definition found_post ::
  "'k \<Rightarrow> ('k, 'v, 'r) tree \<Rightarrow> ('k, 'v) data gtree \<Rightarrow> int \<times> ptr \<times> ('k, 'v, 'r) tree \<Rightarrow> bool" where
  "found_post k t g = (\<lambda>(r, out, t'). reads t t' \<and>
     (case find_entry cmp k (entries g) of
        None \<Rightarrow> r = 0
      | Some e \<Rightarrow> r = 1 \<and> (\<exists>d. (out, d) \<in> set (items g) \<and> entry (out, d) = e)))"

lemma walk_found:
  assumes "walk_post k parent t g (res, t')" and "sorted_entries cmp (entries g)"
  shows "\<exists>r out. res = Some (r, out) \<and> found_post k t g (r, out, t')"
proof -
  obtain fs where fs: "reads t t'" "route cmp k fs"
    "(\<exists>a c d l r. g = plug fs (Nd a c d l r) \<and> same_key cmp k (fst d) \<and> res = Some (1, a)) \<or>
     (g = plug fs Leaf \<and> res = Some (0, if fs = [] then parent else fptr (hd fs)))"
    using assms(1) unfolding walk_post_def prod.case by blast
  from fs(3) show ?thesis
  proof (elim disjE exE conjE)
    fix a c d l r
    assume g: "g = plug fs (Nd a c d l r)" "same_key cmp k (fst d)" "res = Some (1, a)"
    have "find_entry cmp k (entries g) = Some (entry (a, d))"
      unfolding entries_found [OF g(1)]
      using g(2) by (intro find_split_found [OF found_split [OF assms(2) fs(2) g(1,2)]]) simp
    moreover have "(a, d) \<in> set (items g)" by (simp add: g(1) items_plug)
    ultimately have "found_post k t g (1, a, t')"
      unfolding found_post_def prod.case using fs(1) by (simp del: split_paired_Ex) blast
    then show ?thesis using g(3) by blast
  next
    assume g: "g = plug fs Leaf" "res = Some (0, if fs = [] then parent else fptr (hd fs))"
    note sp = route_splits [OF fs(2), of Leaf, folded g(1), folded entries_def, OF assms(2)]
    have "find_entry cmp k (entries g) = None"
      using find_split_absent [OF sp] by (simp add: entries_absent [OF g(1)])
    then show ?thesis using fs(1) g(2) by (auto simp: found_post_def)
  qed
qed

lemma search_spec:
  assumes e: "engine W t g"
  shows "returns (search rc cmp k t) (found_post k t g)"
proof -
  note E = engineD [OF e]
  have root: "t_root t = rp g" using E(1) by (simp add: tree_rel_def)
  have step: "returns (if rc_revalidate rc \<and> t_root t1 \<noteq> rp g then search rc cmp k t1
      else if rp g = 0 then Some (0, 0, t1)
      else do {
        (res, t) \<leftarrow> search_walk rc cmp k (rp g) 0 t1;
        case res of None \<Rightarrow> search rc cmp k t | Some (r, out) \<Rightarrow> Some (r, out, t)
      }) (found_post k t g)" if r1: "reads t t1" for t1
  proof (cases "g = Leaf")
    case True
    then show ?thesis using r1 reads_simps(1) [OF r1] root
      by (simp add: found_post_def entries_def find_entry_def)
  next
    case False
    have t1: "tree_at t1 g" "ok (t_rc t1)" using reads_tree [OF r1] reads_simps [OF r1] E(7) by simp_all
    have "returns (search_walk rc cmp k (rp g) 0 t1) (walk_post k 0 t1 g)"
      by (rule search_walk_spec [OF t1])
    then have "returns (search_walk rc cmp k (rp g) 0 t1) (\<lambda>(res, t2).
        returns (case res of None \<Rightarrow> search rc cmp k t2 | Some (r, out) \<Rightarrow> Some (r, out, t2)) (found_post k t g))"
    proof (rule returns_mono)
      fix x assume post: "walk_post k 0 t1 g x"
      obtain res t2 where x: "x = (res, t2)" by force
      obtain r out where "res = Some (r, out)" "found_post k t1 g (r, out, t2)"
        using walk_found [OF post [unfolded x] E(2)] by blast
      moreover from this have "found_post k t g (r, out, t2)"
        using reads_trans [OF r1] by (auto simp: found_post_def)
      ultimately show "case x of (res, t2) \<Rightarrow>
          returns (case res of None \<Rightarrow> search rc cmp k t2 | Some (r, out) \<Rightarrow> Some (r, out, t2)) (found_post k t g)"
        by (simp add: x)
    qed
    moreover have "rp g \<noteq> 0" using False tree_at_rp0 [OF E(7)] by simp
    moreover have "t_root t1 = rp g" using reads_simps(1) [OF r1] root by simp
    ultimately show ?thesis by simp
  qed
  show ?thesis
    apply (subst search.simps)
    apply (simp only: root Let_def returns_simps(3))
    apply (rule returns_mono [OF publish_spec [OF E(6) HP_less(1)]])
    apply (erule step)
    done
qed

lemma guarded:
  assumes ok: "ok (t_rc t)"
    and body: "\<And>t1. reads t t1 \<Longrightarrow> returns (m t1) (\<lambda>(x, t2). reads t1 t2 \<and> Q x)"
  shows "returns (do { (x, t) \<leftarrow> m (guard_in rc t); Some (x, guard_out rc t) }) (\<lambda>(x, t'). reads t t' \<and> Q x)"
proof -
  have r1: "reads t (guard_in rc t)" by (rule guard_in_reads [OF ok])
  have "reads t (guard_out rc t2)" if "reads (guard_in rc t) t2" for t2
    using reads_trans [OF r1 reads_trans [OF that guard_out_reads]] reads_simps(4) [OF that] by blast
  then show ?thesis using body [OF r1] by (auto elim!: returns_mono)
qed

lemma find_node_spec:
  assumes e: "engine W t g"
  shows "returns (find_node rc cmp k t) (\<lambda>(res, t'). reads t t' \<and>
    (case find_entry cmp k (entries g) of
       None \<Rightarrow> res = None
     | Some x \<Rightarrow> \<exists>a d. res = Some a \<and> (a, d) \<in> set (items g) \<and> entry (a, d) = x))"
proof -
  have r1: "reads t (guard_in rc t)" by (rule guard_in_reads [OF engineD(6) [OF e]])
  have out: "reads t (guard_out rc t2)" if "reads (guard_in rc t) t2" for t2
    using reads_trans [OF r1 reads_trans [OF that guard_out_reads]] reads_simps(4) [OF that] by blast
  show ?thesis
    unfolding find_node_def Let_def returns_simps(3)
    by (rule returns_mono [OF search_spec [OF reads_engine [OF e r1]]])
      (auto simp: found_post_def out simp del: split_paired_Ex split: option.splits)
qed

lemma find_value_ptr_spec:
  assumes e: "engine W t g"
  shows "returns (find_value_ptr rc cmp k t) (\<lambda>(p, t'). reads t t' \<and>
    (case find_entry cmp k (entries g) of
       None \<Rightarrow> p = 0
     | Some x \<Rightarrow> p \<noteq> 0 \<and> (\<exists>d. (p, d) \<in> set (items g) \<and> entry (p, d) = x)))"
proof -
  have r1: "reads t (guard_in rc t)" by (rule guard_in_reads [OF engineD(6) [OF e]])
  have out: "reads t (guard_out rc t2)" if "reads (guard_in rc t) t2" for t2
    using reads_trans [OF r1 reads_trans [OF that guard_out_reads]] reads_simps(4) [OF that] by blast
  have ne: "p \<noteq> 0" if "(p, d) \<in> set (items g)" for p d
    using tree_at_ne0 [OF engineD(7) [OF e], of p] that by (metis fst_conv image_eqI set_ptrs)
  have "case (if r = 1 then p else 0, guard_out rc t2) of (p, t') \<Rightarrow> reads t t' \<and>
    (case find_entry cmp k (entries g) of
       None \<Rightarrow> p = 0
     | Some x \<Rightarrow> p \<noteq> 0 \<and> (\<exists>d. (p, d) \<in> set (items g) \<and> entry (p, d) = x))"
    if fp: "found_post k (guard_in rc t) g (r, p, t2)" for r p t2
  proof (cases "find_entry cmp k (entries g)")
    case None
    then show ?thesis using fp out by (simp add: found_post_def)
  next
    case (Some x)
    then obtain d where "r = 1" "(p, d) \<in> set (items g)" "entry (p, d) = x" "reads (guard_in rc t) t2"
      using fp by (auto simp: found_post_def simp del: split_paired_Ex)
    then show ?thesis using Some out ne by (simp del: split_paired_Ex) blast
  qed
  then show ?thesis
    unfolding find_value_ptr_def Let_def returns_simps(3)
    by - (rule returns_mono [OF search_spec [OF reads_engine [OF e r1]]], fastforce)
qed

subsection \<open>Bounds\<close>

definition bound_item :: "bool \<Rightarrow> 'k \<Rightarrow> (ptr \<times> ('k, 'v) data) list \<Rightarrow> (ptr \<times> ('k, 'v) data) option" where
  "bound_item strict k xs = List.find (\<lambda>x. if strict then cmp k (fst (snd x)) else \<not> cmp (fst (snd x)) k) xs"

lemma bound_item_entry: "map_option entry (bound_item strict k (items g)) = bound_entry cmp strict k (entries g)"
proof -
  have "map_option entry (bound_item strict k xs) = bound_entry cmp strict k (map entry xs)"
    for xs :: "(ptr \<times> ('k, 'v) data) list"
    by (induction xs) (auto simp: bound_item_def bound_entry_def)
  then show ?thesis by (simp add: entries_def)
qed

lemma bound_item_branch:
  fixes l r :: "('k, 'v) data gtree"
  assumes "sorted_entries cmp (entries (Nd a c d l r))"
  shows "bound_item strict k (items (Nd a c d l r)) =
    (if (if strict then cmp k (fst d) else \<not> cmp (fst d) k)
     then Some (case bound_item strict k (items l) of None \<Rightarrow> (a, d) | Some x \<Rightarrow> x)
     else bound_item strict k (items r))"
proof (cases "if strict then cmp k (fst d) else \<not> cmp (fst d) k")
  case True
  define P where "P = (\<lambda>x :: ptr \<times> ('k, 'v) data. if strict then cmp k (fst (snd x)) else \<not> cmp (fst (snd x)) k)"
  have "P (a, d)" using True by (simp add: P_def)
  then have "List.find P (items l @ (a, d) # items r) =
      Some (case List.find P (items l) of None \<Rightarrow> (a, d) | Some x \<Rightarrow> x)" by (rule find_mid)
  then show ?thesis unfolding if_P [OF True] by (simp add: bound_item_def P_def)
next
  case False
  have "\<forall>x \<in> set (items l). cmp (fst (snd x)) (fst d)"
    using assms by (simp add: entries_def sorted_entries_def sorted_wrt_append)
  moreover have "\<not> (if strict then cmp k x else \<not> cmp x k)" if "cmp x (fst d)" for x
    using False trans [of k x "fst d"] trans [of x "fst d" k] that by auto
  ultimately have "\<forall>x \<in> set (items l). \<not> (if strict then cmp k (fst (snd x)) else \<not> cmp (fst (snd x)) k)"
    by blast
  then show ?thesis using False by (cases strict) (simp_all add: bound_item_def find_skip)
qed

lemma sorted_branch:
  assumes "sorted_entries cmp (entries (Nd a c d l r))"
  shows "sorted_entries cmp (entries l)" "sorted_entries cmp (entries r)"
  using assms by (simp_all add: entries_def sorted_entries_def sorted_wrt_append)

lemma bound_walk_spec:
  fixes t :: "('k, 'v, 'r) tree"
  assumes "tree_at t g" and "ok (t_rc t)" and "sorted_entries cmp (entries g)"
  shows "returns (bound_walk rc cmp strict k (rp g) cand t) (\<lambda>(c, t'). reads t t' \<and>
    c = (case bound_item strict k (items g) of None \<Rightarrow> cand | Some x \<Rightarrow> fst x))"
  using assms
proof (induction g arbitrary: t cand)
  case Leaf
  then show ?case using reads_refl by (subst bound_walk.simps) (simp add: bound_item_def)
next
  case (Nd a c d l r)
  have a: "node_at t a = Some (mk_node (rp l) (rp r) False c d)" and a0: "a \<noteq> 0"
    using Nd.prems(1) by (auto dest: node_at_SomeD)
  define lft where "lft = (if strict then cmp k (fst d) else \<not> cmp (fst d) k)"
  define ch where "ch = (if lft then l else r)"
  define cand1 where "cand1 = (if lft then a else cand)"
  have run: "bound_walk rc cmp strict k a cand t =
      do { t \<leftarrow> publish rc HP_CUR (rp ch) t; bound_walk rc cmp strict k (rp ch) cand1 t }"
    using a a0 asym by (subst bound_walk.simps) (auto simp: ch_def lft_def cand1_def Let_def)
  have res: "(case bound_item strict k (items ch) of None \<Rightarrow> cand1 | Some x \<Rightarrow> fst x) =
      (case bound_item strict k (items (Nd a c d l r)) of None \<Rightarrow> cand | Some x \<Rightarrow> fst x)"
    unfolding bound_item_branch [OF Nd.prems(3)] lft_def [symmetric]
    by (cases lft) (auto simp: ch_def cand1_def split: option.splits)
  have IH: "returns (bound_walk rc cmp strict k (rp ch) cand1 t1) (\<lambda>(x, t'). reads t t' \<and>
      x = (case bound_item strict k (items (Nd a c d l r)) of None \<Rightarrow> cand | Some x \<Rightarrow> fst x))"
    if r1: "reads t t1" for t1
  proof -
    have "tree_at t1 l" "tree_at t1 r" "ok (t_rc t1)"
      using Nd.prems(1) reads_tree [OF r1] reads_simps [OF r1] by simp_all
    then have "returns (bound_walk rc cmp strict k (rp ch) cand1 t1) (\<lambda>(x, t'). reads t1 t' \<and>
        x = (case bound_item strict k (items ch) of None \<Rightarrow> cand1 | Some x \<Rightarrow> fst x))"
      using Nd.IH sorted_branch [OF Nd.prems(3)] by (cases lft) (simp_all add: ch_def)
    then show ?thesis unfolding res by (auto elim!: returns_mono intro: reads_trans [OF r1])
  qed
  show ?case unfolding rp.simps run returns_simps(3)
    by (rule returns_mono [OF publish_spec]) (use Nd.prems(2) IH in auto)
qed

lemma bound_loop_spec:
  assumes e: "engine W t g"
  shows "returns (bound_loop rc cmp strict k t) (\<lambda>(x, t'). reads t t' \<and>
    x = map_option fst (bound_entry cmp strict k (entries g)))"
proof -
  note E = engineD [OF e]
  have root: "t_root t = rp g" using E(1) by (simp add: tree_rel_def)
  have step: "returns (if rc_revalidate rc \<and> t_root t1 \<noteq> rp g then bound_loop rc cmp strict k t1
       else do {
         (candidate, t) \<leftarrow> bound_walk rc cmp strict k (rp g) 0 t1;
         if candidate \<noteq> 0 then do { nd \<leftarrow> node_at t candidate; Some (Some (n_key nd), t) }
         else Some (None, t)
       }) (\<lambda>(x, t'). reads t t' \<and> x = map_option fst (bound_entry cmp strict k (entries g)))"
    if r1: "reads t t1" for t1
  proof -
    have t1: "tree_at t1 g" "ok (t_rc t1)" using reads_tree [OF r1] reads_simps [OF r1] E(7) by simp_all
    have key: "\<exists>nd. node_at t2 a = Some nd \<and> n_key nd = fst d \<and> a \<noteq> 0"
      if "reads t1 t2" "(a, d) \<in> set (items g)" for t2 a d
    proof -
      have "tree_at t2 g" using reads_tree [OF that(1)] t1(1) by simp
      then show ?thesis using that(2) by (induction g) (auto dest: node_at_SomeD)
    qed
    have "returns (do {
         (candidate, t) \<leftarrow> bound_walk rc cmp strict k (rp g) 0 t1;
         if candidate \<noteq> 0 then do { nd \<leftarrow> node_at t candidate; Some (Some (n_key nd), t) }
         else Some (None, t)
       }) (\<lambda>(x, t'). reads t t' \<and> x = map_option fst (bound_entry cmp strict k (entries g)))"
      unfolding returns_simps(3) returns_case_prod
    proof (rule returns_mono [OF bound_walk_spec [OF t1 E(2)]])
      fix x assume x: "case x of (c, t') \<Rightarrow> reads t1 t' \<and>
        c = (case bound_item strict k (items g) of None \<Rightarrow> 0 | Some x \<Rightarrow> fst x)"
      obtain c t2 where c: "x = (c, t2)" by force
      have r2: "reads t1 t2" and cc: "c = (case bound_item strict k (items g) of None \<Rightarrow> 0 | Some x \<Rightarrow> fst x)"
        using x by (simp_all add: c)
      show "case x of (candidate, t2) \<Rightarrow> returns (if candidate \<noteq> 0 then do { nd \<leftarrow> node_at t2 candidate; Some (Some (n_key nd), t2) }
         else Some (None, t2)) (\<lambda>(x, t'). reads t t' \<and> x = map_option fst (bound_entry cmp strict k (entries g)))"
      proof (cases "bound_item strict k (items g)")
        case None
        then have "bound_entry cmp strict k (entries g) = None" using bound_item_entry [of strict k g] by simp
        then show ?thesis using None cc reads_trans [OF r1 r2] by (simp add: c)
      next
        case (Some y)
        obtain a d where y: "y = (a, d)" by (cases y)
        have "bound_entry cmp strict k (entries g) = Some (entry y)"
          using bound_item_entry [of strict k g] Some by simp
        moreover have "(a, d) \<in> set (items g)"
          using Some y by (auto simp: bound_item_def find_Some_iff)
        ultimately show ?thesis using key [OF r2] Some cc reads_trans [OF r1 r2] y by (fastforce simp: c)
      qed
    qed
    moreover have "t_root t1 = rp g" using reads_simps(1) [OF r1] root by simp
    ultimately show ?thesis by simp
  qed
  show ?thesis
    apply (subst bound_loop.simps)
    apply (simp only: root Let_def returns_simps(3))
    apply (rule returns_mono [OF publish_spec [OF E(6) HP_less(1)]])
    apply (erule step)
    done
qed

lemma bound_node_spec:
  assumes e: "engine W t g"
  shows "returns (bound_node rc cmp k strict t) (\<lambda>(x, t'). reads t t' \<and>
    x = map_option fst (bound_entry cmp strict k (entries g)))"
  unfolding bound_node_def
  by (rule guarded [OF engineD(6) [OF e]]) (rule bound_loop_spec [OF reads_engine [OF e]])

subsection \<open>The first node\<close>

lemma entries_nonempty: "g \<noteq> Leaf \<Longrightarrow> entries g \<noteq> []"
  by (cases g) (auto simp: entries_def)

lemma first_walk_spec:
  fixes t :: "('k, 'v, 'r) tree"
  assumes "tree_at t g" and "ok (t_rc t)" and "g \<noteq> Leaf"
  shows "returns (first_walk rc (rp g) t) (\<lambda>(x, t'). reads t t' \<and> x = Some (fst (hd (entries g))))"
  using assms
proof (induction g arbitrary: t)
  case Leaf
  then show ?case by simp
next
  case (Nd a c d l r)
  have a: "node_at t a = Some (mk_node (rp l) (rp r) False c d)" using Nd.prems(1) by simp
  show ?case
  proof (cases "l = Leaf")
    case True
    then show ?thesis using a reads_refl [OF Nd.prems(2)]
      by (subst first_walk.simps) (simp add: entries_def)
  next
    case False
    have hd: "hd (entries (Nd a c d l r)) = hd (entries l)"
      using entries_nonempty [OF False] by (simp add: entries_def)
    have "rp l \<noteq> 0" using False tree_at_rp0 [of t l] Nd.prems(1) by simp
    then have run: "first_walk rc a t = do { t \<leftarrow> publish rc HP_CUR (rp l) t; first_walk rc (rp l) t }"
      using a by (subst first_walk.simps) (simp add: Let_def)
    have IH: "returns (first_walk rc (rp l) t1) (\<lambda>(x, t'). reads t t' \<and> x = Some (fst (hd (entries l))))"
      if r1: "reads t t1" for t1
    proof -
      have "tree_at t1 l" "ok (t_rc t1)"
        using Nd.prems(1) reads_tree [OF r1] reads_simps [OF r1] by simp_all
      then have "returns (first_walk rc (rp l) t1) (\<lambda>(x, t'). reads t1 t' \<and> x = Some (fst (hd (entries l))))"
        using False by (rule Nd.IH(1))
      then show ?thesis by (rule returns_mono) (auto intro: reads_trans [OF r1])
    qed
    show ?thesis unfolding rp.simps run hd returns_simps(3)
      by (rule returns_mono [OF publish_spec]) (use Nd.prems(2) IH in auto)
  qed
qed

lemma first_loop_spec:
  assumes e: "engine W t g"
  shows "returns (first_loop rc t) (\<lambda>(x, t'). reads t t' \<and>
    x = (case entries g of [] \<Rightarrow> None | e # _ \<Rightarrow> Some (fst e)))"
proof -
  note E = engineD [OF e]
  have root: "t_root t = rp g" using E(1) by (simp add: tree_rel_def)
  have step: "returns (if rc_revalidate rc \<and> t_root t1 \<noteq> rp g then first_loop rc t1
       else if rp g = 0 then Some (None, t1)
       else do {
         (r, t) \<leftarrow> first_walk rc (rp g) t1;
         case r of None \<Rightarrow> first_loop rc t | Some k \<Rightarrow> Some (Some k, t)
       }) (\<lambda>(x, t'). reads t t' \<and> x = (case entries g of [] \<Rightarrow> None | e # _ \<Rightarrow> Some (fst e)))"
    if r1: "reads t t1" for t1
  proof (cases "g = Leaf")
    case True
    then show ?thesis using r1 reads_simps(1) [OF r1] root by (simp add: entries_def)
  next
    case False
    have t1: "tree_at t1 g" "ok (t_rc t1)" using reads_tree [OF r1] reads_simps [OF r1] E(7) by simp_all
    have "rp g \<noteq> 0" using False tree_at_rp0 [OF E(7)] by simp
    moreover have "t_root t1 = rp g" using reads_simps(1) [OF r1] root by simp
    moreover have "(case entries g of [] \<Rightarrow> None | e # _ \<Rightarrow> Some (fst e)) = Some (fst (hd (entries g)))"
      using entries_nonempty [OF False] by (cases "entries g") simp_all
    ultimately show ?thesis
      by (simp only: simp_thms if_False returns_simps returns_case_prod)
        (rule returns_mono [OF first_walk_spec [OF t1 False]], auto intro: reads_trans [OF r1])
  qed
  show ?thesis
    apply (subst first_loop.simps)
    apply (simp only: root Let_def returns_simps(3))
    apply (rule returns_mono [OF publish_spec [OF E(6) HP_less(1)]])
    apply (erule step)
    done
qed

lemma first_node_spec:
  assumes e: "engine W t g"
  shows "returns (first_node rc t) (\<lambda>(x, t'). reads t t' \<and>
    x = (case entries g of [] \<Rightarrow> None | e # _ \<Rightarrow> Some (fst e)))"
  unfolding first_node_def
  by (rule guarded [OF engineD(6) [OF e]]) (rule first_loop_spec [OF reads_engine [OF e]])

end

subsection \<open>Freeing a whole tree\<close>

text \<open>The stack of \<open>free_subtree\<close>: nodes whose left part is done, each with its right subtree.\<close>

fun lefts :: "'d gtree \<Rightarrow> (ptr \<times> 'd gtree) list" where
  "lefts Leaf = []"
| "lefts (Nd a c d l r) = lefts l @ [(a, r)]"

definition stack_ptrs :: "(ptr \<times> 'd gtree) list \<Rightarrow> ptr list" where
  "stack_ptrs st = concat (map (\<lambda>(a, r). a # ptrs r) st)"

definition stack_at :: "('k, 'v, 'r) tree \<Rightarrow> (ptr \<times> ('k, 'v) data gtree) list \<Rightarrow> bool" where
  "stack_at t st \<longleftrightarrow> (\<forall>(a, r) \<in> set st. (\<exists>nd. node_at t a = Some nd \<and> n_right nd = rp r) \<and> tree_at t r)"

lemma stack_ptrs_simps [simp]:
  "stack_ptrs [] = []" "stack_ptrs ((a, r) # st) = a # ptrs r @ stack_ptrs st"
  "stack_ptrs (st @ st') = stack_ptrs st @ stack_ptrs st'"
  by (simp_all add: stack_ptrs_def)

lemma stack_ptrs_lefts: "stack_ptrs (lefts g) = ptrs g"
  by (induction g) auto

lemma stack_at_lefts: "tree_at t g \<Longrightarrow> stack_at t (lefts g)"
  by (induction g) (auto simp: stack_at_def)

lemma stack_at_append: "stack_at t (st @ st') \<longleftrightarrow> stack_at t st \<and> stack_at t st'"
  by (simp add: stack_at_def ball_Un)

lemma push_lefts_spec: "tree_at t g \<Longrightarrow> push_lefts (rp g) stack t = Some (map fst (lefts g) @ stack)"
proof (induction g arbitrary: stack)
  case Leaf
  then show ?case by (subst push_lefts.simps) simp
next
  case (Nd a c d l r)
  have "a \<noteq> 0" using Nd.prems by (auto dest: node_at_SomeD)
  then show ?case using Nd by (subst push_lefts.simps) simp
qed

lemma kept_stack: "kept N t t' \<Longrightarrow> set (stack_ptrs st) \<subseteq> N \<Longrightarrow> stack_at t st \<Longrightarrow> stack_at t' st"
proof (induction st)
  case (Cons x st)
  obtain a r where x: "x = (a, r)" by (cases x)
  have "a \<in> N" "nodes_of r \<subseteq> N" "set (stack_ptrs st) \<subseteq> N" using Cons.prems(2) by (auto simp: x)
  moreover from this have "tree_at t' r = tree_at t r" "node_at t' a = node_at t a"
    using kept_tree_at [OF Cons.prems(1)] Cons.prems(1) by (auto simp: kept_def)
  ultimately show ?case using Cons by (auto simp: stack_at_def x)
qed (simp add: stack_at_def)

lemma free_subtree_spec:
  assumes "tree_at t g" and "stack_at t st" and "distinct (ptrs g @ stack_ptrs st)"
    and "mem_ok ok pd t (set (ptrs g @ stack_ptrs st) \<union> W)" and "set (ptrs g @ stack_ptrs st) \<inter> W = {}"
  shows "\<exists>t'. free_subtree th (rp g) (map fst st) t = Some t' \<and> mem_ok ok pd t' W \<and> kept W t t' \<and>
    t_rc t' = t_rc t"
  using assms
proof (induction "length (ptrs g @ stack_ptrs st)" arbitrary: g st t rule: less_induct)
  case less
  note prems = less.prems
  show ?case
  proof (cases "lefts g @ st")
    case Nil
    then have "g = Leaf" "st = []" by (cases g; auto)+
    then show ?thesis using prems by (subst free_subtree.simps) simp
  next
    case (Cons x st')
    obtain a r where x: "x = (a, r)" by (cases x)
    have sp: "ptrs g @ stack_ptrs st = a # ptrs r @ stack_ptrs st'"
      using arg_cong [OF Cons, of stack_ptrs] by (simp add: stack_ptrs_lefts x)
    have st: "stack_at t ((a, r) # st')"
      using stack_at_lefts [OF prems(1)] prems(2) stack_at_append [of t "lefts g" st] by (simp add: Cons x)
    then obtain nd where nd: "node_at t a = Some nd" "n_right nd = rp r" "tree_at t r" "stack_at t st'"
      by (auto simp: stack_at_def)
    have nonempty: "\<not> (rp g = 0 \<and> map fst st = [])"
      using tree_at_rp0 [OF prems(1)] Cons by auto
    let ?N = "set (ptrs r @ stack_ptrs st') \<union> W"
    have m: "mem_ok ok pd t (insert a ?N)" and an: "a \<notin> ?N"
      using prems(3,4,5) unfolding sp by auto
    obtain t1 where t1: "free_node th a t = Some t1" "mem_ok ok pd t1 ?N" "kept ?N t t1" "t_rc t1 = t_rc t"
      using destroy_spec [OF m an, of th] by blast
    have "tree_at t1 r" using kept_tree_at [OF t1(3), of r] nd(3) by auto
    moreover have "stack_at t1 st'" using kept_stack [OF t1(3) _ nd(4)] by auto
    moreover have "length (ptrs r @ stack_ptrs st') < length (ptrs g @ stack_ptrs st)" unfolding sp by simp
    ultimately obtain t' where t': "free_subtree th (rp r) (map fst st') t1 = Some t'" "mem_ok ok pd t' W"
      "kept W t1 t'" "t_rc t' = t_rc t1"
      using less.hyps [of r st' t1] t1(2) prems(3,5) unfolding sp by auto
    have stack: "map fst (lefts g) @ map fst st = a # map fst st'"
      using arg_cong [OF Cons, of "map fst"] by (simp add: x)
    have "free_subtree th (rp g) (map fst st) t = Some t'"
      using nonempty nd(1,2) t1(1) t'(1) stack
      by (subst free_subtree.simps) (auto simp: push_lefts_spec [OF prems(1)])
    moreover have "kept W t t'" using kept_mono [OF t1(3)] t'(3) kept_trans by blast
    ultimately show ?thesis using t'(2,4) t1(4) by auto
  qed
qed

lemma free_tree:
  assumes "tree_rel t0 g" and "tree_at t g" and "mem_ok ok pd t (nodes_of g \<union> W)" and "nodes_of g \<inter> W = {}"
  shows "\<exists>t'. free_subtree th (rp g) [] t = Some t' \<and> mem_ok ok pd t' W \<and> kept W t t' \<and> t_rc t' = t_rc t"
  using free_subtree_spec [of t g "[]" ok pd W th] assms
  by (simp add: stack_at_def tree_rel_def tdist_iff)

context tree_engine
begin

lemma clear_spec:
  assumes e: "engine W t g"
  shows "\<exists>t'. clear_impl th t = Some t' \<and> engine W t' Leaf \<and> others W t t'"
proof -
  note E = engineD [OF e]
  define t1 where "t1 = t\<lparr>t_root := 0\<rparr>"
  have m1: "mem_ok ok pd t1 N = mem_ok ok pd t N" for N
    by (simp add: t1_def mem_ok_def stored_def pool_at_def node_live_def)
  have "tree_at t1 g" using E(7) by (simp add: t1_def)
  then obtain t2 where t2: "free_subtree th (rp g) [] t1 = Some t2" "mem_ok ok pd t2 W" "kept W t1 t2"
    using free_tree [OF E(1), of t1 ok pd W th] E(4,5) m1 by blast
  have m2: "mem_ok ok pd (t2\<lparr>t_count := 0\<rparr>) W = mem_ok ok pd t2 W"
    by (simp add: mem_ok_def stored_def pool_at_def node_live_def)
  have "clear_impl th t = Some (t2\<lparr>t_count := 0\<rparr>)"
    using t2(1) E(1) by (simp add: clear_impl_def t1_def tree_rel_def)
  moreover have "engine W (t2\<lparr>t_count := 0\<rparr>) Leaf"
    using t2(2,3) by (simp add: engine_ok_def tree_rel_def kept_def t1_def red_black_def balanced_def
        entries_def sorted_entries_def m2)
  moreover have "others W t (t2\<lparr>t_count := 0\<rparr>)"
    using t2(3) by (simp add: others_def kept_def t1_def)
  ultimately show ?thesis by blast
qed

text \<open>
  The destructor. When no other container has nodes and no retirement of another thread is
  left behind, every block that was ever handed out has been returned to its allocator.
\<close>

lemma destroy_tree_spec:
  assumes e: "engine W t g"
  shows "\<exists>t'. destroy_tree rc th t = Some t' \<and> others W t t' \<and> ok (t_rc t') \<and>
    (\<forall>b. live (t_mem t') b \<noteq> None \<longrightarrow> b \<in> W \<union> set_mset (retired_nodes pd (t_rc t')))"
proof -
  note E = engineD [OF e]
  obtain t1 where t1: "free_subtree th (rp g) [] t = Some t1" "mem_ok ok pd t1 W" "kept W t t1"
    using free_tree [OF E(1,7,5,4), of th] by blast
  obtain xss where st: "stored pd t1 W xss" and ok1: "ok (t_rc t1)" using t1(2) by (auto simp: mem_ok_def)
  let ?P = "retired_nodes pd (t_rc t1)"
  obtain fs s' where r: "rc_drain_all rc (t_rc t1) = Some (fs, s')" "ok s'" "pd (t_rc t1) = pd s' + mset fs"
    using drain_all [OF ok1] by blast
  let ?P' = "retired_nodes pd s'"
  have P: "?P = ?P' + mset (map fst fs)"
    using arg_cong [OF r(3), of "image_mset fst"] by (simp add: retired_nodes_def)
  have cnt: "count ?P' x + count (mset (map fst fs)) x \<le> 1" for x
    using storedD(2) [OF st, of x] unfolding P by simp
  have dist: "distinct (map fst fs)" by (rule distinct_count_le) (use cnt add_leD2 in blast)
  have disj: "set_mset ?P' \<inter> set (map fst fs) = {}"
    using count_split_le [of ?P' "mset (map fst fs)"] cnt by (simp only: set_mset_mset)
  have un: "set_mset ?P = set_mset ?P' \<union> set (map fst fs)"
    using arg_cong [OF P, of set_mset] by simp
  define t2 where "t2 = t1\<lparr>t_rc := s'\<rparr>"
  have live2: "node_live t2 = node_live t1" by (rule ext) (simp add: node_live_def t2_def)
  have pool2: "pool_at t2 xss" using storedD(1) [OF st] by (simp add: pool_at_def t2_def)
  have out: "set (map fst fs) \<inter> pooled xss = {}" using storedD(4) [OF st] un by blast
  have lv: "node_live t2 x" if "x \<in> set (map fst fs)" for x
    using storedD(5) [OF st, of x] that un unfolding live2 by blast
  obtain t3 yss where t3: "run_actions th fs t2 = Some t3" "pool_at t3 yss"
    "pooled yss \<subseteq> set (map fst fs) \<union> pooled xss" "t_rc t3 = t_rc t2"
    "kept (- (set (map fst fs) \<union> pooled xss)) t2 t3"
    "\<And>b. live (t_mem t3) b \<noteq> None \<Longrightarrow> live (t_mem t2) b \<noteq> None \<and>
      (b \<in> set (map fst fs) \<union> pooled xss \<longrightarrow> b \<in> pooled yss)"
    using run_actions_spec [OF pool2 dist out lv] by blast
  obtain m' p' where d: "drain pool_link_left (t_mem t3) (t_pool t3) = Some (m', p')"
    "freed (pooled yss) (t_mem t3) m'"
    using drain_spec t3(2) unfolding pool_at_def by blast
  define t4 where "t4 = t3\<lparr>t_mem := m', t_pool := p'\<rparr>"
  have "destroy_tree rc th t = Some t4"
    using t1(1) r(1) t3(1) d(1) E(1)
    by (simp add: destroy_tree_def tree_rel_def t2_def pool_drain_def t4_def)
  moreover have "b \<in> W \<union> set_mset ?P'" if "live (t_mem t4) b \<noteq> None" for b
  proof -
    have b: "b \<notin> pooled yss" "live (t_mem t3) b \<noteq> None"
      using that d(2) by (auto simp: t4_def freed_def split: if_splits)
    then have "live (t_mem t1) b \<noteq> None" "b \<notin> set (map fst fs) \<union> pooled xss"
      using t3(6) [of b] by (auto simp: t2_def)
    then show ?thesis using storedD(6) [OF st, of b] un by blast
  qed
  moreover have "t_rc t4 = s'" by (simp add: t4_def t3(4)) (simp add: t2_def)
  moreover have "others W t t4"
  proof -
    have sub: "W \<subseteq> - (set (map fst fs) \<union> pooled xss)" using storedD(3,4) [OF st] un by blast
    then have "b \<notin> pooled yss" if "b \<in> W" for b using t3(3) that by blast
    then have "others W t3 t4" using d(2) by (auto simp: others_def t4_def freed_def)
    moreover have "others W t2 t3" using kept_others [OF t3(5) sub] .
    moreover have "others W t1 t2" by (simp add: others_def t2_def)
    moreover have "others W t t1" using t1(3) by (rule kept_others) simp
    ultimately show ?thesis by (blast intro: others_trans)
  qed
  ultimately show ?thesis using r(2) by blast
qed

end

end
