(* ===== verification/MapModel.thy ===== *)
theory MapModel
  imports TreeRead
begin

section \<open>The ordered containers\<close>

text \<open>
  \<open>mpmc::map\<close> (\<open>mpmc_map.hpp\<close>) over the tree engine. A container is the engine's state; its
  address \<open>self\<close> is what its iterators remember. An iterator is the owner, an end flag and a
  copy of a key: dereferencing and advancing look the key up again.

  \<open>dflt\<close> is the default-initialised payload that \<open>alloc_node\<close> leaves in a node, \<open>dk\<close> the key of
  a default-initialised iterator. The arguments of \<open>emplace\<close> are forwarded to the constructor
  of the payload: \<open>Some (k, v)\<close> is the pair it constructs, \<open>None\<close> that it throws.
\<close>

record 'k iter =
  it_owner :: ptr
  it_is_end :: bool
  it_key :: 'k

definition iter_end :: "ptr \<Rightarrow> 'k \<Rightarrow> 'k iter" where
  "iter_end self dk = \<lparr>it_owner = self, it_is_end = True, it_key = dk\<rparr>"

definition iter_at :: "ptr \<Rightarrow> 'k \<Rightarrow> 'k iter" where
  "iter_at self k = \<lparr>it_owner = self, it_is_end = False, it_key = k\<rparr>"

subsection \<open>Construction and modifiers\<close>

definition map_ctor :: "alloc \<Rightarrow> ('k, 'v) node mem \<Rightarrow> pool \<Rightarrow> 'r \<Rightarrow> ('k, 'v, 'r) tree" where
  "map_ctor a m p r = new_tree a m p r"

definition map_dtor ::
  "(unit, 'r) reclaimer_ops \<Rightarrow> thread \<Rightarrow> ('k, 'v, 'r) tree \<Rightarrow> ('k, 'v, 'r) tree option" where
  "map_dtor rc th t = destroy_tree rc th t"

definition map_size :: "('k, 'v, 'r) tree \<Rightarrow> u64" where
  "map_size t = tree_size t"

definition map_empty :: "('k, 'v, 'r) tree \<Rightarrow> bool" where
  "map_empty t = tree_empty t"

definition map_max_size :: "u64 \<Rightarrow> u64" where
  "map_max_size sizeof_value = (- 1) div sizeof_value"

definition map_emplace ::
  "('k \<Rightarrow> 'k \<Rightarrow> bool) \<Rightarrow> thread \<Rightarrow> ptr \<Rightarrow> ptr option \<Rightarrow> 'k \<times> 'v \<Rightarrow> ('k \<times> 'v) option \<Rightarrow>
   ('k, 'v, 'r) tree \<Rightarrow> ((exn + 'k iter \<times> bool) \<times> ('k, 'v, 'r) tree) option" where
  "map_emplace cmp th self blk dflt args t =
     do {
       (r, t) \<leftarrow> alloc_node th blk dflt t;
       case r of
         Inl e \<Rightarrow> Some (Inl e, t)
       | Inr n \<Rightarrow>
           (case args of
              None \<Rightarrow> do { t \<leftarrow> destroy_node th n t; Some (Inl Payload_throws, t) }
            | Some (k, v) \<Rightarrow> do {
                t \<leftarrow> construct_payload n k v t;
                nd \<leftarrow> node_at t n;
                let k = n_key nd;
                (b, t) \<leftarrow> insert_node cmp n k t;
                if b then Some (Inr (iter_at self k, True), t)
                else do { t \<leftarrow> destroy_node th n t; Some (Inr (iter_at self k, False), t) }
              })
     }"

definition map_insert ::
  "('k \<Rightarrow> 'k \<Rightarrow> bool) \<Rightarrow> thread \<Rightarrow> ptr \<Rightarrow> ptr option \<Rightarrow> 'k \<times> 'v \<Rightarrow> 'k \<times> 'v \<Rightarrow>
   ('k, 'v, 'r) tree \<Rightarrow> ((exn + 'k iter \<times> bool) \<times> ('k, 'v, 'r) tree) option" where
  "map_insert cmp th self blk dflt kv t = map_emplace cmp th self blk dflt (Some kv) t"

definition map_try_emplace ::
  "('k \<Rightarrow> 'k \<Rightarrow> bool) \<Rightarrow> thread \<Rightarrow> ptr \<Rightarrow> ptr option \<Rightarrow> 'k \<times> 'v \<Rightarrow> 'k \<Rightarrow> 'v option \<Rightarrow>
   ('k, 'v, 'r) tree \<Rightarrow> ((exn + 'k iter \<times> bool) \<times> ('k, 'v, 'r) tree) option" where
  "map_try_emplace cmp th self blk dflt k args t =
     map_emplace cmp th self blk dflt (map_option (Pair k) args) t"

text \<open>An assignment through a payload pointer.\<close>

definition assign_value :: "ptr \<Rightarrow> 'v \<Rightarrow> ('k, 'v, 'r) tree \<Rightarrow> ('k, 'v, 'r) tree option" where
  "assign_value p v t = do { nd \<leftarrow> node_at t p; Some (put_node p (nd\<lparr>n_value := v\<rparr>) t) }"

text \<open>
  \<open>insert_or_assign\<close> forwards \<open>obj\<close> twice. \<open>moved\<close> is what is left of an object after it was
  forwarded once: the identity for an lvalue, the moved-from value for an rvalue.
\<close>

definition map_insert_or_assign ::
  "('act, 'r) reclaimer_ops \<Rightarrow> ('k \<Rightarrow> 'k \<Rightarrow> bool) \<Rightarrow> thread \<Rightarrow> ptr \<Rightarrow> ptr option \<Rightarrow> 'k \<times> 'v \<Rightarrow>
   ('v \<Rightarrow> 'v) \<Rightarrow> 'k \<Rightarrow> 'v \<Rightarrow> ('k, 'v, 'r) tree \<Rightarrow> ((exn + 'k iter \<times> bool) \<times> ('k, 'v, 'r) tree) option" where
  "map_insert_or_assign rc cmp th self blk dflt moved k obj t =
     do {
       (r, t) \<leftarrow> map_try_emplace cmp th self blk dflt k (Some obj) t;
       case r of
         Inl e \<Rightarrow> Some (Inl e, t)
       | Inr (it, inserted) \<Rightarrow>
           if \<not> inserted then do {
             (p, t) \<leftarrow> find_value_ptr rc cmp k t;
             t \<leftarrow> (if p \<noteq> 0 then assign_value p (moved obj) t else Some t);
             Some (Inr (it, inserted), t)
           }
           else Some (Inr (it, inserted), t)
     }"

text \<open>
  \<open>operator[]\<close> returns a reference: the node that holds the value. \<open>dv\<close> is the value-initialised
  mapped object, \<open>None\<close> when its constructor throws; there is no handler for that here.
\<close>

definition map_index ::
  "('act, 'r) reclaimer_ops \<Rightarrow> ('k \<Rightarrow> 'k \<Rightarrow> bool) \<Rightarrow> thread \<Rightarrow> ptr option \<Rightarrow> 'k \<times> 'v \<Rightarrow> 'v option \<Rightarrow> 'k \<Rightarrow>
   ('k, 'v, 'r) tree \<Rightarrow> ((exn + ptr) \<times> ('k, 'v, 'r) tree) option" where
  "map_index rc cmp th blk dflt dv k t =
     do {
       (p, t) \<leftarrow> find_value_ptr rc cmp k t;
       if p \<noteq> 0 then Some (Inr p, t)
       else do {
         (r, t) \<leftarrow> alloc_node th blk dflt t;
         case r of
           Inl e \<Rightarrow> Some (Inl e, t)
         | Inr n \<Rightarrow>
             (case dv of
                None \<Rightarrow> Some (Inl Payload_throws, t)
              | Some v \<Rightarrow> do {
                  t \<leftarrow> construct_payload n k v t;
                  (b, t) \<leftarrow> insert_node cmp n k t;
                  if b then Some (Inr n, t)
                  else do {
                    t \<leftarrow> destroy_node th n t;
                    (p, t) \<leftarrow> find_value_ptr rc cmp k t;
                    if p = 0 then None else Some (Inr p, t)
                  }
                })
       }
     }"

definition map_at ::
  "('act, 'r) reclaimer_ops \<Rightarrow> ('k \<Rightarrow> 'k \<Rightarrow> bool) \<Rightarrow> 'k \<Rightarrow> ('k, 'v, 'r) tree \<Rightarrow>
   ((exn + ptr) \<times> ('k, 'v, 'r) tree) option" where
  "map_at rc cmp k t =
     do {
       (p, t) \<leftarrow> find_value_ptr rc cmp k t;
       if p = 0 then Some (Inl Out_of_range, t) else Some (Inr p, t)
     }"

definition map_erase ::
  "(unit, 'r) reclaimer_ops \<Rightarrow> ('k \<Rightarrow> 'k \<Rightarrow> bool) \<Rightarrow> thread \<Rightarrow> push \<Rightarrow> 'k \<Rightarrow> ('k, 'v, 'r) tree \<Rightarrow>
   ((exn + u64) \<times> ('k, 'v, 'r) tree) option" where
  "map_erase rc cmp th pu k t =
     do {
       (r, t) \<leftarrow> erase_node rc cmp th pu k t;
       Some (case r of Inl e \<Rightarrow> Inl e | Inr b \<Rightarrow> Inr (if b then 1 else 0), t)
     }"

definition map_clear :: "thread \<Rightarrow> ('k, 'v, 'r) tree \<Rightarrow> ('k, 'v, 'r) tree option" where
  "map_clear th t = clear_impl th t"

subsection \<open>Lookup and bounds\<close>

definition map_find ::
  "('act, 'r) reclaimer_ops \<Rightarrow> ('k \<Rightarrow> 'k \<Rightarrow> bool) \<Rightarrow> ptr \<Rightarrow> 'k \<Rightarrow> 'k \<Rightarrow> ('k, 'v, 'r) tree \<Rightarrow>
   ('k iter \<times> ('k, 'v, 'r) tree) option" where
  "map_find rc cmp self dk k t =
     do { (n, t) \<leftarrow> find_node rc cmp k t;
          Some (if n \<noteq> None then iter_at self k else iter_end self dk, t) }"

definition map_contains ::
  "('act, 'r) reclaimer_ops \<Rightarrow> ('k \<Rightarrow> 'k \<Rightarrow> bool) \<Rightarrow> 'k \<Rightarrow> ('k, 'v, 'r) tree \<Rightarrow>
   (bool \<times> ('k, 'v, 'r) tree) option" where
  "map_contains rc cmp k t = do { (n, t) \<leftarrow> find_node rc cmp k t; Some (n \<noteq> None, t) }"

definition map_count ::
  "('act, 'r) reclaimer_ops \<Rightarrow> ('k \<Rightarrow> 'k \<Rightarrow> bool) \<Rightarrow> 'k \<Rightarrow> ('k, 'v, 'r) tree \<Rightarrow>
   (u64 \<times> ('k, 'v, 'r) tree) option" where
  "map_count rc cmp k t = do { (b, t) \<leftarrow> map_contains rc cmp k t; Some (if b then 1 else 0, t) }"

definition map_bound ::
  "('act, 'r) reclaimer_ops \<Rightarrow> ('k \<Rightarrow> 'k \<Rightarrow> bool) \<Rightarrow> ptr \<Rightarrow> 'k \<Rightarrow> bool \<Rightarrow> 'k \<Rightarrow> ('k, 'v, 'r) tree \<Rightarrow>
   ('k iter \<times> ('k, 'v, 'r) tree) option" where
  "map_bound rc cmp self dk strict k t =
     do { (info, t) \<leftarrow> bound_node rc cmp k strict t;
          Some (case info of Some k' \<Rightarrow> iter_at self k' | None \<Rightarrow> iter_end self dk, t) }"

definition map_lower_bound where
  "map_lower_bound rc cmp self dk k t = map_bound rc cmp self dk False k t"

definition map_upper_bound where
  "map_upper_bound rc cmp self dk k t = map_bound rc cmp self dk True k t"

definition map_equal_range ::
  "('act, 'r) reclaimer_ops \<Rightarrow> ('k \<Rightarrow> 'k \<Rightarrow> bool) \<Rightarrow> ptr \<Rightarrow> 'k \<Rightarrow> 'k \<Rightarrow> ('k, 'v, 'r) tree \<Rightarrow>
   (('k iter \<times> 'k iter) \<times> ('k, 'v, 'r) tree) option" where
  "map_equal_range rc cmp self dk k t =
     do { (lb, t) \<leftarrow> map_lower_bound rc cmp self dk k t;
          (ub, t) \<leftarrow> map_upper_bound rc cmp self dk k t;
          Some ((lb, ub), t) }"

subsection \<open>Iterators\<close>

definition map_begin ::
  "('act, 'r) reclaimer_ops \<Rightarrow> ptr \<Rightarrow> 'k \<Rightarrow> ('k, 'v, 'r) tree \<Rightarrow> ('k iter \<times> ('k, 'v, 'r) tree) option" where
  "map_begin rc self dk t =
     do { (info, t) \<leftarrow> first_node rc t;
          Some (case info of Some k \<Rightarrow> iter_at self k | None \<Rightarrow> iter_end self dk, t) }"

definition iter_eq :: "('k \<Rightarrow> 'k \<Rightarrow> bool) \<Rightarrow> 'k iter \<Rightarrow> 'k iter \<Rightarrow> bool" where
  "iter_eq cmp i j =
     (if it_owner i \<noteq> it_owner j \<or> it_is_end i \<noteq> it_is_end j then False
      else if it_is_end i then True
      else \<not> cmp (it_key i) (it_key j) \<and> \<not> cmp (it_key j) (it_key i))"

definition iter_neq :: "('k \<Rightarrow> 'k \<Rightarrow> bool) \<Rightarrow> 'k iter \<Rightarrow> 'k iter \<Rightarrow> bool" where
  "iter_neq cmp i j = (\<not> iter_eq cmp i j)"

definition iter_resolve ::
  "('act, 'r) reclaimer_ops \<Rightarrow> ('k \<Rightarrow> 'k \<Rightarrow> bool) \<Rightarrow> 'k iter \<Rightarrow> ('k, 'v, 'r) tree \<Rightarrow>
   (ptr \<times> ('k, 'v, 'r) tree) option" where
  "iter_resolve rc cmp i t = find_value_ptr rc cmp (it_key i) t"

text \<open>\<open>operator*\<close>: undefined when the key is gone (the null pointer is dereferenced).\<close>

definition iter_deref ::
  "('act, 'r) reclaimer_ops \<Rightarrow> ('k \<Rightarrow> 'k \<Rightarrow> bool) \<Rightarrow> 'k iter \<Rightarrow> ('k, 'v, 'r) tree \<Rightarrow>
   (('k \<times> 'v) \<times> ('k, 'v, 'r) tree) option" where
  "iter_deref rc cmp i t =
     do { (p, t) \<leftarrow> iter_resolve rc cmp i t;
          nd \<leftarrow> node_at t p;
          Some ((n_key nd, n_value nd), t) }"

definition iter_advance ::
  "('act, 'r) reclaimer_ops \<Rightarrow> ('k \<Rightarrow> 'k \<Rightarrow> bool) \<Rightarrow> 'k iter \<Rightarrow> ('k, 'v, 'r) tree \<Rightarrow>
   ('k iter \<times> ('k, 'v, 'r) tree) option" where
  "iter_advance rc cmp i t =
     do { (info, t) \<leftarrow> next_node rc cmp (it_key i) t;
          Some (case info of Some k \<Rightarrow> i\<lparr>it_key := k\<rparr> | None \<Rightarrow> i\<lparr>it_is_end := True\<rparr>, t) }"

definition iter_post_inc ::
  "('act, 'r) reclaimer_ops \<Rightarrow> ('k \<Rightarrow> 'k \<Rightarrow> bool) \<Rightarrow> 'k iter \<Rightarrow> ('k, 'v, 'r) tree \<Rightarrow>
   (('k iter \<times> 'k iter) \<times> ('k, 'v, 'r) tree) option" where
  "iter_post_inc rc cmp i t =
     do { let tmp = i; (i, t) \<leftarrow> iter_advance rc cmp i t; Some ((tmp, i), t) }"

definition const_iterator_to_iterator :: "'k iter \<Rightarrow> 'k iter" where
  "const_iterator_to_iterator c = iter_at (it_owner c) (it_key c)"

definition map_erase_at ::
  "(unit, 'r) reclaimer_ops \<Rightarrow> ('k \<Rightarrow> 'k \<Rightarrow> bool) \<Rightarrow> thread \<Rightarrow> push \<Rightarrow> 'k iter \<Rightarrow> ('k, 'v, 'r) tree \<Rightarrow>
   ((exn + 'k iter) \<times> ('k, 'v, 'r) tree) option" where
  "map_erase_at rc cmp th pu pos t =
     do {
       let nxt = const_iterator_to_iterator pos;
       (nxt, t) \<leftarrow> iter_advance rc cmp nxt t;
       if \<not> it_is_end pos then do {
         (r, t) \<leftarrow> erase_node rc cmp th pu (it_key pos) t;
         Some (case r of Inl e \<Rightarrow> Inl e | Inr _ \<Rightarrow> Inr nxt, t)
       }
       else Some (Inr nxt, t)
     }"

text \<open>A loop \<open>for (it = begin(); it != end(); ++it)\<close> that collects \<open>*it\<close>, at most \<open>n\<close> steps.\<close>

fun iter_collect ::
  "('act, 'r) reclaimer_ops \<Rightarrow> ('k \<Rightarrow> 'k \<Rightarrow> bool) \<Rightarrow> nat \<Rightarrow> 'k iter \<Rightarrow> ('k, 'v, 'r) tree \<Rightarrow>
   (('k \<times> 'v) list \<times> 'k iter \<times> ('k, 'v, 'r) tree) option" where
  "iter_collect rc cmp 0 i t = Some ([], i, t)"
| "iter_collect rc cmp (Suc n) i t =
     (if iter_neq cmp i (iter_end (it_owner i) (it_key i)) then do {
        (e, t) \<leftarrow> iter_deref rc cmp i t;
        (i, t) \<leftarrow> iter_advance rc cmp i t;
        (es, i, t) \<leftarrow> iter_collect rc cmp n i t;
        Some (e # es, i, t)
      }
      else Some ([], i, t))"

end
