(* ===== verification/MapSpec.thy ===== *)
theory MapSpec
  imports MapModel
begin

section \<open>What the ordered containers promise\<close>

text \<open>
  Each operation of \<open>mpmc::map\<close> against the list of entries in key order, for every reclaimer
  that meets its contract and every comparator that is a strict weak order. \<open>W\<close> are the nodes
  of other containers of the same type, which share memory, pool and reclaimer.
\<close>

subsection \<open>Assigning a value\<close>

fun upd :: "ptr \<Rightarrow> 'v \<Rightarrow> ('k, 'v) data gtree \<Rightarrow> ('k, 'v) data gtree" where
  "upd p v Leaf = Leaf"
| "upd p v (Nd a c d l r) = Nd a c (if a = p then (fst d, v, snd (snd d)) else d) (upd p v l) (upd p v r)"

lemma upd_simps [simp]:
  "rp (upd p v g) = rp g" "gcolor (upd p v g) = gcolor g" "nodes_of (upd p v g) = nodes_of g"
  "tdist (upd p v g) = tdist g" "rbt n (upd p v g) = rbt n g" "length (items (upd p v g)) = length (items g)"
proof -
  show rp: "rp (upd p v g) = rp g" and col: "gcolor (upd p v g) = gcolor g" for g by (cases g; simp)+
  show nd: "nodes_of (upd p v g) = nodes_of g" for g by (induction g) auto
  show "tdist (upd p v g) = tdist g" by (induction g) (auto simp: nd)
  show "length (items (upd p v g)) = length (items g)" by (induction g) auto
  show "rbt n (upd p v g) = rbt n g" by (induction n g rule: rbt.induct) (auto simp: col)
qed

lemma upd_other: "p \<notin> nodes_of g \<Longrightarrow> upd p v g = g"
  by (induction g) auto

lemma upd_tree_at:
  assumes "tree_at t g" and "tdist g" and "node_at t p = Some nd"
  shows "tree_at (put_node p (nd\<lparr>n_value := v\<rparr>) t) (upd p v g)"
  using assms
proof (induction g)
  case (Nd a c d l r)
  have p0: "p \<noteq> 0" using assms(3) by auto
  show ?case
  proof (cases "a = p")
    case True
    then have "nd\<lparr>n_value := v\<rparr> = mk_node (rp l) (rp r) False c (fst d, v, snd (snd d))"
      using Nd.prems by (simp add: mk_node_def)
    then show ?thesis using Nd.prems True p0 by (simp add: upd_other)
  qed (use Nd in simp)
qed simp

lemma upd_entries:
  "tdist g \<Longrightarrow> entries (upd p v g) = map (\<lambda>(a, d). (fst d, if a = p then v else fst (snd d))) (items g)"
  by (induction g) (auto simp: entries_def)

lemma find_entry_same: "find_entry cmp k es = Some e \<Longrightarrow> same_key cmp k (fst e)"
  by (auto simp: find_entry_def find_Some_iff)

lemma find_entry_mem: "find_entry cmp k es = Some e \<Longrightarrow> e \<in> set es"
  by (auto simp: find_entry_def find_Some_iff)

lemma sorted_wrt_unique:
  "sorted_wrt R xs \<Longrightarrow> x \<in> set xs \<Longrightarrow> y \<in> set xs \<Longrightarrow> \<not> R x y \<Longrightarrow> \<not> R y x \<Longrightarrow> x = y"
  by (induction xs) auto

lemma find_unique:
  assumes "find_entry cmp k (map entry xs) = Some (entry (a, d))" and "(a, d) \<in> set xs"
    and "distinct (map fst xs)" and "\<And>x y. x \<in> set xs \<Longrightarrow> y \<in> set xs \<Longrightarrow> same_key cmp k (fst (snd x)) \<Longrightarrow>
      same_key cmp k (fst (snd y)) \<Longrightarrow> x = y"
  shows "map (\<lambda>(b, d'). (fst d', if b = a then v else fst (snd d'))) xs = set_entry cmp k v (map entry xs)"
proof -
  have same: "same_key cmp k (fst d)"
    using find_entry_same [OF assms(1)] by simp
  have "same_key cmp k (fst d') \<longleftrightarrow> b = a" if "(b, d') \<in> set xs" for b d'
  proof
    assume "same_key cmp k (fst d')"
    then have "(b, d') = (a, d)" using assms(4) [OF that assms(2)] same by simp
    then show "b = a" by simp
  next
    assume "b = a"
    then have "(b, d') = (a, d)" using assms(2,3) that by (metis eq_key_imp_eq_value prod.inject)
    then show "same_key cmp k (fst d')" using same by simp
  qed
  then show ?thesis by (auto simp: set_entry_def)
qed

context tree_engine
begin

lemma same_unique:
  assumes "sorted_entries cmp (entries g)" and "x \<in> set (items g)" and "y \<in> set (items g)"
    and "same_key cmp k (fst (snd x))" and "same_key cmp k (fst (snd y))"
  shows "x = y"
proof -
  have "same_key cmp (fst (snd x)) (fst (snd y))" using assms(4,5) same_trans same_sym by blast
  moreover have "sorted_wrt (\<lambda>x y. cmp (fst (snd x)) (fst (snd y))) (items g)"
    using assms(1) by (simp add: sorted_entries_def entries_def sorted_wrt_map)
  ultimately show ?thesis
    using sorted_wrt_unique assms(2,3) by (fastforce simp: same_key_def)
qed

subsection \<open>Allocating, building and destroying a node\<close>

lemma engine_kept:
  assumes "engine W t g" and "kept (nodes_of g \<union> W) t t'" and "mem_ok ok pd t' (nodes_of g \<union> V)"
    and "nodes_of g \<inter> V = {}"
  shows "engine V t' g"
  using assms kept_tree_rel [OF assms(2), of g] by (auto simp: engine_ok_def kept_def)

lemma alloc_engine:
  assumes e: "engine W t g" and blk: "\<And>b. blk = Some b \<Longrightarrow> fresh_block (t_mem t) b"
  shows "\<exists>r t'. alloc_node th blk pl t = Some (r, t') \<and> others W t t' \<and>
    (case r of Inl x \<Rightarrow> x = Bad_alloc \<and> blk = None \<and> engine W t' g
     | Inr n \<Rightarrow> n \<notin> W \<and> engine (insert n W) t' g \<and>
         node_at t' n = Some (mk_node 0 0 False RED (fst pl, snd pl, t_na t)))"
proof -
  note E = engineD [OF e]
  obtain r t' where r: "alloc_node th blk pl t = Some (r, t')" "kept (nodes_of g \<union> W) t t'"
    "case r of Inl x \<Rightarrow> x = Bad_alloc \<and> blk = None \<and> mem_ok ok pd t' (nodes_of g \<union> W)
     | Inr n \<Rightarrow> n \<notin> nodes_of g \<union> W \<and> node_at t' n = Some (mk_node 0 0 False RED (fst pl, snd pl, t_na t)) \<and>
         mem_ok ok pd t' (insert n (nodes_of g \<union> W))"
    using alloc_spec [OF E(5), where blk = blk and th = th and pl = pl] blk by blast
  have "others W t t'" using r(2) by (rule kept_others) simp
  then show ?thesis using r E(4) engine_kept [OF e r(2)] by (cases r) auto
qed

lemma destroy_engine:
  assumes e: "engine (insert n W) t g" and n: "n \<notin> W"
  shows "\<exists>t'. destroy_node th n t = Some t' \<and> engine W t' g \<and> others W t t'"
proof -
  note E = engineD [OF e]
  have m: "mem_ok ok pd t (insert n (nodes_of g \<union> W))" using E(5) by simp
  have n': "n \<notin> nodes_of g \<union> W" using E(4) n by blast
  obtain t' where t': "free_node th n t = Some t'" "mem_ok ok pd t' (nodes_of g \<union> W)"
    "kept (nodes_of g \<union> W) t t'" using destroy_spec [OF m n', of th] by blast
  have "engine W t' g"
    using e t'(2,3) E(4) kept_tree_rel [OF t'(3), of g] by (auto simp: engine_ok_def kept_def)
  moreover have "others W t t'" using t'(3) by (rule kept_others) simp
  ultimately show ?thesis using t'(1) by (auto simp: destroy_node_def)
qed

lemma construct_engine:
  assumes e: "engine (insert n W) t g" and n: "n \<notin> W"
    and nd: "node_at t n = Some (mk_node 0 0 False c (k0, v0, ow))"
  shows "\<exists>t'. construct_payload n k v t = Some t' \<and> engine (insert n W) t' g \<and> others W t t' \<and>
    node_at t' n = Some (mk_node 0 0 False c (k, v, ow)) \<and> t_na t' = t_na t"
proof -
  note E = engineD [OF e]
  define t' where "t' = put_node n (mk_node 0 0 False c (k, v, ow)) t"
  have n0: "n \<noteq> 0" using nd by auto
  have "construct_payload n k v t = Some t'"
    using nd by (simp add: construct_payload_def t'_def) (simp add: mk_node_def)
  moreover have "node_live t n" using mem_ok_live [OF E(5), of n] by simp
  then have lv: "node_live t' n" using nd n0 by (simp add: node_live_def t'_def)
  have same: "same_but {n} t t'" by (simp add: t'_def)
  have m: "mem_ok ok pd t' (nodes_of g \<union> insert n W)"
    using mem_ok_same [OF E(5) same] lv by auto
  have k: "kept (nodes_of g \<union> W) t t'" using E(4) n by (auto simp: kept_def t'_def)
  then have "engine (insert n W) t' g"
    using e m kept_tree_rel [OF k, of g] by (auto simp: engine_ok_def kept_def)
  moreover have "others W t t'" using k by (rule kept_others) simp
  moreover have "node_at t' n = Some (mk_node 0 0 False c (k, v, ow))" "t_na t' = t_na t"
    using n0 by (simp_all add: t'_def)
  ultimately show ?thesis by blast
qed

text \<open>Linking a node that was just built, or giving it back.\<close>

lemma insert_new:
  assumes e: "engine (insert n W) t g" and n: "n \<notin> W"
    and nd: "node_at t n = Some (mk_node 0 0 False c (k, v, ow))"
  shows "returns (insert_node cmp n k t) (\<lambda>(b, t').
    if find_entry cmp k (entries g) = None
    then b \<and> (\<exists>g'. engine W t' g' \<and> entries g' = ins_entry cmp k v (entries g) \<and>
      (n, k, v, ow) \<in> set (items g')) \<and> others W t t'
    else \<not> b \<and> (\<exists>t2. destroy_node th n t' = Some t2 \<and> engine W t2 g \<and> others W t t2))"
proof (rule returns_mono [OF insert_refines [OF e n nd]])
  fix r
  assume r: "case r of (b, t') \<Rightarrow> if find_entry cmp k (entries g) = None
     then b \<and> (\<exists>g'. engine W t' g' \<and> entries g' = ins_entry cmp k v (entries g) \<and>
      (n, k, v, ow) \<in> set (items g') \<and> others W t t')
     else \<not> b \<and> engine (insert n W) t' g \<and> others (insert n W) t t'"
  obtain b t' where bt: "r = (b, t')" by (cases r)
  show "case r of (b, t') \<Rightarrow> if find_entry cmp k (entries g) = None
    then b \<and> (\<exists>g'. engine W t' g' \<and> entries g' = ins_entry cmp k v (entries g) \<and>
      (n, k, v, ow) \<in> set (items g')) \<and> others W t t'
    else \<not> b \<and> (\<exists>t2. destroy_node th n t' = Some t2 \<and> engine W t2 g \<and> others W t t2)"
  proof (cases "find_entry cmp k (entries g) = None")
    case True
    then show ?thesis using r by (auto simp: bt)
  next
    case False
    then have e': "engine (insert n W) t' g" "others W t t'" and b: "\<not> b"
      using r by (auto simp: bt others_def)
    obtain t2 where "destroy_node th n t' = Some t2" "engine W t2 g" "others W t' t2"
      using destroy_engine [OF e'(1) n] by blast
    then show ?thesis using False b others_trans [OF e'(2)] by (auto simp: bt)
  qed
qed

subsection \<open>Insertion\<close>

text \<open>The outcome of \<open>emplace\<close> and what is built on it.\<close>

definition emplaced ::
  "ptr set \<Rightarrow> ptr \<Rightarrow> ptr option \<Rightarrow> ('k \<times> 'v) option \<Rightarrow> ('k, 'v, 'r) tree \<Rightarrow> ('k, 'v) data gtree \<Rightarrow>
   (exn + 'k iter \<times> bool) \<times> ('k, 'v, 'r) tree \<Rightarrow> bool" where
  "emplaced W self blk args t g = (\<lambda>(r, t'). others W t t' \<and>
     (case r of
        Inl x \<Rightarrow> (x = Bad_alloc \<and> blk = None \<or> x = Payload_throws \<and> args = None) \<and> engine W t' g
      | Inr (it, b) \<Rightarrow> \<exists>k v. args = Some (k, v) \<and> it = iter_at self k \<and>
          (if find_entry cmp k (entries g) = None
           then b \<and> (\<exists>g'. engine W t' g' \<and> entries g' = ins_entry cmp k v (entries g))
           else \<not> b \<and> engine W t' g)))"

lemma emplace_spec:
  assumes e: "engine W t g" and blk: "\<And>b. blk = Some b \<Longrightarrow> fresh_block (t_mem t) b"
  shows "returns (map_emplace cmp th self blk dflt args t) (emplaced W self blk args t g)"
proof -
  obtain r t1 where a: "alloc_node th blk dflt t = Some (r, t1)" "others W t t1"
    "case r of Inl x \<Rightarrow> x = Bad_alloc \<and> blk = None \<and> engine W t1 g
     | Inr n \<Rightarrow> n \<notin> W \<and> engine (insert n W) t1 g \<and>
         node_at t1 n = Some (mk_node 0 0 False RED (fst dflt, snd dflt, t_na t))"
    using alloc_engine [OF e, where blk = blk and th = th and pl = dflt] blk by blast
  show ?thesis
  proof (cases r)
    case (Inl x)
    then show ?thesis using a by (simp add: map_emplace_def emplaced_def)
  next
    case (Inr n)
    then have n: "n \<notin> W" "engine (insert n W) t1 g"
      "node_at t1 n = Some (mk_node 0 0 False RED (fst dflt, snd dflt, t_na t))" using a(3) by simp_all
    show ?thesis
    proof (cases args)
      case None
      obtain t2 where "destroy_node th n t1 = Some t2" "engine W t2 g" "others W t1 t2"
        using destroy_engine [OF n(2,1)] by blast
      then show ?thesis using a(1) Inr None others_trans [OF a(2)]
        by (simp add: map_emplace_def emplaced_def)
    next
      case (Some kv)
      obtain k v where kv: "args = Some (k, v)" using Some by (cases kv) simp
      obtain t2 where t2: "construct_payload n k v t1 = Some t2" "engine (insert n W) t2 g" "others W t1 t2"
        "node_at t2 n = Some (mk_node 0 0 False RED (k, v, t_na t))"
        using construct_engine [OF n(2,1,3)] by blast
      have o2: "others W t t2" using others_trans [OF a(2) t2(3)] .
      have run: "map_emplace cmp th self blk dflt args t = do {
          (b, t) \<leftarrow> insert_node cmp n k t2;
          if b then Some (Inr (iter_at self k, True), t)
          else do { t \<leftarrow> destroy_node th n t; Some (Inr (iter_at self k, False), t) } }"
        using a(1) t2(1,4) Inr by (simp add: map_emplace_def kv)
      show ?thesis unfolding run returns_simps(3)
        by (rule returns_mono [OF insert_new [OF t2(2) n(1) t2(4), of th]])
          (auto simp: emplaced_def kv split: if_splits dest: others_trans [OF o2])
    qed
  qed
qed


text \<open>Assigning to the value of a present key.\<close>

lemma assign_spec:
  assumes e: "engine W t g" and f: "find_entry cmp k (entries g) = Some (entry (p, d))"
    and p: "(p, d) \<in> set (items g)"
  shows "\<exists>t'. assign_value p v t = Some t' \<and> engine W t' (upd p v g) \<and>
    entries (upd p v g) = set_entry cmp k v (entries g) \<and> others W t t'"
proof -
  note E = engineD [OF e]
  have td: "tdist g" using E(1) by (simp add: tree_rel_def)
  have pn: "p \<in> nodes_of g" using p by (metis fst_conv image_eqI set_ptrs)
  then have lv: "node_live t p" using mem_ok_live [OF E(5)] by blast
  then obtain nd where nd: "node_at t p = Some nd" "live (t_mem t) p = Some (n_owner nd)"
    by (auto simp: node_live_def)
  define t' where "t' = put_node p (nd\<lparr>n_value := v\<rparr>) t"
  have run: "assign_value p v t = Some t'" using nd(1) by (simp add: assign_value_def t'_def)
  have same: "same_but {p} t t'" by (simp add: t'_def)
  have p0: "p \<noteq> 0" using nd(1) by auto
  have "node_live t' p" using nd p0 by (simp add: node_live_def t'_def)
  then have m: "mem_ok ok pd t' (nodes_of g \<union> W)" using mem_ok_same [OF E(5) same] pn by auto
  have "tree_at t' (upd p v g)" unfolding t'_def by (rule upd_tree_at [OF E(7) td nd(1)])
  then have rel: "tree_rel t' (upd p v g)" using E(1)
    by (simp add: tree_rel_def red_black_def balanced_def t'_def)
  have "map (\<lambda>(a, d). (fst d, if a = p then v else fst (snd d))) (items g) = set_entry cmp k v (map entry (items g))"
  proof (rule find_unique)
    show "find_entry cmp k (map entry (items g)) = Some (entry (p, d))" using f by (simp add: entries_def)
    show "(p, d) \<in> set (items g)" by fact
    show "distinct (map fst (items g))" using td by (simp add: tdist_iff)
    show "x = y" if "x \<in> set (items g)" "y \<in> set (items g)" "same_key cmp k (fst (snd x))"
      "same_key cmp k (fst (snd y))" for x y
      using same_unique [OF E(2) that] .
  qed
  then have es: "entries (upd p v g) = set_entry cmp k v (entries g)"
    unfolding upd_entries [OF td] by (simp add: entries_def)
  have "engine W t' (upd p v g)"
    using E rel m set_sorted [OF E(2), of k v] by (simp add: engine_ok_def es t'_def)
  moreover have "others W t t'" using pn E(4) by (auto simp: others_def t'_def)
  ultimately show ?thesis using run es by blast
qed

lemma engine_reads_others: "reads t t' \<Longrightarrow> others W t t'"
  by (auto simp: reads_def others_def)

lemma insert_or_assign_spec:
  assumes e: "engine W t g" and blk: "\<And>b. blk = Some b \<Longrightarrow> fresh_block (t_mem t) b"
  shows "returns (map_insert_or_assign rc cmp th self blk dflt moved k obj t) (\<lambda>(r, t'). others W t t' \<and>
    (case r of
       Inl x \<Rightarrow> x = Bad_alloc \<and> blk = None \<and> engine W t' g
     | Inr (it, b) \<Rightarrow> it = iter_at self k \<and> b = (find_entry cmp k (entries g) = None) \<and>
         (\<exists>g'. engine W t' g' \<and> entries g' = (if b then ins_entry cmp k obj (entries g)
           else set_entry cmp k (moved obj) (entries g)))))"
proof -
  have step: "returns (case r of
         Inl e \<Rightarrow> Some (Inl e, t1)
       | Inr (it, inserted) \<Rightarrow>
           if \<not> inserted then do {
             (p, t) \<leftarrow> find_value_ptr rc cmp k t1;
             t \<leftarrow> (if p \<noteq> 0 then assign_value p (moved obj) t else Some t);
             Some (Inr (it, inserted), t)
           }
           else Some (Inr (it, inserted), t1)) (\<lambda>(r, t'). others W t t' \<and>
    (case r of
       Inl x \<Rightarrow> x = Bad_alloc \<and> blk = None \<and> engine W t' g
     | Inr (it, b) \<Rightarrow> it = iter_at self k \<and> b = (find_entry cmp k (entries g) = None) \<and>
         (\<exists>g'. engine W t' g' \<and> entries g' = (if b then ins_entry cmp k obj (entries g)
           else set_entry cmp k (moved obj) (entries g)))))"
    if post: "emplaced W self blk (Some (k, obj)) t g (r, t1)" for r t1
  proof (cases r)
    case (Inl x)
    then show ?thesis using post by (simp add: emplaced_def)
  next
    case (Inr ib)
    obtain it b where ib: "ib = (it, b)" by (cases ib)
    have p: "others W t t1" "it = iter_at self k"
      "if find_entry cmp k (entries g) = None
       then b \<and> (\<exists>g'. engine W t1 g' \<and> entries g' = ins_entry cmp k obj (entries g))
       else \<not> b \<and> engine W t1 g" using post Inr by (auto simp: emplaced_def ib)
    show ?thesis
    proof (cases "find_entry cmp k (entries g)")
      case None
      then show ?thesis using p Inr by (simp add: ib)
    next
      case (Some x)
      have e1: "engine W t1 g" and b: "\<not> b" using p(3) Some by simp_all
      have "returns (find_value_ptr rc cmp k t1) (\<lambda>(q, t2).
        returns (if q \<noteq> 0 then assign_value q (moved obj) t2 else Some t2) (\<lambda>t'. others W t t' \<and>
          (\<exists>g'. engine W t' g' \<and> entries g' = set_entry cmp k (moved obj) (entries g))))"
      proof (rule returns_mono [OF find_value_ptr_spec [OF e1, of k]])
        fix qt
        assume q: "case qt of (p, t') \<Rightarrow> reads t1 t' \<and> (case find_entry cmp k (entries g) of None \<Rightarrow> p = 0
          | Some x \<Rightarrow> p \<noteq> 0 \<and> (\<exists>d. (p, d) \<in> set (items g) \<and> entry (p, d) = x))"
        obtain q t2 where qt: "qt = (q, t2)" by (cases qt)
        obtain d where d: "reads t1 t2" "q \<noteq> 0" "(q, d) \<in> set (items g)" "entry (q, d) = x"
          using q Some by (auto simp: qt simp del: split_paired_Ex)
        have f: "find_entry cmp k (entries g) = Some (entry (q, d))" using Some d(4) by simp
        obtain t' where "assign_value q (moved obj) t2 = Some t'" "engine W t' (upd q (moved obj) g)"
          "entries (upd q (moved obj) g) = set_entry cmp k (moved obj) (entries g)" "others W t2 t'"
          using assign_spec [OF reads_engine [OF e1 d(1)] f d(3)] by blast
        then show "case qt of (q, t2) \<Rightarrow> returns (if q \<noteq> 0 then assign_value q (moved obj) t2 else Some t2)
          (\<lambda>t'. others W t t' \<and> (\<exists>g'. engine W t' g' \<and> entries g' = set_entry cmp k (moved obj) (entries g)))"
          using d(2) others_trans [OF p(1) others_trans [OF engine_reads_others [OF d(1)]]] by (auto simp: qt)
      qed
      then show ?thesis using p(2) b Some Inr by (simp add: ib)
    qed
  qed
  show ?thesis
    unfolding map_insert_or_assign_def map_try_emplace_def option.map(2) returns_simps(3)
    by (rule returns_mono [OF emplace_spec [OF e blk]]) (auto simp only: returns_case_prod prod.case intro!: step)
qed


subsection \<open>References\<close>

text \<open>\<open>refers W t k v p\<close>: the reference \<open>p\<close> is to the value of an entry with key \<open>k\<close>.\<close>

lemma index_spec:
  assumes e: "engine W t g" and blk: "\<And>b. blk = Some b \<Longrightarrow> fresh_block (t_mem t) b"
  shows "returns (map_index rc cmp th blk dflt dv k t) (\<lambda>(r, t'). others W t t' \<and>
    (case find_entry cmp k (entries g) of
       Some x \<Rightarrow> \<exists>p d. r = Inr p \<and> engine W t' g \<and> (p, d) \<in> set (items g) \<and> entry (p, d) = x
     | None \<Rightarrow>
         (case r of
            Inl x \<Rightarrow> x = Bad_alloc \<and> blk = None \<and> engine W t' g \<or>
              x = Payload_throws \<and> dv = None \<and> (\<exists>n. n \<notin> W \<and> engine (insert n W) t' g)
          | Inr p \<Rightarrow> \<exists>v g' ow. dv = Some v \<and> engine W t' g' \<and> entries g' = ins_entry cmp k v (entries g) \<and>
              (p, k, v, ow) \<in> set (items g'))))"
    (is "returns _ ?Q")
proof -
  have step: "returns (if p \<noteq> 0 then Some (Inr p, t1)
       else do {
         (r, t) \<leftarrow> alloc_node th blk dflt t1;
         case r of
           Inl e \<Rightarrow> Some (Inl e, t)
         | Inr n \<Rightarrow>
             (case dv of
                None \<Rightarrow> Some (Inl Payload_throws, t)
              | Some v \<Rightarrow> do {
                  t \<leftarrow> construct_payload n k v t;
                  (b, t) \<leftarrow> insert_node cmp n k t;
                  if b then Some (Inr n, t)
                  else do {
                    t \<leftarrow> destroy_node th n t;
                    (p, t) \<leftarrow> find_value_ptr rc cmp k t;
                    if p = 0 then None else Some (Inr p, t)
                  }
                })
       }) ?Q"
    if r1: "reads t t1" and post: "case find_entry cmp k (entries g) of None \<Rightarrow> p = 0
      | Some x \<Rightarrow> p \<noteq> 0 \<and> (\<exists>d. (p, d) \<in> set (items g) \<and> entry (p, d) = x)" for p t1
  proof (cases "find_entry cmp k (entries g)")
    case (Some x)
    then obtain d where "p \<noteq> 0" "(p, d) \<in> set (items g)" "entry (p, d) = x" using post
      by (auto simp del: split_paired_Ex)
    then show ?thesis using Some reads_engine [OF e r1] engine_reads_others [OF r1]
      by (simp del: split_paired_Ex) blast
  next
    case None
    then have p0: "p = 0" using post by simp
    have e1: "engine W t1 g" and o1: "others W t t1"
      using reads_engine [OF e r1] engine_reads_others [OF r1] by simp_all
    have blk1: "fresh_block (t_mem t1) b" if "blk = Some b" for b
      using blk [OF that] reads_simps(2) [OF r1] by simp
    obtain r t2 where a: "alloc_node th blk dflt t1 = Some (r, t2)" "others W t1 t2"
      "case r of Inl x \<Rightarrow> x = Bad_alloc \<and> blk = None \<and> engine W t2 g
       | Inr n \<Rightarrow> n \<notin> W \<and> engine (insert n W) t2 g \<and>
           node_at t2 n = Some (mk_node 0 0 False RED (fst dflt, snd dflt, t_na t1))"
      using alloc_engine [OF e1, where blk = blk and th = th and pl = dflt] blk1 by blast
    have o2: "others W t t2" using others_trans [OF o1 a(2)] .
    show ?thesis
    proof (cases r)
      case (Inl x)
      then show ?thesis using a(1,3) o2 p0 None by simp
    next
      case (Inr n)
      then have n: "n \<notin> W" "engine (insert n W) t2 g"
        "node_at t2 n = Some (mk_node 0 0 False RED (fst dflt, snd dflt, t_na t1))" using a(3) by simp_all
      show ?thesis
      proof (cases dv)
        case None
        then show ?thesis using a(1) n o2 p0 \<open>find_entry cmp k (entries g) = None\<close> Inr by auto
      next
        case (Some v)
        obtain t3 where t3: "construct_payload n k v t2 = Some t3" "engine (insert n W) t3 g" "others W t2 t3"
          "node_at t3 n = Some (mk_node 0 0 False RED (k, v, t_na t1))"
          using construct_engine [OF n(2,1,3)] by blast
        have o3: "others W t t3" using others_trans [OF o2 t3(3)] .
        have ins: "returns (insert_node cmp n k t3) (\<lambda>(b, t4). b \<and>
          (\<exists>g'. engine W t4 g' \<and> entries g' = ins_entry cmp k v (entries g) \<and>
            (n, k, v, t_na t1) \<in> set (items g')) \<and> others W t t4)"
          using insert_new [OF t3(2) n(1) t3(4), of th] None
          by (auto elim!: returns_mono dest: others_trans [OF o3])
        show ?thesis
          using a(1) t3(1) p0 Inr Some None
          by (simp add: returns_mono [OF ins] del: split_paired_Ex) (rule returns_mono [OF ins], auto)
      qed
    qed
  qed
  show ?thesis
    unfolding map_index_def returns_simps(3)
    by (rule returns_mono [OF find_value_ptr_spec [OF e]]) (auto simp only: returns_case_prod prod.case intro!: step)
qed

lemma at_spec:
  assumes e: "engine W t g"
  shows "returns (map_at rc cmp k t) (\<lambda>(r, t'). engine W t' g \<and> others W t t' \<and>
    (case find_entry cmp k (entries g) of
       None \<Rightarrow> r = Inl Out_of_range
     | Some x \<Rightarrow> \<exists>p d. r = Inr p \<and> (p, d) \<in> set (items g) \<and> entry (p, d) = x))"
  unfolding map_at_def returns_simps(3)
proof (rule returns_mono [OF find_value_ptr_spec [OF e]])
  fix pt
  assume p: "case pt of (p, t') \<Rightarrow> reads t t' \<and> (case find_entry cmp k (entries g) of
       None \<Rightarrow> p = 0
     | Some x \<Rightarrow> p \<noteq> 0 \<and> (\<exists>d. (p, d) \<in> set (items g) \<and> entry (p, d) = x))"
  obtain q t1 where pt: "pt = (q, t1)" by (cases pt)
  have r1: "reads t t1" using p by (simp add: pt)
  have "engine W t1 g" "others W t t1" using reads_engine [OF e r1] engine_reads_others [OF r1] by simp_all
  then show "returns (case pt of (p, t) \<Rightarrow> if p = 0 then Some (Inl Out_of_range, t) else Some (Inr p, t))
    (\<lambda>(r, t'). engine W t' g \<and> others W t t' \<and>
    (case find_entry cmp k (entries g) of
       None \<Rightarrow> r = Inl Out_of_range
     | Some x \<Rightarrow> \<exists>p d. r = Inr p \<and> (p, d) \<in> set (items g) \<and> entry (p, d) = x))"
    using p by (cases "find_entry cmp k (entries g)") (auto simp: pt simp del: split_paired_Ex)
qed

subsection \<open>Erasing and clearing\<close>

lemma map_erase_spec:
  assumes e: "engine W t g"
  shows "returns (map_erase rc cmp th pu k t) (\<lambda>(r, t'). others W t t' \<and>
    (if find_entry cmp k (entries g) = None then r = Inr 0 \<and> engine W t' g
     else if pu = Push_ok then r = Inr 1 \<and> (\<exists>g'. engine W t' g' \<and> entries g' = del_entry cmp k (entries g))
     else r = Inl Bad_alloc \<and> (\<exists>g' a. tree_rel t' g' \<and> entries g' = del_entry cmp k (entries g) \<and>
       a \<notin> nodes_of g' \<and> mem_ok ok pd t' (insert a (nodes_of g' \<union> W)) \<and> t_count t' = t_count t)))"
  unfolding map_erase_def returns_simps(3)
  by (rule returns_mono [OF erase_refines [OF e, of th pu k]]) (auto split: if_splits)

lemma map_clear_spec:
  assumes e: "engine W t g"
  shows "returns (map_clear th t) (\<lambda>t'. engine W t' Leaf \<and> others W t t')"
  using clear_spec [OF e, of th] by (auto simp: map_clear_def returns_def)

subsection \<open>Lookup\<close>

lemma map_find_spec:
  assumes e: "engine W t g"
  shows "returns (map_find rc cmp self dk k t) (\<lambda>(i, t'). engine W t' g \<and> others W t t' \<and>
    i = (if find_entry cmp k (entries g) = None then iter_end self dk else iter_at self k))"
  unfolding map_find_def returns_simps(3)
  by (rule returns_mono [OF find_node_spec [OF e]])
    (auto split: option.splits dest: reads_engine [OF e] engine_reads_others)

lemma map_contains_spec:
  assumes e: "engine W t g"
  shows "returns (map_contains rc cmp k t) (\<lambda>(b, t'). engine W t' g \<and> others W t t' \<and>
    b = (find_entry cmp k (entries g) \<noteq> None))"
  unfolding map_contains_def returns_simps(3)
  by (rule returns_mono [OF find_node_spec [OF e]])
    (auto split: option.splits dest: reads_engine [OF e] engine_reads_others)

lemma map_count_spec:
  assumes e: "engine W t g"
  shows "returns (map_count rc cmp k t) (\<lambda>(n, t'). engine W t' g \<and> others W t t' \<and>
    n = (if find_entry cmp k (entries g) = None then 0 else 1))"
  unfolding map_count_def returns_simps(3)
  by (rule returns_mono [OF map_contains_spec [OF e, of k]]) auto

definition iter_of :: "ptr \<Rightarrow> 'k \<Rightarrow> ('k \<times> 'v) option \<Rightarrow> 'k iter" where
  "iter_of self dk x = (case x of None \<Rightarrow> iter_end self dk | Some e \<Rightarrow> iter_at self (fst e))"

lemma map_bound_spec:
  assumes e: "engine W t g"
  shows "returns (map_bound rc cmp self dk strict k t) (\<lambda>(i, t'). engine W t' g \<and> others W t t' \<and>
    i = iter_of self dk (bound_entry cmp strict k (entries g)))"
  unfolding map_bound_def returns_simps(3)
  by (rule returns_mono [OF bound_node_spec [OF e]])
    (auto simp: iter_of_def split: option.splits dest: reads_engine [OF e] engine_reads_others)

lemma map_begin_spec:
  assumes e: "engine W t g"
  shows "returns (map_begin rc self dk t) (\<lambda>(i, t'). engine W t' g \<and> others W t t' \<and>
    i = iter_of self dk (case entries g of [] \<Rightarrow> None | e # _ \<Rightarrow> Some e))"
  unfolding map_begin_def returns_simps(3)
  by (rule returns_mono [OF first_node_spec [OF e]])
    (auto simp: iter_of_def split: list.splits option.splits dest: reads_engine [OF e] engine_reads_others)

subsection \<open>Iteration\<close>

text \<open>From an iterator on an entry, \<open>*it\<close> is the entry and \<open>++it\<close> moves to the next one.\<close>

lemma split_at_entry:
  assumes "sorted_entries cmp (xs @ x # ys)"
  shows "splits (fst x) xs ys" "find_entry cmp (fst x) (xs @ x # ys) = Some x"
    "bound_entry cmp True (fst x) (xs @ x # ys) = (case ys of [] \<Rightarrow> None | y # _ \<Rightarrow> Some y)"
proof -
  show sp: "splits (fst x) xs ys" using assms by (auto simp: splits_def sorted_entries_def sorted_wrt_append)
  then show "find_entry cmp (fst x) (xs @ x # ys) = Some x" by (rule find_split_found) (rule same_refl)
  have "\<forall>e \<in> set xs. \<not> cmp (fst x) (fst e)" using sp asym by (auto simp: splits_def)
  then show "bound_entry cmp True (fst x) (xs @ x # ys) = (case ys of [] \<Rightarrow> None | y # _ \<Rightarrow> Some y)"
    using sp irrefl by (cases ys) (auto simp: bound_entry_def find_skip splits_def)
qed

lemma iter_deref_spec:
  assumes e: "engine W t g" and f: "find_entry cmp (it_key i) (entries g) = Some x"
  shows "returns (iter_deref rc cmp i t) (\<lambda>(y, t'). y = x \<and> reads t t')"
  unfolding iter_deref_def iter_resolve_def returns_simps(3)
proof (rule returns_mono [OF find_value_ptr_spec [OF e]])
  fix pt
  assume p: "case pt of (p, t') \<Rightarrow> reads t t' \<and> (case find_entry cmp (it_key i) (entries g) of
       None \<Rightarrow> p = 0
     | Some x \<Rightarrow> p \<noteq> 0 \<and> (\<exists>d. (p, d) \<in> set (items g) \<and> entry (p, d) = x))"
  obtain q t1 where pt: "pt = (q, t1)" by (cases pt)
  obtain d where d: "reads t t1" "(q, d) \<in> set (items g)" "entry (q, d) = x"
    using p f by (auto simp: pt simp del: split_paired_Ex)
  have "tree_at t1 g" using reads_tree [OF d(1)] engineD(7) [OF e] by simp
  then have "\<exists>nd. node_at t1 q = Some nd \<and> n_key nd = fst d \<and> n_value nd = fst (snd d)"
    using d(2) by (induction g) auto
  then show "returns (case pt of (p, t) \<Rightarrow> do { nd \<leftarrow> node_at t p; Some ((n_key nd, n_value nd), t) })
    (\<lambda>(y, t'). y = x \<and> reads t t')"
    using d(1,3) by (cases d) (auto simp: pt)
qed

lemma iter_advance_spec:
  assumes e: "engine W t g" and i: "i = iter_at self (fst x)" and es: "entries g = xs @ x # ys"
  shows "returns (iter_advance rc cmp i t) (\<lambda>(j, t'). reads t t' \<and>
    j = (case ys of [] \<Rightarrow> i\<lparr>it_is_end := True\<rparr> | y # _ \<Rightarrow> iter_at self (fst y)))"
proof -
  have b: "bound_entry cmp True (it_key i) (entries g) = (case ys of [] \<Rightarrow> None | y # _ \<Rightarrow> Some y)"
    using split_at_entry(3) engineD(2) [OF e] unfolding es i by (simp add: iter_at_def)
  moreover have "it_key i = fst x" by (simp add: i iter_at_def)
  ultimately have b': "bound_entry cmp True (fst x) (entries g) = (case ys of [] \<Rightarrow> None | y # _ \<Rightarrow> Some y)"
    by simp
  show ?thesis
    unfolding iter_advance_def next_node_def returns_simps(3)
    by (rule returns_mono [OF bound_node_spec [OF e]])
      (auto simp: b' i iter_at_def split: list.splits)
qed

lemma iter_collect_spec:
  assumes "engine W t g" and "i = iter_at self (fst x)" and "entries g = xs @ x # ys" and "length ys < n"
  shows "returns (iter_collect rc cmp n i t) (\<lambda>(es, j, t'). es = x # ys \<and> it_is_end j \<and> it_owner j = self \<and> reads t t')"
  using assms
proof (induction n arbitrary: i x xs ys t)
  case 0
  then show ?case by simp
next
  case (Suc n)
  note e = Suc.prems(1) and i = Suc.prems(2) and es = Suc.prems(3)
  have neq: "iter_neq cmp i (iter_end (it_owner i) (it_key i))"
    by (simp add: iter_neq_def iter_eq_def iter_end_def i iter_at_def)
  have f: "find_entry cmp (it_key i) (entries g) = Some x"
    using split_at_entry(2) engineD(2) [OF e] unfolding es i by (simp add: iter_at_def)
  have rest: "returns (iter_collect rc cmp n j t2) (\<lambda>(es, j, t'). es = ys \<and> it_is_end j \<and> it_owner j = self \<and> reads t t')"
    if r2: "reads t t2" and j: "j = (case ys of [] \<Rightarrow> i\<lparr>it_is_end := True\<rparr> | y # _ \<Rightarrow> iter_at self (fst y))"
    for j t2
  proof (cases ys)
    case Nil
    then have je: "it_is_end j" "it_owner j = self" using j by (simp_all add: i iter_at_def)
    have "iter_collect rc cmp n j t2 = Some ([], j, t2)"
      using je by (cases n) (simp_all add: iter_neq_def iter_eq_def iter_end_def)
    then show ?thesis using je r2 Nil by simp
  next
    case (Cons y zs)
    have "returns (iter_collect rc cmp n j t2)
        (\<lambda>(es, j, t'). es = y # zs \<and> it_is_end j \<and> it_owner j = self \<and> reads t2 t')"
      using Suc.prems(4) j es reads_engine [OF e r2]
      by (intro Suc.IH [of t2 j y "xs @ [x]" zs]) (simp_all add: Cons)
    then show ?thesis by (rule returns_mono) (auto simp: Cons intro: reads_trans [OF r2])
  qed
  have adv: "returns (iter_advance rc cmp i t1) (\<lambda>(j, t2). returns (iter_collect rc cmp n j t2)
      (\<lambda>(es, j, t'). es = ys \<and> it_is_end j \<and> it_owner j = self \<and> reads t t'))" if r1: "reads t t1" for t1
    by (rule returns_mono [OF iter_advance_spec [OF reads_engine [OF e r1] i es]], clarify, rule rest)
      (auto intro: reads_trans [OF r1])
  show ?case
    unfolding iter_collect.simps if_P [OF neq] returns_simps(3)
    apply (rule returns_mono [OF iter_deref_spec [OF e f]])
    apply (clarsimp simp del: returns_simps(1))
    apply (drule adv)
    apply (erule returns_mono, clarify)
    apply (erule returns_mono, clarsimp)
    done
qed

text \<open>A whole traversal yields the entries in key order.\<close>

lemma traverse_spec:
  assumes e: "engine W t g" and n: "length (entries g) \<le> n"
  shows "returns (do { (i, t) \<leftarrow> map_begin rc self dk t; iter_collect rc cmp n i t })
    (\<lambda>(es, j, t'). es = entries g \<and> it_is_end j \<and> engine W t' g)"
  unfolding returns_simps(3)
proof (rule returns_mono [OF map_begin_spec [OF e, of self dk]])
  fix it
  assume it: "case it of (i, t') \<Rightarrow> engine W t' g \<and> others W t t' \<and>
    i = iter_of self dk (case entries g of [] \<Rightarrow> None | e # _ \<Rightarrow> Some e)"
  obtain i t1 where i: "it = (i, t1)" by (cases it)
  have e1: "engine W t1 g" using it by (simp add: i)
  show "returns (case it of (i, t) \<Rightarrow> iter_collect rc cmp n i t) (\<lambda>(es, j, t'). es = entries g \<and> it_is_end j \<and> engine W t' g)"
  proof (cases "entries g")
    case Nil
    then have ie: "i = iter_end self dk" using it by (simp add: i iter_of_def)
    have "iter_collect rc cmp n i t1 = Some ([], i, t1)"
      by (cases n) (simp_all add: iter_neq_def iter_eq_def iter_end_def ie)
    then show ?thesis using e1 Nil ie by (simp add: i iter_end_def)
  next
    case (Cons x ys)
    have "i = iter_at self (fst x)" using it Cons by (simp add: i iter_of_def)
    then have "returns (iter_collect rc cmp n i t1)
        (\<lambda>(es, j, t'). es = x # ys \<and> it_is_end j \<and> it_owner j = self \<and> reads t1 t')"
      using n Cons by (intro iter_collect_spec [OF e1, of i self x "[]" ys]) simp_all
    then show ?thesis using reads_engine [OF e1] Cons by (auto simp: i elim!: returns_mono)
  qed
qed


subsection \<open>Erasing at an iterator\<close>

lemma del_at_entry: "sorted_entries cmp (xs @ x # ys) \<Longrightarrow> del_entry cmp (fst x) (xs @ x # ys) = xs @ ys"
  using del_split_found [OF split_at_entry(1)] same_refl by blast

lemma erase_at_spec:
  assumes e: "engine W t g" and i: "pos = iter_at self (fst x)" and es: "entries g = xs @ x # ys"
  shows "returns (map_erase_at rc cmp th Push_ok pos t) (\<lambda>(r, t'). others W t t' \<and>
    r = Inr (case ys of [] \<Rightarrow> pos\<lparr>it_is_end := True\<rparr> | y # _ \<Rightarrow> iter_at self (fst y)) \<and>
    (\<exists>g'. engine W t' g' \<and> entries g' = xs @ ys))"
proof -
  have conv: "const_iterator_to_iterator pos = iter_at self (fst x)" "it_key pos = fst x" "\<not> it_is_end pos"
    by (simp_all add: i const_iterator_to_iterator_def iter_at_def)
  have srt: "sorted_entries cmp (xs @ x # ys)" using engineD(2) [OF e] by (simp add: es)
  have f: "find_entry cmp (fst x) (xs @ x # ys) = Some x" using split_at_entry(2) [OF srt] .
  have d: "del_entry cmp (fst x) (xs @ x # ys) = xs @ ys" using del_at_entry [OF srt] .
  have er: "returns (erase_node rc cmp th Push_ok (fst x) t1) (\<lambda>(r, t'). others W t t' \<and> r = Inr True \<and>
      (\<exists>g'. engine W t' g' \<and> entries g' = xs @ ys))" if r1: "reads t t1" for t1
    by (rule returns_mono [OF erase_refines [OF reads_engine [OF e r1], of th Push_ok "fst x"]])
      (auto simp: es f d intro: others_trans [OF engine_reads_others [OF r1]])
  show ?thesis
    unfolding map_erase_at_def Let_def conv returns_simps(3)
  proof (rule returns_mono [OF iter_advance_spec [OF e refl es, of self]])
    fix jt
    assume j: "case jt of (j, t') \<Rightarrow> reads t t' \<and>
      j = (case ys of [] \<Rightarrow> iter_at self (fst x)\<lparr>it_is_end := True\<rparr> | y # _ \<Rightarrow> iter_at self (fst y))"
    obtain nx t1 where jt: "jt = (nx, t1)" by (cases jt)
    have nx: "reads t t1" "nx = (case ys of [] \<Rightarrow> pos\<lparr>it_is_end := True\<rparr> | y # _ \<Rightarrow> iter_at self (fst y))"
      using j unfolding jt i by (simp_all only: prod.case)
    show "returns (case jt of (nxt, t) \<Rightarrow> if \<not> it_is_end pos then do {
         (r, t) \<leftarrow> erase_node rc cmp th Push_ok (fst x) t;
         Some (case r of Inl e \<Rightarrow> Inl e | Inr _ \<Rightarrow> Inr nxt, t) } else Some (Inr nxt, t))
      (\<lambda>(r, t'). others W t t' \<and>
        r = Inr (case ys of [] \<Rightarrow> pos\<lparr>it_is_end := True\<rparr> | y # _ \<Rightarrow> iter_at self (fst y)) \<and>
        (\<exists>g'. engine W t' g' \<and> entries g' = xs @ ys))"
      unfolding jt prod.case nx(2) [symmetric]
      using er [OF nx(1)] by (auto simp: conv(3) elim!: returns_mono)
  qed
qed

text \<open>
  Erasing at \<open>end()\<close> removes nothing, but what comes back need not be \<open>end()\<close>: the end flag is
  lost and the iterator moves to the first key above whatever key the end iterator holds.
\<close>

lemma erase_at_end:
  assumes e: "engine W t g" and b: "bound_entry cmp True dk (entries g) = Some y"
  shows "returns (map_erase_at rc cmp th pu (iter_end self dk) t) (\<lambda>(r, t').
    r = Inr (iter_at self (fst y)) \<and> engine W t' g)"
  unfolding map_erase_at_def Let_def returns_simps(3) iter_advance_def next_node_def
  by (rule returns_mono [OF bound_node_spec [OF e]])
    (auto simp: b const_iterator_to_iterator_def iter_end_def iter_at_def dest: reads_engine [OF e])

end

end
