(* ===== verification/MapApi.thy ===== *)
theory MapApi
  imports MapSpec
begin

section \<open>The containers as finite maps\<close>

text \<open>
  With \<open>std::less\<close> the entries of a container are a finite partial map, and their order is
  determined by it. \<open>epoch_map th W t m\<close> and \<open>hazard_map th W t m\<close> say that the container
  state \<open>t\<close> satisfies the engine invariant for the reclamation scheme, with \<open>m\<close> as its
  contents; \<open>th\<close> is the calling thread, \<open>W\<close> the nodes of other containers that share the
  pool and the reclaimer.
\<close>

definition epoch_map ::
  "thread \<Rightarrow> ptr set \<Rightarrow> ('k::linorder, 'v, unit epoch) tree \<Rightarrow> ('k \<rightharpoonup> 'v) \<Rightarrow> bool" where
  "epoch_map th W t m \<longleftrightarrow> (\<exists>g. engine_ok (epoch_ready th) epoch_pending std_less W t g \<and> map_of (entries g) = m)"

definition hazard_map ::
  "thread \<Rightarrow> ptr set \<Rightarrow> ('k::linorder, 'v, unit hazard) tree \<Rightarrow> ('k \<rightharpoonup> 'v) \<Rightarrow> bool" where
  "hazard_map th W t m \<longleftrightarrow> (\<exists>g. engine_ok
     (hazard_ready th) hz_pending std_less W t g \<and> map_of (entries g) = m)"

subsection \<open>Entry lists and finite maps\<close>

lemma std_sorted:
  "sorted_entries std_less es \<longleftrightarrow> sorted (map fst es) \<and> distinct (map fst es)"
  by (simp add: sorted_entries_def std_less_def strict_sorted_iff sorted_wrt_map [symmetric, of "(<)" fst])

lemma std_find:
  "find_entry std_less k es = map_option (Pair k) (map_of es k)"
  by (induction es) (auto simp: find_entry_def)

lemma std_ins: "map_of (ins_entry std_less k v es) = (map_of es)(k \<mapsto> v)"
  by (induction es) (auto simp: ins_entry_def std_less_def)

lemma std_del: "map_of (del_entry std_less k es) = (map_of es)(k := None)"
  by (induction es) (auto simp: del_entry_def)

lemma std_set:
  "map_of (set_entry std_less k v es) = (if map_of es k = None then map_of es else (map_of es)(k \<mapsto> v))"
  by (induction es) (auto simp: set_entry_def fun_eq_iff)

lemma sorted_drop: "sorted_entries cmp (xs @ ys) \<Longrightarrow> sorted_entries cmp ys"
  by (simp add: sorted_entries_def sorted_wrt_append)

text \<open>The bound of the code is the least key above the argument.\<close>

definition least_above :: "bool \<Rightarrow> 'k::linorder \<Rightarrow> ('k \<rightharpoonup> 'v) \<Rightarrow> 'k option" where
  "least_above strict k m =
     (if \<exists>x \<in> dom m. k \<le> x \<and> (strict \<longrightarrow> k \<noteq> x)
      then Some (LEAST x. x \<in> dom m \<and> k \<le> x \<and> (strict \<longrightarrow> k \<noteq> x)) else None)"

lemma std_bound:
  assumes "sorted_entries std_less es"
  shows "map_option fst (bound_entry std_less strict k es) = least_above strict k (map_of es)"
proof (cases "bound_entry std_less strict k es")
  case None
  then have "x \<notin> fst ` set es" if "k \<le> x" "strict \<longrightarrow> k \<noteq> x" for x
    using that by (fastforce simp: bound_entry_def find_None_iff std_less_def split: if_splits)
  then show ?thesis using None by (auto simp: least_above_def dom_map_of_conv_image_fst)
next
  case (Some e)
  let ?P = "\<lambda>e. if strict then std_less k (fst e) else \<not> std_less (fst e) k"
  obtain i where i: "i < length es" "?P (es ! i)" "e = es ! i" "\<forall>j < i. \<not> ?P (es ! j)"
    using Some unfolding bound_entry_def find_Some_iff by blast
  have P: "?P x \<longleftrightarrow> k \<le> fst x \<and> (strict \<longrightarrow> k \<noteq> fst x)" for x by (auto simp: std_less_def)
  have "(LEAST x. x \<in> dom (map_of es) \<and> k \<le> x \<and> (strict \<longrightarrow> k \<noteq> x)) = fst e"
  proof (rule Least_equality)
    show "fst e \<in> dom (map_of es) \<and> k \<le> fst e \<and> (strict \<longrightarrow> k \<noteq> fst e)"
      using i P [of e] by (auto simp: dom_map_of_conv_image_fst)
  next
    fix y
    assume y: "y \<in> dom (map_of es) \<and> k \<le> y \<and> (strict \<longrightarrow> k \<noteq> y)"
    then obtain j where j: "j < length es" "fst (es ! j) = y"
      by (metis (no_types, lifting) dom_map_of_conv_image_fst imageE in_set_conv_nth)
    with y i(4) P have "\<not> j < i" by metis
    then have "i \<le> j" by simp
    then show "fst e \<le> y" using assms j i(1,3)
      by (auto simp: std_sorted intro: sorted_nth_mono [of "map fst es" i j, simplified])
  qed
  moreover have "fst e \<in> dom (map_of es)" using i by (auto simp: dom_map_of_conv_image_fst)
  ultimately show ?thesis using Some i P [of e] by (auto simp: least_above_def)
qed

lemma std_head:
  assumes "sorted_entries std_less es"
  shows "(case es of [] \<Rightarrow> None | e # _ \<Rightarrow> Some (fst e)) =
    (if map_of es = Map.empty then None else Some (LEAST x. x \<in> dom (map_of es)))"
proof (cases es)
  case (Cons e ys)
  have "(LEAST x. x \<in> dom (map_of es)) = fst e"
    using assms Cons by (intro Least_equality) (auto simp: std_sorted dom_map_of_conv_image_fst)
  moreover have "map_of es \<noteq> Map.empty" using Cons by (cases e) (auto simp: fun_eq_iff)
  ultimately show ?thesis using Cons by simp
qed simp

lemma map_of_card: "distinct (map fst es) \<Longrightarrow> card (dom (map_of es)) = length es"
  by (metis card_image dom_map_of_conv_image_fst distinct_card distinct_map length_map set_map)

subsection \<open>A new container\<close>

lemma new_shards: "pool_rel l m new_pool (replicate SHARDS [])"
  by (simp add: pool_rel_def new_pool_def shard_ok_def new_shard_def SHARDS_def)

lemma new_engine:
  assumes "ok r" and "pd r = {#}" and "live m = (\<lambda>_. None)"
  shows "engine_ok ok pd cmp {} (map_ctor a m new_pool r) Leaf"
  using assms
  by (auto simp: engine_ok_def map_ctor_def new_tree_def mem_ok_def stored_def pool_at_def new_shards
      retired_nodes_def tree_rel_def red_black_def balanced_def entries_def sorted_entries_def pooled_def
      intro!: exI [of _ "replicate SHARDS []"])

lemma epoch_ready_new: "th < n \<Longrightarrow> epoch_ready th (new_epoch n)"
  by (simp add: epoch_ready_def epoch_ok_new) (simp add: new_epoch_def)

lemma epoch_pending_new: "epoch_pending (new_epoch n) = {#}"
  by (simp add: epoch_pending_def pending_new)

lemma hazard_ready_new: "th < n \<Longrightarrow> hazard_ready th (new_hazard n)"
proof -
  assume th: "th < n"
  have "0 \<in> {..<MAX_THREADS}" by (simp add: MAX_THREADS_def)
  then have "owned (new_hazard n) \<noteq> {..<MAX_THREADS}" by (metis empty_iff owned_new)
  then show ?thesis using th
    by (simp add: hazard_ready_def hazard_ok_new slot_available_def) (simp add: new_hazard_def)
qed

lemma new_epoch_map:
  assumes "th < n" and "live m = (\<lambda>_. None)"
  shows "epoch_map th {} (map_ctor a m new_pool (new_epoch n)) Map.empty"
  unfolding epoch_map_def
  by (rule exI [of _ Leaf], intro conjI, rule new_engine)
    (use assms in \<open>simp_all add: epoch_ready_new epoch_pending_new entries_def\<close>)

lemma new_hazard_map:
  assumes "th < n" and "live m = (\<lambda>_. None)"
  shows "hazard_map th {} (map_ctor a m new_pool (new_hazard n)) Map.empty"
  unfolding hazard_map_def
  by (rule exI [of _ Leaf], intro conjI, rule new_engine)
    (use assms in \<open>simp_all add: hazard_ready_new hz_pending_new entries_def\<close>)

subsection \<open>The operations on the contents\<close>

lemma epoch_mapD:
  assumes "epoch_map th W t m"
  obtains g where "engine_ok (epoch_ready th) epoch_pending std_less W t g" "map_of (entries g) = m"
    "sorted_entries std_less (entries g)"
  using assms by (auto simp: epoch_map_def engine_ok_def)

lemma hazard_mapD:
  assumes "hazard_map th W t m"
  obtains g where "engine_ok (hazard_ready th) hz_pending std_less W t g" "map_of (entries g) = m" "sorted_entries std_less (entries g)"
  using assms by (auto simp: hazard_map_def engine_ok_def)

lemma engine_epoch: "engine_ok (epoch_ready th) epoch_pending std_less W t g \<Longrightarrow>
  epoch_map th W t (map_of (entries g))"
  by (auto simp: epoch_map_def)

lemma engine_hazard: "engine_ok (hazard_ready th) hz_pending std_less W t g \<Longrightarrow>
  hazard_map th W t (map_of (entries g))"
  by (auto simp: hazard_map_def)

lemmas map_facts = std_find std_ins std_del std_set

lemma std_bound_iter:
  assumes "sorted_entries std_less es"
  shows "tree_engine.iter_of self dk (bound_entry std_less strict k es) =
    (case least_above strict k (map_of es) of None \<Rightarrow> iter_end self dk | Some x \<Rightarrow> iter_at self x)"
  unfolding std_bound [OF assms, symmetric] ete.iter_of_def by (simp split: option.splits)

lemma std_next:
  assumes "sorted_entries std_less (xs @ (k, v) # ys)"
  shows "least_above True k (map_of (xs @ (k, v) # ys)) = (case ys of [] \<Rightarrow> None | y # _ \<Rightarrow> Some (fst y))"
proof -
  have "\<forall>x \<in> set xs. \<not> std_less k (fst x)"
    using assms by (auto simp: sorted_entries_def sorted_wrt_append std_less_def)
  then have "List.find (\<lambda>e. std_less k (fst e)) (xs @ (k, v) # ys) = (case ys of [] \<Rightarrow> None | y # _ \<Rightarrow> Some y)"
    using assms by (cases ys) (simp_all add: find_skip sorted_entries_def sorted_wrt_append std_less_def)
  then show ?thesis unfolding std_bound [OF assms, symmetric] bound_entry_def
    by (auto split: list.splits)
qed

lemma std_split_del:
  assumes "sorted_entries std_less (xs @ (k, v) # ys)"
  shows "map_of (xs @ ys) = (map_of (xs @ (k, v) # ys))(k := None)"
  using ete.del_at_entry [OF assms] std_del [of k "xs @ (k, v) # ys"] by simp

text \<open>\<open>refers t p k v\<close>: the pointer is a node of the memory that holds this key and value.\<close>

definition refers :: "('k, 'v, 'r) tree \<Rightarrow> ptr \<Rightarrow> 'k \<Rightarrow> 'v \<Rightarrow> bool" where
  "refers t p k v \<longleftrightarrow> (\<exists>nd. node_at t p = Some nd \<and> n_key nd = k \<and> n_value nd = v)"

lemma tree_at_refers: "tree_at t g \<Longrightarrow> (a, d) \<in> set (items g) \<Longrightarrow> refers t a (fst d) (fst (snd d))"
  by (induction t g rule: tree_at.induct) (auto simp: refers_def)

lemma engine_refers: "engine_ok ok pd cmp W t g \<Longrightarrow> (a, d) \<in> set (items g) \<Longrightarrow>
  entry (a, d) = (k, v) \<Longrightarrow> refers t a k v"
  by (cases d) (auto simp: engine_ok_def tree_rel_def dest: tree_at_refers)

lemma engine_epoch_refers: "engine_ok (epoch_ready th) epoch_pending std_less W t g \<Longrightarrow>
  epoch_map th W t (map_of (entries g)) \<and>
  (\<forall>a k v ow. (a, k, v, ow) \<in> set (items g) \<longrightarrow> refers t a k v)"
  by (intro conjI allI impI, erule engine_epoch, erule engine_refers, assumption, simp)

lemma engine_hazard_refers: "engine_ok (hazard_ready th) hz_pending std_less W t g \<Longrightarrow>
  hazard_map th W t (map_of (entries g)) \<and>
  (\<forall>a k v ow. (a, k, v, ow) \<in> set (items g) \<longrightarrow> refers t a k v)"
  by (intro conjI allI impI, erule engine_hazard, erule engine_refers, assumption, simp)

text \<open>A container of one entry, and the empty one, for each scheme.\<close>

definition no_mem :: "('k, 'v) node mem" where
  "no_mem = \<lparr>heap = \<lambda>_. None, live = \<lambda>_. None\<rparr>"

lemma no_mem [simp]: "live no_mem = (\<lambda>_. None)" "fresh_block no_mem b \<longleftrightarrow> b \<noteq> 0"
  by (simp_all add: no_mem_def fresh_block_def)

lemma empty_epoch_map: "epoch_map 0 {} (map_ctor 0 no_mem new_pool (new_epoch 1)) Map.empty"
  by (rule new_epoch_map) simp_all

lemma empty_hazard_map: "hazard_map 0 {} (map_ctor 0 no_mem new_pool (new_hazard 1)) Map.empty"
  by (rule new_hazard_map) simp_all

lemma map_ctor_mem [simp]: "t_mem (map_ctor a m p r) = m"
  by (simp add: map_ctor_def new_tree_def)

lemma one_epoch_map: "\<exists>t :: ('k::linorder, 'v, unit epoch) tree. epoch_map 0 {} t [k \<mapsto> v]"
proof -
  let ?t = "map_ctor 0 no_mem new_pool (new_epoch 1) :: ('k, 'v, unit epoch) tree"
  obtain g where g: "engine_ok (epoch_ready 0) epoch_pending std_less {} ?t g" "map_of (entries g) = Map.empty"
    using epoch_mapD [OF empty_epoch_map] .
  have "returns (map_emplace std_less 0 64 (Some 64) (k, v) (Some (k, v)) ?t)
      (\<lambda>(r, t'). case r of Inl _ \<Rightarrow> False | Inr _ \<Rightarrow> epoch_map 0 {} t' [k \<mapsto> v])"
    by (rule returns_mono [OF ete.emplace_spec [OF g(1)]])
      (auto simp: ete.emplaced_def map_facts g(2) split: sum.splits if_splits dest!: engine_epoch)
  then obtain r :: "exn + 'k iter \<times> bool" and t' :: "('k, 'v, unit epoch) tree"
    where "case r of Inl _ \<Rightarrow> False | Inr _ \<Rightarrow> epoch_map 0 {} t' [k \<mapsto> v]"
    by (auto simp: returns_def)
  then show ?thesis by (cases r) auto
qed

lemma one_hazard_map: "\<exists>t :: ('k::linorder, 'v, unit hazard) tree. hazard_map 0 {} t [k \<mapsto> v]"
proof -
  let ?t = "map_ctor 0 no_mem new_pool (new_hazard 1) :: ('k, 'v, unit hazard) tree"
  obtain g where g: "engine_ok (hazard_ready 0) hz_pending std_less {} ?t g" "map_of (entries g) = Map.empty"
    using hazard_mapD [OF empty_hazard_map] .
  have "returns (map_emplace std_less 0 64 (Some 64) (k, v) (Some (k, v)) ?t)
      (\<lambda>(r, t'). case r of Inl _ \<Rightarrow> False | Inr _ \<Rightarrow> hazard_map 0 {} t' [k \<mapsto> v])"
    by (rule returns_mono [OF hte.emplace_spec [OF g(1)]])
      (auto simp: hte.emplaced_def map_facts g(2) split: sum.splits if_splits dest!: engine_hazard)
  then obtain r :: "exn + 'k iter \<times> bool" and t' :: "('k, 'v, unit hazard) tree"
    where "case r of Inl _ \<Rightarrow> False | Inr _ \<Rightarrow> hazard_map 0 {} t' [k \<mapsto> v]"
    by (auto simp: returns_def)
  then show ?thesis by (cases r) auto
qed

end
