(* ===== verification/SetModel.thy ===== *)
theory SetModel
  imports MapApi
begin

section \<open>The ordered set\<close>

text \<open>
  \<open>mpmc::set\<close> (\<open>mpmc_set.hpp\<close>): the tree engine over a payload that is the key alone (the mapped
  type is \<open>unit\<close>), with its own copies of the container operations and of the iterators. They
  are written out here as the file has them; \<open>set_as_map\<close> relates each of them to the map's
  operation, and \<open>hazard_set\<close> is the abstraction to a set of keys.
\<close>

subsection \<open>Construction, capacity and modifiers\<close>

type_synonym ('k, 'r) set_tree = "('k, unit, 'r) tree"

definition set_ctor :: "alloc \<Rightarrow> ('k, unit) node mem \<Rightarrow> pool \<Rightarrow> 'r \<Rightarrow> ('k, 'r) set_tree" where
  "set_ctor a m p r = new_tree a m p r"

definition set_dtor :: "(unit, 'r) reclaimer_ops \<Rightarrow> thread \<Rightarrow> ('k, 'r) set_tree \<Rightarrow> ('k, 'r) set_tree option" where
  "set_dtor rc th t = destroy_tree rc th t"

definition set_size :: "('k, 'r) set_tree \<Rightarrow> u64" where
  "set_size t = tree_size t"

definition set_empty :: "('k, 'r) set_tree \<Rightarrow> bool" where
  "set_empty t = tree_empty t"

definition set_max_size :: "u64 \<Rightarrow> u64" where
  "set_max_size sizeof_value = (- 1) div sizeof_value"

text \<open>\<open>args\<close>: the key that the forwarded arguments construct, or \<open>None\<close> when that throws.\<close>

definition set_emplace ::
  "('k \<Rightarrow> 'k \<Rightarrow> bool) \<Rightarrow> thread \<Rightarrow> ptr \<Rightarrow> ptr option \<Rightarrow> 'k \<Rightarrow> 'k option \<Rightarrow>
   ('k, 'r) set_tree \<Rightarrow> ((exn + 'k iter \<times> bool) \<times> ('k, 'r) set_tree) option" where
  "set_emplace cmp th self blk dk args t =
     do {
       (r, t) \<leftarrow> alloc_node th blk (dk, ()) t;
       case r of
         Inl e \<Rightarrow> Some (Inl e, t)
       | Inr n \<Rightarrow>
           (case args of
              None \<Rightarrow> do { t \<leftarrow> destroy_node th n t; Some (Inl Payload_throws, t) }
            | Some k \<Rightarrow> do {
                t \<leftarrow> construct_payload n k () t;
                nd \<leftarrow> node_at t n;
                let k = n_key nd;
                (b, t) \<leftarrow> insert_node cmp n k t;
                if b then Some (Inr (iter_at self k, True), t)
                else do { t \<leftarrow> destroy_node th n t; Some (Inr (iter_at self k, False), t) }
              })
     }"

definition set_insert ::
  "('k \<Rightarrow> 'k \<Rightarrow> bool) \<Rightarrow> thread \<Rightarrow> ptr \<Rightarrow> ptr option \<Rightarrow> 'k \<Rightarrow> 'k \<Rightarrow>
   ('k, 'r) set_tree \<Rightarrow> ((exn + 'k iter \<times> bool) \<times> ('k, 'r) set_tree) option" where
  "set_insert cmp th self blk dk k t = set_emplace cmp th self blk dk (Some k) t"

definition set_erase ::
  "(unit, 'r) reclaimer_ops \<Rightarrow> ('k \<Rightarrow> 'k \<Rightarrow> bool) \<Rightarrow> thread \<Rightarrow> push \<Rightarrow> 'k \<Rightarrow> ('k, 'r) set_tree \<Rightarrow>
   ((exn + u64) \<times> ('k, 'r) set_tree) option" where
  "set_erase rc cmp th pu k t =
     do {
       (r, t) \<leftarrow> erase_node rc cmp th pu k t;
       Some (case r of Inl e \<Rightarrow> Inl e | Inr b \<Rightarrow> Inr (if b then 1 else 0), t)
     }"

definition set_clear :: "thread \<Rightarrow> ('k, 'r) set_tree \<Rightarrow> ('k, 'r) set_tree option" where
  "set_clear th t = clear_impl th t"

subsection \<open>Lookup and bounds\<close>

definition set_find ::
  "('act, 'r) reclaimer_ops \<Rightarrow> ('k \<Rightarrow> 'k \<Rightarrow> bool) \<Rightarrow> ptr \<Rightarrow> 'k \<Rightarrow> 'k \<Rightarrow> ('k, 'r) set_tree \<Rightarrow>
   ('k iter \<times> ('k, 'r) set_tree) option" where
  "set_find rc cmp self dk k t =
     do { (n, t) \<leftarrow> find_node rc cmp k t;
          Some (if n \<noteq> None then iter_at self k else iter_end self dk, t) }"

definition set_contains ::
  "('act, 'r) reclaimer_ops \<Rightarrow> ('k \<Rightarrow> 'k \<Rightarrow> bool) \<Rightarrow> 'k \<Rightarrow> ('k, 'r) set_tree \<Rightarrow>
   (bool \<times> ('k, 'r) set_tree) option" where
  "set_contains rc cmp k t = do { (n, t) \<leftarrow> find_node rc cmp k t; Some (n \<noteq> None, t) }"

definition set_count ::
  "('act, 'r) reclaimer_ops \<Rightarrow> ('k \<Rightarrow> 'k \<Rightarrow> bool) \<Rightarrow> 'k \<Rightarrow> ('k, 'r) set_tree \<Rightarrow>
   (u64 \<times> ('k, 'r) set_tree) option" where
  "set_count rc cmp k t = do { (b, t) \<leftarrow> set_contains rc cmp k t; Some (if b then 1 else 0, t) }"

definition set_lower_bound ::
  "('act, 'r) reclaimer_ops \<Rightarrow> ('k \<Rightarrow> 'k \<Rightarrow> bool) \<Rightarrow> ptr \<Rightarrow> 'k \<Rightarrow> 'k \<Rightarrow> ('k, 'r) set_tree \<Rightarrow>
   ('k iter \<times> ('k, 'r) set_tree) option" where
  "set_lower_bound rc cmp self dk k t =
     do { (info, t) \<leftarrow> bound_node rc cmp k False t;
          Some (case info of Some k' \<Rightarrow> iter_at self k' | None \<Rightarrow> iter_end self dk, t) }"

definition set_upper_bound ::
  "('act, 'r) reclaimer_ops \<Rightarrow> ('k \<Rightarrow> 'k \<Rightarrow> bool) \<Rightarrow> ptr \<Rightarrow> 'k \<Rightarrow> 'k \<Rightarrow> ('k, 'r) set_tree \<Rightarrow>
   ('k iter \<times> ('k, 'r) set_tree) option" where
  "set_upper_bound rc cmp self dk k t =
     do { (info, t) \<leftarrow> bound_node rc cmp k True t;
          Some (case info of Some k' \<Rightarrow> iter_at self k' | None \<Rightarrow> iter_end self dk, t) }"

definition set_equal_range ::
  "('act, 'r) reclaimer_ops \<Rightarrow> ('k \<Rightarrow> 'k \<Rightarrow> bool) \<Rightarrow> ptr \<Rightarrow> 'k \<Rightarrow> 'k \<Rightarrow> ('k, 'r) set_tree \<Rightarrow>
   (('k iter \<times> 'k iter) \<times> ('k, 'r) set_tree) option" where
  "set_equal_range rc cmp self dk k t =
     do { (lb, t) \<leftarrow> set_lower_bound rc cmp self dk k t;
          (ub, t) \<leftarrow> set_upper_bound rc cmp self dk k t;
          Some ((lb, ub), t) }"

subsection \<open>Iterators\<close>

definition set_begin ::
  "('act, 'r) reclaimer_ops \<Rightarrow> ptr \<Rightarrow> 'k \<Rightarrow> ('k, 'r) set_tree \<Rightarrow> ('k iter \<times> ('k, 'r) set_tree) option" where
  "set_begin rc self dk t =
     do { (info, t) \<leftarrow> first_node rc t;
          Some (case info of Some k \<Rightarrow> iter_at self k | None \<Rightarrow> iter_end self dk, t) }"

definition set_end :: "ptr \<Rightarrow> 'k \<Rightarrow> 'k iter" where
  "set_end self dk = iter_end self dk"

definition set_iter_eq :: "('k \<Rightarrow> 'k \<Rightarrow> bool) \<Rightarrow> 'k iter \<Rightarrow> 'k iter \<Rightarrow> bool" where
  "set_iter_eq cmp i j =
     (if it_owner i \<noteq> it_owner j \<or> it_is_end i \<noteq> it_is_end j then False
      else if it_is_end i then True
      else \<not> cmp (it_key i) (it_key j) \<and> \<not> cmp (it_key j) (it_key i))"

definition set_iter_neq :: "('k \<Rightarrow> 'k \<Rightarrow> bool) \<Rightarrow> 'k iter \<Rightarrow> 'k iter \<Rightarrow> bool" where
  "set_iter_neq cmp i j = (\<not> set_iter_eq cmp i j)"

definition set_iter_resolve ::
  "('act, 'r) reclaimer_ops \<Rightarrow> ('k \<Rightarrow> 'k \<Rightarrow> bool) \<Rightarrow> 'k iter \<Rightarrow> ('k, 'r) set_tree \<Rightarrow>
   (ptr \<times> ('k, 'r) set_tree) option" where
  "set_iter_resolve rc cmp i t = find_value_ptr rc cmp (it_key i) t"

definition set_iter_deref ::
  "('act, 'r) reclaimer_ops \<Rightarrow> ('k \<Rightarrow> 'k \<Rightarrow> bool) \<Rightarrow> 'k iter \<Rightarrow> ('k, 'r) set_tree \<Rightarrow>
   ('k \<times> ('k, 'r) set_tree) option" where
  "set_iter_deref rc cmp i t =
     do { (p, t) \<leftarrow> set_iter_resolve rc cmp i t; nd \<leftarrow> node_at t p; Some (n_key nd, t) }"

definition set_iter_advance ::
  "('act, 'r) reclaimer_ops \<Rightarrow> ('k \<Rightarrow> 'k \<Rightarrow> bool) \<Rightarrow> 'k iter \<Rightarrow> ('k, 'r) set_tree \<Rightarrow>
   ('k iter \<times> ('k, 'r) set_tree) option" where
  "set_iter_advance rc cmp i t =
     do { (info, t) \<leftarrow> next_node rc cmp (it_key i) t;
          Some (case info of Some k \<Rightarrow> i\<lparr>it_key := k\<rparr> | None \<Rightarrow> i\<lparr>it_is_end := True\<rparr>, t) }"

definition set_iter_post_inc ::
  "('act, 'r) reclaimer_ops \<Rightarrow> ('k \<Rightarrow> 'k \<Rightarrow> bool) \<Rightarrow> 'k iter \<Rightarrow> ('k, 'r) set_tree \<Rightarrow>
   (('k iter \<times> 'k iter) \<times> ('k, 'r) set_tree) option" where
  "set_iter_post_inc rc cmp i t =
     do { let tmp = i; (i, t) \<leftarrow> set_iter_advance rc cmp i t; Some ((tmp, i), t) }"

definition set_to_iterator :: "'k iter \<Rightarrow> 'k iter" where
  "set_to_iterator c = iter_at (it_owner c) (it_key c)"

definition set_erase_at ::
  "(unit, 'r) reclaimer_ops \<Rightarrow> ('k \<Rightarrow> 'k \<Rightarrow> bool) \<Rightarrow> thread \<Rightarrow> push \<Rightarrow> 'k iter \<Rightarrow> ('k, 'r) set_tree \<Rightarrow>
   ((exn + 'k iter) \<times> ('k, 'r) set_tree) option" where
  "set_erase_at rc cmp th pu pos t =
     do {
       let nxt = set_to_iterator pos;
       (nxt, t) \<leftarrow> set_iter_advance rc cmp nxt t;
       if \<not> it_is_end pos then do {
         (r, t) \<leftarrow> erase_node rc cmp th pu (it_key pos) t;
         Some (case r of Inl e \<Rightarrow> Inl e | Inr _ \<Rightarrow> Inr nxt, t)
       }
       else Some (Inr nxt, t)
     }"

text \<open>A loop \<open>for (it = begin(); it != end(); ++it)\<close> that collects \<open>*it\<close>, at most \<open>n\<close> steps.\<close>

fun set_collect ::
  "('act, 'r) reclaimer_ops \<Rightarrow> ('k \<Rightarrow> 'k \<Rightarrow> bool) \<Rightarrow> nat \<Rightarrow> 'k iter \<Rightarrow> ('k, 'r) set_tree \<Rightarrow>
   ('k list \<times> 'k iter \<times> ('k, 'r) set_tree) option" where
  "set_collect rc cmp 0 i t = Some ([], i, t)"
| "set_collect rc cmp (Suc n) i t =
     (if set_iter_neq cmp i (set_end (it_owner i) (it_key i)) then do {
        (k, t) \<leftarrow> set_iter_deref rc cmp i t;
        (i, t) \<leftarrow> set_iter_advance rc cmp i t;
        (ks, i, t) \<leftarrow> set_collect rc cmp n i t;
        Some (k # ks, i, t)
      }
      else Some ([], i, t))"

subsection \<open>The set operations are the map operations\<close>

lemma set_emplace_map:
  "set_emplace cmp th self blk dk args t =
     map_emplace cmp th self blk (dk, ()) (map_option (\<lambda>k. (k, ())) args) t"
  by (cases args) (simp_all add: set_emplace_def map_emplace_def cong: sum.case_cong)

lemma set_iter_map:
  "set_iter_eq = iter_eq" "set_iter_neq = iter_neq" "set_iter_resolve = iter_resolve"
  "set_iter_advance = iter_advance" "set_iter_post_inc = iter_post_inc" "set_to_iterator = const_iterator_to_iterator"
  "set_end = iter_end" "set_begin = map_begin" "set_erase_at = map_erase_at"
  by (intro ext; simp add: set_iter_eq_def set_iter_neq_def set_iter_resolve_def set_iter_advance_def
      set_iter_post_inc_def set_to_iterator_def set_end_def set_begin_def set_erase_at_def iter_eq_def iter_neq_def
      iter_resolve_def iter_advance_def iter_post_inc_def const_iterator_to_iterator_def map_begin_def map_erase_at_def)+

lemma set_lookup_map:
  "set_find = map_find" "set_contains = map_contains" "set_count = map_count" "set_erase = map_erase"
  "set_lower_bound = map_lower_bound" "set_upper_bound = map_upper_bound" "set_equal_range = map_equal_range"
  "set_clear = map_clear" "set_dtor = map_dtor" "set_ctor = map_ctor" "set_size = map_size" "set_empty = map_empty"
  by (intro ext; simp add: set_find_def set_contains_def set_count_def set_erase_def set_lower_bound_def
      set_upper_bound_def set_equal_range_def set_clear_def set_dtor_def set_ctor_def set_size_def set_empty_def
      map_find_def map_contains_def map_count_def map_erase_def map_lower_bound_def map_upper_bound_def map_bound_def
      map_equal_range_def map_clear_def map_dtor_def map_ctor_def map_size_def map_empty_def)+

lemma set_deref_map:
  "set_iter_deref rc cmp i t = map_option (\<lambda>(e, t). (fst e, t)) (iter_deref rc cmp i t)"
  by (simp add: set_iter_deref_def iter_deref_def set_iter_map map_option_bind split_def comp_def)

lemmas set_as_map = set_emplace_map set_iter_map set_lookup_map

lemma set_collect_map:
  "set_collect rc cmp n i t = map_option (\<lambda>(es, j, t). (map fst es, j, t)) (iter_collect rc cmp n i t)"
proof (induction n arbitrary: i t)
  case 0
  then show ?case by simp
next
  case (Suc n)
  show ?case
  proof (cases "iter_deref rc cmp i t")
    case (Some y)
    then show ?thesis
      by (cases y; cases "iter_advance rc cmp i (snd y)")
        (auto simp: set_as_map set_deref_map Suc.IH map_option_bind comp_def split_def
          map_conv_bind_option)
  qed (simp add: set_as_map set_deref_map)
qed

subsection \<open>The abstraction to a set of keys\<close>

definition key_map :: "'k set \<Rightarrow> ('k \<rightharpoonup> unit)" where
  "key_map A = (\<lambda>k. if k \<in> A then Some () else None)"

definition hazard_set :: "thread \<Rightarrow> ptr set \<Rightarrow> ('k::linorder, unit hazard) set_tree \<Rightarrow> 'k set \<Rightarrow> bool" where
  "hazard_set th W t A \<longleftrightarrow> hazard_map th W t (key_map A)"

lemma key_map_simps [simp]:
  "key_map A k = None \<longleftrightarrow> k \<notin> A" "dom (key_map A) = A" "(key_map A)(k \<mapsto> ()) = key_map (insert k A)"
  "(key_map A)(k := None) = key_map (A - {k})" "key_map {} = Map.empty" "k \<in> A \<Longrightarrow> key_map (insert k A) = key_map A"
  by (auto simp: key_map_def fun_eq_iff dom_def split: if_splits)

lemma key_map_inject [simp]: "key_map A = key_map B \<longleftrightarrow> A = B"
  by (metis key_map_simps(2))

lemma one_hazard_set: "\<exists>t :: ('k::linorder, unit hazard) set_tree. hazard_set 0 {} t {k}"
proof -
  have "[k \<mapsto> ()] = key_map {k}" by (auto simp: key_map_def fun_eq_iff)
  then show ?thesis using one_hazard_map [of k "()"] by (simp add: hazard_set_def)
qed

end
