(* ===== verification/BlockStore.thy ===== *)
theory BlockStore
  imports NodePool
begin

section \<open>Blocks of a pool in use\<close>

text \<open>
  What an engine relies on of its memory and its pool: \<open>blocks l m p N\<close> says that the pool is
  consistent and that the allocated blocks are exactly those in use (\<open>N\<close>, each a node that
  knows its allocator) and those in the pool. Acquiring adds a block to \<open>N\<close>, releasing takes
  one away, and neither touches the others (\<open>same_on\<close>).
\<close>

definition in_use :: "'n link \<Rightarrow> 'n mem \<Rightarrow> ptr \<Rightarrow> bool" where
  "in_use l m a \<longleftrightarrow> (\<exists>nd. load m a = Some nd \<and> live m a = Some (link_owner l nd))"

definition blocks :: "'n link \<Rightarrow> 'n mem \<Rightarrow> pool \<Rightarrow> ptr set \<Rightarrow> bool" where
  "blocks l m p N \<longleftrightarrow> (\<exists>xss. pool_rel l m p xss \<and> pooled xss \<inter> N = {} \<and> (\<forall>a \<in> N. in_use l m a) \<and>
     (\<forall>a. live m a \<noteq> None \<longrightarrow> a \<in> N \<union> pooled xss))"

definition same_on :: "ptr set \<Rightarrow> 'n mem \<Rightarrow> 'n mem \<Rightarrow> bool" where
  "same_on N m m' \<longleftrightarrow> (\<forall>a \<in> N. load m' a = load m a \<and> live m' a = live m a)"

lemma same_on_refl [simp]: "same_on N m m"
  by (simp add: same_on_def)

lemma same_on_trans: "same_on N m m' \<Longrightarrow> same_on N m' m'' \<Longrightarrow> same_on N m m''"
  by (simp add: same_on_def)

lemma same_on_mono: "same_on N m m' \<Longrightarrow> M \<subseteq> N \<Longrightarrow> same_on M m m'"
  by (auto simp: same_on_def)

lemma same_on_store: "a \<notin> N \<Longrightarrow> same_on N m (store a nd m)"
  by (auto simp: same_on_def)

lemma in_use_same: "same_on N m m' \<Longrightarrow> a \<in> N \<Longrightarrow> in_use l m' a = in_use l m a"
  by (simp add: same_on_def in_use_def)

lemma blocks_in_use: "blocks l m p N \<Longrightarrow> a \<in> N \<Longrightarrow> in_use l m a"
  by (auto simp: blocks_def)

text \<open>Writing a node that keeps its allocator.\<close>

lemma blocks_store:
  assumes "blocks l m p N" and "a \<in> N" and "load m a = Some nd" and "link_owner l nd' = link_owner l nd"
  shows "blocks l (store a nd' m) p N"
proof -
  obtain xss where x: "pool_rel l m p xss" "pooled xss \<inter> N = {}" "\<forall>a \<in> N. in_use l m a"
    "\<forall>a. live m a \<noteq> None \<longrightarrow> a \<in> N \<union> pooled xss" using assms(1) by (auto simp: blocks_def)
  have "a \<notin> pooled xss" using x(2) assms(2) by blast
  then have "pool_rel l (store a nd' m) p xss" by (intro pool_rel_frame [OF x(1)]) auto
  moreover have "in_use l (store a nd' m) b" if "b \<in> N" for b
    using x(3) that assms(2-4) by (auto simp: in_use_def dest!: bspec)
  ultimately show ?thesis using x(2,4) by (auto simp: blocks_def)
qed

lemma pooled_live: "pool_rel l m p xss \<Longrightarrow> a \<in> pooled xss \<Longrightarrow> live m a \<noteq> None"
proof -
  assume rel: "pool_rel l m p xss" and a: "a \<in> pooled xss"
  then obtain j where j: "j < SHARDS" "a \<in> set (xss ! j)"
    by (auto simp: pooled_nth pool_rel_def)
  then have "chain l m (sh_head (shards p ! j)) (xss ! j)" using rel by (simp add: pool_rel_def shard_ok_def)
  then show ?thesis using chain_live j(2) by blast
qed

lemma pooled_replace:
  assumes rel: "pool_rel l m p xss" and i: "i < SHARDS"
  shows "pooled (xss[i := ys]) = (pooled xss - set (xss ! i)) \<union> set ys"
proof -
  have len: "length xss = SHARDS" and disj: "\<And>j. j < SHARDS \<Longrightarrow> j \<noteq> i \<Longrightarrow> set (xss ! i) \<inter> set (xss ! j) = {}"
    using rel i by (auto simp: pool_rel_def)
  show ?thesis using len i disj by (fastforce simp: pooled_nth nth_list_update split: if_splits)
qed

context pool_link
begin

lemma blocks_release:
  assumes b: "blocks l m p (insert n N)" and n: "n \<notin> N"
  shows "\<exists>m' p'. release l th n m p = Some (m', p') \<and> blocks l m' p' N \<and> same_on N m m' \<and>
    (\<forall>a. live m' a \<noteq> None \<longrightarrow> live m a \<noteq> None)"
proof -
  obtain xss where x: "pool_rel l m p xss" "pooled xss \<inter> insert n N = {}" "\<forall>a \<in> insert n N. in_use l m a"
    "\<forall>a. live m a \<noteq> None \<longrightarrow> a \<in> insert n N \<union> pooled xss" using b by (auto simp: blocks_def)
  obtain nd where nd: "load m n = Some nd" "live m n = Some (link_owner l nd)" using x(3) by (auto simp: in_use_def)
  obtain i p1 where my: "my_shard th p = (i, p1)" by force
  have i: "i < SHARDS" using my_shard_spec [OF x(1) my] by simp
  have sub: "set (xss ! i) \<subseteq> pooled xss" using in_pooledI [OF x(1) i] .
  obtain m' p' where r: "release l th n m p = Some (m', p')" and post:
    "if length (xss ! i) < PER_SHARD_WATERMARK
     then pool_rel l m' p' (xss[i := n # xss ! i]) \<and> live m' = live m \<and> (\<forall>b. b \<noteq> n \<longrightarrow> load m' b = load m b)
     else pool_rel l m' p' (xss[i := []]) \<and> freed (insert n (set (xss ! i))) m m'"
    using release_spec [OF x(1) nd _ my] x(2) by blast
  define ys where "ys = (if length (xss ! i) < PER_SHARD_WATERMARK then n # xss ! i else [])"
  have rel: "pool_rel l m' p' (xss[i := ys])" using post by (simp add: ys_def split: if_splits)
  have pl: "pooled (xss[i := ys]) = (pooled xss - set (xss ! i)) \<union> set ys" using pooled_replace [OF x(1) i] .
  have same: "same_on N m m'"
    using post n x(2) sub by (auto simp: same_on_def freed_def split: if_splits)
  moreover have "blocks l m' p' N"
    unfolding blocks_def
  proof (intro exI conjI ballI allI impI)
    show "pool_rel l m' p' (xss[i := ys])" by (rule rel)
    show "pooled (xss[i := ys]) \<inter> N = {}" using pl x(2) n sub by (auto simp: ys_def split: if_splits)
    show "in_use l m' a" if "a \<in> N" for a using in_use_same [OF same that] x(3) that by simp
    show "a \<in> N \<union> pooled (xss[i := ys])" if "live m' a \<noteq> None" for a
      using that post x(4) unfolding pl by (auto simp: ys_def freed_def split: if_splits)
  qed
  moreover have "live m a \<noteq> None" if "live m' a \<noteq> None" for a
    using that post by (auto simp: freed_def split: if_splits)
  ultimately show ?thesis using r by blast
qed

lemma blocks_drain:
  assumes b: "blocks l m p N"
  shows "\<exists>m' p'. drain l m p = Some (m', p') \<and> blocks l m' p' N \<and> same_on N m m' \<and>
    (\<forall>a. live m' a \<noteq> None \<longrightarrow> a \<in> N)"
proof -
  obtain xss where x: "pool_rel l m p xss" "pooled xss \<inter> N = {}" "\<forall>a \<in> N. in_use l m a"
    "\<forall>a. live m a \<noteq> None \<longrightarrow> a \<in> N \<union> pooled xss" using b by (auto simp: blocks_def)
  obtain m' p' where d: "drain l m p = Some (m', p')" "pool_rel l m' p' (replicate SHARDS [])"
    "freed (pooled xss) m m'" using drain_spec [OF x(1)] by blast
  have same: "same_on N m m'" using d(3) x(2) by (auto simp: same_on_def freed_def)
  moreover have all: "a \<in> N" if "live m' a \<noteq> None" for a
    using that d(3) x(4) by (auto simp: freed_def split: if_splits)
  moreover have "blocks l m' p' N"
    unfolding blocks_def using d(2) all in_use_same [OF same] x(3)
    by (intro exI [of _ "replicate SHARDS []"]) (auto simp: pooled_def)
  ultimately show ?thesis using d(1) by blast
qed

text \<open>A block of the pool, or one from the allocator; the caller writes a node into it.\<close>

lemma blocks_new:
  assumes rel: "pool_rel l m' p' xss" and disj: "pooled xss \<inter> insert n N = {}" and n: "n \<notin> N" "n \<noteq> 0"
    and use: "\<forall>a \<in> N. in_use l m a" and same: "same_on N m m'" and live: "live m' n = Some na"
    and all: "\<forall>a. live m' a \<noteq> None \<longrightarrow> a \<in> insert n N \<union> pooled xss" and nd: "link_owner l nd = na"
  shows "blocks l (store n nd m') p' (insert n N)"
proof -
  have "pool_rel l (store n nd m') p' xss" using disj by (intro pool_rel_frame [OF rel]) auto
  moreover have "in_use l (store n nd m') a" if "a \<in> insert n N" for a
    using that use n in_use_same [OF same] live nd by (auto simp: in_use_def)
  ultimately show ?thesis using disj all by (auto simp: blocks_def)
qed

lemma blocks_acquire:
  assumes b: "blocks l m p N" and blk: "\<And>a. blk = Some a \<Longrightarrow> fresh_block m a"
  shows "\<exists>r m' p'. acquire l th na blk m p = Some (r, m', p') \<and> same_on N m m' \<and>
    (case r of
       Inl e \<Rightarrow> e = Bad_alloc \<and> blk = None \<and> blocks l m' p' N \<and> (\<exists>x v. live m = (live m')(x := v)) \<and>
         (\<forall>a. live m' a \<noteq> None \<longrightarrow> live m a \<noteq> None)
     | Inr n \<Rightarrow> n \<notin> N \<and> n \<noteq> 0 \<and> (live m n \<noteq> None \<or> blk = Some n) \<and>
         (\<forall>a. live m' a \<noteq> None \<longrightarrow> live m a \<noteq> None \<or> a = n) \<and>
         (\<forall>nd. link_owner l nd = na \<longrightarrow> blocks l (store n nd m') p' (insert n N)))"
proof -
  obtain xss where x: "pool_rel l m p xss" "pooled xss \<inter> N = {}" "\<forall>a \<in> N. in_use l m a"
    "\<forall>a. live m a \<noteq> None \<longrightarrow> a \<in> N \<union> pooled xss" using b by (auto simp: blocks_def)
  obtain i p1 where my: "my_shard th p = (i, p1)" by force
  have i: "i < SHARDS" using my_shard_spec [OF x(1) my] by simp
  have sub: "set (xss ! i) \<subseteq> pooled xss" using in_pooledI [OF x(1) i] .
  obtain r m' p' where a: "acquire l th na blk m p = Some (r, m', p')" and post:
    "case xss ! i of
       [] \<Rightarrow> pool_rel l m' p' xss \<and> (r, m') = allocate na blk m
     | y # ys \<Rightarrow> pool_rel l m' p' (xss[i := ys]) \<and>
         (if live m y = Some na then r = Inr y \<and> m' = m
          else \<exists>m1. freed {y} m m1 \<and> (r, m') = allocate na blk m1)"
    using acquire_spec [OF x(1) my blk] by blast
  have liveN: "a \<in> N \<Longrightarrow> live m a \<noteq> None" for a using x(3) by (auto simp: in_use_def)
  have livep: "a \<in> pooled xss \<Longrightarrow> live m a \<noteq> None" for a
    using pooled_live x(1) by blast
  have from_alloc: ?thesis if rel: "pool_rel l m' p' yss" and F: "freed F m m1" "F \<subseteq> pooled xss" "F \<subseteq> {y}"
      "pooled yss = pooled xss - F" and r: "(r, m') = allocate na blk m1" for yss F m1 y
  proof -
    have out: "a \<notin> F" if "a \<in> N" for a using that F(2) x(2) by blast
    show ?thesis
    proof (cases blk)
      case None
      have m': "m' = m1" "r = Inl Bad_alloc" using r by (simp_all add: allocate_def None)
      have same: "same_on N m m'" using F(1) out by (auto simp: same_on_def freed_def m')
      have "blocks l m' p' N"
        unfolding blocks_def
      proof (intro exI conjI ballI allI impI)
        show "pool_rel l m' p' yss" by (rule rel)
        show "pooled yss \<inter> N = {}" using x(2) F(4) by blast
        show "in_use l m' a" if "a \<in> N" for a using in_use_same [OF same that] x(3) that by simp
        show "a \<in> N \<union> pooled yss" if "live m' a \<noteq> None" for a
          using that x(4) F(1) unfolding F(4) m' by (auto simp: freed_def split: if_splits)
      qed
      moreover have "live m = (live m')(y := live m y)"
        using F(1,3) unfolding m' freed_def by (auto simp: fun_eq_iff)
      then have "\<exists>x v. live m = (live m')(x := v)" by blast
      ultimately show ?thesis using a same m' None F(1) by (auto simp: freed_def split: if_splits)
    next
      case (Some n)
      have n: "n \<noteq> 0" "live m n = None" using blk [OF Some] by (simp_all add: fresh_block_def)
      have m': "m' = m1\<lparr>live := (live m1)(n \<mapsto> na)\<rparr>" "r = Inr n" using r by (simp_all add: allocate_def Some)
      have nN: "n \<notin> N" "n \<notin> pooled xss" using n(2) liveN livep by blast+
      have ld: "load m' a = load m1 a" for a by (simp add: m' load_def)
      have same: "same_on N m m'" using F(1) out nN unfolding same_on_def freed_def ld by (auto simp: m')
      have lv: "live m a \<noteq> None \<or> a = n" if "live m' a \<noteq> None" for a
        using that F(1) by (auto simp: m' freed_def split: if_splits)
      have "blocks l (store n nd m') p' (insert n N)" if "link_owner l nd = na" for nd
      proof (rule blocks_new [OF rel _ nN(1) n(1) x(3) same _ _ that])
        show "pooled yss \<inter> insert n N = {}" using x(2) F(4) nN by blast
        show "live m' n = Some na" by (simp add: m')
        show "\<forall>a. live m' a \<noteq> None \<longrightarrow> a \<in> insert n N \<union> pooled yss"
          using x(4) F(1) unfolding F(4) m' by (auto simp: freed_def split: if_splits)
      qed
      then show ?thesis using a same m' Some nN n(1) lv by auto
    qed
  qed
  show ?thesis
  proof (cases "xss ! i")
    case Nil
    then show ?thesis using post by (intro from_alloc [of xss "{}" m 0]) auto
  next
    case (Cons y ys)
    have rel: "pool_rel l m' p' (xss[i := ys])" using post Cons by simp
    have y: "y \<in> pooled xss" "y \<noteq> 0" "y \<notin> set ys"
      using sub x(1) i Cons by (auto simp: pool_rel_def shard_ok_def dest!: spec [where x = i])
    have pl: "pooled (xss[i := ys]) = pooled xss - {y}"
      using pooled_replace [OF x(1) i, of ys] sub Cons y(3) by auto
    show ?thesis
    proof (cases "live m y = Some na")
      case True
      then have r: "r = Inr y" "m' = m" using post Cons by simp_all
      have yN: "y \<notin> N" using y(1) x(2) by blast
      have "blocks l (store y nd m') p' (insert y N)" if "link_owner l nd = na" for nd
        by (rule blocks_new [OF rel _ yN y(2) x(3) _ _ _ that]) (use pl x y True in \<open>auto simp: r\<close>)
      then show ?thesis using a r yN y(2) True by auto
    next
      case False
      then obtain m1 where "freed {y} m m1" "(r, m') = allocate na blk m1" using post Cons by auto
      then show ?thesis using rel pl y(1) by (intro from_alloc [of "xss[i := ys]" "{y}" m1 y]) auto
    qed
  qed
qed

end

end
