(* ===== verification/Floats.thy ===== *)
theory Floats
  imports Complex_Main Prelude "HOL-Library.Log_Nat"
begin

section \<open>Floating-point numbers\<close>

text \<open>
  What the hash table uses of \<open>float\<close> and \<open>double\<close>: IEEE 754 numbers as exact rationals with
  infinities and not-a-number, operations rounded to nearest with ties to even, subnormal
  numbers included. The sign of a zero is left out: no operation used here depends on it.
\<close>

datatype fl = Fin rat | Inf | MInf | NaN

definition round_half_even :: "rat \<Rightarrow> int" where
  "round_half_even x =
     (let n = \<lfloor>x\<rfloor>; r = x - of_int n
      in if r < 1/2 then n else if r > 1/2 then n + 1 else if even n then n else n + 1)"

text \<open>The exponent of the leading bit of a positive number.\<close>

definition exponent_of :: "rat \<Rightarrow> int" where
  "exponent_of x =
     (let (n, d) = quotient_of x; e = bitlen n - bitlen d
      in if 2 powi e \<le> x then e else e - 1)"

text \<open>\<open>p\<close> bits of precision, exponents from \<open>lo\<close> to \<open>hi\<close>.\<close>

definition fl_round :: "int \<Rightarrow> int \<Rightarrow> int \<Rightarrow> rat \<Rightarrow> fl" where
  "fl_round p lo hi x =
     (if x = 0 then Fin 0
      else let u = 2 powi (max (exponent_of \<bar>x\<bar>) lo - (p - 1));
               y = of_int (round_half_even (x / u)) * u
           in if y \<ge> 2 powi (hi + 1) then Inf else if y \<le> - (2 powi (hi + 1)) then MInf else Fin y)"

definition f32 :: "rat \<Rightarrow> fl" where "f32 = fl_round 24 (-126) 127"
definition f64 :: "rat \<Rightarrow> fl" where "f64 = fl_round 53 (-1022) 1023"

fun fl_pos :: "fl \<Rightarrow> bool" where
  "fl_pos (Fin x) \<longleftrightarrow> x > 0"
| "fl_pos Inf \<longleftrightarrow> True"
| "fl_pos MInf \<longleftrightarrow> False"
| "fl_pos NaN \<longleftrightarrow> False"

text \<open>\<open>1 / f\<close> for a positive \<open>f\<close>; the products and sums of numbers that are not negative.\<close>

fun fl_recip :: "(rat \<Rightarrow> fl) \<Rightarrow> fl \<Rightarrow> fl" where
  "fl_recip rnd (Fin x) = rnd (1 / x)"
| "fl_recip rnd Inf = Fin 0"
| "fl_recip rnd MInf = Fin 0"
| "fl_recip rnd NaN = NaN"

fun fl_mul :: "(rat \<Rightarrow> fl) \<Rightarrow> fl \<Rightarrow> fl \<Rightarrow> fl" where
  "fl_mul rnd (Fin x) (Fin y) = rnd (x * y)"
| "fl_mul rnd (Fin x) Inf = (if x > 0 then Inf else if x < 0 then MInf else NaN)"
| "fl_mul rnd (Fin x) MInf = (if x > 0 then MInf else if x < 0 then Inf else NaN)"
| "fl_mul rnd Inf (Fin x) = (if x > 0 then Inf else if x < 0 then MInf else NaN)"
| "fl_mul rnd MInf (Fin x) = (if x > 0 then MInf else if x < 0 then Inf else NaN)"
| "fl_mul rnd Inf Inf = Inf"
| "fl_mul rnd MInf MInf = Inf"
| "fl_mul rnd Inf MInf = MInf"
| "fl_mul rnd MInf Inf = MInf"
| "fl_mul rnd NaN y = NaN"
| "fl_mul rnd x NaN = NaN"

text \<open>Division; a zero divisor is the positive zero.\<close>

fun fl_div :: "(rat \<Rightarrow> fl) \<Rightarrow> fl \<Rightarrow> fl \<Rightarrow> fl" where
  "fl_div rnd (Fin x) (Fin y) = (if y \<noteq> 0 then rnd (x / y) else if x > 0 then Inf else if x < 0 then MInf else NaN)"
| "fl_div rnd (Fin x) Inf = Fin 0"
| "fl_div rnd (Fin x) MInf = Fin 0"
| "fl_div rnd Inf (Fin y) = (if y \<ge> 0 then Inf else MInf)"
| "fl_div rnd MInf (Fin y) = (if y \<ge> 0 then MInf else Inf)"
| "fl_div rnd x y = NaN"

fun fl_add_rat :: "(rat \<Rightarrow> fl) \<Rightarrow> fl \<Rightarrow> rat \<Rightarrow> fl" where
  "fl_add_rat rnd (Fin x) y = rnd (x + y)"
| "fl_add_rat rnd f y = f"

text \<open>The conversions with \<open>std::size_t\<close>; a value out of range has no result.\<close>

definition of_size :: "(rat \<Rightarrow> fl) \<Rightarrow> u64 \<Rightarrow> fl" where
  "of_size rnd n = rnd (of_nat (unat n))"

fun to_size :: "fl \<Rightarrow> u64 option" where
  "to_size (Fin x) = (if -1 < x \<and> x < 2 ^ 64 then Some (word_of_int (if x < 0 then 0 else \<lfloor>x\<rfloor>)) else None)"
| "to_size Inf = None"
| "to_size MInf = None"
| "to_size NaN = None"

subsection \<open>Exact results\<close>

lemma exponent_bounds:
  assumes "x > 0"
  shows "2 powi exponent_of x \<le> x" and "x < 2 powi (exponent_of x + 1)"
proof -
  obtain n d where q: "quotient_of x = (n, d)" by force
  have d: "d > 0" and x: "x = of_int n / of_int d" using quotient_of_denom_pos [OF q] quotient_of_div [OF q] by auto
  then have n: "n > 0" using assms by (simp add: zero_less_divide_iff)
  define a b where "a = nat (bitlen n - 1)" and "b = nat (bitlen d - 1)"
  have pos: "bitlen n \<ge> 1" "bitlen d \<ge> 1"
    using n d bitlen_eq_zero_iff [of n] bitlen_eq_zero_iff [of d] bitlen_nonneg [of n] bitlen_nonneg [of d] by linarith+
  have bl: "bitlen n = int a + 1" "bitlen d = int b + 1" using pos by (simp_all add: a_def b_def)
  have nb: "2 ^ a \<le> n" "n < 2 ^ Suc a" and db: "2 ^ b \<le> d" "d < 2 ^ Suc b"
    using bitlen_bounds [OF n] bitlen_bounds [OF d] by (simp_all add: bl nat_add_distrib)
  let ?e = "int a - int b"
  have pw: "(2 :: rat) powi ?e = 2 ^ a / 2 ^ b" "(2 :: rat) powi (?e - 1) = 2 ^ a / 2 ^ Suc b" "(2 :: rat) powi (?e + 1) = 2 ^ Suc a / 2 ^ b"
    by (simp_all add: power_int_diff power_int_add)
  have r: "2 ^ a \<le> (of_int n :: rat)" "(of_int n :: rat) < 2 ^ Suc a" "2 ^ b \<le> (of_int d :: rat)" "(of_int d :: rat) < 2 ^ Suc b"
    using nb db by (metis of_int_le_iff of_int_less_iff of_int_numeral of_int_power)+
  have "2 ^ a * of_int d \<le> of_int n * (2 ^ Suc b :: rat)" using r n d by (intro mult_mono) auto
  then have lo: "2 powi (?e - 1) \<le> x" unfolding pw x using d by (simp add: field_simps)
  have "of_int n * (2 ^ b :: rat) < 2 ^ Suc a * of_int d" using r n d by (intro mult_less_le_imp_less) auto
  then have hi: "x < 2 powi (?e + 1)" unfolding pw x using d by (simp add: field_simps)
  have e: "exponent_of x = (if 2 powi ?e \<le> x then ?e else ?e - 1)"
    by (simp add: exponent_of_def q bl)
  show "2 powi exponent_of x \<le> x" and "x < 2 powi (exponent_of x + 1)"
    using lo hi by (auto simp: e)
qed

lemma exponent_of_eq:
  assumes "2 powi e \<le> x" and "x < 2 powi (e + 1)"
  shows "exponent_of x = e"
proof -
  have x: "x > 0" using assms(1) zero_less_power_int [of "2 :: rat" e] by linarith
  have "2 powi e < (2 :: rat) powi (exponent_of x + 1)" "(2 :: rat) powi exponent_of x < 2 powi (e + 1)"
    using assms exponent_bounds [OF x] by linarith+
  then have "e < exponent_of x + 1" "exponent_of x < e + 1" using power_int_increasing [of "exponent_of x + 1" e "2 :: rat"] power_int_increasing [of "e + 1" "exponent_of x" "2 :: rat"] by (auto simp: not_le [symmetric])
  then show ?thesis by simp
qed

lemma round_half_even_int [simp]: "round_half_even (of_int z) = z"
  by (simp add: round_half_even_def)

text \<open>A number with at most \<open>p\<close> significant bits is not rounded.\<close>

lemma fl_round_exact:
  assumes "2 powi e \<le> x" and "x < 2 powi (e + 1)" and "lo \<le> e" "e \<le> hi" and "x = of_int z * 2 powi (e - (p - 1))"
  shows "fl_round p lo hi x = Fin x"
proof -
  let ?u = "(2 :: rat) powi (e - (p - 1))"
  have x: "x > 0" using assms(1) zero_less_power_int [of "2 :: rat" e] by linarith
  have u: "?u \<noteq> 0" by (simp add: power_int_eq_0_iff)
  have "x / ?u = of_int z" using assms(5) u by simp
  then have y: "of_int (round_half_even (x / ?u)) * ?u = x" using assms(5) by simp
  have "(2 :: rat) powi (e + 1) \<le> 2 powi (hi + 1)" using assms(4) by (intro power_int_increasing) auto
  then have "\<not> x \<ge> 2 powi (hi + 1)" "\<not> x \<le> - (2 powi (hi + 1))"
    using assms(2) x zero_less_power_int [of "2 :: rat" "hi + 1"] by linarith+
  then show ?thesis using x y assms(3) by (simp add: fl_round_def Let_def exponent_of_eq [OF assms(1,2)] max_absorb1)
qed

lemma f32_pow2:
  assumes "k < 64"
  shows "f32 (2 ^ k) = Fin (2 ^ k)"
proof -
  have "(2 :: rat) ^ k = of_int (2 ^ 23) * 2 powi (int k - (24 - 1))"
    by (simp add: power_int_diff)
  then show ?thesis
    unfolding f32_def using assms by (intro fl_round_exact [where e = "int k" and z = "2 ^ 23"]) (simp_all add: power_int_add)
qed

text \<open>Rounding moves a number by at most half a unit in the last place.\<close>

lemma round_half_even_near: "\<bar>of_int (round_half_even x) - x\<bar> \<le> 1 / 2"
proof -
  have "0 \<le> x - of_int \<lfloor>x\<rfloor>" "x - of_int \<lfloor>x\<rfloor> < 1" by linarith+
  then show ?thesis by (simp add: round_half_even_def Let_def abs_if) linarith
qed

lemma fl_round_near:
  assumes e: "2 powi e \<le> x" "x < 2 powi (e + 1)" and lo: "lo \<le> e" and hi: "e < hi" and p: "0 \<le> p"
  shows "\<exists>y. fl_round p lo hi x = Fin y \<and> \<bar>y - x\<bar> \<le> 2 powi (e - p)"
proof -
  let ?u = "(2 :: rat) powi (e - (p - 1))"
  have x: "x > 0" using e(1) zero_less_power_int [of "2 :: rat" e] by linarith
  have u: "?u > 0" by simp
  define y where "y = of_int (round_half_even (x / ?u)) * ?u"
  have "\<bar>y - x\<bar> = \<bar>of_int (round_half_even (x / ?u)) - x / ?u\<bar> * ?u"
  proof -
    have "y - x = (of_int (round_half_even (x / ?u)) - x / ?u) * ?u" using u by (simp add: y_def left_diff_distrib)
    then show ?thesis using u by (simp add: abs_mult)
  qed
  also have "\<dots> \<le> 1 / 2 * ?u" using round_half_even_near u by (intro mult_right_mono) auto
  also have "1 / 2 * ?u = 2 powi (e - p)" by (simp add: power_int_diff)
  finally have near: "\<bar>y - x\<bar> \<le> 2 powi (e - p)" .
  have "(2 :: rat) powi (e - p) \<le> 2 powi e" using p by (intro power_int_increasing) auto
  moreover have "(2 :: rat) powi e + 2 powi (e + 1) \<le> 2 powi (e + 2)" by (simp add: power_int_add)
  moreover have "(2 :: rat) powi (e + 2) \<le> 2 powi (hi + 1)" using hi by (intro power_int_increasing) auto
  moreover have "(0 :: rat) < 2 powi (hi + 1)" by simp
  ultimately have "\<not> y \<ge> 2 powi (hi + 1)" "\<not> y \<le> - (2 powi (hi + 1))" using near e by linarith+
  then have "fl_round p lo hi x = Fin y"
    using x lo by (simp add: fl_round_def Let_def exponent_of_eq [OF e] max_absorb1 y_def)
  then show ?thesis using near by blast
qed

text \<open>A natural number of at most 53 bits is exact.\<close>

lemma f64_nat:
  assumes "n < 2 ^ 53"
  shows "f64 (of_nat n) = Fin (of_nat n)"
proof (cases "n = 0")
  case True
  then show ?thesis by (simp add: f64_def fl_round_def)
next
  case False
  let ?x = "of_nat n :: rat"
  have x: "0 < ?x" using False by simp
  define e where "e = exponent_of ?x"
  have b: "2 powi e \<le> ?x" "?x < 2 powi (e + 1)" using exponent_bounds [OF x] by (simp_all add: e_def)
  have "1 \<le> ?x" using False by simp
  then have "(1 :: rat) < 2 powi (e + 1)" using b(2) by linarith
  then have e0: "0 \<le> e" using power_int_increasing [of "e + 1" 0 "2 :: rat"] by (cases "0 \<le> e") auto
  have "?x < 2 ^ 53" using assms by (metis of_nat_less_iff of_nat_numeral of_nat_power)
  then have "(2 :: rat) powi e < 2 powi 53" using b(1) by simp
  then have e52: "e < 53" using power_int_increasing [of 53 e "2 :: rat"] by (cases "e < 53") auto
  have z: "?x = of_int (int n * 2 ^ nat (52 - e)) * 2 powi (e - (53 - 1))"
  proof -
    have "(2 :: rat) ^ nat (52 - e) = 2 powi (52 - e)" using e52 by (simp add: power_int_def)
    moreover have "(2 :: rat) powi (52 - e) * 2 powi (e - 52) = 2 powi (52 - e + (e - 52))" by (rule power_int_add [symmetric]) simp
    ultimately show ?thesis by simp
  qed
  then show ?thesis unfolding f64_def using e0 e52 by (intro fl_round_exact [OF b _ _ z]) simp_all
qed

end
