(* ===== verification/TableModel.thy ===== *)
theory TableModel
  imports BitUtils BlockStore Reclaimer Floats
begin

section \<open>The split-ordered hash table: nodes, buckets and the list operations\<close>

text \<open>
  \<open>class split_ordered_table\<close> of \<open>detail/split_ordered_table.hpp\<close>: one list of nodes sorted by the
  split-order key, and an array of pointers to dummy nodes of that list. The two low bits of
  a \<open>next\<close> pointer are tags. An operation is a function of the engine state (\<open>htable\<close>); it is
  undefined (\<open>None\<close>) when it dereferences a null or dangling pointer, leaves an array or runs
  forever. It runs alone: a weak compare-and-swap succeeds when the values agree.

  The hash function and the key equality are the arguments \<open>hash\<close> and \<open>eq\<close>, the reclaimer is the
  record \<open>rc\<close>, the calling thread \<open>th\<close>. \<open>al\<close> is what the allocators answer while the operation
  runs: for the blocks in use, a new block or an exception.
\<close>

subsection \<open>Tag bits\<close>

definition MARKED :: u64 where "MARKED = 2"
definition MASK :: u64 where "MASK = 3"

definition tag_clear :: "ptr \<Rightarrow> ptr" where
  "tag_clear p = p AND NOT MASK"

definition is_marked :: "ptr \<Rightarrow> bool" where
  "is_marked p \<longleftrightarrow> p AND MARKED \<noteq> 0"

definition set_marked :: "ptr \<Rightarrow> ptr" where
  "set_marked p = p OR MARKED"

definition clear_mark :: "ptr \<Rightarrow> ptr" where
  "clear_mark p = p AND NOT MARKED"

subsection \<open>State\<close>

record ('k, 'v) hnode =
  d_next :: ptr
  d_so_key :: u64
  d_key :: 'k
  d_value :: 'v
  d_owner :: alloc

text \<open>\<open>pool_link_next\<close>: a pooled node is linked through its next pointer.\<close>

definition pool_link_next :: "('k, 'v) hnode link" where
  "pool_link_next = \<lparr>link_get = d_next, link_set = (\<lambda>nd p. nd\<lparr>d_next := p\<rparr>), link_owner = d_owner\<rparr>"

interpretation nl: pool_link pool_link_next
  by unfold_locales (simp_all add: pool_link_next_def)

record bucket_table =
  bt_size :: u64
  bt_buckets :: ptr
  bt_owner :: alloc

text \<open>
  The actions that a retirement carries, and the answers of the three rebound allocators
  (node, table, cell array).
\<close>

datatype table_act = Free_node | Free_table

record allocs =
  al_node :: "(ptr \<Rightarrow> alloc option) \<Rightarrow> ptr option"
  al_table :: "(ptr \<Rightarrow> alloc option) \<Rightarrow> ptr option"
  al_cells :: "(ptr \<Rightarrow> alloc option) \<Rightarrow> ptr option"

record ('k, 'v, 'r) htable =
  h_mem :: "('k, 'v) hnode mem"
  h_pool :: pool
  h_tabs :: "bucket_table mem"
  h_cells :: "ptr list mem"
  h_rc :: 'r
  h_table :: ptr
  h_count :: u64
  h_growing :: bool
  h_max_load :: fl
  h_inv_load :: fl
  h_cached :: u64
  h_na :: alloc

definition HP_TABLE :: nat where "HP_TABLE = 0"
definition HP_PREV :: nat where "HP_PREV = 1"
definition HP_CUR :: nat where "HP_CUR = 2"

abbreviation hnode_at :: "('k, 'v, 'r) htable \<Rightarrow> ptr \<Rightarrow> ('k, 'v) hnode option" where
  "hnode_at t p \<equiv> load (h_mem t) p"

definition put_hnode :: "ptr \<Rightarrow> ('k, 'v) hnode \<Rightarrow> ('k, 'v, 'r) htable \<Rightarrow> ('k, 'v, 'r) htable" where
  "put_hnode p nd t = t\<lparr>h_mem := store p nd (h_mem t)\<rparr>"

definition h_guard_in :: "('act, 'r) reclaimer_ops \<Rightarrow> ('k, 'v, 'r) htable \<Rightarrow> ('k, 'v, 'r) htable" where
  "h_guard_in rc t = t\<lparr>h_rc := rc_enter rc (h_rc t)\<rparr>"

definition h_guard_out :: "('act, 'r) reclaimer_ops \<Rightarrow> ('k, 'v, 'r) htable \<Rightarrow> ('k, 'v, 'r) htable" where
  "h_guard_out rc t = t\<lparr>h_rc := rc_exit rc (h_rc t)\<rparr>"

definition h_publish ::
  "('act, 'r) reclaimer_ops \<Rightarrow> nat \<Rightarrow> ptr \<Rightarrow> ('k, 'v, 'r) htable \<Rightarrow> ('k, 'v, 'r) htable option" where
  "h_publish rc i p t =
     (if rc_revalidate rc then do { s \<leftarrow> rc_protect rc i p (h_rc t); Some (t\<lparr>h_rc := s\<rparr>) } else Some t)"

text \<open>A compare-and-swap on a node's next pointer.\<close>

definition cas_next :: "ptr \<Rightarrow> ptr \<Rightarrow> ptr \<Rightarrow> ('k, 'v, 'r) htable \<Rightarrow> (bool \<times> ('k, 'v, 'r) htable) option" where
  "cas_next p expected new t =
     do { nd \<leftarrow> hnode_at t p;
          Some (if d_next nd = expected then (True, put_hnode p (nd\<lparr>d_next := new\<rparr>) t) else (False, t)) }"

definition read_cell :: "ptr \<Rightarrow> u64 \<Rightarrow> ('k, 'v, 'r) htable \<Rightarrow> ptr option" where
  "read_cell tp b t =
     do { bt \<leftarrow> load (h_tabs t) tp;
          cs \<leftarrow> load (h_cells t) (bt_buckets bt);
          if unat b < length cs then Some (cs ! unat b) else None }"

definition cas_cell :: "ptr \<Rightarrow> u64 \<Rightarrow> ptr \<Rightarrow> ('k, 'v, 'r) htable \<Rightarrow> ('k, 'v, 'r) htable option" where
  "cas_cell tp b d t =
     do { bt \<leftarrow> load (h_tabs t) tp;
          cs \<leftarrow> load (h_cells t) (bt_buckets bt);
          if unat b < length cs
          then Some (if cs ! unat b = 0 then t\<lparr>h_cells := store (bt_buckets bt) (cs[unat b := d]) (h_cells t)\<rparr> else t)
          else None }"

subsection \<open>Hashes and split-order keys\<close>

definition mixed_hash :: "('k \<Rightarrow> u64) \<Rightarrow> 'k \<Rightarrow> u64" where
  "mixed_hash hash k = mix_hash (hash k)"

definition so_key_of :: "u64 \<Rightarrow> u64" where
  "so_key_of mixed = bit_reverse (or mixed (push_bit 63 1))"

subsection \<open>Allocation of nodes\<close>

text \<open>\<open>pl\<close> is the default-initialised payload that the constructor of a node leaves.\<close>

definition alloc_hnode ::
  "thread \<Rightarrow> allocs \<Rightarrow> 'k \<times> 'v \<Rightarrow> ('k, 'v, 'r) htable \<Rightarrow> ((exn + ptr) \<times> ('k, 'v, 'r) htable) option" where
  "alloc_hnode th al pl t =
     do {
       (r, m, p) \<leftarrow> acquire pool_link_next th (h_na t) (al_node al (live (h_mem t))) (h_mem t) (h_pool t);
       let t = t\<lparr>h_mem := m, h_pool := p\<rparr>;
       case r of
         Inl e \<Rightarrow> Some (Inl e, t)
       | Inr n \<Rightarrow> Some (Inr n, put_hnode n \<lparr>d_next = 0, d_so_key = 0, d_key = fst pl, d_value = snd pl,
           d_owner = h_na t\<rparr> t)
     }"

definition construct_hpayload ::
  "ptr \<Rightarrow> 'k \<Rightarrow> 'v \<Rightarrow> ('k, 'v, 'r) htable \<Rightarrow> ('k, 'v, 'r) htable option" where
  "construct_hpayload n k v t =
     do { nd \<leftarrow> hnode_at t n; Some (put_hnode n (nd\<lparr>d_key := k, d_value := v\<rparr>) t) }"

definition set_so_key :: "ptr \<Rightarrow> u64 \<Rightarrow> ('k, 'v, 'r) htable \<Rightarrow> ('k, 'v, 'r) htable option" where
  "set_so_key n sk t = do { nd \<leftarrow> hnode_at t n; Some (put_hnode n (nd\<lparr>d_so_key := sk\<rparr>) t) }"

definition set_next :: "ptr \<Rightarrow> ptr \<Rightarrow> ('k, 'v, 'r) htable \<Rightarrow> ('k, 'v, 'r) htable option" where
  "set_next n p t = do { nd \<leftarrow> hnode_at t n; Some (put_hnode n (nd\<lparr>d_next := p\<rparr>) t) }"

definition free_hnode :: "thread \<Rightarrow> ptr \<Rightarrow> ('k, 'v, 'r) htable \<Rightarrow> ('k, 'v, 'r) htable option" where
  "free_hnode th n t =
     do { (m, p) \<leftarrow> release pool_link_next th n (h_mem t) (h_pool t);
          Some (t\<lparr>h_mem := m, h_pool := p\<rparr>) }"

definition destroy_hnode :: "thread \<Rightarrow> ptr \<Rightarrow> ('k, 'v, 'r) htable \<Rightarrow> ('k, 'v, 'r) htable option" where
  "destroy_hnode th n t = free_hnode th n t"

text \<open>\<open>free_table\<close>: the cell array, then the table itself, each to its allocator.\<close>

definition free_table :: "ptr \<Rightarrow> ('k, 'v, 'r) htable \<Rightarrow> ('k, 'v, 'r) htable option" where
  "free_table tp t =
     do { bt \<leftarrow> load (h_tabs t) tp;
          cm \<leftarrow> deallocate (bt_owner bt) (bt_buckets bt) (h_cells t);
          tm \<leftarrow> deallocate (bt_owner bt) tp (h_tabs t);
          Some (t\<lparr>h_cells := cm, h_tabs := tm\<rparr>) }"

fun run_acts :: "thread \<Rightarrow> (ptr \<times> table_act) list \<Rightarrow> ('k, 'v, 'r) htable \<Rightarrow> ('k, 'v, 'r) htable option" where
  "run_acts th [] t = Some t"
| "run_acts th ((p, Free_node) # fs) t = do { t \<leftarrow> free_hnode th p t; run_acts th fs t }"
| "run_acts th ((p, Free_table) # fs) t = do { t \<leftarrow> free_table p t; run_acts th fs t }"

definition h_retire ::
  "(table_act, 'r) reclaimer_ops \<Rightarrow> thread \<Rightarrow> push \<Rightarrow> ptr \<Rightarrow> table_act \<Rightarrow> ('k, 'v, 'r) htable \<Rightarrow>
   ((exn + unit) \<times> ('k, 'v, 'r) htable) option" where
  "h_retire rc th pu n act t =
     do {
       (r, s) \<leftarrow> rc_retire rc pu n act (h_rc t);
       let t = t\<lparr>h_rc := s\<rparr>;
       case r of
         Inl e \<Rightarrow> Some (Inl e, t)
       | Inr fs \<Rightarrow> do { t \<leftarrow> run_acts th fs t; Some (Inr (), t) }
     }"

subsection \<open>Walking the list\<close>

text \<open>\<open>protect_from(a->next, slot, tagged)\<close>: the cleared pointer, the tagged one.\<close>

partial_function (option) protect_from ::
  "('act, 'r) reclaimer_ops \<Rightarrow> ptr \<Rightarrow> nat \<Rightarrow> ('k, 'v, 'r) htable \<Rightarrow> (ptr \<times> ptr \<times> ('k, 'v, 'r) htable) option" where
  "protect_from rc a i t =
     (if \<not> rc_revalidate rc then do { nd \<leftarrow> hnode_at t a; Some (tag_clear (d_next nd), d_next nd, t) }
      else do {
        nd \<leftarrow> hnode_at t a;
        let p = d_next nd;
        let c = tag_clear p;
        s \<leftarrow> rc_protect rc i c (h_rc t);
        let t = t\<lparr>h_rc := s\<rparr>;
        nd \<leftarrow> hnode_at t a;
        if d_next nd = p then Some (c, p, t) else protect_from rc a i t
      })"

text \<open>
  The walk shared by \<open>locate\<close> and \<open>insert_from\<close>: to the first node with a split-order key not
  below \<open>cmp_key\<close>, unlinking marked nodes on the way. The result is the predecessor, the node and
  the tagged value read last.
\<close>

partial_function (option) list_walk ::
  "('act, 'r) reclaimer_ops \<Rightarrow> u64 \<Rightarrow> ptr \<Rightarrow> ptr \<Rightarrow> ptr \<Rightarrow> ('k, 'v, 'r) htable \<Rightarrow>
   (ptr \<times> ptr \<times> ptr \<times> ('k, 'v, 'r) htable) option" where
  "list_walk rc cmp_key prev cur tg t =
     (if cur = 0 then Some (prev, cur, tg, t)
      else do {
        nd \<leftarrow> hnode_at t cur;
        if d_so_key nd \<ge> cmp_key then Some (prev, cur, tg, t)
        else do {
          let raw_next = d_next nd;
          let nx = tag_clear raw_next;
          if is_marked raw_next then do {
            (_, t) \<leftarrow> cas_next prev tg (clear_mark nx) t;
            (cur, tg, t) \<leftarrow> protect_from rc prev HP_CUR t;
            list_walk rc cmp_key prev cur tg t
          }
          else do {
            let prev = cur;
            t \<leftarrow> h_publish rc HP_PREV cur t;
            (cur, tg, t) \<leftarrow> protect_from rc prev HP_CUR t;
            list_walk rc cmp_key prev cur tg t
          }
        }
      })"

partial_function (option) insert_from ::
  "('act, 'r) reclaimer_ops \<Rightarrow> ptr \<Rightarrow> ptr \<Rightarrow> ('k, 'v, 'r) htable \<Rightarrow> ('k, 'v, 'r) htable option" where
  "insert_from rc start n t =
     do {
       let prev = start;
       t \<leftarrow> h_publish rc HP_PREV prev t;
       (cur, tg, t) \<leftarrow> protect_from rc prev HP_CUR t;
       nd \<leftarrow> hnode_at t n;
       (prev, cur, tg, t) \<leftarrow> list_walk rc (d_so_key nd) prev cur tg t;
       t \<leftarrow> set_next n cur t;
       if is_marked tg then insert_from rc start n t
       else do {
         (b, t) \<leftarrow> cas_next prev tg n t;
         if b then Some t else insert_from rc start n t
       }
     }"

text \<open>\<open>initialize_bucket\<close>. The dummy that loses the race for the cell stays in the list.\<close>

partial_function (option) initialize_bucket ::
  "('act, 'r) reclaimer_ops \<Rightarrow> thread \<Rightarrow> allocs \<Rightarrow> 'k \<times> 'v \<Rightarrow> ptr \<Rightarrow> u64 \<Rightarrow> ('k, 'v, 'r) htable \<Rightarrow>
   ((exn + unit) \<times> ('k, 'v, 'r) htable) option" where
  "initialize_bucket rc th al pl tp b t =
     do {
       c \<leftarrow> read_cell tp b t;
       if c \<noteq> 0 then Some (Inr (), t)
       else do {
         (r, t) \<leftarrow> (if b \<noteq> 0 then do { p \<leftarrow> parent_bucket b; initialize_bucket rc th al pl tp p t }
                   else Some (Inr (), t));
         case r of
           Inl e \<Rightarrow> Some (Inl e, t)
         | Inr _ \<Rightarrow> do {
             (r, t) \<leftarrow> alloc_hnode th al pl t;
             case r of
               Inl e \<Rightarrow> Some (Inl e, t)
             | Inr d \<Rightarrow> do {
                 t \<leftarrow> set_so_key d (dummy_split_order_key b) t;
                 p \<leftarrow> parent_bucket b;
                 start \<leftarrow> read_cell tp p t;
                 t \<leftarrow> insert_from rc start d t;
                 t \<leftarrow> cas_cell tp b d t;
                 Some (Inr (), t)
               }
           }
       }
     }"

partial_function (option) locate ::
  "('act, 'r) reclaimer_ops \<Rightarrow> thread \<Rightarrow> allocs \<Rightarrow> 'k \<times> 'v \<Rightarrow> u64 \<Rightarrow> u64 \<Rightarrow> ('k, 'v, 'r) htable \<Rightarrow>
   ((exn + ptr \<times> ptr) \<times> ('k, 'v, 'r) htable) option" where
  "locate rc th al pl mixed cmp_key t =
     do {
       let tp = h_table t;
       t \<leftarrow> h_publish rc HP_TABLE tp t;
       if rc_revalidate rc \<and> h_table t \<noteq> tp then locate rc th al pl mixed cmp_key t
       else do {
         bt \<leftarrow> load (h_tabs t) tp;
         let b = and mixed (bt_size bt - 1);
         d \<leftarrow> read_cell tp b t;
         if d = 0 then do {
           (r, t) \<leftarrow> initialize_bucket rc th al pl tp b t;
           case r of Inl e \<Rightarrow> Some (Inl e, t) | Inr _ \<Rightarrow> locate rc th al pl mixed cmp_key t
         }
         else do {
           t \<leftarrow> h_publish rc HP_PREV d t;
           (cur, tg, t) \<leftarrow> protect_from rc d HP_CUR t;
           (prev, cur, tg, t) \<leftarrow> list_walk rc cmp_key d cur tg t;
           Some (Inr (prev, cur), t)
         }
       }
     }"

text \<open>
  The scan of a run of equal split-order keys that insert, find and erase share: the
  predecessor and the node with the key, or \<open>None\<close> when the run ends.
\<close>

partial_function (option) run_scan ::
  "('act, 'r) reclaimer_ops \<Rightarrow> ('k \<Rightarrow> 'k \<Rightarrow> bool) \<Rightarrow> u64 \<Rightarrow> 'k \<Rightarrow> ptr \<Rightarrow> ptr \<Rightarrow> ptr \<Rightarrow> ('k, 'v, 'r) htable \<Rightarrow>
   ((ptr \<times> ptr) option \<times> ('k, 'v, 'r) htable) option" where
  "run_scan rc eq sk k rprev rcur tg t =
     (if rcur = 0 then Some (None, t)
      else do {
        nd \<leftarrow> hnode_at t rcur;
        if d_so_key nd \<noteq> sk then Some (None, t)
        else do {
          let rnx = d_next nd;
          if is_marked rnx then do {
            (_, t) \<leftarrow> cas_next rprev tg (clear_mark rnx) t;
            (rcur, tg, t) \<leftarrow> protect_from rc rprev HP_CUR t;
            run_scan rc eq sk k rprev rcur tg t
          }
          else if eq (d_key nd) k then Some (Some (rprev, rcur), t)
          else do {
            let rprev = rcur;
            t \<leftarrow> h_publish rc HP_PREV rcur t;
            (rcur, tg, t) \<leftarrow> protect_from rc rprev HP_CUR t;
            run_scan rc eq sk k rprev rcur tg t
          }
        }
      })"

subsection \<open>Insert, find, erase\<close>

text \<open>
  \<open>insert_node\<close>: \<open>True\<close> for \<open>INSERT_OK\<close>, \<open>False\<close> for \<open>INSERT_DUPLICATE\<close>. The new node is put before the
  first node whose split-order key is not below its own.
\<close>

definition run_has_key ::
  "('act, 'r) reclaimer_ops \<Rightarrow> ('k \<Rightarrow> 'k \<Rightarrow> bool) \<Rightarrow> u64 \<Rightarrow> 'k \<Rightarrow> ptr \<Rightarrow> ptr \<Rightarrow> ('k, 'v, 'r) htable \<Rightarrow>
   (bool \<times> ('k, 'v, 'r) htable) option" where
  "run_has_key rc eq sk k prev cur t =
     (if cur = 0 then Some (False, t)
      else do {
        nd \<leftarrow> hnode_at t cur;
        if d_so_key nd = sk then
          (if \<not> is_marked (d_next nd) \<and> eq (d_key nd) k then Some (True, t)
           else do { (res, t) \<leftarrow> run_scan rc eq sk k prev cur 0 t; Some (res \<noteq> None, t) })
        else Some (False, t)
      })"

partial_function (option) h_insert_loop ::
  "('act, 'r) reclaimer_ops \<Rightarrow> thread \<Rightarrow> allocs \<Rightarrow> 'k \<times> 'v \<Rightarrow> ('k \<Rightarrow> 'k \<Rightarrow> bool) \<Rightarrow> ptr \<Rightarrow> u64 \<Rightarrow> u64 \<Rightarrow> 'k \<Rightarrow>
   ('k, 'v, 'r) htable \<Rightarrow> ((exn + bool) \<times> ('k, 'v, 'r) htable) option" where
  "h_insert_loop rc th al pl eq n mixed sk k t =
     do {
       (r, t) \<leftarrow> locate rc th al pl mixed sk t;
       case r of
         Inl e \<Rightarrow> Some (Inl e, t)
       | Inr (prev, cur) \<Rightarrow> do {
           (dup, t) \<leftarrow> run_has_key rc eq sk k prev cur t;
           if dup then Some (Inr False, t)
           else do {
             t \<leftarrow> set_next n cur t;
             pnd \<leftarrow> hnode_at t prev;
             let expected = d_next pnd;
             if is_marked expected then h_insert_loop rc th al pl eq n mixed sk k t
             else if tag_clear expected = cur then do {
               (b, t) \<leftarrow> cas_next prev expected n t;
               if b then Some (Inr True, t\<lparr>h_count := h_count t + 1\<rparr>)
               else h_insert_loop rc th al pl eq n mixed sk k t
             }
             else h_insert_loop rc th al pl eq n mixed sk k t
           }
         }
     }"

definition h_insert_node ::
  "('act, 'r) reclaimer_ops \<Rightarrow> thread \<Rightarrow> allocs \<Rightarrow> 'k \<times> 'v \<Rightarrow> ('k \<Rightarrow> 'k \<Rightarrow> bool) \<Rightarrow> ptr \<Rightarrow> u64 \<Rightarrow> u64 \<Rightarrow> 'k \<Rightarrow>
   ('k, 'v, 'r) htable \<Rightarrow> ((exn + bool) \<times> ('k, 'v, 'r) htable) option" where
  "h_insert_node rc th al pl eq n mixed sk k t =
     do { t \<leftarrow> set_so_key n sk t; h_insert_loop rc th al pl eq n mixed sk k t }"

definition h_find_node ::
  "('act, 'r) reclaimer_ops \<Rightarrow> thread \<Rightarrow> allocs \<Rightarrow> 'k \<times> 'v \<Rightarrow> ('k \<Rightarrow> 'k \<Rightarrow> bool) \<Rightarrow> 'k \<Rightarrow> u64 \<Rightarrow> u64 \<Rightarrow>
   ('k, 'v, 'r) htable \<Rightarrow> ((exn + ptr option) \<times> ('k, 'v, 'r) htable) option" where
  "h_find_node rc th al pl eq k mixed sk t =
     do {
       (r, t) \<leftarrow> locate rc th al pl mixed sk t;
       case r of
         Inl e \<Rightarrow> Some (Inl e, t)
       | Inr (prev, cur) \<Rightarrow>
           if cur = 0 then Some (Inr None, t)
           else do {
             nd \<leftarrow> hnode_at t cur;
             if d_so_key nd \<noteq> sk then Some (Inr None, t)
             else if \<not> is_marked (d_next nd) \<and> eq (d_key nd) k then Some (Inr (Some cur), t)
             else do { (res, t) \<leftarrow> run_scan rc eq sk k prev cur 0 t; Some (Inr (map_option snd res), t) }
           }
     }"

definition h_find_value_ptr ::
  "('act, 'r) reclaimer_ops \<Rightarrow> thread \<Rightarrow> allocs \<Rightarrow> 'k \<times> 'v \<Rightarrow> ('k \<Rightarrow> 'k \<Rightarrow> bool) \<Rightarrow> 'k \<Rightarrow> u64 \<Rightarrow> u64 \<Rightarrow>
   ('k, 'v, 'r) htable \<Rightarrow> ((exn + ptr) \<times> ('k, 'v, 'r) htable) option" where
  "h_find_value_ptr rc th al pl eq k mixed sk t =
     do {
       (r, t) \<leftarrow> h_find_node rc th al pl eq k mixed sk (h_guard_in rc t);
       Some (case r of Inl e \<Rightarrow> Inl e | Inr res \<Rightarrow> Inr (case res of None \<Rightarrow> 0 | Some p \<Rightarrow> p), h_guard_out rc t)
     }"

text \<open>\<open>unlink_marked\<close>: first with the predecessor at hand, then by locating it again.\<close>

partial_function (option) ptr_scan ::
  "('act, 'r) reclaimer_ops \<Rightarrow> u64 \<Rightarrow> ptr \<Rightarrow> ptr \<Rightarrow> ptr \<Rightarrow> ('k, 'v, 'r) htable \<Rightarrow>
   ((ptr \<times> ptr) option \<times> ('k, 'v, 'r) htable) option" where
  "ptr_scan rc sk target rp c t =
     (if c = 0 then Some (None, t)
      else do {
        nd \<leftarrow> hnode_at t c;
        if d_so_key nd \<noteq> sk then Some (None, t)
        else if c = target then Some (Some (rp, c), t)
        else do {
          let rp = c;
          t \<leftarrow> h_publish rc HP_PREV c t;
          (c, _, t) \<leftarrow> protect_from rc rp HP_CUR t;
          ptr_scan rc sk target rp c t
        }
      })"

partial_function (option) unlink_loop ::
  "('act, 'r) reclaimer_ops \<Rightarrow> thread \<Rightarrow> allocs \<Rightarrow> 'k \<times> 'v \<Rightarrow> ptr \<Rightarrow> u64 \<Rightarrow> u64 \<Rightarrow>
   ('k, 'v, 'r) htable \<Rightarrow> ((exn + unit) \<times> ('k, 'v, 'r) htable) option" where
  "unlink_loop rc th al pl target mixed sk t =
     do {
       (r, t) \<leftarrow> locate rc th al pl mixed sk t;
       case r of
         Inl e \<Rightarrow> Some (Inl e, t)
       | Inr (p, c) \<Rightarrow> do {
           (res, t) \<leftarrow> ptr_scan rc sk target p c t;
           case res of
             None \<Rightarrow> Some (Inr (), t)
           | Some (rp, c) \<Rightarrow> do {
               nd \<leftarrow> hnode_at t c;
               (b, t) \<leftarrow> cas_next rp c (clear_mark (d_next nd)) t;
               if b then Some (Inr (), t) else unlink_loop rc th al pl target mixed sk t
             }
         }
     }"

definition unlink_marked ::
  "('act, 'r) reclaimer_ops \<Rightarrow> thread \<Rightarrow> allocs \<Rightarrow> 'k \<times> 'v \<Rightarrow> ptr \<Rightarrow> ptr \<Rightarrow> u64 \<Rightarrow> u64 \<Rightarrow>
   ('k, 'v, 'r) htable \<Rightarrow> ((exn + unit) \<times> ('k, 'v, 'r) htable) option" where
  "unlink_marked rc th al pl hint_prev target mixed sk t =
     do {
       nd \<leftarrow> hnode_at t target;
       (b, t) \<leftarrow> cas_next hint_prev target (clear_mark (d_next nd)) t;
       if b then Some (Inr (), t) else unlink_loop rc th al pl target mixed sk t
     }"

text \<open>What follows a successful mark: unlink, retire, count.\<close>

definition erase_marked ::
  "(table_act, 'r) reclaimer_ops \<Rightarrow> thread \<Rightarrow> allocs \<Rightarrow> 'k \<times> 'v \<Rightarrow> push \<Rightarrow> ptr \<Rightarrow> ptr \<Rightarrow> u64 \<Rightarrow> u64 \<Rightarrow>
   ('k, 'v, 'r) htable \<Rightarrow> ((exn + bool) \<times> ('k, 'v, 'r) htable) option" where
  "erase_marked rc th al pl pu prev target mixed sk t =
     do {
       (r, t) \<leftarrow> unlink_marked rc th al pl prev target mixed sk t;
       case r of
         Inl e \<Rightarrow> Some (Inl e, t)
       | Inr _ \<Rightarrow> do {
           (r, t) \<leftarrow> h_retire rc th pu target Free_node t;
           case r of
             Inl e \<Rightarrow> Some (Inl e, t)
           | Inr _ \<Rightarrow> Some (Inr True, t\<lparr>h_count := h_count t - 1\<rparr>)
         }
     }"

partial_function (option) h_erase_node ::
  "(table_act, 'r) reclaimer_ops \<Rightarrow> thread \<Rightarrow> allocs \<Rightarrow> 'k \<times> 'v \<Rightarrow> ('k \<Rightarrow> 'k \<Rightarrow> bool) \<Rightarrow> push \<Rightarrow> 'k \<Rightarrow> u64 \<Rightarrow> u64 \<Rightarrow>
   ('k, 'v, 'r) htable \<Rightarrow> ((exn + bool) \<times> ('k, 'v, 'r) htable) option" where
  "h_erase_node rc th al pl eq pu k mixed sk t =
     do {
       (r, t) \<leftarrow> locate rc th al pl mixed sk t;
       case r of
         Inl e \<Rightarrow> Some (Inl e, t)
       | Inr (prev, cur) \<Rightarrow>
           if cur = 0 then Some (Inr False, t)
           else do {
             nd \<leftarrow> hnode_at t cur;
             if d_so_key nd \<noteq> sk then Some (Inr False, t)
             else do {
               let fnx = d_next nd;
               (b, t) \<leftarrow> (if \<not> is_marked fnx \<and> eq (d_key nd) k then cas_next cur fnx (set_marked fnx) t
                         else Some (False, t));
               if b then erase_marked rc th al pl pu prev cur mixed sk t
               else do {
                 (res, t) \<leftarrow> run_scan rc eq sk k prev cur 0 t;
                 case res of
                   None \<Rightarrow> Some (Inr False, t)
                 | Some (rprev, rcur) \<Rightarrow> do {
                     tnd \<leftarrow> hnode_at t rcur;
                     let tnext = d_next tnd;
                     if is_marked tnext then h_erase_node rc th al pl eq pu k mixed sk t
                     else do {
                       (b, t) \<leftarrow> cas_next rcur tnext (set_marked tnext) t;
                       if b then erase_marked rc th al pl pu rprev rcur mixed sk t
                       else h_erase_node rc th al pl eq pu k mixed sk t
                     }
                   }
               }
             }
           }
     }"

end
