(* ===== verification/TableList.thy ===== *)
theory TableList
  imports TableModel
begin

section \<open>The list in memory\<close>

text \<open>
  \<open>lseg t xs q\<close>: the memory holds the nodes \<open>xs\<close>, linked in this order up to the pointer \<open>q\<close>, none
  of them marked; addresses are multiples of four, so the tag bits of pointers are free.
\<close>

type_synonym ('k, 'v) item = "u64 \<times> 'k \<times> 'v \<times> alloc"
type_synonym ('k, 'v) nodes = "(ptr \<times> ('k, 'v) item) list"

definition mk_hnode :: "ptr \<Rightarrow> ('k, 'v) item \<Rightarrow> ('k, 'v) hnode" where
  "mk_hnode p d = \<lparr>d_next = p, d_so_key = fst d, d_key = fst (snd d), d_value = fst (snd (snd d)),
     d_owner = snd (snd (snd d))\<rparr>"

lemma mk_hnode_simps [simp]:
  "d_next (mk_hnode p d) = p" "d_so_key (mk_hnode p d) = fst d" "d_key (mk_hnode p d) = fst (snd d)"
  "d_value (mk_hnode p d) = fst (snd (snd d))" "d_owner (mk_hnode p d) = snd (snd (snd d))"
  "(mk_hnode p d)\<lparr>d_next := q\<rparr> = mk_hnode q d"
  "(mk_hnode p d)\<lparr>d_so_key := sk\<rparr> = mk_hnode p (sk, snd d)"
  by (simp_all add: mk_hnode_def)

lemma hnode_conv: "nd = mk_hnode (d_next nd) (d_so_key nd, d_key nd, d_value nd, d_owner nd)"
  by (cases nd) (simp add: mk_hnode_def)

subsection \<open>Tags\<close>

definition aligned :: "ptr \<Rightarrow> bool" where
  "aligned p \<longleftrightarrow> and p 3 = 0"

lemma bit_MASK: "bit MASK n \<longleftrightarrow> n < 2"
proof -
  have "MASK = (mask 2 :: u64)" by (simp add: MASK_def mask_eq_exp_minus_1)
  then have "bit MASK n = bit (mask 2 :: u64) n" by (rule arg_cong)
  also have "\<dots> \<longleftrightarrow> n < 2" unfolding bit_mask_iff by auto
  finally show ?thesis .
qed

lemma bit_MARKED: "bit MARKED n \<longleftrightarrow> n = 1"
proof -
  have "MARKED = (2 ^ 1 :: u64)" by (simp add: MARKED_def)
  then have "bit MARKED n = bit (2 ^ 1 :: u64) n" by (rule arg_cong)
  also have "\<dots> \<longleftrightarrow> n = 1" unfolding bit_exp_iff by auto
  finally show ?thesis .
qed

lemma word_zero_iff: "(x :: u64) = 0 \<longleftrightarrow> (\<forall>n. \<not> bit x n)"
  using bit_imp_le_length [of x] by (auto simp: bit_eq_iff)

lemma aligned_bits: "aligned p \<longleftrightarrow> \<not> bit p 0 \<and> \<not> bit p 1"
  unfolding aligned_def MASK_def [symmetric] word_zero_iff by (auto simp: bit_and_iff bit_MASK numeral_2_eq_2 less_Suc_eq simp del: bit_0, metis gr0I)

lemma aligned_0 [simp]: "aligned 0"
  by (simp add: aligned_def)

lemma tag_bits:
  "n < 64 \<Longrightarrow> bit (tag_clear p) n \<longleftrightarrow> bit p n \<and> 2 \<le> n"
  "n < 64 \<Longrightarrow> bit (set_marked p) n \<longleftrightarrow> bit p n \<or> n = 1"
  "n < 64 \<Longrightarrow> bit (clear_mark p) n \<longleftrightarrow> bit p n \<and> n \<noteq> 1"
  "is_marked p \<longleftrightarrow> bit p 1"
  by (auto simp: tag_clear_def set_marked_def clear_mark_def is_marked_def word_zero_iff bit_and_iff bit_or_iff
      bit_not_iff bit_MASK bit_MARKED)

lemma aligned_tags [simp]:
  assumes "aligned p"
  shows "tag_clear p = p" "\<not> is_marked p" "clear_mark p = p" "is_marked (set_marked p)"
    "clear_mark (set_marked p) = p" "tag_clear (set_marked p) = p"
proof -
  have b: "\<not> bit p 0" "\<not> bit p 1" using assms by (simp_all add: aligned_bits)
  have low: "n < 2 \<Longrightarrow> \<not> bit p n" for n using b by (auto simp: less_2_cases_iff)
  have ge: "bit p n \<Longrightarrow> 2 \<le> n" for n using low [of n] by linarith
  have ne: "bit p n \<Longrightarrow> n \<noteq> 1" for n using b(2) by auto
  show "tag_clear p = p" by (rule bit_word_eqI) (auto simp: tag_bits dest: ge)
  show "\<not> is_marked p" "is_marked (set_marked p)" using b by (simp_all add: tag_bits)
  show "clear_mark p = p" by (rule bit_word_eqI) (auto simp: tag_bits dest: ne)
  show "clear_mark (set_marked p) = p" by (rule bit_word_eqI) (auto simp: tag_bits dest: ne)
  show "tag_clear (set_marked p) = p" by (rule bit_word_eqI) (auto simp: tag_bits dest: ge)
qed

subsection \<open>List segments\<close>

fun hd_ptr :: "(ptr \<times> 'd) list \<Rightarrow> ptr \<Rightarrow> ptr" where
  "hd_ptr [] q = q"
| "hd_ptr ((a, d) # xs) q = a"

fun lseg :: "('k, 'v, 'r) htable \<Rightarrow> ('k, 'v) nodes \<Rightarrow> ptr \<Rightarrow> bool" where
  "lseg t [] q \<longleftrightarrow> True"
| "lseg t ((a, d) # xs) q \<longleftrightarrow> hnode_at t a = Some (mk_hnode (hd_ptr xs q) d) \<and> aligned a \<and> lseg t xs q"

abbreviation addrs :: "(ptr \<times> 'd) list \<Rightarrow> ptr set" where
  "addrs xs \<equiv> fst ` set xs"

lemma hd_ptr_append [simp]: "hd_ptr (xs @ ys) q = hd_ptr xs (hd_ptr ys q)"
  by (cases xs) auto

lemma lseg_append [simp]: "lseg t (xs @ ys) q \<longleftrightarrow> lseg t xs (hd_ptr ys q) \<and> lseg t ys q"
  by (induction t xs "hd_ptr ys q" rule: lseg.induct) auto

lemma lseg_cong: "(\<And>a. a \<in> addrs xs \<Longrightarrow> hnode_at t' a = hnode_at t a) \<Longrightarrow> lseg t' xs q = lseg t xs q"
  by (induction t xs q rule: lseg.induct) auto

lemma hnode_put [simp]: "hnode_at (put_hnode a nd t) b = (if b = a \<and> a \<noteq> 0 then Some nd else hnode_at t b)"
  by (simp add: put_hnode_def)

lemma lseg_put [simp]: "a \<notin> addrs xs \<Longrightarrow> lseg (put_hnode a nd t) xs q = lseg t xs q"
  by (rule lseg_cong) auto

lemma lseg_frame [simp]:
  "lseg (t\<lparr>h_rc := s\<rparr>) xs q = lseg t xs q" "lseg (t\<lparr>h_count := c\<rparr>) xs q = lseg t xs q"
  "lseg (t\<lparr>h_cells := cm\<rparr>) xs q = lseg t xs q" "lseg (t\<lparr>h_tabs := tm\<rparr>) xs q = lseg t xs q"
  "lseg (t\<lparr>h_table := tp\<rparr>) xs q = lseg t xs q" "lseg (t\<lparr>h_growing := b\<rparr>) xs q = lseg t xs q"
  "lseg (t\<lparr>h_cached := c\<rparr>) xs q = lseg t xs q"
  by (auto intro!: lseg_cong)

lemma lseg_aligned: "lseg t xs q \<Longrightarrow> aligned q \<Longrightarrow> aligned (hd_ptr xs q)"
  by (cases xs) auto

lemma lseg_ne0: "lseg t xs q \<Longrightarrow> a \<in> addrs xs \<Longrightarrow> a \<noteq> 0"
  by (induction t xs q rule: lseg.induct) auto

lemma hd_ptr_null: "lseg t xs 0 \<Longrightarrow> hd_ptr xs 0 = 0 \<longleftrightarrow> xs = []"
  by (cases xs) auto

text \<open>Putting a node between \<open>us @ [(p, e)]\<close> and \<open>ys\<close>, and taking one out.\<close>

lemma lseg_splice:
  assumes "lseg t (us @ (p, e) # ys) 0" and "distinct (map fst (us @ (p, e) # ys))"
    and "hnode_at t n = Some (mk_hnode q d)" and "aligned n" and "n \<notin> addrs (us @ (p, e) # ys)"
  shows "lseg (put_hnode p (mk_hnode n e) (put_hnode n (mk_hnode (hd_ptr ys 0) d) t)) (us @ (p, e) # (n, d) # ys) 0"
  using assms by (auto simp: image_Un dest: lseg_ne0)

lemma lseg_unlink:
  assumes "lseg t (us @ (p, e) # (a, d) # ys) 0" and "distinct (map fst (us @ (p, e) # (a, d) # ys))"
  shows "lseg (put_hnode p (mk_hnode (hd_ptr ys 0) e) (put_hnode a nd t)) (us @ (p, e) # ys) 0"
  using assms by (auto simp: image_Un dest: lseg_ne0)

subsection \<open>Reading\<close>

text \<open>A step that touches nothing but the reclaimer.\<close>

locale table_reclaimer = reclaim_contract rc ok pd
  for rc :: "(table_act, 'r) reclaimer_ops" and ok :: "'r \<Rightarrow> bool" and pd :: "'r \<Rightarrow> (ptr \<times> table_act) multiset"
begin

definition hreads :: "('k, 'v, 'r) htable \<Rightarrow> ('k, 'v, 'r) htable \<Rightarrow> bool" where
  "hreads t t' \<longleftrightarrow> (\<exists>s. t' = t\<lparr>h_rc := s\<rparr> \<and> ok s \<and> pd s = pd (h_rc t))"

lemma hreads_refl: "ok (h_rc t) \<Longrightarrow> hreads t t"
  unfolding hreads_def by (intro exI [of _ "h_rc t"]) simp

lemma hreads_trans: "hreads t t' \<Longrightarrow> hreads t' t'' \<Longrightarrow> hreads t t''"
  by (auto simp: hreads_def)

lemma hreads_simps:
  "hreads t t' \<Longrightarrow> h_mem t' = h_mem t \<and> h_tabs t' = h_tabs t \<and> h_cells t' = h_cells t \<and> h_table t' = h_table t \<and>
     h_pool t' = h_pool t \<and> h_count t' = h_count t \<and> ok (h_rc t') \<and> pd (h_rc t') = pd (h_rc t)"
  by (auto simp: hreads_def)

lemma hreads_lseg: "hreads t t' \<Longrightarrow> lseg t' xs q = lseg t xs q"
  by (auto simp: hreads_def)

lemma h_publish_spec: "ok (h_rc t) \<Longrightarrow> i < HAZARD_POINTERS \<Longrightarrow> returns (h_publish rc i p t) (hreads t)"
  using protect_ok [of "h_rc t" i p] hreads_refl by (auto simp: h_publish_def hreads_def)

lemma HP_slots [simp]: "HP_TABLE < HAZARD_POINTERS" "HP_PREV < HAZARD_POINTERS" "HP_CUR < HAZARD_POINTERS"
  by (simp_all add: HP_TABLE_def HP_PREV_def HP_CUR_def HAZARD_POINTERS_def)

lemma protect_from_spec:
  assumes "ok (h_rc t)" and "hnode_at t a = Some (mk_hnode p d)" and "aligned p" and "i < HAZARD_POINTERS"
  shows "returns (protect_from rc a i t) (\<lambda>(c, tg, t'). c = p \<and> tg = p \<and> hreads t t')"
proof -
  obtain s where "rc_protect rc i p (h_rc t) = Some s" "ok s" "pd s = pd (h_rc t)"
    using protect_ok [OF assms(1,4)] by blast
  then show ?thesis using assms hreads_refl [OF assms(1)]
    by (subst protect_from.simps) (auto simp: Let_def hreads_def)
qed

text \<open>The walk stops before the first node that is not below \<open>ck\<close>.\<close>

lemma list_walk_spec:
  assumes "ok (h_rc t)" and "lseg t xs 0"
  shows "returns (list_walk rc ck a (hd_ptr xs 0) (hd_ptr xs 0) t) (\<lambda>(p, c, tg, t'). hreads t t' \<and>
    p = last (a # map fst (takeWhile (\<lambda>x. fst (snd x) < ck) xs)) \<and>
    c = hd_ptr (dropWhile (\<lambda>x. fst (snd x) < ck) xs) 0 \<and> tg = c)"
  using assms
proof (induction xs arbitrary: a t)
  case Nil
  then show ?case by (subst list_walk.simps) (simp add: hreads_refl)
next
  case (Cons x xs)
  obtain b d where x: "x = (b, d)" by (cases x)
  have nd: "hnode_at t b = Some (mk_hnode (hd_ptr xs 0) d)" "b \<noteq> 0" "aligned (hd_ptr xs 0)" "lseg t xs 0"
    using Cons.prems lseg_aligned [of t xs 0] by (auto simp: x)
  show ?case
  proof (cases "fst d < ck")
    case False
    then show ?thesis using nd Cons.prems(1) hreads_refl by (subst list_walk.simps) (auto simp: x Let_def)
  next
    case True
    have step: "returns (h_publish rc HP_PREV b t) (\<lambda>t1. returns (protect_from rc b HP_CUR t1) (\<lambda>(c, tg, t2).
        returns (list_walk rc ck b c tg t2) (\<lambda>(p, c, tg, t'). hreads t t' \<and>
          p = last (a # map fst (takeWhile (\<lambda>x. fst (snd x) < ck) (x # xs))) \<and>
          c = hd_ptr (dropWhile (\<lambda>x. fst (snd x) < ck) (x # xs)) 0 \<and> tg = c)))"
    proof (rule returns_mono [OF h_publish_spec [OF Cons.prems(1)]], simp)
      fix t1
      assume r1: "hreads t t1"
      have "returns (protect_from rc b HP_CUR t1) (\<lambda>(c, tg, t'). c = hd_ptr xs 0 \<and> tg = hd_ptr xs 0 \<and> hreads t1 t')"
        using nd hreads_simps [OF r1] by (intro protect_from_spec) auto
      then show "returns (protect_from rc b HP_CUR t1) (\<lambda>(c, tg, t2).
        returns (list_walk rc ck b c tg t2) (\<lambda>(p, c, tg, t'). hreads t t' \<and>
          p = last (a # map fst (takeWhile (\<lambda>x. fst (snd x) < ck) (x # xs))) \<and>
          c = hd_ptr (dropWhile (\<lambda>x. fst (snd x) < ck) (x # xs)) 0 \<and> tg = c))"
      proof (rule returns_mono, clarify)
        fix t2
        assume r2: "hreads t1 t2"
        have r: "hreads t t2" using hreads_trans [OF r1 r2] .
        have "ok (h_rc t2)" "lseg t2 xs 0" using hreads_simps [OF r] hreads_lseg [OF r] nd(4) by auto
        from Cons.IH [OF this, of b]
        show "returns (list_walk rc ck b (hd_ptr xs 0) (hd_ptr xs 0) t2) (\<lambda>(p, c, tg, t'). hreads t t' \<and>
          p = last (a # map fst (takeWhile (\<lambda>x. fst (snd x) < ck) (x # xs))) \<and>
          c = hd_ptr (dropWhile (\<lambda>x. fst (snd x) < ck) (x # xs)) 0 \<and> tg = c)"
          by (rule returns_mono) (use True in \<open>auto simp: x intro: hreads_trans [OF r]\<close>)
      qed
    qed
    show ?thesis
      using nd True step by (subst list_walk.simps) (simp add: x Let_def not_le [symmetric])
  qed
qed

end

end
