(* ===== verification/TableStore.thy ===== *)
theory TableStore
  imports TableList
begin

section \<open>Memory of the hash table engine\<close>

text \<open>
  The accounting of the engine's memory. \<open>nodes_ok t N\<close>: the allocated nodes are \<open>N\<close> and those
  of the pool. \<open>tabs_ok t T\<close>: the allocated bucket tables are \<open>T\<close>, each with a cell array of its
  own. \<open>store_ok\<close>: nodes and tables are those of the containers and those retired and not yet
  freed, and nothing is retired twice.
\<close>

definition nodes_ok :: "('k, 'v, 'r) htable \<Rightarrow> ptr set \<Rightarrow> bool" where
  "nodes_ok t N \<longleftrightarrow> blocks pool_link_next (h_mem t) (h_pool t) N \<and>
     (\<forall>a. live (h_mem t) a \<noteq> None \<longrightarrow> aligned a)"

definition tab_at :: "('k, 'v, 'r) htable \<Rightarrow> ptr \<Rightarrow> bucket_table \<Rightarrow> ptr list \<Rightarrow> bool" where
  "tab_at t a bt cs \<longleftrightarrow> load (h_tabs t) a = Some bt \<and> live (h_tabs t) a = Some (bt_owner bt) \<and>
     load (h_cells t) (bt_buckets bt) = Some cs \<and> live (h_cells t) (bt_buckets bt) = Some (bt_owner bt) \<and>
     length cs = unat (bt_size bt)"

definition tabs_ok :: "('k, 'v, 'r) htable \<Rightarrow> ptr set \<Rightarrow> bool" where
  "tabs_ok t T \<longleftrightarrow> (\<forall>a \<in> T. \<exists>bt cs. tab_at t a bt cs) \<and>
     (\<forall>a b bt cs bt' cs'. a \<in> T \<longrightarrow> b \<in> T \<longrightarrow> tab_at t a bt cs \<longrightarrow> tab_at t b bt' cs' \<longrightarrow>
        bt_buckets bt = bt_buckets bt' \<longrightarrow> a = b) \<and>
     (\<forall>a. live (h_tabs t) a \<noteq> None \<longrightarrow> a \<in> T) \<and>
     (\<forall>c. live (h_cells t) c \<noteq> None \<longrightarrow> (\<exists>a \<in> T. \<exists>bt cs. tab_at t a bt cs \<and> bt_buckets bt = c))"

lemma tabs_okD:
  assumes "tabs_ok t T"
  shows "a \<in> T \<Longrightarrow> \<exists>bt cs. tab_at t a bt cs"
    and "a \<in> T \<Longrightarrow> b \<in> T \<Longrightarrow> tab_at t a bt cs \<Longrightarrow> tab_at t b bt' cs' \<Longrightarrow> bt_buckets bt = bt_buckets bt' \<Longrightarrow> a = b"
    and "live (h_tabs t) a \<noteq> None \<Longrightarrow> a \<in> T"
    and "live (h_cells t) c \<noteq> None \<Longrightarrow> \<exists>a \<in> T. \<exists>bt cs. tab_at t a bt cs \<and> bt_buckets bt = c"
  using assms unfolding tabs_ok_def by simp_all metis

text \<open>What an operation keeps: the nodes \<open>N\<close>, the tables \<open>T\<close>, and the scalar members.\<close>

definition members :: "('k, 'v, 'r) htable \<Rightarrow> ptr \<times> u64 \<times> bool \<times> fl \<times> fl \<times> u64 \<times> alloc" where
  "members t = (h_table t, h_count t, h_growing t, h_max_load t, h_inv_load t, h_cached t, h_na t)"

definition keeps :: "ptr set \<Rightarrow> ptr set \<Rightarrow> ('k, 'v, 'r) htable \<Rightarrow> ('k, 'v, 'r) htable \<Rightarrow> bool" where
  "keeps N T t t' \<longleftrightarrow> members t' = members t \<and> same_on N (h_mem t) (h_mem t') \<and>
     (\<forall>a \<in> T. \<forall>bt cs. tab_at t a bt cs \<longrightarrow> tab_at t' a bt cs)"

lemma members_frame [simp]:
  "members (t\<lparr>h_mem := m\<rparr>) = members t" "members (t\<lparr>h_pool := p\<rparr>) = members t" "members (t\<lparr>h_tabs := tm\<rparr>) = members t"
  "members (t\<lparr>h_cells := cm\<rparr>) = members t" "members (t\<lparr>h_rc := s\<rparr>) = members t" "members (put_hnode a nd t) = members t"
  by (simp_all add: members_def put_hnode_def)

lemma keeps_refl [simp]: "keeps N T t t"
  by (simp add: keeps_def)

lemma keeps_trans: "keeps N T t t' \<Longrightarrow> keeps N T t' t'' \<Longrightarrow> keeps N T t t''"
  by (auto simp: keeps_def intro: same_on_trans)

lemma keeps_mono: "keeps N T t t' \<Longrightarrow> N' \<subseteq> N \<Longrightarrow> T' \<subseteq> T \<Longrightarrow> keeps N' T' t t'"
  by (auto simp: keeps_def intro: same_on_mono)

lemma keeps_members:
  "keeps N T t t' \<Longrightarrow> h_table t' = h_table t \<and> h_count t' = h_count t \<and> h_growing t' = h_growing t \<and>
     h_max_load t' = h_max_load t \<and> h_inv_load t' = h_inv_load t \<and> h_cached t' = h_cached t \<and> h_na t' = h_na t"
  by (simp add: keeps_def members_def)

lemma keeps_node: "keeps N T t t' \<Longrightarrow> a \<in> N \<Longrightarrow> hnode_at t' a = hnode_at t a"
  by (simp add: keeps_def same_on_def)

lemma keeps_tab: "keeps N T t t' \<Longrightarrow> a \<in> T \<Longrightarrow> tab_at t a bt cs \<Longrightarrow> tab_at t' a bt cs"
  by (simp add: keeps_def)

lemma keeps_lseg: "keeps N T t t' \<Longrightarrow> addrs xs \<subseteq> N \<Longrightarrow> lseg t' xs q = lseg t xs q"
  by (intro lseg_cong) (auto dest: keeps_node)

lemma tab_at_unique: "tab_at t a bt cs \<Longrightarrow> tab_at t a bt' cs' \<Longrightarrow> bt' = bt \<and> cs' = cs"
  by (auto simp: tab_at_def)

lemma put_hnode_simps [simp]:
  "h_rc (put_hnode a nd t) = h_rc t" "h_table (put_hnode a nd t) = h_table t" "h_count (put_hnode a nd t) = h_count t"
  "h_tabs (put_hnode a nd t) = h_tabs t" "h_cells (put_hnode a nd t) = h_cells t" "h_na (put_hnode a nd t) = h_na t"
  "h_growing (put_hnode a nd t) = h_growing t"
  by (simp_all add: put_hnode_def)

lemma tab_at_frame [simp]:
  "tab_at (t\<lparr>h_mem := m\<rparr>) = tab_at t" "tab_at (t\<lparr>h_pool := p\<rparr>) = tab_at t" "tab_at (t\<lparr>h_rc := s\<rparr>) = tab_at t"
  "tab_at (t\<lparr>h_count := c\<rparr>) = tab_at t" "tab_at (put_hnode a nd t) = tab_at t"
  by (intro ext; simp add: tab_at_def put_hnode_def)+

lemma tabs_ok_frame [simp]:
  "tabs_ok (t\<lparr>h_mem := m\<rparr>) T = tabs_ok t T" "tabs_ok (t\<lparr>h_pool := p\<rparr>) T = tabs_ok t T"
  "tabs_ok (t\<lparr>h_rc := s\<rparr>) T = tabs_ok t T" "tabs_ok (t\<lparr>h_count := c\<rparr>) T = tabs_ok t T"
  "tabs_ok (put_hnode a nd t) T = tabs_ok t T"
  by (simp_all add: tabs_ok_def)

lemma nodes_ok_frame [simp]:
  "nodes_ok (t\<lparr>h_tabs := tm\<rparr>) N = nodes_ok t N" "nodes_ok (t\<lparr>h_cells := cm\<rparr>) N = nodes_ok t N"
  "nodes_ok (t\<lparr>h_rc := s\<rparr>) N = nodes_ok t N" "nodes_ok (t\<lparr>h_count := c\<rparr>) N = nodes_ok t N"
  "nodes_ok (t\<lparr>h_table := tp\<rparr>) N = nodes_ok t N"
  by (simp_all add: nodes_ok_def)

lemma nodes_ok_put:
  "nodes_ok t N \<Longrightarrow> a \<in> N \<Longrightarrow> hnode_at t a = Some nd \<Longrightarrow> d_owner nd' = d_owner nd \<Longrightarrow> nodes_ok (put_hnode a nd' t) N"
  using blocks_store [of pool_link_next "h_mem t" "h_pool t" N a nd nd']
  by (simp add: nodes_ok_def put_hnode_def pool_link_next_def)

lemma nodes_ok_aligned: "nodes_ok t N \<Longrightarrow> a \<in> N \<Longrightarrow> aligned a \<and> a \<noteq> 0 \<and> hnode_at t a \<noteq> None"
  by (auto simp: nodes_ok_def in_use_def dest!: blocks_in_use)

subsection \<open>Allocating and freeing\<close>

definition allocs_ok :: "allocs \<Rightarrow> bool" where
  "allocs_ok al \<longleftrightarrow>
     (\<forall>lv b. al_node al lv = Some b \<longrightarrow> b \<noteq> 0 \<and> lv b = None \<and> aligned b) \<and>
     (\<forall>lv b. al_table al lv = Some b \<longrightarrow> b \<noteq> 0 \<and> lv b = None) \<and>
     (\<forall>lv b. al_cells al lv = Some b \<longrightarrow> b \<noteq> 0 \<and> lv b = None)"

text \<open>
  \<open>starved al t\<close>: in the state \<open>t\<close> one of the allocators has no block (up to one node block that the
  failing call itself gave back).
\<close>

definition starved :: "allocs \<Rightarrow> ('k, 'v, 'r) htable \<Rightarrow> bool" where
  "starved al t \<longleftrightarrow> (\<exists>a v. al_node al ((live (h_mem t))(a := v)) = None) \<or>
     al_table al (live (h_tabs t)) = None \<or> al_cells al (live (h_cells t)) = None"

lemma starved_frame [simp]:
  "starved al (t\<lparr>h_rc := s\<rparr>) = starved al t" "starved al (t\<lparr>h_table := p\<rparr>) = starved al t"
  "starved al (t\<lparr>h_count := c\<rparr>) = starved al t" "starved al (t\<lparr>h_growing := g\<rparr>) = starved al t"
  "starved al (t\<lparr>h_cached := x\<rparr>) = starved al t" "starved al (h_guard_out rc t) = starved al t"
  by (simp_all add: starved_def h_guard_out_def)

lemma alloc_hnode_spec:
  assumes n: "nodes_ok t N" and al: "allocs_ok al"
  shows "\<exists>r t'. alloc_hnode th al pl t = Some (r, t') \<and> keeps N T t t' \<and> h_rc t' = h_rc t \<and>
    h_tabs t' = h_tabs t \<and> h_cells t' = h_cells t \<and>
    (case r of Inl e \<Rightarrow> e = Bad_alloc \<and> starved al t' \<and> nodes_ok t' N
     | Inr a \<Rightarrow> a \<notin> N \<and> nodes_ok t' (insert a N) \<and> hnode_at t' a = Some (mk_hnode 0 (0, fst pl, snd pl, h_na t)))"
proof -
  have blk: "fresh_block (h_mem t) b" if "al_node al (live (h_mem t)) = Some b" for b
    using al that by (auto simp: allocs_ok_def fresh_block_def)
  obtain r m p where a: "acquire pool_link_next th (h_na t) (al_node al (live (h_mem t))) (h_mem t) (h_pool t) = Some (r, m, p)"
    and same: "same_on N (h_mem t) m" and post: "case r of
       Inl e \<Rightarrow> e = Bad_alloc \<and> al_node al (live (h_mem t)) = None \<and> blocks pool_link_next m p N \<and>
         (\<exists>x v. live (h_mem t) = (live m)(x := v)) \<and>
         (\<forall>a. live m a \<noteq> None \<longrightarrow> live (h_mem t) a \<noteq> None)
     | Inr n \<Rightarrow> n \<notin> N \<and> n \<noteq> 0 \<and> (live (h_mem t) n \<noteq> None \<or> al_node al (live (h_mem t)) = Some n) \<and>
         (\<forall>a. live m a \<noteq> None \<longrightarrow> live (h_mem t) a \<noteq> None \<or> a = n) \<and>
         (\<forall>nd. link_owner pool_link_next nd = h_na t \<longrightarrow> blocks pool_link_next (store n nd m) p (insert n N))"
    using nl.blocks_acquire [of "h_mem t" "h_pool t" N "al_node al (live (h_mem t))" th "h_na t"] n blk
    by (auto simp: nodes_ok_def)
  show ?thesis
  proof (cases r)
    case (Inl e)
    then obtain x v where x: "live (h_mem t) = (live m)(x := v)" "al_node al (live (h_mem t)) = None" using post by auto
    have "al_node al ((live m)(x := v)) = None" using x(2) unfolding x(1) .
    then have "starved al (t\<lparr>h_mem := m, h_pool := p\<rparr>)" unfolding starved_def by auto
    then show ?thesis using Inl a post same n
      by (auto simp: alloc_hnode_def keeps_def nodes_ok_def tab_at_def)
  next
    case (Inr b)
    define nd where "nd = mk_hnode 0 (0, fst pl, snd pl, h_na t)"
    have nd: "\<lparr>d_next = 0, d_so_key = 0, d_key = fst pl, d_value = snd pl, d_owner = h_na t\<rparr> = nd"
      by (simp add: nd_def mk_hnode_def)
    define t' where "t' = put_hnode b nd (t\<lparr>h_mem := m, h_pool := p\<rparr>)"
    have run: "alloc_hnode th al pl t = Some (Inr b, t')"
      using Inr nd by (simp add: alloc_hnode_def a t'_def)
    have al_b: "aligned b" using post Inr n al by (auto simp: nodes_ok_def allocs_ok_def)
    have "link_owner pool_link_next nd = h_na t" by (simp add: pool_link_next_def nd_def)
    then have "nodes_ok t' (insert b N)"
      using post Inr n al_b by (auto simp: nodes_ok_def t'_def put_hnode_def)
    moreover have "keeps N T t t'"
      using same post Inr by (auto simp: keeps_def t'_def same_on_def put_hnode_def tab_at_def)
    ultimately show ?thesis
      using run post Inr by (auto simp: t'_def nd_def put_hnode_def)
  qed
qed

lemma free_hnode_spec:
  assumes "nodes_ok t (insert n N)" and "n \<notin> N"
  shows "\<exists>m p. free_hnode th n t = Some (t\<lparr>h_mem := m, h_pool := p\<rparr>) \<and>
    nodes_ok (t\<lparr>h_mem := m, h_pool := p\<rparr>) N \<and> same_on N (h_mem t) m"
proof -
  obtain m p where "release pool_link_next th n (h_mem t) (h_pool t) = Some (m, p)" "blocks pool_link_next m p N"
    "same_on N (h_mem t) m" "\<forall>a. live m a \<noteq> None \<longrightarrow> live (h_mem t) a \<noteq> None"
    using nl.blocks_release [of "h_mem t" "h_pool t" n N th] assms by (auto simp: nodes_ok_def)
  then show ?thesis using assms(1)
    by (intro exI [of _ m] exI [of _ p]) (auto simp: free_hnode_def nodes_ok_def)
qed

lemma free_table_spec:
  assumes T: "tabs_ok t (insert a T)" and a: "a \<notin> T"
  shows "\<exists>tm cm. free_table a t = Some (t\<lparr>h_cells := cm, h_tabs := tm\<rparr>) \<and>
    tabs_ok (t\<lparr>h_cells := cm, h_tabs := tm\<rparr>) T \<and>
    (\<forall>b \<in> T. \<forall>bt cs. tab_at t b bt cs \<longrightarrow> tab_at (t\<lparr>h_cells := cm, h_tabs := tm\<rparr>) b bt cs)"
proof -
  obtain bt cs where at: "tab_at t a bt cs" using T by (auto simp: tabs_ok_def)
  obtain cm where cm: "deallocate (bt_owner bt) (bt_buckets bt) (h_cells t) = Some cm"
    "live cm = (live (h_cells t))(bt_buckets bt := None)" "\<forall>b. load cm b = (if b = bt_buckets bt then None else load (h_cells t) b)"
    using deallocate_ok [of "h_cells t" "bt_buckets bt" "bt_owner bt"] at by (auto simp: tab_at_def)
  obtain tm where tm: "deallocate (bt_owner bt) a (h_tabs t) = Some tm"
    "live tm = (live (h_tabs t))(a := None)" "\<forall>b. load tm b = (if b = a then None else load (h_tabs t) b)"
    using deallocate_ok [of "h_tabs t" a "bt_owner bt"] at by (auto simp: tab_at_def)
  define t' where "t' = t\<lparr>h_cells := cm, h_tabs := tm\<rparr>"
  have inj: "bt_buckets bt' \<noteq> bt_buckets bt" if "b \<in> T" "tab_at t b bt' cs'" for b bt' cs'
    using tabs_okD(2) [OF T, of b a bt' cs' bt cs] that at a by auto
  have keep: "tab_at t' b bt' cs'" if "b \<in> T" "tab_at t b bt' cs'" for b bt' cs'
    using that inj [OF that] a cm tm by (auto simp: t'_def tab_at_def)
  have old: "tab_at t b bt' cs'" if "tab_at t' b bt' cs'" for b bt' cs'
    using that cm tm by (auto simp: t'_def tab_at_def split: if_splits)
  have "tabs_ok t' T"
    unfolding tabs_ok_def
  proof (intro conjI ballI allI impI)
    show "\<exists>bt cs. tab_at t' b bt cs" if "b \<in> T" for b using tabs_okD(1) [OF T, of b] keep that by blast
    show "b = c" if "b \<in> T" "c \<in> T" "tab_at t' b bt1 cs1" "tab_at t' c bt2 cs2" "bt_buckets bt1 = bt_buckets bt2"
      for b c bt1 cs1 bt2 cs2
      using tabs_okD(2) [OF T, of b c bt1 cs1 bt2 cs2] that old [OF that(3)] old [OF that(4)] by simp
    show "b \<in> T" if "live (h_tabs t') b \<noteq> None" for b
      using tabs_okD(3) [OF T, of b] that tm(2) by (auto simp: t'_def split: if_splits)
    show "\<exists>b \<in> T. \<exists>bt cs. tab_at t' b bt cs \<and> bt_buckets bt = c" if "live (h_cells t') c \<noteq> None" for c
    proof -
      have c: "live (h_cells t) c \<noteq> None" "c \<noteq> bt_buckets bt" using that cm(2) by (auto simp: t'_def split: if_splits)
      then obtain b bt' cs' where b: "b \<in> insert a T" "tab_at t b bt' cs'" "bt_buckets bt' = c"
        using tabs_okD(4) [OF T, of c] by blast
      then have "b \<noteq> a" using c(2) at tab_at_unique by blast
      then show ?thesis using b keep by blast
    qed
  qed
  moreover have "free_table a t = Some t'" using at cm(1) tm(1) by (simp add: free_table_def tab_at_def t'_def)
  ultimately show ?thesis using keep unfolding t'_def by blast
qed

subsection \<open>Retiring\<close>

definition parked :: "table_act \<Rightarrow> (ptr \<times> table_act) multiset \<Rightarrow> ptr set" where
  "parked act P = {p. (p, act) \<in># P}"

lemma parked_union [simp]: "parked act (P + Q) = parked act P \<union> parked act Q"
  by (auto simp: parked_def)

lemma parked_add [simp]: "parked act (add_mset x P) = (if snd x = act then insert (fst x) (parked act P) else parked act P)"
  by (cases x) (auto simp: parked_def)

lemma parked_empty [simp]: "parked act {#} = {}"
  by (simp add: parked_def)

text \<open>Running actions gives back the blocks they carry, and nothing else.\<close>

lemma run_acts_spec:
  assumes "nodes_ok t (N \<union> parked Free_node (mset fs))" and "tabs_ok t (T \<union> parked Free_table (mset fs))"
    and "N \<inter> parked Free_node (mset fs) = {}" and "T \<inter> parked Free_table (mset fs) = {}" and "distinct fs"
  shows "\<exists>t'. run_acts th fs t = Some t' \<and> nodes_ok t' N \<and> tabs_ok t' T \<and> keeps N T t t' \<and> h_rc t' = h_rc t"
  using assms
proof (induction fs arbitrary: t)
  case Nil
  then show ?case by simp
next
  case (Cons x fs)
  obtain p act where x: "x = (p, act)" by (cases x)
  have notin: "(p, act) \<notin> set fs" using Cons.prems(5) x by simp
  let ?N = "N \<union> parked Free_node (mset fs)" and ?T = "T \<union> parked Free_table (mset fs)"
  show ?case
  proof (cases act)
    case Free_node
    have p: "p \<notin> ?N" using Cons.prems(3) notin by (auto simp: x Free_node parked_def)
    have "nodes_ok t (insert p ?N)" using Cons.prems(1) by (simp add: x Free_node)
    from free_hnode_spec [OF this p, of th] obtain m q where f: "free_hnode th p t = Some (t\<lparr>h_mem := m, h_pool := q\<rparr>)"
      "nodes_ok (t\<lparr>h_mem := m, h_pool := q\<rparr>) ?N" "same_on ?N (h_mem t) m" by blast
    have k: "keeps N T t (t\<lparr>h_mem := m, h_pool := q\<rparr>)"
      using f(3) by (auto simp: keeps_def intro: same_on_mono)
    obtain t' where "run_acts th fs (t\<lparr>h_mem := m, h_pool := q\<rparr>) = Some t'" "nodes_ok t' N" "tabs_ok t' T"
      "keeps N T (t\<lparr>h_mem := m, h_pool := q\<rparr>) t'" "h_rc t' = h_rc t"
      using Cons.IH [OF f(2)] Cons.prems x Free_node by auto
    then show ?thesis using f(1) keeps_trans [OF k] x Free_node by auto
  next
    case Free_table
    have p: "p \<notin> ?T" using Cons.prems(4) notin by (auto simp: x Free_table parked_def)
    have "tabs_ok t (insert p ?T)" using Cons.prems(2) by (simp add: x Free_table)
    from free_table_spec [OF this p] obtain tm cm where f: "free_table p t = Some (t\<lparr>h_cells := cm, h_tabs := tm\<rparr>)"
      "tabs_ok (t\<lparr>h_cells := cm, h_tabs := tm\<rparr>) ?T"
      "\<forall>b \<in> ?T. \<forall>bt cs. tab_at t b bt cs \<longrightarrow> tab_at (t\<lparr>h_cells := cm, h_tabs := tm\<rparr>) b bt cs" by blast
    have k: "keeps N T t (t\<lparr>h_cells := cm, h_tabs := tm\<rparr>)" using f(3) by (simp add: keeps_def)
    have n: "nodes_ok (t\<lparr>h_cells := cm, h_tabs := tm\<rparr>) ?N" using Cons.prems(1) by (simp add: x Free_table)
    obtain t' where "run_acts th fs (t\<lparr>h_cells := cm, h_tabs := tm\<rparr>) = Some t'" "nodes_ok t' N" "tabs_ok t' T"
      "keeps N T (t\<lparr>h_cells := cm, h_tabs := tm\<rparr>) t'" "h_rc t' = h_rc t"
      using Cons.IH [OF n f(2)] Cons.prems x Free_table by auto
    then show ?thesis using f(1) keeps_trans [OF k] x Free_table by auto
  qed
qed

subsection \<open>The memory of the engine\<close>

definition store_ok ::
  "('r \<Rightarrow> bool) \<Rightarrow> ('r \<Rightarrow> (ptr \<times> table_act) multiset) \<Rightarrow> ('k, 'v, 'r) htable \<Rightarrow> ptr set \<Rightarrow> ptr set \<Rightarrow> bool" where
  "store_ok ok pd t N T \<longleftrightarrow> ok (h_rc t) \<and>
     nodes_ok t (N \<union> parked Free_node (pd (h_rc t))) \<and> N \<inter> parked Free_node (pd (h_rc t)) = {} \<and>
     tabs_ok t (T \<union> parked Free_table (pd (h_rc t))) \<and> T \<inter> parked Free_table (pd (h_rc t)) = {} \<and>
     (\<forall>x. count (pd (h_rc t)) x \<le> 1)"

lemma store_node: "store_ok ok pd t N T \<Longrightarrow> a \<in> N \<Longrightarrow> aligned a \<and> a \<noteq> 0 \<and> hnode_at t a \<noteq> None"
  by (auto simp: store_ok_def dest: nodes_ok_aligned)

lemma store_tab: "store_ok ok pd t N T \<Longrightarrow> a \<in> T \<Longrightarrow> \<exists>bt cs. tab_at t a bt cs"
  unfolding store_ok_def by (elim conjE) (erule tabs_okD(1), simp)

lemma store_put:
  "store_ok ok pd t N T \<Longrightarrow> a \<in> N \<Longrightarrow> hnode_at t a = Some nd \<Longrightarrow> d_owner nd' = d_owner nd \<Longrightarrow>
     store_ok ok pd (put_hnode a nd' t) N T"
  by (auto simp: store_ok_def nodes_ok_put)

lemma keeps_put: "a \<notin> N \<Longrightarrow> keeps N T t (put_hnode a nd t)"
  by (simp add: keeps_def put_hnode_def same_on_def tab_at_def members_def)

lemma store_alloc:
  assumes s: "store_ok ok pd t N T" and al: "allocs_ok al"
  shows "returns (alloc_hnode th al pl t) (\<lambda>(r, t'). keeps N T t t' \<and> h_rc t' = h_rc t \<and>
    (case r of Inl e \<Rightarrow> e = Bad_alloc \<and> starved al t' \<and> store_ok ok pd t' N T
     | Inr a \<Rightarrow> a \<notin> N \<and> store_ok ok pd t' (insert a N) T \<and> hnode_at t' a = Some (mk_hnode 0 (0, fst pl, snd pl, h_na t))))"
proof -
  let ?N = "N \<union> parked Free_node (pd (h_rc t))" and ?T = "T \<union> parked Free_table (pd (h_rc t))"
  obtain r t' where a: "alloc_hnode th al pl t = Some (r, t')" "keeps ?N ?T t t'" "h_rc t' = h_rc t"
    "h_tabs t' = h_tabs t" "h_cells t' = h_cells t"
    "case r of Inl e \<Rightarrow> e = Bad_alloc \<and> starved al t' \<and> nodes_ok t' ?N
     | Inr a \<Rightarrow> a \<notin> ?N \<and> nodes_ok t' (insert a ?N) \<and> hnode_at t' a = Some (mk_hnode 0 (0, fst pl, snd pl, h_na t))"
    using alloc_hnode_spec [of t ?N al th pl ?T] s al by (auto simp: store_ok_def)
  have "tabs_ok t' X = tabs_ok t X" for X using a(4,5) by (simp add: tabs_ok_def tab_at_def)
  then show ?thesis
    using a s keeps_mono [OF a(2), of N T] by (auto simp: store_ok_def split: sum.splits)
qed

lemma store_free:
  assumes s: "store_ok ok pd t (insert n N) T" and n: "n \<notin> N"
  shows "returns (free_hnode th n t) (\<lambda>t'. store_ok ok pd t' N T \<and> keeps N T t t' \<and> h_rc t' = h_rc t)"
proof -
  let ?N = "N \<union> parked Free_node (pd (h_rc t))"
  have nn: "n \<notin> ?N" and ok: "nodes_ok t (insert n ?N)" using s n by (auto simp: store_ok_def)
  obtain m p where "free_hnode th n t = Some (t\<lparr>h_mem := m, h_pool := p\<rparr>)"
    "nodes_ok (t\<lparr>h_mem := m, h_pool := p\<rparr>) ?N" "same_on ?N (h_mem t) m"
    using free_hnode_spec [OF ok nn, of th] by blast
  then show ?thesis using s by (auto simp: store_ok_def keeps_def intro: same_on_mono)
qed

text \<open>Writing the cells of a table in use.\<close>

lemma tabs_ok_cells:
  assumes T: "tabs_ok t T" and at: "tab_at t a bt cs" "a \<in> T" and len: "length cs' = length cs"
  defines "t' \<equiv> t\<lparr>h_cells := store (bt_buckets bt) cs' (h_cells t)\<rparr>"
  shows "tab_at t' a bt cs'" and "b \<in> T \<Longrightarrow> b \<noteq> a \<Longrightarrow> tab_at t b bt' cs1 \<Longrightarrow> tab_at t' b bt' cs1" and "tabs_ok t' T"
proof -
  have ne: "bt_buckets bt \<noteq> 0" using at(1) by (auto simp: tab_at_def dest: load_SomeD)
  show a': "tab_at t' a bt cs'" using at len ne by (simp add: tab_at_def t'_def)
  have other: "bt_buckets bt' \<noteq> bt_buckets bt" if "b \<in> T" "b \<noteq> a" "tab_at t b bt' cs1" for b bt' cs1
    using tabs_okD(2) [OF T that(1) at(2) that(3) at(1)] that(2) by auto
  then show keep: "tab_at t' b bt' cs1" if "b \<in> T" "b \<noteq> a" "tab_at t b bt' cs1" for b bt' cs1
    using that by (auto simp: tab_at_def t'_def)
  have old: "\<exists>cs2. tab_at t b bt' cs2" if "tab_at t' b bt' cs1" for b bt' cs1
    using that at len by (auto simp: tab_at_def t'_def split: if_splits)
  have new: "\<exists>cs2. tab_at t' b bt' cs2" if "b \<in> T" "tab_at t b bt' cs1" for b bt' cs1
    using keep [OF that(1) _ that(2)] a' tab_at_unique [OF at(1)] that(2) by (cases "b = a") auto
  show "tabs_ok t' T"
    unfolding tabs_ok_def
  proof (intro conjI ballI allI impI)
    show "\<exists>bt cs. tab_at t' b bt cs" if "b \<in> T" for b using tabs_okD(1) [OF T that] new [OF that] by blast
    show "b = c" if "b \<in> T" "c \<in> T" "tab_at t' b bt1 cs1" "tab_at t' c bt2 cs2" "bt_buckets bt1 = bt_buckets bt2"
      for b c bt1 cs1 bt2 cs2
      using tabs_okD(2) [OF T that(1,2)] old [OF that(3)] old [OF that(4)] that(5) by blast
    show "b \<in> T" if "live (h_tabs t') b \<noteq> None" for b using tabs_okD(3) [OF T, of b] that by (simp add: t'_def)
    show "\<exists>b \<in> T. \<exists>bt cs. tab_at t' b bt cs \<and> bt_buckets bt = c" if "live (h_cells t') c \<noteq> None" for c
    proof -
      obtain b bt1 cs1 where b: "b \<in> T" "tab_at t b bt1 cs1" "bt_buckets bt1 = c"
        using tabs_okD(4) [OF T, of c] \<open>live (h_cells t') c \<noteq> None\<close> by (auto simp: t'_def)
      from new [OF b(1,2)] b show ?thesis by blast
    qed
  qed
qed

lemma store_cells:
  assumes s: "store_ok ok pd t N T" and at: "tab_at t a bt cs" "a \<in> T" and len: "length cs' = length cs"
  defines "t' \<equiv> t\<lparr>h_cells := store (bt_buckets bt) cs' (h_cells t)\<rparr>"
  shows "store_ok ok pd t' N T" and "tab_at t' a bt cs'" and "keeps N (T - {a}) t t'"
proof -
  let ?T = "T \<union> parked Free_table (pd (h_rc t))"
  have T: "tabs_ok t ?T" and a: "a \<in> ?T" using s at(2) by (auto simp: store_ok_def)
  note c = tabs_ok_cells [OF T at(1) a len, folded t'_def]
  have [simp]: "h_rc t' = h_rc t" by (simp add: t'_def)
  have "nodes_ok t' X = nodes_ok t X" for X by (simp add: t'_def)
  then show "store_ok ok pd t' N T" using s c(3) by (simp add: store_ok_def)
  show "tab_at t' a bt cs'" by (rule c(1))
  show "keeps N (T - {a}) t t'" using c(2) by (auto simp: keeps_def t'_def)
qed

context table_reclaimer
begin

lemma hreads_tab: "hreads t t' \<Longrightarrow> tab_at t' = tab_at t"
  by (intro ext) (auto simp: hreads_def tab_at_def)

lemma hreads_store: "hreads t t' \<Longrightarrow> store_ok ok pd t N T \<Longrightarrow> store_ok ok pd t' N T"
  by (auto simp: hreads_def store_ok_def)

lemma hreads_keeps: "hreads t t' \<Longrightarrow> keeps N T t t'"
  by (auto simp: hreads_def keeps_def)

text \<open>A retirement is \<open>n\<close>, with those that were waiting, minus what is freed.\<close>

lemma retire_general:
  assumes ok: "ok (h_rc t)" and one: "\<And>x. count (add_mset (n, act) (pd (h_rc t))) x \<le> 1"
    and N: "nodes_ok t (N \<union> parked Free_node (add_mset (n, act) (pd (h_rc t))))"
    and T: "tabs_ok t (T \<union> parked Free_table (add_mset (n, act) (pd (h_rc t))))"
    and Nd: "N \<inter> parked Free_node (add_mset (n, act) (pd (h_rc t))) = {}"
    and Td: "T \<inter> parked Free_table (add_mset (n, act) (pd (h_rc t))) = {}"
  shows "returns (h_retire rc th Push_ok n act t) (\<lambda>(r, t'). r = Inr () \<and> store_ok ok pd t' N T \<and> keeps N T t t')"
proof -
  obtain fs s' where r: "rc_retire rc Push_ok n act (h_rc t) = Some (Inr fs, s')" "ok s'"
    "add_mset (n, act) (pd (h_rc t)) = pd s' + mset fs" using retire_ok [OF ok] by blast
  let ?P = "pd s'" and ?t = "t\<lparr>h_rc := s'\<rparr>"
  have cnt: "count ?P x + count (mset fs) x \<le> 1" for x using one [of x] unfolding r(3) by simp
  have dist: "distinct fs" by (rule distinct_count_le) (use cnt add_leD2 in blast)
  have disj: "set_mset ?P \<inter> set fs = {}" using count_split_le [of ?P "mset fs"] cnt by (simp only: set_mset_mset)
  have par: "parked a (?P + mset fs) = parked a ?P \<union> parked a (mset fs)"
    "parked a ?P \<inter> parked a (mset fs) = {}" for a using disj by (auto simp: parked_def)
  have "nodes_ok ?t ((N \<union> parked Free_node ?P) \<union> parked Free_node (mset fs))"
    using N unfolding r(3) par by (simp add: Un_assoc)
  moreover have "tabs_ok ?t ((T \<union> parked Free_table ?P) \<union> parked Free_table (mset fs))"
    using T unfolding r(3) par by (simp add: Un_assoc)
  moreover have "(N \<union> parked Free_node ?P) \<inter> parked Free_node (mset fs) = {}"
    "(T \<union> parked Free_table ?P) \<inter> parked Free_table (mset fs) = {}"
    using Nd Td par(2) unfolding r(3) par(1) by blast+
  ultimately obtain t' where 1: "run_acts th fs ?t = Some t'" "nodes_ok t' (N \<union> parked Free_node ?P)"
    "tabs_ok t' (T \<union> parked Free_table ?P)" "keeps (N \<union> parked Free_node ?P) (T \<union> parked Free_table ?P) ?t t'"
    "h_rc t' = s'" using run_acts_spec [of ?t "N \<union> parked Free_node ?P" fs "T \<union> parked Free_table ?P" th] dist by auto
  have "keeps N T t ?t" by (simp add: keeps_def)
  with keeps_mono [OF 1(4), of N T] have "keeps N T t t'" by (auto intro: keeps_trans)
  moreover have "count ?P x \<le> 1" for x using cnt [of x] by simp
  ultimately show ?thesis using r(1,2) 1 Nd Td unfolding r(3) par(1)
    by (auto simp: h_retire_def store_ok_def)
qed

lemma count_retire: "(\<And>x. count P x \<le> 1) \<Longrightarrow> (n, act) \<notin># P \<Longrightarrow> count (add_mset (n, act) P) x \<le> (1::nat)"
  by (cases "x = (n, act)") (auto simp: not_in_iff)

lemma notin_parked: "(n, act) \<notin># P \<longleftrightarrow> n \<notin> parked act P"
  by (simp add: parked_def)

lemma h_retire_node:
  assumes s: "store_ok ok pd t (insert n N) T" and n: "n \<notin> N"
  shows "returns (h_retire rc th Push_ok n Free_node t) (\<lambda>(r, t'). r = Inr () \<and> store_ok ok pd t' N T \<and> keeps N T t t')"
proof (rule retire_general)
  show "count (add_mset (n, Free_node) (pd (h_rc t))) x \<le> 1" for x
    using s n by (intro count_retire) (auto simp: store_ok_def notin_parked)
qed (use s n in \<open>simp_all add: store_ok_def\<close>)

lemma h_retire_table:
  assumes s: "store_ok ok pd t N (insert n T)" and n: "n \<notin> T"
  shows "returns (h_retire rc th Push_ok n Free_table t) (\<lambda>(r, t'). r = Inr () \<and> store_ok ok pd t' N T \<and> keeps N T t t')"
proof (rule retire_general)
  show "count (add_mset (n, Free_table) (pd (h_rc t))) x \<le> 1" for x
    using s n by (intro count_retire) (auto simp: store_ok_def notin_parked)
qed (use s n in \<open>simp_all add: store_ok_def\<close>)

lemma h_retire_throws:
  assumes "ok (h_rc t)" and "pu \<noteq> Push_ok"
  shows "h_retire rc th pu n act t = Some (Inl Bad_alloc, t)"
  using retire_throw [OF assms, of n act] by (simp add: h_retire_def)

end

interpretation eht: table_reclaimer "epoch_rc th" "epoch_ready th" epoch_pending for th
  by unfold_locales

interpretation hht: table_reclaimer "hazard_rc th" "hazard_ready th" hz_pending for th
  by unfold_locales

end
