(* ===== verification/TableKeys.thy ===== *)
theory TableKeys
  imports TableStore
begin

section \<open>Split-order keys and the sorted list\<close>

text \<open>
  The arithmetic of the split-order keys: the dummy of a bucket comes before every regular node
  of the bucket, and after the dummy of the parent bucket. Then the list as data: \<open>list_ok\<close>
  is the order, the right key for every regular node and no two equal keys.
\<close>

subsection \<open>Keys\<close>

lemma bits_le:
  assumes "\<And>n. bit (x :: u64) n \<Longrightarrow> bit y n"
  shows "x \<le> y"
proof -
  have "and x y = x" by (rule bit_word_eqI) (use assms in \<open>auto simp: bit_and_iff\<close>)
  then show ?thesis using word_and_le1 [of x y] by simp
qed

lemma so_key_of_eq: "so_key_of m = split_order_key m"
  by (simp add: so_key_of_def split_order_key_def)

lemma odd_so_key [simp]: "odd (so_key_of m)"
  using split_order_key_odd [of m] by (simp add: so_key_of_eq bit_0)

lemma so_key_ne0 [simp]: "so_key_of m \<noteq> 0"
  using odd_so_key [of m] by (metis even_zero)

lemma even_dummy: "unat b < 2 ^ 63 \<Longrightarrow> even (dummy_split_order_key b)"
  using dummy_key_even [of b] by (simp add: bit_0)

lemma bit_so_key: "bit (so_key_of m) n \<longleftrightarrow> n < 64 \<and> (bit m (63 - n) \<or> n = 0)"
  by (auto simp: so_key_of_def bit_bit_reverse bit_or_iff bit_push_bit_iff)

lemma bit_dummy: "bit (dummy_split_order_key b) n \<longleftrightarrow> n < 64 \<and> bit b (63 - n)"
  by (simp add: dummy_split_order_key_def bit_bit_reverse)

lemma dummy_zero [simp]: "dummy_split_order_key 0 = 0"
  by (rule bit_word_eqI) (simp add: bit_dummy)

lemma bucket_less: "k \<le> 63 \<Longrightarrow> unat (m AND (2 ^ k - 1) :: u64) < 2 ^ k"
  unfolding and_mask_word by (simp add: unsigned_take_bit_eq)

lemma dummy_before:
  assumes "k \<le> 63"
  shows "dummy_split_order_key (m AND (2 ^ k - 1)) < so_key_of m"
proof -
  have "dummy_split_order_key (m AND (2 ^ k - 1)) \<le> so_key_of m"
    by (rule bits_le) (auto simp: bit_dummy bit_so_key bit_and_iff)
  moreover have "unat (m AND (2 ^ k - 1)) < 2 ^ 63"
    using bucket_less [OF assms, of m] power_increasing [of k 63 "2 :: nat"] assms by linarith
  then have "dummy_split_order_key (m AND (2 ^ k - 1)) \<noteq> so_key_of m"
    using even_dummy odd_so_key by metis
  ultimately show ?thesis by simp
qed

lemma parent_bits:
  fixes b :: u64
  assumes "unat b < 2 ^ Suc k" and "2 ^ k \<le> unat b" and "k < 63" and "bit (b - 2 ^ k) n"
  shows "bit b n \<and> n \<noteq> k"
proof -
  have "bit b k" using bit_leading [OF assms(2,1)] .
  then have "b - 2 ^ k = b AND NOT (2 ^ k)"
    by (intro disjunctive_diff_eq_and_not bit_eqI) (auto simp: bit_and_iff bit_exp_iff bit_not_iff)
  with assms(4) show ?thesis by (auto simp: bit_and_iff bit_not_iff bit_exp_iff)
qed

lemma parent_before:
  assumes "b \<noteq> 0" and "unat b < 2 ^ 63"
  shows "\<exists>p. parent_bucket b = Some p \<and> unat p < unat b \<and> dummy_split_order_key p < dummy_split_order_key b"
proof -
  obtain k where k: "parent_bucket b = Some (b - 2 ^ k)" "k < 63" "2 ^ k \<le> unat b" "unat b < 2 ^ Suc k"
    using parent_bucket_spec [OF assms] by blast
  obtain p where p: "parent_bucket b = Some p" "unat p < unat b" using parent_bucket_less [OF assms] by blast
  note pb = parent_bits [OF k(4,3,2)]
  have "dummy_split_order_key (b - 2 ^ k) \<le> dummy_split_order_key b"
    by (rule bits_le) (use pb in \<open>auto simp: bit_dummy\<close>)
  moreover have "b - 2 ^ k \<noteq> b" using p k(1) by auto
  then have "dummy_split_order_key (b - 2 ^ k) \<noteq> dummy_split_order_key b"
    by (simp add: dummy_split_order_key_def)
  ultimately show ?thesis using p k(1) by auto
qed

subsection \<open>The list as data\<close>

abbreviation sok :: "ptr \<times> ('k, 'v) item \<Rightarrow> u64" where "sok x \<equiv> fst (snd x)"
abbreviation key_at :: "ptr \<times> ('k, 'v) item \<Rightarrow> 'k" where "key_at x \<equiv> fst (snd (snd x))"
abbreviation val_at :: "ptr \<times> ('k, 'v) item \<Rightarrow> 'v" where "val_at x \<equiv> fst (snd (snd (snd x)))"

definition regular :: "ptr \<times> ('k, 'v) item \<Rightarrow> bool" where
  "regular x \<longleftrightarrow> odd (sok x)"

abbreviation regulars :: "('k, 'v) nodes \<Rightarrow> ('k, 'v) nodes" where
  "regulars ns \<equiv> filter regular ns"

definition in_order :: "('k \<Rightarrow> 'k \<Rightarrow> bool) \<Rightarrow> ('k, 'v) nodes \<Rightarrow> bool" where
  "in_order eq ns \<longleftrightarrow>
     sorted_wrt (\<lambda>x y. sok x \<le> sok y \<and> (regular x \<longrightarrow> regular y \<longrightarrow> \<not> eq (key_at x) (key_at y))) ns"

definition list_ok :: "('k \<Rightarrow> u64) \<Rightarrow> ('k \<Rightarrow> 'k \<Rightarrow> bool) \<Rightarrow> ('k, 'v) nodes \<Rightarrow> bool" where
  "list_ok hash eq ns \<longleftrightarrow> distinct (map fst ns) \<and> in_order eq ns \<and>
     (\<forall>x \<in> set ns. regular x \<longrightarrow> sok x = so_key_of (mixed_hash hash (key_at x)))"

text \<open>The list around a split-order key.\<close>

abbreviation before :: "u64 \<Rightarrow> ('k, 'v) nodes \<Rightarrow> ('k, 'v) nodes" where
  "before sk ns \<equiv> takeWhile (\<lambda>x. sok x < sk) ns"

abbreviation rest :: "u64 \<Rightarrow> ('k, 'v) nodes \<Rightarrow> ('k, 'v) nodes" where
  "rest sk ns \<equiv> dropWhile (\<lambda>x. sok x < sk) ns"

lemma in_order_append:
  "in_order eq (xs @ ys) \<longleftrightarrow> in_order eq xs \<and> in_order eq ys \<and>
     (\<forall>x \<in> set xs. \<forall>y \<in> set ys. sok x \<le> sok y \<and> (regular x \<longrightarrow> regular y \<longrightarrow> \<not> eq (key_at x) (key_at y)))"
  by (simp add: in_order_def sorted_wrt_append)

lemma in_order_Cons:
  "in_order eq (x # ys) \<longleftrightarrow> in_order eq ys \<and>
     (\<forall>y \<in> set ys. sok x \<le> sok y \<and> (regular x \<longrightarrow> regular y \<longrightarrow> \<not> eq (key_at x) (key_at y)))"
  by (auto simp: in_order_def)

lemma rest_ge: "in_order eq ns \<Longrightarrow> x \<in> set (rest sk ns) \<Longrightarrow> sk \<le> sok x"
proof (induction ns)
  case (Cons a ns)
  then show ?case by (cases "sok a < sk") (auto simp: in_order_Cons intro: order_trans)
qed simp

lemma before_less: "x \<in> set (before sk ns) \<Longrightarrow> sok x < sk"
  by (auto dest: set_takeWhileD)

lemma before_skip:
  assumes "in_order eq (us @ (p, e) # zs)" and "fst e < sk"
  shows "before sk (us @ (p, e) # zs) = us @ (p, e) # before sk zs" and "rest sk (us @ (p, e) # zs) = rest sk zs"
proof -
  have us: "sok x < sk" if "x \<in> set us" for x
    using assms that by (fastforce simp: in_order_append)
  show "before sk (us @ (p, e) # zs) = us @ (p, e) # before sk zs"
    using us assms(2) by (subst takeWhile_append2) auto
  show "rest sk (us @ (p, e) # zs) = rest sk zs" using us assms(2) by (subst dropWhile_append2) auto
qed

text \<open>A node put before the first node that is not below it.\<close>

lemma list_ok_insert:
  assumes "list_ok hash eq ns" and "n \<notin> addrs ns"
    and "regular (n, d) \<Longrightarrow> fst d = so_key_of (mixed_hash hash (fst (snd d)))"
    and "\<And>x. regular (n, d) \<Longrightarrow> x \<in> set ns \<Longrightarrow> regular x \<Longrightarrow> \<not> eq (key_at x) (fst (snd d)) \<and> \<not> eq (fst (snd d)) (key_at x)"
  shows "list_ok hash eq (before (fst d) ns @ (n, d) # rest (fst d) ns)"
proof -
  have o: "in_order eq (before (fst d) ns @ rest (fst d) ns)" using assms(1) by (simp add: list_ok_def)
  have split: "set ns = set (before (fst d) ns) \<union> set (rest (fst d) ns)"
    by (metis set_append takeWhile_dropWhile_id)
  have lo: "sok x \<le> fst d" if "x \<in> set (before (fst d) ns)" for x using before_less [OF that] by simp
  have hi: "fst d \<le> sok x" if "x \<in> set (rest (fst d) ns)" for x
    using rest_ge [OF _ that, of eq] assms(1) by (simp add: list_ok_def)
  have ne: "regular (n, d) \<longrightarrow> regular x \<longrightarrow> \<not> eq (key_at x) (fst (snd d)) \<and> \<not> eq (fst (snd d)) (key_at x)"
    if "x \<in> set (before (fst d) ns) \<union> set (rest (fst d) ns)" for x
    using assms(4) [of x] that unfolding split by simp
  have "in_order eq (before (fst d) ns @ (n, d) # rest (fst d) ns)"
    using o lo hi ne unfolding in_order_append in_order_Cons by simp
  moreover have "distinct (map fst (xs @ (n, d) # ys))" if "ns = xs @ ys" for xs ys
    using assms(1,2) that by (auto simp: list_ok_def)
  from this [OF takeWhile_dropWhile_id [symmetric]]
  have "distinct (map fst (before (fst d) ns @ (n, d) # rest (fst d) ns))" .
  ultimately show ?thesis using assms(1,3)
    by (auto simp: list_ok_def regular_def dest: set_takeWhileD set_dropWhileD)
qed

lemma list_ok_delete: "list_ok hash eq (xs @ y # ys) \<Longrightarrow> list_ok hash eq (xs @ ys)"
  by (auto simp: list_ok_def in_order_append in_order_Cons)

end
