(* ===== verification/TableInv.thy ===== *)
theory TableInv
  imports TableKeys
begin

section \<open>The invariant of the hash table, and the buckets\<close>

text \<open>
  \<open>table_ok\<close>: the list is in order (\<open>list_ok\<close>), the counter is the number of regular nodes, the
  table has \<open>2 ^ k\<close> cells, a cell that is set points to the dummy of its bucket, and the
  memory is accounted for; \<open>W\<close> and \<open>V\<close> are the nodes and tables of the other containers of the
  instantiation. Materialising a bucket and locating a position keep the regular nodes.
\<close>

definition cells_ok :: "('k, 'v) nodes \<Rightarrow> nat \<Rightarrow> ptr list \<Rightarrow> bool" where
  "cells_ok ns k cs \<longleftrightarrow> 1 \<le> k \<and> k \<le> 30 \<and> ns \<noteq> [] \<and> cs ! 0 = fst (hd ns) \<and> fst (hd ns) \<noteq> 0 \<and>
     (\<forall>b < 2 ^ k. cs ! b \<noteq> 0 \<longrightarrow> (\<exists>d. (cs ! b, d) \<in> set ns \<and> fst d = dummy_split_order_key (of_nat b)))"

definition table_ok ::
  "('r \<Rightarrow> bool) \<Rightarrow> ('r \<Rightarrow> (ptr \<times> table_act) multiset) \<Rightarrow> ('k \<Rightarrow> u64) \<Rightarrow> ('k \<Rightarrow> 'k \<Rightarrow> bool) \<Rightarrow> ptr set \<Rightarrow> ptr set \<Rightarrow>
   ('k, 'v, 'r) htable \<Rightarrow> nat \<Rightarrow> ('k, 'v) nodes \<Rightarrow> bool" where
  "table_ok ok pd hash eq W V t k ns \<longleftrightarrow> lseg t ns 0 \<and> list_ok hash eq ns \<and>
     h_count t = of_nat (length (regulars ns)) \<and>
     addrs ns \<inter> W = {} \<and> h_table t \<notin> V \<and> store_ok ok pd t (addrs ns \<union> W) (insert (h_table t) V) \<and>
     (\<exists>bt cs. tab_at t (h_table t) bt cs \<and> bt_size bt = 2 ^ k \<and> cells_ok ns k cs)"

lemma cells_ok_mono: "cells_ok ns k cs \<Longrightarrow> set ns \<subseteq> set ns' \<Longrightarrow> hd ns' = hd ns \<Longrightarrow> cells_ok ns' k cs"
  unfolding cells_ok_def by (metis (no_types, lifting) subsetD subset_empty set_empty)

lemma cells_ok_set:
  assumes "cells_ok ns k cs" and "length cs = 2 ^ k" and "(d, it) \<in> set ns" and "fst it = dummy_split_order_key (of_nat b)" and "d \<noteq> 0" and "b \<noteq> 0"
  shows "cells_ok ns k (cs[b := d])"
proof -
  have "(cs[b := d]) ! 0 = cs ! 0" using assms(6) by simp
  moreover have "\<exists>it. ((cs[b := d]) ! c, it) \<in> set ns \<and> fst it = dummy_split_order_key (of_nat c)"
    if "c < 2 ^ k" "(cs[b := d]) ! c \<noteq> 0" for c
  proof (cases "c = b")
    case True
    then have "(cs[b := d]) ! c = d" using that(1) assms(2) by simp
    then show ?thesis using assms(3,4) True by metis
  next
    case False
    then show ?thesis using that assms(1) by (simp add: cells_ok_def)
  qed
  ultimately show ?thesis using assms(1) by (simp add: cells_ok_def)
qed

lemma unat_pow_size: "k \<le> 30 \<Longrightarrow> unat ((2 :: u64) ^ k) = 2 ^ k"
  by simp

lemma read_cell_at:
  assumes "tab_at t a bt cs" and "bt_size bt = 2 ^ k" and "k \<le> 30" and "unat b < 2 ^ k"
  shows "read_cell a b t = Some (cs ! unat b)"
  using assms by (simp add: read_cell_def tab_at_def)

subsection \<open>Linking a node\<close>

text \<open>
  A list is split where the new node goes. The node is linked to the successor, then the
  predecessor's pointer is swung to it.
\<close>

lemma link_between:
  assumes l: "lseg t (xs @ ys) 0" and d: "distinct (map fst (xs @ ys))" and xs: "xs \<noteq> []" and n: "n \<notin> addrs (xs @ ys)"
    and nd: "hnode_at t n = Some (mk_hnode z it)" and s: "store_ok ok pd t N T" and sub: "insert n (addrs (xs @ ys)) \<subseteq> N"
  shows "returns (set_next n (hd_ptr ys 0) t) (\<lambda>t1. lseg t1 (xs @ ys) 0 \<and>
    returns (cas_next (fst (last xs)) (hd_ptr ys 0) n t1) (\<lambda>(b, t2). b \<and>
      lseg t2 (xs @ (n, it) # ys) 0 \<and> store_ok ok pd t2 N T \<and> keeps (N - insert n (addrs (xs @ ys))) T t t2))"
proof -
  obtain us p e where x: "xs = us @ [(p, e)]" using xs by (metis rev_exhaust surj_pair)
  have p: "hnode_at t p = Some (mk_hnode (hd_ptr ys 0) e)" "p \<noteq> 0" "p \<noteq> n" "p \<in> N"
    using l n sub by (auto simp: x)
  have al: "aligned n" "n \<noteq> 0" using store_node [OF s, of n] sub by auto
  let ?t1 = "put_hnode n (mk_hnode (hd_ptr ys 0) it) t" and ?t2 = "put_hnode p (mk_hnode n e) (put_hnode n (mk_hnode (hd_ptr ys 0) it) t)"
  have st1: "store_ok ok pd ?t1 N T" using nd sub by (intro store_put [OF s]) auto
  have st2: "store_ok ok pd ?t2 N T" using p by (intro store_put [OF st1, of p]) auto
  have "lseg t (us @ (p, e) # ys) 0" "distinct (map fst (us @ (p, e) # ys))" "n \<notin> addrs (us @ (p, e) # ys)"
    using l d n by (simp_all add: x)
  from lseg_splice [OF this(1,2) nd al(1) this(3)] have l2: "lseg ?t2 (xs @ (n, it) # ys) 0" by (simp add: x)
  have l1: "lseg ?t1 (xs @ ys) 0" using l n by (simp del: lseg_append)
  have "keeps (N - insert n (addrs (xs @ ys))) T t ?t1" by (rule keeps_put) simp
  moreover have "keeps (N - insert n (addrs (xs @ ys))) T ?t1 ?t2" by (rule keeps_put) (simp add: x)
  ultimately have "keeps (N - insert n (addrs (xs @ ys))) T t ?t2" by (rule keeps_trans)
  then show ?thesis
    using nd p l1 l2 st2 al(2) by (simp add: set_next_def cas_next_def x del: lseg_append)
qed

context table_reclaimer
begin

lemma store_ready: "store_ok ok pd t N T \<Longrightarrow> ok (h_rc t)"
  by (simp add: store_ok_def)

text \<open>The walk from a dummy of the list.\<close>

lemma walk_from:
  assumes s: "store_ok ok pd t N T" and l: "lseg t (us @ (p, e) # zs) 0" and o: "in_order eq (us @ (p, e) # zs)" and e: "fst e < ck"
  shows "\<exists>t1 c t2 t3. h_publish rc HP_PREV p t = Some t1 \<and> protect_from rc p HP_CUR t1 = Some (c, c, t2) \<and> hreads t t2 \<and>
    list_walk rc ck p c c t2 = Some (fst (last (before ck (us @ (p, e) # zs))),
      hd_ptr (rest ck (us @ (p, e) # zs)) 0, hd_ptr (rest ck (us @ (p, e) # zs)) 0, t3) \<and> hreads t t3"
proof -
  let ?ns = "us @ (p, e) # zs"
  have p: "hnode_at t p = Some (mk_hnode (hd_ptr zs 0) e)" "aligned (hd_ptr zs 0)" "lseg t zs 0"
    using l lseg_aligned [of t zs 0] by simp_all
  obtain t1 where 1: "h_publish rc HP_PREV p t = Some t1" "hreads t t1"
    using h_publish_spec [of t HP_PREV p] store_ready [OF s] by (auto elim!: returnsE)
  have r1: "hnode_at t1 p = Some (mk_hnode (hd_ptr zs 0) e)" "ok (h_rc t1)" using p(1) hreads_simps [OF 1(2)] by auto
  obtain t2 where 2: "protect_from rc p HP_CUR t1 = Some (hd_ptr zs 0, hd_ptr zs 0, t2)" "hreads t1 t2"
    using protect_from_spec [OF r1(2,1) p(2), of HP_CUR] by (auto elim!: returnsE)
  have r2: "hreads t t2" using hreads_trans [OF 1(2) 2(2)] .
  then have "ok (h_rc t2)" "lseg t2 zs 0" using hreads_simps [OF r2] hreads_lseg [OF r2] p(3) by auto
  from list_walk_spec [OF this, of ck p] obtain t3 where 3: "list_walk rc ck p (hd_ptr zs 0) (hd_ptr zs 0) t2 =
      Some (last (p # map fst (before ck zs)), hd_ptr (rest ck zs) 0, hd_ptr (rest ck zs) 0, t3)" "hreads t2 t3"
    by (auto elim!: returnsE)
  have "last (p # map fst (before ck zs)) = fst (last (before ck ?ns))"
    unfolding before_skip(1) [OF o e] using last_map [of "(p, e) # before ck zs" fst] by simp
  then show ?thesis using 1 2 3 r2 hreads_trans [OF r2 3(2)] before_skip(2) [OF o e] by simp
qed

text \<open>\<open>insert_from\<close> starts at any node that is before the new one.\<close>

lemma insert_from_spec:
  assumes s: "store_ok ok pd t N T" and l: "lseg t ns 0" and ok: "list_ok hash eq ns" and ns: "ns = us @ (p, e) # zs"
    and e: "fst e < fst it" and n: "n \<notin> addrs ns" and nd: "hnode_at t n = Some (mk_hnode z it)" and sub: "insert n (addrs ns) \<subseteq> N"
  shows "returns (insert_from rc p n t) (\<lambda>t'. lseg t' (before (fst it) ns @ (n, it) # rest (fst it) ns) 0 \<and>
    store_ok ok pd t' N T \<and> keeps (N - insert n (addrs ns)) T t t')"
proof -
  let ?xs = "before (fst it) ns" and ?ys = "rest (fst it) ns"
  have o: "in_order eq (us @ (p, e) # zs)" "distinct (map fst ns)" using ok ns by (simp_all add: list_ok_def)
  obtain t1 c t2 t3 where 1: "h_publish rc HP_PREV p t = Some t1" "protect_from rc p HP_CUR t1 = Some (c, c, t2)"
    "hreads t t2" "list_walk rc (fst it) p c c t2 = Some (fst (last ?xs), hd_ptr ?ys 0, hd_ptr ?ys 0, t3)" "hreads t t3"
    using walk_from [OF s l [unfolded ns] o(1) e] unfolding ns by blast
  have nd2: "hnode_at t2 n = Some (mk_hnode z it)" using nd hreads_simps [OF 1(3)] by simp
  have xs: "?xs \<noteq> []" using before_skip(1) [OF o(1) e] by (simp add: ns)
  have l3: "lseg t3 (?xs @ ?ys) 0" "store_ok ok pd t3 N T" "hnode_at t3 n = Some (mk_hnode z it)"
    using l hreads_lseg [OF 1(5)] hreads_store [OF 1(5) s] hreads_simps [OF 1(5)] nd by simp_all
  have d: "distinct (map fst (?xs @ ?ys))" "n \<notin> addrs (?xs @ ?ys)" "insert n (addrs (?xs @ ?ys)) \<subseteq> N"
    unfolding takeWhile_dropWhile_id by (rule o(2), rule n, rule sub)
  obtain t4 where 4: "set_next n (hd_ptr ?ys 0) t3 = Some t4" and 5: "returns (cas_next (fst (last ?xs)) (hd_ptr ?ys 0) n t4)
     (\<lambda>(b, t5). b \<and> lseg t5 (?xs @ (n, it) # ?ys) 0 \<and> store_ok ok pd t5 N T \<and> keeps (N - insert n (addrs (?xs @ ?ys))) T t3 t5)"
    using link_between [OF l3(1) d(1) xs d(2) l3(3,2) d(3)] by (auto elim!: returnsE)
  obtain t5 where 5: "cas_next (fst (last ?xs)) (hd_ptr ?ys 0) n t4 = Some (True, t5)" "lseg t5 (?xs @ (n, it) # ?ys) 0"
    "store_ok ok pd t5 N T" "keeps (N - insert n (addrs ns)) T t3 t5"
    using 5 by (auto elim!: returnsE)
  have al: "aligned (hd_ptr ?ys 0)" using lseg_aligned [OF conjunct2 [OF l3(1) [unfolded lseg_append]]] by simp
  have "keeps (N - insert n (addrs ns)) T t t5" using keeps_trans [OF hreads_keeps [OF 1(5)] 5(4)] .
  then show ?thesis using 1 4 5 al nd2 by (subst insert_from.simps) (simp add: Let_def)
qed

end

text \<open>The parts of the invariant.\<close>

lemma table_okD:
  assumes "table_ok ok pd hash eq W V t k ns"
  shows "lseg t ns 0" "list_ok hash eq ns" "addrs ns \<inter> W = {}" "h_table t \<notin> V"
    "store_ok ok pd t (addrs ns \<union> W) (insert (h_table t) V)" "h_count t = of_nat (length (regulars ns))" "ok (h_rc t)"
    "in_order eq ns" "distinct (map fst ns)"
    "\<exists>bt cs. tab_at t (h_table t) bt cs \<and> bt_size bt = 2 ^ k \<and> cells_ok ns k cs"
  using assms by (simp_all add: table_ok_def store_ok_def list_ok_def)

lemma table_cell:
  assumes "table_ok ok pd hash eq W V t k ns" and "unat b < 2 ^ k"
  obtains c where "read_cell (h_table t) b t = Some c"
    "c \<noteq> 0 \<Longrightarrow> \<exists>d. (c, d) \<in> set ns \<and> fst d = dummy_split_order_key b" "b = 0 \<Longrightarrow> c \<noteq> 0"
proof -
  obtain bt cs where at: "tab_at t (h_table t) bt cs" "bt_size bt = 2 ^ k" and c: "cells_ok ns k cs"
    using table_okD(10) [OF assms(1)] by blast
  have k: "k \<le> 30" using c by (simp add: cells_ok_def)
  show thesis
  proof (rule that [of "cs ! unat b"])
    show "read_cell (h_table t) b t = Some (cs ! unat b)" by (rule read_cell_at [OF at k assms(2)])
    show "\<exists>d. (cs ! unat b, d) \<in> set ns \<and> fst d = dummy_split_order_key b" if "cs ! unat b \<noteq> 0"
      using c assms(2) that by (force simp: cells_ok_def dest!: spec [of _ "unat b"])
    show "cs ! unat b \<noteq> 0" if "b = 0" using c that by (simp add: cells_ok_def)
  qed
qed

text \<open>A new dummy in the list, then its cell.\<close>

lemma table_ok_cells:
  assumes T: "table_ok ok pd hash eq W V t k ns" and b: "unat b < 2 ^ k"
    and d: "(d, it) \<in> set ns" "fst it = dummy_split_order_key b"
  shows "returns (cas_cell (h_table t) b d t) (\<lambda>t'. table_ok ok pd hash eq W V t' k ns \<and> keeps W V t t' \<and>
    (\<exists>c. read_cell (h_table t) b t' = Some c \<and> c \<noteq> 0))"
proof -
  obtain bt cs where at: "tab_at t (h_table t) bt cs" "bt_size bt = 2 ^ k" and c: "cells_ok ns k cs"
    using table_okD(10) [OF T] by blast
  have k: "k \<le> 30" using c by (simp add: cells_ok_def)
  have len: "length cs = 2 ^ k" using at k by (simp add: tab_at_def)
  have d0: "d \<noteq> 0" using lseg_ne0 [OF table_okD(1) [OF T], of d] d(1) by force
  show ?thesis
  proof (cases "cs ! unat b = 0")
    case False
    then show ?thesis using T at len b read_cell_at [OF at k b] by (simp add: cas_cell_def tab_at_def)
  next
    case True
    let ?cs = "cs[unat b := d]"
    let ?t = "t\<lparr>h_cells := store (bt_buckets bt) ?cs (h_cells t)\<rparr>"
    note st = store_cells [OF table_okD(5) [OF T] at(1) insertI1, of ?cs, simplified length_list_update, OF refl]
    have "unat b \<noteq> 0"
      using True c by (metis (no_types, lifting) cells_ok_def)
    then have cs': "cells_ok ns k ?cs" using cells_ok_set [OF c len d(1) _ d0, of "unat b"] d(2) by simp
    have "table_ok ok pd hash eq W V ?t k ns"
      using T st(1,2) at(2) cs' by (auto simp: table_ok_def)
    moreover have "keeps W V t ?t" using st(3) table_okD(4) [OF T] by (auto intro: keeps_mono)
    moreover have "read_cell (h_table t) b ?t = Some d"
      using read_cell_at [OF st(2) at(2) k b] len b by simp
    ultimately show ?thesis using at len b True d0 by (simp add: cas_cell_def tab_at_def)
  qed
qed

end
