(* ===== verification/TableLocate.thy ===== *)
theory TableLocate
  imports TableInv
begin

section \<open>Buckets and positions\<close>

text \<open>
  \<open>initialize_bucket\<close> and \<open>locate\<close> under the invariant: they return, keep the regular nodes and
  everything of the other containers, and fail only when the allocator does. \<open>locate\<close> finds the
  last node below a split-order key, also when the bucket or its ancestors are missing.
\<close>

subsection \<open>How the invariant is kept\<close>

lemma store_ok_count [simp]: "store_ok ok pd (t\<lparr>h_count := c\<rparr>) N T = store_ok ok pd t N T"
  by (simp add: store_ok_def)

lemma table_ok_keeps:
  assumes T: "table_ok ok pd hash eq W V t k ns" and k: "keeps (addrs ns \<union> W) (insert (h_table t) V) t t'"
    and s: "store_ok ok pd t' (addrs ns \<union> W') (insert (h_table t) V)" and W: "addrs ns \<inter> W' = {}"
  shows "table_ok ok pd hash eq W' V t' k ns"
proof -
  have "lseg t' ns 0" using table_okD(1) [OF T] keeps_lseg [OF k, of ns 0] by simp
  moreover have "\<exists>bt cs. tab_at t' (h_table t) bt cs \<and> bt_size bt = 2 ^ k \<and> cells_ok ns k cs"
    using table_okD(10) [OF T] keeps_tab [OF k, of "h_table t"] by blast
  ultimately show ?thesis
    using table_okD [OF T] keeps_members [OF k] s W by (simp add: table_ok_def)
qed

lemma table_ok_put:
  assumes T0: "table_ok ok pd hash eq W V t k ns" and n: "n \<in> W" "hnode_at t n = Some nd" "d_owner nd' = d_owner nd"
  shows "table_ok ok pd hash eq W V (put_hnode n nd' t) k ns" and "keeps (W - {n}) T t (put_hnode n nd' t)"
proof -
  have nn: "n \<notin> addrs ns" using table_okD(3) [OF T0] n(1) by blast
  have "store_ok ok pd (put_hnode n nd' t) (addrs ns \<union> W) (insert (h_table t) V)"
    using store_put [OF table_okD(5) [OF T0] _ n(2,3)] n(1) by simp
  then show "table_ok ok pd hash eq W V (put_hnode n nd' t) k ns"
    using T0 nn by (simp add: table_ok_def)
  show "keeps (W - {n}) T t (put_hnode n nd' t)" by (rule keeps_put) simp
qed

lemma set_around: "set (before sk ns) \<union> set (rest sk ns) = set ns"
  by (metis set_append takeWhile_dropWhile_id)

text \<open>A node of \<open>W\<close> becomes a node of the list.\<close>

lemma before_nonempty:
  assumes "table_ok ok pd hash eq W V t k ns" and "sk \<noteq> 0"
  shows "before sk ns \<noteq> []" and "hd (before sk ns) = hd ns"
proof -
  obtain cs bt where c: "cells_ok ns k cs" using table_okD(10) [OF assms(1)] by blast
  then obtain x xs where ns: "ns = x # xs" by (cases ns) (auto simp: cells_ok_def)
  have "\<exists>d. (fst x, d) \<in> set ns \<and> fst d = dummy_split_order_key (of_nat 0)"
    using c unfolding cells_ok_def ns list.sel by (metis zero_less_numeral zero_less_power)
  then obtain d where "(fst x, d) \<in> set ns" "fst d = 0" by auto
  then have "sok x = 0" using table_okD(9) [OF assms(1)] unfolding ns
    by (cases x) (auto simp: image_iff)
  then have "sok x < sk" using assms(2) by (simp add: word_neq_0_conv [symmetric])
  then show "before sk ns \<noteq> []" and "hd (before sk ns) = hd ns" by (simp_all add: ns)
qed

lemma table_ok_link:
  assumes T: "table_ok ok pd hash eq (insert n W) V t k ns" and n: "n \<notin> W" and it: "fst it \<noteq> 0"
    and ns': "ns' = before (fst it) ns @ (n, it) # rest (fst it) ns" and ok: "list_ok hash eq ns'"
    and l: "lseg t' ns' 0" and s: "store_ok ok pd t' (addrs ns \<union> insert n W) (insert (h_table t) V)"
    and k: "keeps W (insert (h_table t) V) t t'"
  shows "table_ok ok pd hash eq W V (t'\<lparr>h_count := of_nat (length (regulars ns'))\<rparr>) k ns'"
proof -
  have set: "set ns' = insert (n, it) (set ns)"
    unfolding ns' using set_around [of "fst it" ns] by auto
  have hd: "hd ns' = hd ns" using before_nonempty [OF T it] unfolding ns' by simp
  have ad: "addrs ns' \<union> W = addrs ns \<union> insert n W" "addrs ns' \<inter> W = {}" using table_okD(3) [OF T] n by (auto simp: set)
  have "\<exists>bt cs. tab_at t' (h_table t) bt cs \<and> bt_size bt = 2 ^ k \<and> cells_ok ns' k cs"
    using table_okD(10) [OF T] keeps_tab [OF k, of "h_table t"] cells_ok_mono [of ns k _ ns'] set hd by blast
  then show ?thesis using table_okD [OF T] keeps_members [OF k] l s ok ad by (simp add: table_ok_def tab_at_def)
qed

lemma regulars_link:
  "mset (regulars (before sk ns @ (n, it) # rest sk ns)) =
     (if regular (n, it) then add_mset (n, it) (mset (regulars ns)) else mset (regulars ns))"
proof -
  have "mset (regulars ns) = mset (regulars (before sk ns @ rest sk ns))" by simp
  also have "\<dots> = mset (regulars (before sk ns)) + mset (regulars (rest sk ns))"
    by (simp only: filter_append mset_append)
  finally show ?thesis by simp
qed

lemma regulars_link_dummy:
  "\<not> regular (n, it) \<Longrightarrow> regulars (before sk ns @ (n, it) # rest sk ns) = regulars ns"
proof -
  have "regulars (before sk ns @ rest sk ns) = regulars ns" by (simp only: takeWhile_dropWhile_id)
  then show "\<not> regular (n, it) \<Longrightarrow> regulars (before sk ns @ (n, it) # rest sk ns) = regulars ns"
    by (simp only: filter_append) simp
qed

context table_reclaimer
begin

lemma table_alloc:
  assumes T: "table_ok ok pd hash eq W V t k ns" and al: "allocs_ok al"
  shows "returns (alloc_hnode th al pl t) (\<lambda>(r, t'). keeps W (insert (h_table t) V) t t' \<and>
    (case r of Inl e \<Rightarrow> e = Bad_alloc \<and> starved al t' \<and> table_ok ok pd hash eq W V t' k ns
     | Inr a \<Rightarrow> a \<notin> W \<and> table_ok ok pd hash eq (insert a W) V t' k ns \<and>
         hnode_at t' a = Some (mk_hnode 0 (0, fst pl, snd pl, h_na t))))"
proof (rule returns_mono [OF store_alloc [OF table_okD(5) [OF T] al]], simp, clarify)
  fix r t'
  assume k: "keeps (addrs ns \<union> W) (insert (h_table t) V) t t'" and
    r: "case r of Inl e \<Rightarrow> e = Bad_alloc \<and> starved al t' \<and> store_ok ok pd t' (addrs ns \<union> W) (insert (h_table t) V)
      | Inr a \<Rightarrow> a \<notin> addrs ns \<union> W \<and> store_ok ok pd t' (insert a (addrs ns \<union> W)) (insert (h_table t) V) \<and>
          hnode_at t' a = Some (mk_hnode 0 (0, fst pl, snd pl, h_na t))"
  have "keeps W (insert (h_table t) V) t t'" by (rule keeps_mono [OF k]) auto
  then show "keeps W (insert (h_table t) V) t t' \<and> (case r of Inl e \<Rightarrow> e = Bad_alloc \<and> starved al t' \<and> table_ok ok pd hash eq W V t' k ns
     | Inr a \<Rightarrow> a \<notin> W \<and> table_ok ok pd hash eq (insert a W) V t' k ns \<and>
         hnode_at t' a = Some (mk_hnode 0 (0, fst pl, snd pl, h_na t)))"
    using r table_okD(3) [OF T] table_ok_keeps [OF T k] by (auto split: sum.splits)
qed


lemma insert_dummy:
  assumes T: "table_ok ok pd hash eq (insert d W) V t k ns" and d: "d \<notin> W" "hnode_at t d = Some (mk_hnode z it)" "even (fst it)"
    and p: "(p, e) \<in> set ns" "fst e < fst it"
  shows "returns (insert_from rc p d t) (\<lambda>t'. keeps W (insert (h_table t) V) t t' \<and>
    (\<exists>ns'. table_ok ok pd hash eq W V t' k ns' \<and> regulars ns' = regulars ns \<and> (d, it) \<in> set ns'))"
proof -
  let ?ns = "before (fst it) ns @ (d, it) # rest (fst it) ns"
  obtain us zs where ns: "ns = us @ (p, e) # zs" using split_list [OF p(1)] by blast
  have out: "d \<notin> addrs ns" using table_okD(3) [OF T] by blast
  have odd: "\<not> regular (d, it)" using d(3) by (simp add: regular_def)
  have lo: "list_ok hash eq ?ns" by (rule list_ok_insert [OF table_okD(2) [OF T] out]) (use odd in simp_all)
  have "returns (insert_from rc p d t) (\<lambda>t'. lseg t' ?ns 0 \<and>
    store_ok ok pd t' (addrs ns \<union> insert d W) (insert (h_table t) V) \<and>
    keeps (addrs ns \<union> insert d W - insert d (addrs ns)) (insert (h_table t) V) t t')"
    by (rule insert_from_spec [OF table_okD(5,1,2) [OF T] ns p(2) out d(2)]) auto
  then show ?thesis
  proof (rule returns_mono, elim conjE)
    fix t'
    assume l: "lseg t' ?ns 0" and s: "store_ok ok pd t' (addrs ns \<union> insert d W) (insert (h_table t) V)"
      and k': "keeps (addrs ns \<union> insert d W - insert d (addrs ns)) (insert (h_table t) V) t t'"
    have k: "keeps W (insert (h_table t) V) t t'"
      by (rule keeps_mono [OF k']) (use d(1) table_okD(3) [OF T] in auto)
    have "table_ok ok pd hash eq W V (t'\<lparr>h_count := of_nat (length (regulars ?ns))\<rparr>) k ?ns"
      by (rule table_ok_link [OF T d(1) _ refl lo l s k]) (use p(2) in auto)
    moreover have "of_nat (length (regulars ?ns)) = h_count t'"
      using table_okD(6) [OF T] keeps_members [OF k] regulars_link_dummy [OF odd] by simp
    ultimately have "table_ok ok pd hash eq W V t' k ?ns" by simp
    then show "keeps W (insert (h_table t) V) t t' \<and>
      (\<exists>ns'. table_ok ok pd hash eq W V t' k ns' \<and> regulars ns' = regulars ns \<and> (d, it) \<in> set ns')"
      using k regulars_link_dummy [OF odd, of "fst it" ns] by (intro conjI exI [of _ ?ns]) simp_all
  qed
qed

end

lemma keeps_cell:
  "keeps N T t t' \<Longrightarrow> a \<in> T \<Longrightarrow> tab_at t a bt cs \<Longrightarrow> read_cell a b t' = read_cell a b t"
  by (drule (2) keeps_tab) (simp add: read_cell_def tab_at_def)

text \<open>\<open>settled\<close>: dummies may have been added, and the other containers are as they were.\<close>

definition settled ::
  "('r \<Rightarrow> bool) \<Rightarrow> ('r \<Rightarrow> (ptr \<times> table_act) multiset) \<Rightarrow> ('k \<Rightarrow> u64) \<Rightarrow> ('k \<Rightarrow> 'k \<Rightarrow> bool) \<Rightarrow> ptr set \<Rightarrow> ptr set \<Rightarrow>
   nat \<Rightarrow> ('k, 'v) nodes \<Rightarrow> ('k, 'v, 'r) htable \<Rightarrow> ('k, 'v, 'r) htable \<Rightarrow> bool" where
  "settled ok pd hash eq W V k ns t t' \<longleftrightarrow> keeps W V t t' \<and>
     (\<exists>ns'. table_ok ok pd hash eq W V t' k ns' \<and> regulars ns' = regulars ns)"

lemma settledI:
  "table_ok ok pd hash eq W V t' k ns' \<Longrightarrow> regulars ns' = regulars ns \<Longrightarrow> keeps W V t t' \<Longrightarrow>
     settled ok pd hash eq W V k ns t t'"
  by (auto simp: settled_def)

lemma settled_table: "settled ok pd hash eq W V k ns t t' \<Longrightarrow> h_table t' = h_table t"
  by (auto simp: settled_def dest: keeps_members)

context table_reclaimer
begin

lemma initialize_bucket_spec:
  assumes "table_ok ok pd hash eq W V t k ns" and "allocs_ok al" and "unat b < 2 ^ k"
  shows "returns (initialize_bucket rc th al pl (h_table t) b t) (\<lambda>(r, t'). settled ok pd hash eq W V k ns t t' \<and>
    (case r of Inl e \<Rightarrow> e = Bad_alloc \<and> starved al t' | Inr _ \<Rightarrow> \<exists>c. read_cell (h_table t) b t' = Some c \<and> c \<noteq> 0))"
  using assms(1,3)
proof (induction "unat b" arbitrary: b t ns rule: less_induct)
  case less
  note T = less.prems(1)
  obtain c where c: "read_cell (h_table t) b t = Some c" "b = 0 \<Longrightarrow> c \<noteq> 0" using table_cell [OF less.prems] by metis
  show ?case
  proof (cases "c = 0")
    case False
    then show ?thesis using c(1) settledI [OF T refl keeps_refl] by (subst initialize_bucket.simps) simp
  next
    case True
    then have b0: "b \<noteq> 0" using c(2) by blast
    have k: "k \<le> 30" using table_okD(10) [OF T] by (auto simp: cells_ok_def)
    have "(2 :: nat) ^ k \<le> 2 ^ 63" using k by (intro power_increasing) simp_all
    then have b63: "unat b < 2 ^ 63" using less.prems(2) by linarith
    obtain p where p: "parent_bucket b = Some p" "unat p < unat b" "dummy_split_order_key p < dummy_split_order_key b"
      using parent_before [OF b0 b63] by blast
    have pk: "unat p < 2 ^ k" using p(2) less.prems(2) by linarith
    obtain r1 t1 where 1: "initialize_bucket rc th al pl (h_table t) p t = Some (r1, t1)"
      "settled ok pd hash eq W V k ns t t1" "case r1 of Inl e \<Rightarrow> e = Bad_alloc \<and> starved al t1
         | Inr _ \<Rightarrow> \<exists>c. read_cell (h_table t) p t1 = Some c \<and> c \<noteq> 0"
      using less.hyps [OF p(2) T pk] by (auto elim!: returnsE)
    show ?thesis
    proof (cases r1)
      case (Inl e)
      then show ?thesis using 1 c(1) True b0 p(1) by (subst initialize_bucket.simps) simp
    next
      case (Inr u)
      obtain ns1 where T1: "table_ok ok pd hash eq W V t1 k ns1" "regulars ns1 = regulars ns" "keeps W V t t1"
        using 1(2) by (auto simp: settled_def)
      obtain start where st: "read_cell (h_table t) p t1 = Some start" "start \<noteq> 0" using 1(3) Inr by auto
      have tb: "h_table t1 = h_table t" using keeps_members [OF T1(3)] by simp
      obtain r2 t2 where 2: "alloc_hnode th al pl t1 = Some (r2, t2)" "keeps W (insert (h_table t) V) t1 t2"
        "case r2 of Inl e \<Rightarrow> e = Bad_alloc \<and> starved al t2 \<and> table_ok ok pd hash eq W V t2 k ns1
         | Inr a \<Rightarrow> a \<notin> W \<and> table_ok ok pd hash eq (insert a W) V t2 k ns1 \<and>
             hnode_at t2 a = Some (mk_hnode 0 (0, fst pl, snd pl, h_na t1))"
        using table_alloc [OF T1(1) assms(2), of th pl] by (auto elim!: returnsE simp: tb)
      have k2: "keeps W V t t2" using keeps_trans [OF T1(3) keeps_mono [OF 2(2)]] by auto
      show ?thesis
      proof (cases r2)
        case (Inl e)
        then have "settled ok pd hash eq W V k ns t t2" using 2(3) T1(2) k2 by (auto intro: settledI)
        then show ?thesis using 1 2 c(1) True b0 p(1) Inl Inr by (subst initialize_bucket.simps) simp
      next
        case (Inr d)
        let ?it = "(dummy_split_order_key b, fst pl, snd pl, h_na t1)"
        let ?t3 = "put_hnode d (mk_hnode 0 ?it) t2"
        have d: "d \<notin> W" "table_ok ok pd hash eq (insert d W) V t2 k ns1"
          "hnode_at t2 d = Some (mk_hnode 0 (0, fst pl, snd pl, h_na t1))" using 2(3) Inr by auto
        have T3: "table_ok ok pd hash eq (insert d W) V ?t3 k ns1"
          by (rule table_ok_put(1) [OF d(2) insertI1 d(3)]) simp
        have k3: "keeps W (insert (h_table t) V) t2 ?t3" using d(1) by (rule keeps_put)
        have tb3: "h_table ?t3 = h_table t" using keeps_members [OF k2] by simp
        obtain bt cs where at: "tab_at t1 (h_table t) bt cs" using table_okD(10) [OF T1(1)] tb by auto
        have cell: "read_cell (h_table t) p ?t3 = Some start"
          using keeps_cell [OF keeps_trans [OF 2(2) k3] _ at] st(1) by simp
        have "\<exists>e. (start, e) \<in> set ns1 \<and> fst e = dummy_split_order_key p"
          by (rule table_cell [OF T3 pk]) (use cell st(2) tb3 in simp)
        then obtain e where e: "(start, e) \<in> set ns1" "fst e = dummy_split_order_key p" by blast
        have d3: "hnode_at ?t3 d = Some (mk_hnode 0 ?it)" using d(3) by (auto dest: load_SomeD)
        have ev: "even (fst ?it)" using even_dummy [OF b63] by simp
        have lt: "fst e < fst ?it" using e(2) p(3) by simp
        obtain t4 ns4 where 4: "insert_from rc start d ?t3 = Some t4" "keeps W (insert (h_table t) V) ?t3 t4"
          "table_ok ok pd hash eq W V t4 k ns4" "regulars ns4 = regulars ns1" "(d, ?it) \<in> set ns4"
          using insert_dummy [OF T3 d(1) d3 ev e(1) lt] unfolding tb3 by (auto elim!: returnsE)
        have tb4: "h_table t4 = h_table t" using keeps_members [OF 4(2)] tb3 by simp
        obtain t5 where 5: "cas_cell (h_table t) b d t4 = Some t5" "table_ok ok pd hash eq W V t5 k ns4" "keeps W V t4 t5"
          "\<exists>c. read_cell (h_table t) b t5 = Some c \<and> c \<noteq> 0"
          using table_ok_cells [OF 4(3) less.prems(2) 4(5)] unfolding tb4 by (auto elim!: returnsE)
        have "keeps W V ?t3 t4" "keeps W V t2 ?t3" using 4(2) k3 by (auto intro: keeps_mono)
        then have "keeps W V t t5" using k2 5(3) by (blast intro: keeps_trans)
        then have "settled ok pd hash eq W V k ns t t5" using 5(2) 4(4) T1(2) by (auto intro: settledI)
        moreover have "set_so_key d (dummy_split_order_key b) t2 = Some ?t3" using d(3) by (simp add: set_so_key_def)
        ultimately show ?thesis using 1 2(1) c(1) True b0 p(1) Inr \<open>r1 = Inr u\<close> cell 4(1) 5(1,4)
          by (subst initialize_bucket.simps) simp
      qed
    qed
  qed
qed

text \<open>\<open>locate\<close> when the cell of the bucket is set, then in general.\<close>

lemma locate_here:
  assumes T: "table_ok ok pd hash eq W V t k ns" and c: "read_cell (h_table t) (m AND (2 ^ k - 1)) t = Some c" "c \<noteq> 0"
  shows "returns (locate rc th al pl m (so_key_of m) t) (\<lambda>(r, t'). hreads t t' \<and>
    r = Inr (fst (last (before (so_key_of m) ns)), hd_ptr (rest (so_key_of m) ns) 0) \<and> before (so_key_of m) ns \<noteq> [])"
proof -
  obtain bt cs where at: "tab_at t (h_table t) bt cs" "bt_size bt = 2 ^ k" and k: "k \<le> 30"
    using table_okD(10) [OF T] by (auto simp: cells_ok_def)
  have b: "unat (m AND (2 ^ k - 1)) < 2 ^ k" using bucket_less k by simp
  obtain e where e: "(c, e) \<in> set ns" "fst e = dummy_split_order_key (m AND (2 ^ k - 1))"
    by (rule table_cell [OF T b]) (use c in auto)
  then have lt: "fst e < so_key_of m" using dummy_before [of k m] k by simp
  obtain us zs where ns: "ns = us @ (c, e) # zs" using split_list [OF e(1)] by blast
  obtain t1 where 1: "h_publish rc HP_TABLE (h_table t) t = Some t1" "hreads t t1"
    using h_publish_spec [of t HP_TABLE "h_table t"] table_okD(7) [OF T] by (auto elim!: returnsE)
  have s1: "store_ok ok pd t1 (addrs ns \<union> W) (insert (h_table t) V)" "lseg t1 ns 0"
    using hreads_store [OF 1(2) table_okD(5) [OF T]] hreads_lseg [OF 1(2)] table_okD(1) [OF T] by simp_all
  obtain t2 x t3 t4 where 2: "h_publish rc HP_PREV c t1 = Some t2" "protect_from rc c HP_CUR t2 = Some (x, x, t3)"
    "list_walk rc (so_key_of m) c x x t3 = Some (fst (last (before (so_key_of m) ns)),
      hd_ptr (rest (so_key_of m) ns) 0, hd_ptr (rest (so_key_of m) ns) 0, t4)" "hreads t1 t4"
    using walk_from [OF s1(1) s1(2) [unfolded ns] table_okD(8) [OF T, unfolded ns] lt] unfolding ns by blast
  have "before (so_key_of m) ns \<noteq> []" unfolding ns using before_skip(1) [OF table_okD(8) [OF T, unfolded ns] lt] by simp
  moreover have "read_cell (h_table t) (m AND (2 ^ k - 1)) t1 = Some c" "load (h_tabs t1) (h_table t) = Some bt" "h_table t1 = h_table t"
    using c(1) hreads_simps [OF 1(2)] at(1) by (simp_all add: read_cell_def tab_at_def)
  ultimately show ?thesis using 1 2 c(2) at(2) hreads_trans [OF 1(2) 2(4)]
    by (subst locate.simps) (simp add: Let_def)
qed

lemma locate_spec:
  assumes T: "table_ok ok pd hash eq W V t k ns" and al: "allocs_ok al"
  shows "returns (locate rc th al pl m (so_key_of m) t) (\<lambda>(r, t'). keeps W V t t' \<and>
    (\<exists>ns'. table_ok ok pd hash eq W V t' k ns' \<and> regulars ns' = regulars ns \<and>
      (case r of Inl e \<Rightarrow> e = Bad_alloc \<and> starved al t'
       | Inr (p, c) \<Rightarrow> p = fst (last (before (so_key_of m) ns')) \<and> c = hd_ptr (rest (so_key_of m) ns') 0 \<and>
           before (so_key_of m) ns' \<noteq> [])))"
proof -
  have reads: "table_ok ok pd hash eq W V t2 k ms" "keeps W V t1 t2"
    if "table_ok ok pd hash eq W V t1 k ms" "hreads t1 t2" for t1 t2 ms
    using table_ok_keeps [OF that(1) hreads_keeps [OF that(2)] hreads_store [OF that(2) table_okD(5) [OF that(1)]]
        table_okD(3) [OF that(1)]] hreads_keeps [OF that(2)] by auto
  have here: ?thesis if T1: "table_ok ok pd hash eq W V t1 k ns1" "regulars ns1 = regulars ns" "keeps W V t t1"
    and c: "read_cell (h_table t1) (m AND (2 ^ k - 1)) t1 = Some c" "c \<noteq> 0"
    and run: "locate rc th al pl m (so_key_of m) t = locate rc th al pl m (so_key_of m) t1" for t1 ns1 c
    unfolding run using locate_here [OF T1(1) c, of th al pl]
    by (rule returns_mono) (use reads [OF T1(1)] T1(2) keeps_trans [OF T1(3)] in \<open>auto intro!: exI [of _ ns1]\<close>)
  obtain bt cs where at: "tab_at t (h_table t) bt cs" "bt_size bt = 2 ^ k" and k: "k \<le> 30"
    using table_okD(10) [OF T] by (auto simp: cells_ok_def)
  have b: "unat (m AND (2 ^ k - 1)) < 2 ^ k" using bucket_less k by simp
  obtain c where c: "read_cell (h_table t) (m AND (2 ^ k - 1)) t = Some c" using table_cell [OF T b] by metis
  show ?thesis
  proof (cases "c = 0")
    case False
    then show ?thesis using here [OF T refl keeps_refl c] by simp
  next
    case True
    obtain t1 where 1: "h_publish rc HP_TABLE (h_table t) t = Some t1" "hreads t t1"
      using h_publish_spec [of t HP_TABLE "h_table t"] table_okD(7) [OF T] by (auto elim!: returnsE)
    have r1: "read_cell (h_table t) (m AND (2 ^ k - 1)) t1 = Some 0" "load (h_tabs t1) (h_table t) = Some bt" "h_table t1 = h_table t"
      using c True hreads_simps [OF 1(2)] at(1) by (simp_all add: read_cell_def tab_at_def)
    obtain r t2 where 2: "initialize_bucket rc th al pl (h_table t1) (m AND (2 ^ k - 1)) t1 = Some (r, t2)"
      "settled ok pd hash eq W V k ns t1 t2"
      "case r of Inl e \<Rightarrow> e = Bad_alloc \<and> starved al t2 | Inr _ \<Rightarrow> \<exists>c. read_cell (h_table t1) (m AND (2 ^ k - 1)) t2 = Some c \<and> c \<noteq> 0"
      using initialize_bucket_spec [OF reads(1) [OF T 1(2)] al b, of th pl] by (auto elim!: returnsE)
    obtain ns2 where T2: "table_ok ok pd hash eq W V t2 k ns2" "regulars ns2 = regulars ns" "keeps W V t1 t2"
      using 2(2) by (auto simp: settled_def)
    have k2: "keeps W V t t2" using reads(2) [OF T 1(2)] T2(3) by (rule keeps_trans)
    have run: "locate rc th al pl m (so_key_of m) t =
        (case r of Inl e \<Rightarrow> Some (Inl e, t2) | Inr _ \<Rightarrow> locate rc th al pl m (so_key_of m) t2)"
      using 1(1) r1 2(1) at(2) by (subst locate.simps) (simp add: Let_def split: sum.splits)
    show ?thesis
    proof (cases r)
      case (Inl e)
      then show ?thesis using run 2(3) T2 k2 by auto
    next
      case (Inr u)
      then obtain c2 where "read_cell (h_table t1) (m AND (2 ^ k - 1)) t2 = Some c2" "c2 \<noteq> 0" using 2(3) by auto
      then show ?thesis using here [OF T2(1,2) k2] run Inr keeps_members [OF T2(3)] by simp
    qed
  qed
qed

end

end
