(* ===== verification/TableOps.thy ===== *)
theory TableOps
  imports TableLocate
begin

section \<open>Insert, find and erase on the hash table\<close>

text \<open>
  The three operations against the list of regular nodes: \<open>lookup_node\<close> is the only node with an
  equal key. What the code relies on of the user's functors is \<open>lawful\<close>: the equality is an
  equivalence, and equal keys have equal hashes.
\<close>

definition lawful :: "('k \<Rightarrow> u64) \<Rightarrow> ('k \<Rightarrow> 'k \<Rightarrow> bool) \<Rightarrow> bool" where
  "lawful hash eq \<longleftrightarrow> (\<forall>a. eq a a) \<and> (\<forall>a b. eq a b \<longrightarrow> eq b a \<and> hash a = hash b) \<and>
     (\<forall>a b c. eq a b \<longrightarrow> eq b c \<longrightarrow> eq a c)"

lemma lawfulD:
  assumes "lawful hash eq"
  shows "eq a a" "eq a b \<Longrightarrow> eq b a" "eq a b \<Longrightarrow> hash a = hash b" "eq a b \<Longrightarrow> eq b c \<Longrightarrow> eq a c"
  using assms unfolding lawful_def by blast+

definition lookup_node :: "('k \<Rightarrow> 'k \<Rightarrow> bool) \<Rightarrow> 'k \<Rightarrow> ('k, 'v) nodes \<Rightarrow> (ptr \<times> ('k, 'v) item) option" where
  "lookup_node eq key ns = find (\<lambda>x. eq (key_at x) key) (regulars ns)"

subsection \<open>Scanning a run\<close>

abbreviation other :: "('k \<Rightarrow> 'k \<Rightarrow> bool) \<Rightarrow> u64 \<Rightarrow> 'k \<Rightarrow> ptr \<times> ('k, 'v) item \<Rightarrow> bool" where
  "other eq sk key \<equiv> \<lambda>x. sok x = sk \<and> \<not> eq (key_at x) key"

lemma run_end:
  assumes "in_order eq (x # ys)" and "sok x > sk" and "\<And>y. y \<in> set (x # ys) \<Longrightarrow> regular y \<Longrightarrow> eq (key_at y) key \<Longrightarrow> sok y = sk"
  shows "find (\<lambda>x. regular x \<and> eq (key_at x) key) (x # ys) = None"
proof -
  have "sk < sok y" if "y \<in> set (x # ys)" for y using assms(1,2) that by (auto simp: in_order_Cons)
  then show ?thesis using assms(3) unfolding find_None_iff by blast
qed

lemma lookup_run:
  assumes "in_order eq ys" and "odd sk" and "\<And>y. y \<in> set ys \<Longrightarrow> sk \<le> sok y"
    and "\<And>y. y \<in> set ys \<Longrightarrow> regular y \<Longrightarrow> eq (key_at y) key \<Longrightarrow> sok y = sk"
  shows "find (\<lambda>x. regular x \<and> eq (key_at x) key) ys =
    (case dropWhile (other eq sk key) ys of [] \<Rightarrow> None | x # _ \<Rightarrow> if sok x = sk then Some x else None)"
  using assms
proof (induction ys)
  case (Cons y ys)
  show ?case
  proof (cases "sok y = sk")
    case True
    then have "regular y" using Cons.prems(2) by (simp add: regular_def)
    then show ?thesis using True Cons by (cases "eq (key_at y) key") (auto simp: in_order_Cons)
  next
    case False
    then have "sok y > sk" using Cons.prems(3) [of y] by simp
    from run_end [OF Cons.prems(1) this Cons.prems(4)] show ?thesis using False by simp
  qed
qed simp

lemma find_append: "find P (xs @ ys) = (case find P xs of None \<Rightarrow> find P ys | Some x \<Rightarrow> Some x)"
  by (induction xs) auto

lemma find_regulars: "find P (regulars ns) = find (\<lambda>x. regular x \<and> P x) ns"
  by (induction ns) auto

lemma lookup_scan:
  fixes key :: 'k and hash :: "'k \<Rightarrow> u64"
  assumes "list_ok hash eq ns" and "lawful hash eq"
  defines "sk \<equiv> so_key_of (mixed_hash hash key)"
  shows "lookup_node eq key ns =
    (case dropWhile (other eq sk key) (rest sk ns) of [] \<Rightarrow> None | x # _ \<Rightarrow> if sok x = sk then Some x else None)"
proof -
  let ?P = "\<lambda>x. regular x \<and> eq (key_at x) key"
  have hit: "sok x = sk" if "x \<in> set ns" "regular x" "eq (key_at x) key" for x
    using assms(1) that lawfulD(3) [OF assms(2) that(3)] by (simp add: list_ok_def mixed_hash_def sk_def)
  have "\<not> ?P x" if "x \<in> set (before sk ns)" for x
    using hit [of x] before_less [OF that] set_takeWhileD [OF that] by auto
  then have none: "find ?P (before sk ns) = None" unfolding find_None_iff by blast
  have o: "in_order eq (before sk ns @ rest sk ns)" using assms(1) by (simp add: list_ok_def)
  have "find ?P ns = find ?P (before sk ns @ rest sk ns)" by simp
  also have "\<dots> = find ?P (rest sk ns)" using none unfolding find_append none by simp
  also have "\<dots> = (case dropWhile (other eq sk key) (rest sk ns) of [] \<Rightarrow> None | x # _ \<Rightarrow> if sok x = sk then Some x else None)"
  proof (rule lookup_run)
    show "in_order eq (rest sk ns)" using o unfolding in_order_append by blast
    show "sk \<le> sok y" if "y \<in> set (rest sk ns)" for y using rest_ge [OF _ that] assms(1) by (auto simp: list_ok_def)
    show "sok y = sk" if "y \<in> set (rest sk ns)" "regular y" "eq (key_at y) key" for y
      using hit [OF set_dropWhileD [OF that(1)] that(2,3)] .
  qed (simp add: sk_def)
  finally show ?thesis by (simp add: lookup_node_def find_regulars)
qed

lemma lookup_unique:
  assumes ok: "list_ok hash eq ns" and law: "lawful hash eq"
  shows "lookup_node eq key ns = Some x \<longleftrightarrow> x \<in> set ns \<and> regular x \<and> eq (key_at x) key"
proof
  assume "lookup_node eq key ns = Some x"
  then show "x \<in> set ns \<and> regular x \<and> eq (key_at x) key"
    by (auto simp: lookup_node_def find_Some_iff dest: nth_mem)
next
  assume x: "x \<in> set ns \<and> regular x \<and> eq (key_at x) key"
  obtain us zs where ns: "ns = us @ x # zs" using split_list x by metis
  have "\<not> eq (key_at y) key" if "y \<in> set us" "regular y" for y
  proof
    assume "eq (key_at y) key"
    then have "eq (key_at y) (key_at x)" using lawfulD(2,4) [OF law] x by blast
    then show False using ok that x by (simp add: ns list_ok_def in_order_append)
  qed
  then have "find (\<lambda>x. eq (key_at x) key) (regulars us) = None" by (auto simp: find_None_iff)
  then show "lookup_node eq key ns = Some x" using x by (simp add: lookup_node_def ns find_append)
qed

lemma scan_none:
  "(case xs of [] \<Rightarrow> None | x # _ \<Rightarrow> if sok x = sk then Some (p, fst x) else None) = None \<longleftrightarrow>
     (case xs of [] \<Rightarrow> None | x # _ \<Rightarrow> if sok x = sk then Some x else None) = None"
  by (cases xs) auto

lemma scan_node:
  "map_option snd (case xs of [] \<Rightarrow> None | x # _ \<Rightarrow> if sok x = sk then Some (p, fst x) else None) =
     map_option fst (case xs of [] \<Rightarrow> None | x # _ \<Rightarrow> if sok x = sk then Some x else None)"
  by (cases xs) auto

context table_reclaimer
begin

lemma run_scan_spec:
  assumes "ok (h_rc t)" and "lseg t ys 0"
  shows "returns (run_scan rc eq sk key rp (hd_ptr ys 0) tg t) (\<lambda>(res, t'). hreads t t' \<and>
    res = (case dropWhile (other eq sk key) ys of [] \<Rightarrow> None
      | x # _ \<Rightarrow> if sok x = sk then Some (last (rp # map fst (takeWhile (other eq sk key) ys)), fst x) else None))"
  using assms
proof (induction ys arbitrary: rp tg t)
  case Nil
  then show ?case by (subst run_scan.simps) (simp add: hreads_refl)
next
  case (Cons y ys)
  obtain b d where y: "y = (b, d)" by (cases y)
  have nd: "hnode_at t b = Some (mk_hnode (hd_ptr ys 0) d)" "b \<noteq> 0" "aligned (hd_ptr ys 0)" "lseg t ys 0"
    using Cons.prems lseg_aligned [of t ys 0] by (auto simp: y)
  show ?case
  proof (cases "other eq sk key y")
    case False
    then show ?thesis using nd Cons.prems(1) hreads_refl by (subst run_scan.simps) (auto simp: y Let_def)
  next
    case True
    obtain t1 where 1: "h_publish rc HP_PREV b t = Some t1" "hreads t t1"
      using h_publish_spec [OF Cons.prems(1), of HP_PREV b] by (auto elim!: returnsE)
    have r1: "ok (h_rc t1)" "hnode_at t1 b = Some (mk_hnode (hd_ptr ys 0) d)" using hreads_simps [OF 1(2)] nd(1) by auto
    obtain t2 where 2: "protect_from rc b HP_CUR t1 = Some (hd_ptr ys 0, hd_ptr ys 0, t2)" "hreads t1 t2"
      using protect_from_spec [OF r1 nd(3), of HP_CUR] by (auto elim!: returnsE)
    have r2: "hreads t t2" using hreads_trans [OF 1(2) 2(2)] .
    have "ok (h_rc t2)" "lseg t2 ys 0" using hreads_simps [OF r2] hreads_lseg [OF r2] nd(4) by auto
    note IH = Cons.IH [OF this, of b "hd_ptr ys 0"]
    have e: "takeWhile (other eq sk key) (y # ys) = y # takeWhile (other eq sk key) ys"
      "dropWhile (other eq sk key) (y # ys) = dropWhile (other eq sk key) ys"
      "last (rp # map fst (y # zs)) = last (b # map fst zs)" for zs
      using True by (simp_all add: y)
    have "returns (run_scan rc eq sk key b (hd_ptr ys 0) (hd_ptr ys 0) t2) (\<lambda>(res, t'). hreads t t' \<and>
      res = (case dropWhile (other eq sk key) (y # ys) of [] \<Rightarrow> None
        | x # _ \<Rightarrow> if sok x = sk then Some (last (rp # map fst (takeWhile (other eq sk key) (y # ys))), fst x) else None))"
      unfolding e by (rule returns_mono [OF IH]) (use hreads_trans [OF r2] in auto)
    then show ?thesis using True nd 1(1) 2(1) by (subst run_scan.simps) (simp add: y Let_def)
  qed
qed

lemma reads_table:
  assumes "table_ok ok pd hash eq W V t k ns" and "hreads t t'"
  shows "table_ok ok pd hash eq W V t' k ns" and "keeps W V t t'"
  using table_ok_keeps [OF assms(1) hreads_keeps [OF assms(2)] hreads_store [OF assms(2) table_okD(5) [OF assms(1)]]
      table_okD(3) [OF assms(1)]] hreads_keeps [OF assms(2)] by auto

lemma table_rest: "table_ok ok pd hash eq W V t k ns \<Longrightarrow> lseg t (before sk ns) (hd_ptr (rest sk ns) 0) \<and> lseg t (rest sk ns) 0"
  using table_okD(1) [of ok pd hash eq W V t k ns] lseg_append [of t "before sk ns" "rest sk ns" 0] by simp

subsection \<open>Find\<close>

lemma h_find_node_spec:
  assumes T: "table_ok ok pd hash eq W V t k ns" and al: "allocs_ok al" and law: "lawful hash eq"
    and m: "so_key_of m = so_key_of (mixed_hash hash key)"
  shows "returns (h_find_node rc th al pl eq key m (so_key_of m) t) (\<lambda>(r, t').
    settled ok pd hash eq W V k ns t t' \<and>
    (case r of Inl e \<Rightarrow> e = Bad_alloc \<and> starved al t' | Inr res \<Rightarrow> res = map_option fst (lookup_node eq key ns)))"
proof -
  let ?sk = "so_key_of m"
  obtain r t1 ns1 where 1: "locate rc th al pl m ?sk t = Some (r, t1)" "keeps W V t t1"
    "table_ok ok pd hash eq W V t1 k ns1" "regulars ns1 = regulars ns"
    "case r of Inl e \<Rightarrow> e = Bad_alloc \<and> starved al t1
     | Inr (p, c) \<Rightarrow> p = fst (last (before ?sk ns1)) \<and> c = hd_ptr (rest ?sk ns1) 0 \<and> before ?sk ns1 \<noteq> []"
    using locate_spec [OF T al, of th pl m] by (auto elim!: returnsE)
  note T1 = 1(3)
  have same: "lookup_node eq key ns = lookup_node eq key ns1" by (simp add: lookup_node_def 1(4))
  have st1: "settled ok pd hash eq W V k ns t t1" using settledI [OF T1 1(4,2)] .
  have st: "settled ok pd hash eq W V k ns t t2" if "hreads t1 t2" for t2
    using settledI [OF reads_table(1) [OF T1 that] 1(4) keeps_trans [OF 1(2) reads_table(2) [OF T1 that]]] .
  note scan = lookup_scan [OF table_okD(2) [OF T1] law, of key, folded m]
  show ?thesis
  proof (cases r)
    case (Inl e)
    then show ?thesis using 1 st1 by (simp add: h_find_node_def)
  next
    case (Inr pc)
    then obtain p where r: "r = Inr (p, hd_ptr (rest ?sk ns1) 0)" using 1(5) by (cases pc) auto
    have l: "lseg t1 (rest ?sk ns1) 0" using table_rest [OF T1] by blast
    show ?thesis
    proof (cases "rest ?sk ns1")
      case Nil
      then show ?thesis using 1(1) r st1 scan same by (simp add: h_find_node_def Nil)
    next
      case (Cons y ys)
      obtain a it where y: "y = (a, it)" by (cases y)
      have nd: "hnode_at t1 a = Some (mk_hnode (hd_ptr ys 0) it)" "a \<noteq> 0" "aligned (hd_ptr ys 0)"
        using l lseg_aligned [of t1 ys 0] by (auto simp: Cons y)
      show ?thesis
      proof (cases "other eq ?sk key y")
        case False
        then show ?thesis using 1(1) r st1 scan same nd by (auto simp: h_find_node_def Cons y)
      next
        case True
        have "returns (run_scan rc eq ?sk key p (hd_ptr (rest ?sk ns1) 0) 0 t1) (\<lambda>(res, t'). hreads t1 t' \<and>
          map_option snd res = map_option fst (lookup_node eq key ns1))"
          by (rule returns_mono [OF run_scan_spec [OF table_okD(7) [OF T1] l]])
             (auto simp only: split_def scan scan_node)
        then show ?thesis using 1(1) r True nd same
          by (auto simp: h_find_node_def Cons y elim!: returnsE intro: st)
      qed
    qed
  qed
qed

subsection \<open>Insert\<close>

text \<open>The test for an equal key, then the link before the first node that is not below.\<close>

lemma insert_test:
  assumes T: "table_ok ok pd hash eq W V t k ns" and law: "lawful hash eq" and sk: "sk = so_key_of (mixed_hash hash key)"
  shows "returns (run_has_key rc eq sk key p (hd_ptr (rest sk ns) 0) t)
    (\<lambda>(dup, t'). hreads t t' \<and> (dup \<longleftrightarrow> lookup_node eq key ns \<noteq> None))"
proof -
  note scan = lookup_scan [OF table_okD(2) [OF T] law, of key, folded sk]
  have l: "lseg t (rest sk ns) 0" using table_rest [OF T] by blast
  have here: "hreads t t" using hreads_refl table_okD(7) [OF T] by blast
  show ?thesis
  proof (cases "rest sk ns")
    case Nil
    then show ?thesis using scan here by (simp add: run_has_key_def Nil)
  next
    case (Cons y ys)
    obtain a it where y: "y = (a, it)" by (cases y)
    have nd: "hnode_at t a = Some (mk_hnode (hd_ptr ys 0) it)" "a \<noteq> 0" "aligned (hd_ptr ys 0)"
      using l lseg_aligned [of t ys 0] by (auto simp: Cons y)
    have run: "returns (run_scan rc eq sk key p (hd_ptr (rest sk ns) 0) 0 t) (\<lambda>(res, t'). hreads t t' \<and>
        (res \<noteq> None \<longleftrightarrow> lookup_node eq key ns \<noteq> None))"
      by (rule returns_mono [OF run_scan_spec [OF table_okD(7) [OF T] l]])
         (auto simp only: split_def scan scan_none)
    show ?thesis
    proof (cases "other eq sk key y")
      case False
      then show ?thesis using scan nd here by (auto simp: run_has_key_def Cons y simp del: not_None_eq)
    next
      case True
      then show ?thesis using nd run by (simp add: run_has_key_def Cons y split_def)
    qed
  qed
qed

lemma h_insert_loop_spec:
  assumes T: "table_ok ok pd hash eq (insert n W) V t k ns" and n: "n \<notin> W" "hnode_at t n = Some (mk_hnode z (sk, key, v, ow))"
    and al: "allocs_ok al" and law: "lawful hash eq" and m: "m = mixed_hash hash key" and sk: "sk = so_key_of m"
  shows "returns (h_insert_loop rc th al pl eq n m sk key t) (\<lambda>(r, t'). case r of
      Inl e \<Rightarrow> e = Bad_alloc \<and> starved al t' \<and> settled ok pd hash eq (insert n W) V k ns t t'
    | Inr False \<Rightarrow> lookup_node eq key ns \<noteq> None \<and> settled ok pd hash eq (insert n W) V k ns t t'
    | Inr True \<Rightarrow> lookup_node eq key ns = None \<and> (\<exists>t3 ns'. t' = t3\<lparr>h_count := h_count t3 + 1\<rparr> \<and> keeps W V t t3 \<and>
        table_ok ok pd hash eq W V t' k ns' \<and>
        mset (regulars ns') = add_mset (n, sk, key, v, ow) (mset (regulars ns))))"
proof -
  let ?it = "(sk, key, v, ow)"
  obtain r t1 ns1 where 1: "locate rc th al pl m sk t = Some (r, t1)" "keeps (insert n W) V t t1"
    "table_ok ok pd hash eq (insert n W) V t1 k ns1" "regulars ns1 = regulars ns"
    "case r of Inl e \<Rightarrow> e = Bad_alloc \<and> starved al t1
     | Inr (p, c) \<Rightarrow> p = fst (last (before sk ns1)) \<and> c = hd_ptr (rest sk ns1) 0 \<and> before sk ns1 \<noteq> []"
    using locate_spec [OF T al, of th pl m, folded sk] by (auto elim!: returnsE)
  note T1 = 1(3)
  have same: "lookup_node eq key ns = lookup_node eq key ns1" by (simp add: lookup_node_def 1(4))
  show ?thesis
  proof (cases r)
    case (Inl e)
    then show ?thesis using 1 settledI [OF T1 1(4,2)] by (subst h_insert_loop.simps) simp
  next
    case (Inr pc)
    let ?xs = "before sk ns1" and ?ys = "rest sk ns1"
    have r: "r = Inr (fst (last ?xs), hd_ptr ?ys 0)" and xs: "?xs \<noteq> []" using 1(5) Inr by (cases pc; auto)+
    obtain dup t2 where 2: "run_has_key rc eq sk key (fst (last ?xs)) (hd_ptr ?ys 0) t1 = Some (dup, t2)" "hreads t1 t2" "dup \<longleftrightarrow> lookup_node eq key ns1 \<noteq> None"
      using insert_test [OF T1 law sk [unfolded m], of "fst (last ?xs)"] by (auto elim!: returnsE)
    have T2: "table_ok ok pd hash eq (insert n W) V t2 k ns1" and k2: "keeps (insert n W) V t t2"
      using reads_table [OF T1 2(2)] keeps_trans [OF 1(2)] by auto
    show ?thesis
    proof (cases dup)
      case True
      then show ?thesis using 1(1) r 2 settledI [OF T2 1(4) k2] same by (subst h_insert_loop.simps) simp
    next
      case False
      have out: "n \<notin> addrs ns1" using table_okD(3) [OF T2] by blast
      have nd: "hnode_at t2 n = Some (mk_hnode z ?it)" using keeps_node [OF k2, of n] n(2) by simp
      have tb: "h_table t2 = h_table t" using keeps_members [OF k2] by simp
      have d: "distinct (map fst (?xs @ ?ys))" "n \<notin> addrs (?xs @ ?ys)" "insert n (addrs (?xs @ ?ys)) \<subseteq> addrs ns1 \<union> insert n W"
        "lseg t2 (?xs @ ?ys) 0"
        unfolding takeWhile_dropWhile_id by (rule table_okD(9) [OF T2], rule out, blast, rule table_okD(1) [OF T2])
      obtain t3 t4 where 3: "set_next n (hd_ptr ?ys 0) t2 = Some t3" "lseg t3 (?xs @ ?ys) 0"
        "cas_next (fst (last ?xs)) (hd_ptr ?ys 0) n t3 = Some (True, t4)" "lseg t4 (?xs @ (n, ?it) # ?ys) 0"
        "store_ok ok pd t4 (addrs ns1 \<union> insert n W) (insert (h_table t2) V)"
        "keeps (addrs ns1 \<union> insert n W - insert n (addrs ns1)) (insert (h_table t2) V) t2 t4"
        using link_between [OF d(4,1) xs d(2) nd table_okD(5) [OF T2] d(3)]
        by (auto elim!: returnsE simp del: lseg_append)
      have k4: "keeps W (insert (h_table t2) V) t2 t4"
        by (rule keeps_mono [OF 3(6)]) (use table_okD(3) [OF T2] n(1) in auto)
      obtain us p e where us: "?xs = us @ [(p, e)]" using xs by (metis rev_exhaust surj_pair)
      have pnd: "hnode_at t3 (fst (last ?xs)) = Some (mk_hnode (hd_ptr ?ys 0) e)" using 3(2) by (simp add: us)
      have al0: "aligned (hd_ptr ?ys 0)" using lseg_aligned [OF conjunct2 [OF d(4) [unfolded lseg_append]]] by simp
      have none: "lookup_node eq key ns1 = None" using 2(3) False by blast
      have "\<not> eq (key_at x) key \<and> \<not> eq key (key_at x)" if "x \<in> set ns1" "regular x" for x
        using that lookup_unique [OF table_okD(2) [OF T2] law, of key x] none lawfulD(2) [OF law] by auto
      then have lo: "list_ok hash eq (?xs @ (n, ?it) # ?ys)"
        using list_ok_insert [OF table_okD(2) [OF T2] out, of ?it] by (simp add: sk m)
      have fin: "table_ok ok pd hash eq W V (t4\<lparr>h_count := of_nat (length (regulars (?xs @ (n, ?it) # ?ys)))\<rparr>) k (?xs @ (n, ?it) # ?ys)"
        by (rule table_ok_link [OF T2 n(1) _ _ lo 3(4,5) k4, where it = ?it]) (simp_all add: sk so_key_ne0)
      have ms: "mset (regulars (?xs @ (n, ?it) # ?ys)) = add_mset (n, ?it) (mset (regulars ns1))"
        using regulars_link [of sk ns1 n ?it] by (simp add: regular_def sk)
      have "length (regulars (?xs @ (n, ?it) # ?ys)) = Suc (length (regulars ns1))"
        by (simp only: size_mset [symmetric] ms size_add_mset)
      then have cnt: "of_nat (length (regulars (?xs @ (n, ?it) # ?ys))) = h_count t4 + 1"
        using table_okD(6) [OF T2] keeps_members [OF k4] by (simp only:) simp
      have "keeps W V t t4" using keeps_trans [OF keeps_mono [OF k2] keeps_mono [OF k4]] by blast
      then have "\<exists>t3 ns'. t4\<lparr>h_count := h_count t4 + 1\<rparr> = t3\<lparr>h_count := h_count t3 + 1\<rparr> \<and> keeps W V t t3 \<and>
        table_ok ok pd hash eq W V (t4\<lparr>h_count := h_count t4 + 1\<rparr>) k ns' \<and>
        mset (regulars ns') = add_mset (n, ?it) (mset (regulars ns))"
        using fin unfolding cnt 1(4) [symmetric] ms [symmetric] by blast
      moreover have "h_insert_loop rc th al pl eq n m sk key t = Some (Inr True, t4\<lparr>h_count := h_count t4 + 1\<rparr>)"
        using 1(1) r 2(1) False 3(1,3) pnd al0 by (subst h_insert_loop.simps) simp
      ultimately show ?thesis using none same by simp
    qed
  qed
qed

lemma h_insert_node_spec:
  assumes T: "table_ok ok pd hash eq (insert n W) V t k ns" and n: "n \<notin> W" "hnode_at t n = Some (mk_hnode z (s0, key, v, ow))"
    and al: "allocs_ok al" and law: "lawful hash eq" and m: "m = mixed_hash hash key" and sk: "sk = so_key_of m"
  shows "returns (h_insert_node rc th al pl eq n m sk key t) (\<lambda>(r, t'). case r of
      Inl e \<Rightarrow> e = Bad_alloc \<and> starved al t' \<and> keeps W V t t' \<and>
        (\<exists>ns'. table_ok ok pd hash eq (insert n W) V t' k ns' \<and> regulars ns' = regulars ns)
    | Inr False \<Rightarrow> lookup_node eq key ns \<noteq> None \<and> keeps W V t t' \<and>
        (\<exists>ns'. table_ok ok pd hash eq (insert n W) V t' k ns' \<and> regulars ns' = regulars ns)
    | Inr True \<Rightarrow> lookup_node eq key ns = None \<and> (\<exists>t3 ns'. t' = t3\<lparr>h_count := h_count t3 + 1\<rparr> \<and> keeps W V t t3 \<and>
        table_ok ok pd hash eq W V t' k ns' \<and>
        mset (regulars ns') = add_mset (n, sk, key, v, ow) (mset (regulars ns))))"
proof -
  let ?t = "put_hnode n (mk_hnode z (sk, key, v, ow)) t"
  have T1: "table_ok ok pd hash eq (insert n W) V ?t k ns" by (rule table_ok_put(1) [OF T insertI1 n(2)]) simp
  have k1: "keeps W V t ?t" by (rule keeps_put [OF n(1)])
  have n1: "hnode_at ?t n = Some (mk_hnode z (sk, key, v, ow))" using n(2) by (auto dest: load_SomeD)
  have k: "keeps (insert n W) V ?t t' \<Longrightarrow> keeps W V t t'" "keeps W V ?t t' \<Longrightarrow> keeps W V t t'" for t'
    using keeps_trans [OF k1] keeps_mono [of "insert n W" V ?t t' W V] by blast+
  obtain r t' where 1: "h_insert_loop rc th al pl eq n m sk key ?t = Some (r, t')" and 2: "case r of
      Inl e \<Rightarrow> e = Bad_alloc \<and> starved al t' \<and> settled ok pd hash eq (insert n W) V k ns ?t t'
    | Inr False \<Rightarrow> lookup_node eq key ns \<noteq> None \<and> settled ok pd hash eq (insert n W) V k ns ?t t'
    | Inr True \<Rightarrow> lookup_node eq key ns = None \<and> (\<exists>t3 ns'. t' = t3\<lparr>h_count := h_count t3 + 1\<rparr> \<and> keeps W V ?t t3 \<and>
        table_ok ok pd hash eq W V t' k ns' \<and>
        mset (regulars ns') = add_mset (n, sk, key, v, ow) (mset (regulars ns)))"
    by (rule returns_pairE [OF h_insert_loop_spec [OF T1 n(1) n1 al law m sk, of th pl]])
  have "set_so_key n sk t = Some ?t" using n(2) by (simp add: set_so_key_def)
  then have run: "h_insert_node rc th al pl eq n m sk key t = Some (r, t')" by (simp add: h_insert_node_def 1)
  have "case r of
      Inl e \<Rightarrow> e = Bad_alloc \<and> starved al t' \<and> keeps W V t t' \<and>
        (\<exists>ns'. table_ok ok pd hash eq (insert n W) V t' k ns' \<and> regulars ns' = regulars ns)
    | Inr False \<Rightarrow> lookup_node eq key ns \<noteq> None \<and> keeps W V t t' \<and>
        (\<exists>ns'. table_ok ok pd hash eq (insert n W) V t' k ns' \<and> regulars ns' = regulars ns)
    | Inr True \<Rightarrow> lookup_node eq key ns = None \<and> (\<exists>t3 ns'. t' = t3\<lparr>h_count := h_count t3 + 1\<rparr> \<and> keeps W V t t3 \<and>
        table_ok ok pd hash eq W V t' k ns' \<and>
        mset (regulars ns') = add_mset (n, sk, key, v, ow) (mset (regulars ns)))"
  proof (cases r)
    case (Inl e)
    then show ?thesis using 2 k(1) by (simp add: settled_def)
  next
    case (Inr b)
    show ?thesis
    proof (cases b)
      case True
      then obtain t3 ns' where "t' = t3\<lparr>h_count := h_count t3 + 1\<rparr>" "keeps W V t t3" "table_ok ok pd hash eq W V t' k ns'"
        "mset (regulars ns') = add_mset (n, sk, key, v, ow) (mset (regulars ns))" "lookup_node eq key ns = None"
        using 2 Inr k(2) by auto
      then show ?thesis using Inr True by auto
    next
      case False
      then show ?thesis using 2 Inr k(1) by (simp add: settled_def)
    qed
  qed
  then show ?thesis by (simp add: run)
qed

end

subsection \<open>Erase\<close>

lemma table_ok_unlink:
  assumes T: "table_ok ok pd hash eq W V t k (xs @ (a, it) # zs)" and a: "regular (a, it)" and ne: "xs \<noteq> []" and l: "lseg t' (xs @ zs) 0"
    and s: "store_ok ok pd t' (addrs (xs @ zs) \<union> W') (insert (h_table t) V)" and W': "addrs (xs @ zs) \<inter> W' = {}"
    and k: "keeps W (insert (h_table t) V) t t'"
  shows "table_ok ok pd hash eq W' V (t'\<lparr>h_count := h_count t' - 1\<rparr>) k (xs @ zs)"
proof -
  obtain bt cs where at: "tab_at t (h_table t) bt cs" "bt_size bt = 2 ^ k" and c: "cells_ok (xs @ (a, it) # zs) k cs"
    using table_okD(10) [OF T] by blast
  have "\<exists>d. (cs ! b, d) \<in> set (xs @ zs) \<and> fst d = dummy_split_order_key (of_nat b)" if b: "b < 2 ^ k" "cs ! b \<noteq> 0" for b
  proof -
    obtain d where d: "(cs ! b, d) \<in> set (xs @ (a, it) # zs)" "fst d = dummy_split_order_key (of_nat b)"
      using c b unfolding cells_ok_def by blast
    have "(2 :: nat) ^ k \<le> 2 ^ 30" using c by (intro power_increasing) (simp_all add: cells_ok_def)
    then have "b < 2 ^ 30" using b(1) by linarith
    then have "unat (of_nat b :: u64) < 2 ^ 63" by (simp add: unsigned_of_nat take_bit_nat_eq_self)
    then have "(cs ! b, d) \<noteq> (a, it)" using d(2) even_dummy a by (auto simp: regular_def)
    then have "(cs ! b, d) \<in> set (xs @ zs)" using d(1) by auto
    then show ?thesis using d(2) by blast
  qed
  then have "cells_ok (xs @ zs) k cs" using c ne by (simp add: cells_ok_def hd_append)
  moreover have "tab_at t' (h_table t) bt cs" using keeps_tab [OF k _ at(1)] by simp
  moreover have "h_count t' - 1 = of_nat (length (regulars (xs @ zs)))"
    using table_okD(6) [OF T] keeps_members [OF k] a by simp
  ultimately show ?thesis using table_okD [OF T] keeps_members [OF k] at(2) l s W' list_ok_delete [of hash eq xs "(a, it)" zs]
    by (auto simp: table_ok_def tab_at_def)
qed

context table_reclaimer
begin

lemma erase_marked_spec:
  assumes T: "table_ok ok pd hash eq W V t k (xs @ (a, it) # zs)" and a: "regular (a, it)" and xs: "xs \<noteq> []"
  defines "t1 \<equiv> put_hnode a (mk_hnode (set_marked (hd_ptr zs 0)) it) t"
  shows "returns (erase_marked rc th al pl pu (fst (last xs)) a m sk t1) (\<lambda>(r, t'). \<exists>t3. keeps W V t t3 \<and>
    (if pu = Push_ok then r = Inr True \<and> t' = t3\<lparr>h_count := h_count t3 - 1\<rparr> \<and> table_ok ok pd hash eq W V t' k (xs @ zs)
     else r = Inl Bad_alloc \<and> t' = t3 \<and> table_ok ok pd hash eq (insert a W) V (t3\<lparr>h_count := h_count t3 - 1\<rparr>) k (xs @ zs)))"
proof -
  obtain us p e where x: "xs = us @ [(p, e)]" using xs by (metis rev_exhaust surj_pair)
  let ?N = "insert a (addrs (xs @ zs) \<union> W)" and ?V = "insert (h_table t) V"
  have N: "addrs (xs @ (a, it) # zs) \<union> W = ?N" by auto
  have d: "distinct (map fst (us @ (p, e) # (a, it) # zs))" using table_okD(9) [OF T] by (simp add: x)
  have l: "lseg t (us @ (p, e) # (a, it) # zs) 0" using table_okD(1) [OF T] by (simp add: x)
  have out: "a \<notin> addrs (xs @ zs) \<union> W" using d table_okD(3) [OF T] by (auto simp: x image_Un)
  have dj: "addrs (xs @ zs) \<inter> W = {}" using table_okD(3) [OF T] by auto
  have nd: "hnode_at t a = Some (mk_hnode (hd_ptr zs 0) it)" "a \<noteq> 0" "p \<noteq> 0" "p \<noteq> a"
    "hnode_at t p = Some (mk_hnode a e)" "aligned (hd_ptr zs 0)"
    using l d lseg_aligned [of t zs 0] by (auto dest: load_SomeD)
  let ?t2 = "put_hnode p (mk_hnode (hd_ptr zs 0) e) t1"
  have s0: "store_ok ok pd t ?N ?V" using table_okD(5) [OF T] unfolding N .
  have s1: "store_ok ok pd t1 ?N ?V" unfolding t1_def by (rule store_put [OF s0 _ nd(1)]) simp_all
  have p1: "hnode_at t1 p = Some (mk_hnode a e)" "hnode_at t1 a = Some (mk_hnode (set_marked (hd_ptr zs 0)) it)"
    using nd by (simp_all add: t1_def)
  have s2: "store_ok ok pd ?t2 ?N ?V" by (rule store_put [OF s1 _ p1(1)]) (simp_all add: x)
  have l2: "lseg ?t2 (xs @ zs) 0" using lseg_unlink [OF l d] by (simp add: x t1_def)
  have k2: "keeps W ?V t ?t2"
    unfolding t1_def by (rule keeps_trans [OF keeps_put keeps_put]) (use out dj in \<open>auto simp: x\<close>)
  have un: "unlink_marked rc th al pl (fst (last xs)) a m sk t1 = Some (Inr (), ?t2)"
    using p1 nd by (simp add: unlink_marked_def cas_next_def x)
  have tb: "h_table ?t2 = h_table t" by (simp add: t1_def)
  show ?thesis
  proof (cases "pu = Push_ok")
    case True
    obtain t3 where 3: "h_retire rc th Push_ok a Free_node ?t2 = Some (Inr (), t3)"
      "store_ok ok pd t3 (addrs (xs @ zs) \<union> W) ?V" "keeps (addrs (xs @ zs) \<union> W) ?V ?t2 t3"
      by (rule returns_pairE [OF h_retire_node [OF s2 out, of th]]) blast
    have k3: "keeps W ?V t t3" using k2 keeps_mono [OF 3(3)] by (blast intro: keeps_trans)
    have "lseg t3 (xs @ zs) 0" using l2 keeps_lseg [OF 3(3)] by (simp del: lseg_append)
    from table_ok_unlink [OF T a xs this 3(2) dj k3]
    have "table_ok ok pd hash eq W V (t3\<lparr>h_count := h_count t3 - 1\<rparr>) k (xs @ zs)" .
    moreover have "keeps W V t t3" using k3 by (rule keeps_mono) auto
    ultimately show ?thesis using un 3(1) True by (auto simp: erase_marked_def)
  next
    case False
    have "h_retire rc th pu a Free_node ?t2 = Some (Inl Bad_alloc, ?t2)"
      using h_retire_throws [OF store_ready [OF s2] False] .
    moreover have "store_ok ok pd ?t2 (addrs (xs @ zs) \<union> insert a W) ?V" using s2 by simp
    moreover have "addrs (xs @ zs) \<inter> insert a W = {}" using dj out by auto
    ultimately have "table_ok ok pd hash eq (insert a W) V (?t2\<lparr>h_count := h_count ?t2 - 1\<rparr>) k (xs @ zs)"
      using table_ok_unlink [OF T a xs l2 _ _ k2] by blast
    moreover have "keeps W V t ?t2" using k2 by (rule keeps_mono) auto
    ultimately show ?thesis using un False h_retire_throws [OF store_ready [OF s2] False] by (auto simp: erase_marked_def)
  qed
qed

lemma last_scan: "xs \<noteq> [] \<Longrightarrow> last (fst (last xs) # map fst ys) = fst (last (xs @ ys))"
  by (cases ys rule: rev_cases) simp_all

lemma h_erase_node_spec:
  assumes T: "table_ok ok pd hash eq W V t k ns" and al: "allocs_ok al" and law: "lawful hash eq"
    and m: "so_key_of m = so_key_of (mixed_hash hash key)" and sk: "sk = so_key_of m"
  shows "returns (h_erase_node rc th al pl eq pu key m sk t) (\<lambda>(r, t').
    (r = Inl Bad_alloc \<and> starved al t' \<or> r = Inr False \<and> lookup_node eq key ns = None) \<and> settled ok pd hash eq W V k ns t t' \<or>
    (\<exists>x t3 ns'. lookup_node eq key ns = Some x \<and> keeps W V t t3 \<and> mset (regulars ns) = add_mset x (mset (regulars ns')) \<and>
      (if pu = Push_ok then r = Inr True \<and> t' = t3\<lparr>h_count := h_count t3 - 1\<rparr> \<and> table_ok ok pd hash eq W V t' k ns'
       else r = Inl Bad_alloc \<and> t' = t3 \<and> table_ok ok pd hash eq (insert (fst x) W) V (t3\<lparr>h_count := h_count t3 - 1\<rparr>) k ns')))"
    (is "returns _ (\<lambda>(r, t'). ?post r t')")
proof -
  obtain r t1 ns1 where 1: "locate rc th al pl m sk t = Some (r, t1)" "keeps W V t t1"
    "table_ok ok pd hash eq W V t1 k ns1" "regulars ns1 = regulars ns"
    "case r of Inl e \<Rightarrow> e = Bad_alloc \<and> starved al t1
     | Inr (p, c) \<Rightarrow> p = fst (last (before sk ns1)) \<and> c = hd_ptr (rest sk ns1) 0 \<and> before sk ns1 \<noteq> []"
    using locate_spec [OF T al, of th pl m, folded sk] by (auto elim!: returnsE)
  note T1 = 1(3)
  have same: "lookup_node eq key ns = lookup_node eq key ns1" by (simp add: lookup_node_def 1(4))
  have st: "settled ok pd hash eq W V k ns t t2" if "hreads t1 t2" for t2
    using settledI [OF reads_table(1) [OF T1 that] 1(4) keeps_trans [OF 1(2) reads_table(2) [OF T1 that]]] .
  have here: "hreads t1 t1" using hreads_refl table_okD(7) [OF T1] by blast
  note scan = lookup_scan [OF table_okD(2) [OF T1] law, of key, folded m, folded sk]
  have fin: "returns (erase_marked rc th al pl pu (fst (last xs)) a m sk (put_hnode a (mk_hnode (set_marked (hd_ptr zs 0)) it) t2))
      (\<lambda>(r, t'). ?post r t')"
    if r2: "hreads t1 t2" and ns1: "ns1 = xs @ (a, it) # zs" "xs \<noteq> []" and look: "lookup_node eq key ns1 = Some (a, it)" for t2 xs a it zs
  proof -
    have T2: "table_ok ok pd hash eq W V t2 k (xs @ (a, it) # zs)" and k2: "keeps W V t t2"
      using reads_table [OF T1 r2] keeps_trans [OF 1(2)] by (auto simp: ns1(1))
    have a: "regular (a, it)" using look lookup_unique [OF table_okD(2) [OF T1] law] by blast
    have ms: "mset (regulars ns) = add_mset (a, it) (mset (regulars (xs @ zs)))"
      unfolding 1(4) [symmetric] ns1(1) using a by simp
    show ?thesis
    proof (rule returns_pairE [OF erase_marked_spec [OF T2 a ns1(2), of th al pl pu m sk]], elim exE conjE)
      fix r t' t3
      assume run: "erase_marked rc th al pl pu (fst (last xs)) a m sk (put_hnode a (mk_hnode (set_marked (hd_ptr zs 0)) it) t2) = Some (r, t')"
        and k3: "keeps W V t2 t3" and p: "if pu = Push_ok
          then r = Inr True \<and> t' = t3\<lparr>h_count := h_count t3 - 1\<rparr> \<and> table_ok ok pd hash eq W V t' k (xs @ zs)
          else r = Inl Bad_alloc \<and> t' = t3 \<and> table_ok ok pd hash eq (insert a W) V (t3\<lparr>h_count := h_count t3 - 1\<rparr>) k (xs @ zs)"
      have "?post r t'"
        by (rule disjI2, rule exI [of _ "(a, it)"], rule exI [of _ t3], rule exI [of _ "xs @ zs"])
           (use look same ms p keeps_trans [OF k2 k3] in \<open>auto split: if_splits\<close>)
      then show ?thesis by (simp add: run)
    qed
  qed
  show ?thesis
  proof (cases r)
    case (Inl e)
    then show ?thesis using 1 st [OF here] by (subst h_erase_node.simps) simp
  next
    case (Inr pc)
    let ?xs = "before sk ns1" and ?ys = "rest sk ns1"
    have r: "r = Inr (fst (last ?xs), hd_ptr ?ys 0)" and xs: "?xs \<noteq> []" using 1(5) Inr by (cases pc; auto)+
    have l: "lseg t1 ?ys 0" using table_rest [OF T1] by blast
    show ?thesis
    proof (cases ?ys)
      case Nil
      then show ?thesis using 1(1) r st [OF here] scan same by (subst h_erase_node.simps) (simp add: Nil)
    next
      case (Cons y ys)
      obtain a it where y: "y = (a, it)" by (cases y)
      have nd: "hnode_at t1 a = Some (mk_hnode (hd_ptr ys 0) it)" "a \<noteq> 0" "aligned (hd_ptr ys 0)"
        using l lseg_aligned [of t1 ys 0] by (auto simp: Cons y)
      consider (head) "sok y = sk" "eq (key_at y) key" | (other) "other eq sk key y" | (none) "sok y \<noteq> sk" by blast
      then show ?thesis
      proof cases
        case head
        have "ns1 = ?xs @ (a, it) # ys" using Cons y takeWhile_dropWhile_id [of "\<lambda>x. sok x < sk" ns1] by simp
        from fin [OF here this xs] show ?thesis
          using 1(1) r nd head scan by (subst h_erase_node.simps) (simp add: Cons y cas_next_def)
      next
        case none
        then show ?thesis using 1(1) r st [OF here] scan same nd by (subst h_erase_node.simps) (simp add: Cons y)
      next
        case other
        let ?tw = "takeWhile (other eq sk key) ?ys" and ?dw = "dropWhile (other eq sk key) ?ys"
        obtain res t2 where 2: "run_scan rc eq sk key (fst (last ?xs)) (hd_ptr ?ys 0) 0 t1 = Some (res, t2)" "hreads t1 t2"
          "res = (case ?dw of [] \<Rightarrow> None | x # _ \<Rightarrow> if sok x = sk then Some (last (fst (last ?xs) # map fst ?tw), fst x) else None)"
          by (rule returns_pairE [OF run_scan_spec [OF table_okD(7) [OF T1] l, of eq sk key "fst (last ?xs)" 0]]) blast
        have run: "h_erase_node rc th al pl eq pu key m sk t = (case res of
              None \<Rightarrow> Some (Inr False, t2)
            | Some (rprev, rcur) \<Rightarrow> do {
                tnd \<leftarrow> hnode_at t2 rcur;
                let tnext = d_next tnd;
                if is_marked tnext then h_erase_node rc th al pl eq pu key m sk t2
                else do {
                  (b, t) \<leftarrow> cas_next rcur tnext (set_marked tnext) t2;
                  if b then erase_marked rc th al pl pu rprev rcur m sk t
                  else h_erase_node rc th al pl eq pu key m sk t
                }
              })"
          using 1(1) r nd other 2(1)
          by (subst h_erase_node.simps [of rc th al pl eq pu key m sk t]) (simp add: Cons y)
        show ?thesis
        proof (cases res)
          case None
          then have "lookup_node eq key ns1 = None" unfolding 2(3) scan scan_none .
          then show ?thesis using run None st [OF 2(2)] same by simp
        next
          case (Some q)
          then obtain x zs where x: "?dw = x # zs" "sok x = sk" "q = (last (fst (last ?xs) # map fst ?tw), fst x)"
            using 2(3) by (cases ?dw) (auto split: if_splits)
          obtain c ic where xc: "x = (c, ic)" by (cases x)
          have look: "lookup_node eq key ns1 = Some (c, ic)" using scan x(1,2) xc by simp
          have "?ys = ?tw @ (c, ic) # zs" using x(1) xc takeWhile_dropWhile_id [of "other eq sk key" ?ys] by simp
          then obtain us where us: "us = ?xs @ ?tw" "ns1 = us @ (c, ic) # zs"
            using takeWhile_dropWhile_id [of "\<lambda>x. sok x < sk" ns1] by (metis append_assoc)
          have "lseg t2 ns1 0" using table_okD(1) [OF T1] hreads_lseg [OF 2(2)] by simp
          then have l2: "hnode_at t2 c = Some (mk_hnode (hd_ptr zs 0) ic)" "aligned (hd_ptr zs 0)"
            using lseg_aligned [of t2 zs 0] by (simp_all add: us(2))
          have ne: "us \<noteq> []" using xs us(1) by simp
          have "last (fst (last ?xs) # map fst ?tw) = fst (last us)" using last_scan [OF xs] us(1) by simp
          with fin [OF 2(2) us(2) ne look] show ?thesis
            using run Some x(3) xc l2 by (simp add: cas_next_def)
        qed
      qed
    qed
  qed
qed

end

end
