(* ===== verification/TableWhole.thy ===== *)
theory TableWhole
  imports TableModel
begin

section \<open>The hash table engine: growth, construction, clearing, iteration\<close>

text \<open>
  The rest of \<open>class split_ordered_table\<close>. \<open>pu\<close> says what the vector insertions of the retirement of
  a given object do.
\<close>

subsection \<open>Bucket tables\<close>

definition make_table :: "allocs \<Rightarrow> u64 \<Rightarrow> ('k, 'v, 'r) htable \<Rightarrow> ((exn + ptr) \<times> ('k, 'v, 'r) htable) option" where
  "make_table al sz t =
     (case allocate (h_na t) (al_table al (live (h_tabs t))) (h_tabs t) of
        (Inl e, tm) \<Rightarrow> Some (Inl e, t\<lparr>h_tabs := tm\<rparr>)
      | (Inr a, tm) \<Rightarrow>
          (case allocate (h_na t) (al_cells al (live (h_cells t))) (h_cells t) of
             (Inl e, cm) \<Rightarrow> do { tm \<leftarrow> deallocate (h_na t) a tm; Some (Inl e, t\<lparr>h_tabs := tm, h_cells := cm\<rparr>) }
           | (Inr c, cm) \<Rightarrow> Some (Inr a,
               t\<lparr>h_tabs := store a \<lparr>bt_size = sz, bt_buckets = c, bt_owner = h_na t\<rparr> tm,
                 h_cells := store c (replicate (unat sz) 0) cm\<rparr>)))"

definition destroy_table :: "ptr \<Rightarrow> ('k, 'v, 'r) htable \<Rightarrow> ('k, 'v, 'r) htable option" where
  "destroy_table tp t =
     do { bt \<leftarrow> load (h_tabs t) tp;
          cm \<leftarrow> deallocate (bt_owner bt) (bt_buckets bt) (h_cells t);
          tm \<leftarrow> deallocate (bt_owner bt) tp (h_tabs t);
          Some (t\<lparr>h_cells := cm, h_tabs := tm\<rparr>) }"

definition write_cell :: "ptr \<Rightarrow> u64 \<Rightarrow> ptr \<Rightarrow> ('k, 'v, 'r) htable \<Rightarrow> ('k, 'v, 'r) htable option" where
  "write_cell tp b d t =
     do { bt \<leftarrow> load (h_tabs t) tp;
          cs \<leftarrow> load (h_cells t) (bt_buckets bt);
          if unat b < length cs
          then Some (t\<lparr>h_cells := store (bt_buckets bt) (cs[unat b := d]) (h_cells t)\<rparr>) else None }"

text \<open>The copy of the cells with the given indices.\<close>

fun copy_cells :: "ptr \<Rightarrow> ptr \<Rightarrow> nat list \<Rightarrow> ('k, 'v, 'r) htable \<Rightarrow> ('k, 'v, 'r) htable option" where
  "copy_cells src dst [] t = Some t"
| "copy_cells src dst (i # is) t =
     do { c \<leftarrow> read_cell src (of_nat i) t; t \<leftarrow> write_cell dst (of_nat i) c t; copy_cells src dst is t }"

definition MAX_BUCKETS :: u64 where "MAX_BUCKETS = 2 ^ 30"

definition growth_threshold :: "u64 \<Rightarrow> fl \<Rightarrow> u64 option" where
  "growth_threshold sz il = to_size (fl_mul f32 (of_size f32 sz) il)"

text \<open>\<open>double_table\<close>: a table of twice the size, published and the old one retired, or given up.\<close>

definition double_table ::
  "(table_act, 'r) reclaimer_ops \<Rightarrow> thread \<Rightarrow> allocs \<Rightarrow> (ptr \<Rightarrow> push) \<Rightarrow> ptr \<Rightarrow> u64 \<Rightarrow> ('k, 'v, 'r) htable \<Rightarrow>
   ((exn + unit) \<times> ('k, 'v, 'r) htable) option" where
  "double_table rc th al pu tp sz t =
     do {
       (r, t) \<leftarrow> make_table al (sz * 2) t;
       case r of
         Inl e \<Rightarrow> Some (Inl e, t)
       | Inr nt \<Rightarrow> do {
           t \<leftarrow> copy_cells tp nt [0..<unat sz] t;
           if h_table t = tp then h_retire rc th (pu tp) tp Free_table (t\<lparr>h_table := nt\<rparr>)
           else do { t \<leftarrow> destroy_table nt t; Some (Inr (), t) }
         }
     }"

partial_function (option) grow_loop ::
  "(table_act, 'r) reclaimer_ops \<Rightarrow> thread \<Rightarrow> allocs \<Rightarrow> (ptr \<Rightarrow> push) \<Rightarrow> bool \<Rightarrow> ('k, 'v, 'r) htable \<Rightarrow>
   ((exn + unit) \<times> ('k, 'v, 'r) htable) option" where
  "grow_loop rc th al pu force t =
     do {
       let tp = h_table t;
       t \<leftarrow> h_publish rc HP_TABLE tp t;
       if rc_revalidate rc \<and> h_table t \<noteq> tp then grow_loop rc th al pu force t
       else do {
         bt \<leftarrow> load (h_tabs t) tp;
         let sz = bt_size bt;
         stop \<leftarrow> (if force then Some False
                 else do { thr \<leftarrow> growth_threshold (bt_size bt) (h_inv_load t); Some (h_count t \<le> thr) });
         if stop then Some (Inr (), t)
         else if sz \<ge> MAX_BUCKETS then Some (Inr (), t)
         else do {
           (r, t) \<leftarrow> double_table rc th al pu tp sz t;
           case r of
             Inl e \<Rightarrow> Some (Inl e, t)
           | Inr _ \<Rightarrow> grow_loop rc th al pu force t
         }
       }
     }"

text \<open>The flag is reset on both ways out.\<close>

definition grow_once ::
  "(table_act, 'r) reclaimer_ops \<Rightarrow> thread \<Rightarrow> allocs \<Rightarrow> (ptr \<Rightarrow> push) \<Rightarrow> bool \<Rightarrow> ('k, 'v, 'r) htable \<Rightarrow>
   ((exn + unit) \<times> ('k, 'v, 'r) htable) option" where
  "grow_once rc th al pu force t =
     (if h_growing t then Some (Inr (), t)
      else do {
        (r, t) \<leftarrow> grow_loop rc th al pu force (t\<lparr>h_growing := True\<rparr>);
        Some (r, t\<lparr>h_growing := False\<rparr>)
      })"

definition maybe_grow ::
  "(table_act, 'r) reclaimer_ops \<Rightarrow> thread \<Rightarrow> allocs \<Rightarrow> (ptr \<Rightarrow> push) \<Rightarrow> ('k, 'v, 'r) htable \<Rightarrow>
   ((exn + unit) \<times> ('k, 'v, 'r) htable) option" where
  "maybe_grow rc th al pu t =
     (if h_cached t > 0 \<and> h_count t \<le> h_cached t then Some (Inr (), t)
      else do {
        bt \<leftarrow> load (h_tabs t) (h_table t);
        threshold \<leftarrow> growth_threshold (bt_size bt) (h_inv_load t);
        let t = t\<lparr>h_cached := threshold\<rparr>;
        if h_count t > threshold then do {
          (r, t) \<leftarrow> grow_once rc th al pu False t;
          case r of
            Inl e \<Rightarrow> Some (Inl e, t)
          | Inr _ \<Rightarrow> do {
              bt \<leftarrow> load (h_tabs t) (h_table t);
              threshold \<leftarrow> growth_threshold (bt_size bt) (h_inv_load t);
              Some (Inr (), t\<lparr>h_cached := threshold\<rparr>)
            }
        }
        else Some (Inr (), t)
      })"

definition table_bucket_count :: "('k, 'v, 'r) htable \<Rightarrow> u64 option" where
  "table_bucket_count t = do { bt \<leftarrow> load (h_tabs t) (h_table t); Some (bt_size bt) }"

partial_function (option) reserve_loop ::
  "(table_act, 'r) reclaimer_ops \<Rightarrow> thread \<Rightarrow> allocs \<Rightarrow> (ptr \<Rightarrow> push) \<Rightarrow> u64 \<Rightarrow> ('k, 'v, 'r) htable \<Rightarrow>
   ((exn + unit) \<times> ('k, 'v, 'r) htable) option" where
  "reserve_loop rc th al pu target t =
     do {
       bc \<leftarrow> table_bucket_count t;
       if bc < target then do {
         (r, t) \<leftarrow> grow_once rc th al pu True t;
         case r of Inl e \<Rightarrow> Some (Inl e, t) | Inr _ \<Rightarrow> reserve_loop rc th al pu target t
       }
       else Some (Inr (), t)
     }"

text \<open>The target is computed in \<open>double\<close>.\<close>

definition reserve_target :: "u64 \<Rightarrow> fl \<Rightarrow> u64 option" where
  "reserve_target n il =
     (case f64 (999999 / 1000000) of
        Fin c \<Rightarrow> to_size (fl_add_rat f64 (fl_mul f64 (of_size f64 n) il) c)
      | _ \<Rightarrow> None)"

definition table_reserve ::
  "(table_act, 'r) reclaimer_ops \<Rightarrow> thread \<Rightarrow> allocs \<Rightarrow> (ptr \<Rightarrow> push) \<Rightarrow> u64 \<Rightarrow> ('k, 'v, 'r) htable \<Rightarrow>
   ((exn + unit) \<times> ('k, 'v, 'r) htable) option" where
  "table_reserve rc th al pu n t =
     do { target \<leftarrow> reserve_target n (h_inv_load t); reserve_loop rc th al pu target t }"

definition set_max_load_factor :: "fl \<Rightarrow> ('k, 'v, 'r) htable \<Rightarrow> ('k, 'v, 'r) htable" where
  "set_max_load_factor f t =
     t\<lparr>h_max_load := f, h_inv_load := (if fl_pos f then fl_recip f32 f else Fin 1)\<rparr>"

subsection \<open>Construction, destruction, size\<close>

text \<open>The members as the initialiser list leaves them; \<open>table_\<close> is not written yet.\<close>

definition new_htable ::
  "alloc \<Rightarrow> fl \<Rightarrow> ('k, 'v) hnode mem \<Rightarrow> pool \<Rightarrow> bucket_table mem \<Rightarrow> ptr list mem \<Rightarrow> 'r \<Rightarrow> ('k, 'v, 'r) htable" where
  "new_htable a mlf m p tm cm r =
     \<lparr>h_mem = m, h_pool = p, h_tabs = tm, h_cells = cm, h_rc = r, h_table = 0, h_count = 0, h_growing = False,
      h_max_load = mlf, h_inv_load = (if fl_pos mlf then fl_recip f32 mlf else Fin 1), h_cached = 0, h_na = a\<rparr>"

text \<open>
  The constructor works on the memory, pool and reclaimer of the instantiation. When a later step
  throws, the members are abandoned as they are.
\<close>

definition table_ctor ::
  "thread \<Rightarrow> allocs \<Rightarrow> 'k \<times> 'v \<Rightarrow> alloc \<Rightarrow> fl \<Rightarrow> ('k, 'v) hnode mem \<Rightarrow> pool \<Rightarrow> bucket_table mem \<Rightarrow> ptr list mem \<Rightarrow> 'r \<Rightarrow>
   ((exn + unit) \<times> ('k, 'v, 'r) htable) option" where
  "table_ctor th al pl a mlf m p tm cm r =
     do {
       let t = new_htable a mlf m p tm cm r;
       (r, t) \<leftarrow> make_table al 2 t;
       case r of
         Inl e \<Rightarrow> Some (Inl e, t)
       | Inr tp \<Rightarrow> do {
           let t = t\<lparr>h_table := tp\<rparr>;
           (r, t) \<leftarrow> alloc_hnode th al pl t;
           case r of
             Inl e \<Rightarrow> Some (Inl e, t)
           | Inr head \<Rightarrow> do {
               t \<leftarrow> set_so_key head (dummy_split_order_key 0) t;
               t \<leftarrow> write_cell (h_table t) 0 head t;
               Some (Inr (), t)
             }
         }
     }"

partial_function (option) free_list :: "thread \<Rightarrow> ptr \<Rightarrow> ('k, 'v, 'r) htable \<Rightarrow> ('k, 'v, 'r) htable option" where
  "free_list th cur t =
     (if cur = 0 then Some t
      else do {
        nd \<leftarrow> hnode_at t cur;
        let nx = d_next nd;
        t \<leftarrow> (if \<not> is_marked nx then free_hnode th cur t else Some t);
        free_list th (tag_clear nx) t
      })"

definition table_dtor ::
  "(table_act, 'r) reclaimer_ops \<Rightarrow> thread \<Rightarrow> ('k, 'v, 'r) htable \<Rightarrow> ('k, 'v, 'r) htable option" where
  "table_dtor rc th t =
     do {
       let tp = h_table t;
       cur \<leftarrow> read_cell tp 0 t;
       t \<leftarrow> free_list th cur t;
       (fs, s) \<leftarrow> rc_drain_all rc (h_rc t);
       t \<leftarrow> run_acts th fs (t\<lparr>h_rc := s\<rparr>);
       t \<leftarrow> free_table tp t;
       (m, p) \<leftarrow> drain pool_link_next (h_mem t) (h_pool t);
       Some (t\<lparr>h_mem := m, h_pool := p\<rparr>)
     }"

definition table_size :: "('k, 'v, 'r) htable \<Rightarrow> u64" where
  "table_size t = h_count t"

definition table_empty :: "('k, 'v, 'r) htable \<Rightarrow> bool" where
  "table_empty t \<longleftrightarrow> table_size t = 0"

partial_function (option) clear_list :: "thread \<Rightarrow> ptr \<Rightarrow> ptr \<Rightarrow> ('k, 'v, 'r) htable \<Rightarrow> ('k, 'v, 'r) htable option" where
  "clear_list th prev cur t =
     (if cur = 0 then Some t
      else do {
        nd \<leftarrow> hnode_at t cur;
        let raw_next = d_next nd;
        let nx = tag_clear raw_next;
        if \<not> is_marked raw_next \<and> odd (d_so_key nd) then do {
          t \<leftarrow> set_next prev nx t;
          t \<leftarrow> free_hnode th cur t;
          clear_list th prev nx t
        }
        else clear_list th cur nx t
      })"

definition table_clear :: "('act, 'r) reclaimer_ops \<Rightarrow> thread \<Rightarrow> ('k, 'v, 'r) htable \<Rightarrow> ('k, 'v, 'r) htable option" where
  "table_clear rc th t =
     do {
       let t = h_guard_in rc t;
       prev \<leftarrow> read_cell (h_table t) 0 t;
       nd \<leftarrow> hnode_at t prev;
       t \<leftarrow> clear_list th prev (tag_clear (d_next nd)) t;
       Some (h_guard_out rc (t\<lparr>h_count := 0\<rparr>))
     }"

subsection \<open>Iteration\<close>

record 'k node_info =
  i_mixed :: u64
  i_sk :: u64
  i_key :: 'k

definition info_of :: "('k, 'v) hnode \<Rightarrow> 'k node_info" where
  "info_of nd = \<lparr>i_mixed = bit_reverse (d_so_key nd) AND NOT (push_bit 63 1), i_sk = d_so_key nd, i_key = d_key nd\<rparr>"

text \<open>The help that a walk gives to an eraser: unlink the marked node after \<open>prev\<close>.\<close>

definition help_unlink ::
  "('act, 'r) reclaimer_ops \<Rightarrow> ptr \<Rightarrow> ptr \<Rightarrow> ptr \<Rightarrow> ('k, 'v, 'r) htable \<Rightarrow> (ptr \<times> ptr \<times> ('k, 'v, 'r) htable) option" where
  "help_unlink rc prev tg nx t =
     do { (_, t) \<leftarrow> cas_next prev tg (clear_mark nx) t; protect_from rc prev HP_CUR t }"

definition step_over ::
  "('act, 'r) reclaimer_ops \<Rightarrow> ptr \<Rightarrow> ('k, 'v, 'r) htable \<Rightarrow> (ptr \<times> ptr \<times> ('k, 'v, 'r) htable) option" where
  "step_over rc cur t = do { t \<leftarrow> h_publish rc HP_PREV cur t; protect_from rc cur HP_CUR t }"

partial_function (option) h_first_walk ::
  "('act, 'r) reclaimer_ops \<Rightarrow> ptr \<Rightarrow> ptr \<Rightarrow> ptr \<Rightarrow> ('k, 'v, 'r) htable \<Rightarrow>
   ('k node_info option \<times> ('k, 'v, 'r) htable) option" where
  "h_first_walk rc prev cur tg t =
     (if cur = 0 then Some (None, t)
      else do {
        nd \<leftarrow> hnode_at t cur;
        let raw_next = d_next nd;
        let nx = tag_clear raw_next;
        if \<not> is_marked raw_next \<and> odd (d_so_key nd) then Some (Some (info_of nd), t)
        else if is_marked raw_next then do {
          (c, tg, t) \<leftarrow> help_unlink rc prev tg nx t;
          h_first_walk rc prev c tg t
        }
        else do {
          (c, tg, t) \<leftarrow> step_over rc cur t;
          h_first_walk rc cur c tg t
        }
      })"

partial_function (option) h_first_loop ::
  "('act, 'r) reclaimer_ops \<Rightarrow> ('k, 'v, 'r) htable \<Rightarrow> ('k node_info option \<times> ('k, 'v, 'r) htable) option" where
  "h_first_loop rc t =
     do {
       let tp = h_table t;
       t \<leftarrow> h_publish rc HP_TABLE tp t;
       if rc_revalidate rc \<and> h_table t \<noteq> tp then h_first_loop rc t
       else do {
         d \<leftarrow> read_cell tp 0 t;
         if d = 0 then Some (None, t)
         else do {
           (c, tg, t) \<leftarrow> step_over rc d t;
           h_first_walk rc d c tg t
         }
       }
     }"

definition h_first_node ::
  "('act, 'r) reclaimer_ops \<Rightarrow> ('k, 'v, 'r) htable \<Rightarrow> ('k node_info option \<times> ('k, 'v, 'r) htable) option" where
  "h_first_node rc t =
     do { (r, t) \<leftarrow> h_first_loop rc (h_guard_in rc t); Some (r, h_guard_out rc t) }"

text \<open>\<open>h_next_node\<close>: skip to the current node, then advance past it.\<close>

partial_function (option) next_skip ::
  "('act, 'r) reclaimer_ops \<Rightarrow> ('k \<Rightarrow> 'k \<Rightarrow> bool) \<Rightarrow> u64 \<Rightarrow> 'k \<Rightarrow> ptr \<Rightarrow> ptr \<Rightarrow> ptr \<Rightarrow> ('k, 'v, 'r) htable \<Rightarrow>
   ((ptr \<times> ptr \<times> ptr) option \<times> ('k, 'v, 'r) htable) option" where
  "next_skip rc eq sk key prev cur tg t =
     (if cur = 0 then Some (None, t)
      else do {
        nd \<leftarrow> hnode_at t cur;
        if d_so_key nd \<noteq> sk then Some (None, t)
        else do {
          let raw_next = d_next nd;
          let nx = tag_clear raw_next;
          if \<not> is_marked raw_next \<and> eq (d_key nd) key then Some (Some (prev, cur, tg), t)
          else if is_marked raw_next then do {
            (c, tg, t) \<leftarrow> help_unlink rc prev tg nx t;
            next_skip rc eq sk key prev c tg t
          }
          else do {
            (c, tg, t) \<leftarrow> step_over rc cur t;
            next_skip rc eq sk key cur c tg t
          }
        }
      })"

partial_function (option) next_advance ::
  "('act, 'r) reclaimer_ops \<Rightarrow> u64 \<Rightarrow> ptr \<Rightarrow> ptr \<Rightarrow> ptr \<Rightarrow> ('k, 'v, 'r) htable \<Rightarrow>
   ('k node_info option \<times> ('k, 'v, 'r) htable) option" where
  "next_advance rc sk prev cur tg t =
     do {
       nd \<leftarrow> hnode_at t cur;
       let raw_next = d_next nd;
       let nx = tag_clear raw_next;
       if is_marked raw_next then do {
         (c, tg, t) \<leftarrow> help_unlink rc prev tg nx t;
         next_advance rc sk prev c tg t
       }
       else do {
         let prev = cur;
         (cur, tg, t) \<leftarrow> step_over rc cur t;
         if cur = 0 then Some (None, t)
         else do {
           nd \<leftarrow> hnode_at t cur;
           if d_so_key nd = sk \<or> odd (d_so_key nd) then Some (Some (info_of nd), t)
           else next_advance rc sk prev cur tg t
         }
       }
     }"

definition h_next_node ::
  "('act, 'r) reclaimer_ops \<Rightarrow> thread \<Rightarrow> allocs \<Rightarrow> 'k \<times> 'v \<Rightarrow> ('k \<Rightarrow> 'k \<Rightarrow> bool) \<Rightarrow> u64 \<Rightarrow> u64 \<Rightarrow> 'k \<Rightarrow> ('k, 'v, 'r) htable \<Rightarrow>
   ((exn + 'k node_info option) \<times> ('k, 'v, 'r) htable) option" where
  "h_next_node rc th al pl eq mixed sk key t =
     do {
       (r, t) \<leftarrow> locate rc th al pl mixed sk (h_guard_in rc t);
       case r of
         Inl e \<Rightarrow> Some (Inl e, h_guard_out rc t)
       | Inr (prev, cur) \<Rightarrow> do {
           (res, t) \<leftarrow> (if cur = 0 then Some (None, t) else next_skip rc eq sk key prev cur 0 t);
           case res of
             None \<Rightarrow> Some (Inr None, h_guard_out rc t)
           | Some (prev, cur, tg) \<Rightarrow> do {
               (info, t) \<leftarrow> next_advance rc sk prev cur tg t;
               Some (Inr info, h_guard_out rc t)
             }
         }
     }"

end
