(* ===== verification/TableGrow.thy ===== *)
theory TableGrow
  imports TableOps TableWhole
begin

section \<open>Growth of the bucket table\<close>

text \<open>
  Doubling the table copies the cells and leaves the list alone, so the elements do not change.
  \<open>grown\<close> is what growth keeps of the rest; \<open>V\<close> gains the old table when its retirement throws
  (the block is then lost).
\<close>

definition grown :: "ptr set \<Rightarrow> ptr set \<Rightarrow> ('k, 'v, 'r) htable \<Rightarrow> ('k, 'v, 'r) htable \<Rightarrow> bool" where
  "grown W V t t' \<longleftrightarrow> same_on W (h_mem t) (h_mem t') \<and> (\<forall>a \<in> V. \<forall>bt cs. tab_at t a bt cs \<longrightarrow> tab_at t' a bt cs) \<and>
     h_count t' = h_count t \<and> h_na t' = h_na t \<and> h_max_load t' = h_max_load t \<and> h_inv_load t' = h_inv_load t"

definition load_ok :: "fl \<Rightarrow> bool" where
  "load_ok il \<longleftrightarrow> (\<forall>k \<le> 30. growth_threshold (2 ^ k) il \<noteq> None)"

lemma grown_refl [simp]: "grown W V t t"
  by (simp add: grown_def)

lemma grown_trans: "grown W V t t' \<Longrightarrow> grown W V t' t'' \<Longrightarrow> grown W V t t''"
  by (auto simp: grown_def intro: same_on_trans)

lemma keeps_grown: "keeps W V t t' \<Longrightarrow> grown W V t t'"
  by (auto simp: grown_def keeps_def members_def)

lemma growth_threshold_one: "k < 64 \<Longrightarrow> growth_threshold (2 ^ k) (Fin 1) = Some (2 ^ k)"
proof -
  assume k: "k < 64"
  have "(2 :: rat) ^ k < 2 ^ 64" using k by (intro power_strict_increasing) auto
  moreover have "\<lfloor>(2 :: rat) ^ k\<rfloor> = 2 ^ k" by (metis floor_of_int of_int_numeral of_int_power)
  moreover have "\<not> (2 :: rat) ^ k < 0" "-1 < (2 :: rat) ^ k" using zero_less_power [of "2 :: rat" k] by linarith+
  ultimately show ?thesis using k by (simp add: growth_threshold_def of_size_def f32_pow2)
qed

lemma load_ok_one [simp]: "load_ok (Fin 1)"
  by (simp add: load_ok_def growth_threshold_one)

text \<open>The invariant does not depend on the members that growth sets.\<close>

lemma tab_at_members [simp]:
  "tab_at (t\<lparr>h_growing := b\<rparr>) = tab_at t" "tab_at (t\<lparr>h_cached := c\<rparr>) = tab_at t" "tab_at (t\<lparr>h_table := p\<rparr>) = tab_at t"
  "tab_at (t\<lparr>h_max_load := x\<rparr>) = tab_at t" "tab_at (t\<lparr>h_inv_load := x\<rparr>) = tab_at t"
  by (intro ext; simp add: tab_at_def)+

lemma store_ok_members [simp]:
  "store_ok ok pd (t\<lparr>h_growing := b\<rparr>) N T = store_ok ok pd t N T" "store_ok ok pd (t\<lparr>h_cached := c\<rparr>) N T = store_ok ok pd t N T"
  "store_ok ok pd (t\<lparr>h_table := p\<rparr>) N T = store_ok ok pd t N T"
  "store_ok ok pd (t\<lparr>h_max_load := x\<rparr>) N T = store_ok ok pd t N T" "store_ok ok pd (t\<lparr>h_inv_load := x\<rparr>) N T = store_ok ok pd t N T"
  by (simp_all add: store_ok_def nodes_ok_def tabs_ok_def)

lemma lseg_members [simp]:
  "lseg (t\<lparr>h_max_load := x\<rparr>) xs q = lseg t xs q" "lseg (t\<lparr>h_inv_load := x\<rparr>) xs q = lseg t xs q"
  by (auto intro!: lseg_cong)

lemma table_ok_members [simp]:
  "table_ok ok pd hash eq W V (t\<lparr>h_growing := b\<rparr>) k ns = table_ok ok pd hash eq W V t k ns"
  "table_ok ok pd hash eq W V (t\<lparr>h_cached := c\<rparr>) k ns = table_ok ok pd hash eq W V t k ns"
  "table_ok ok pd hash eq W V (t\<lparr>h_max_load := x\<rparr>) k ns = table_ok ok pd hash eq W V t k ns"
  "table_ok ok pd hash eq W V (t\<lparr>h_inv_load := x\<rparr>) k ns = table_ok ok pd hash eq W V t k ns"
  by (simp_all add: table_ok_def)

subsection \<open>New tables\<close>

lemma tabs_ok_new:
  assumes T: "tabs_ok t T" and a: "a \<notin> T" "a \<noteq> 0" "live (h_tabs t) a = None" and c: "c \<noteq> 0" "live (h_cells t) c = None"
    and bt: "bt_buckets bt = c" "length cs = unat (bt_size bt)"
  defines "t' \<equiv> t\<lparr>h_tabs := store a bt (h_tabs t\<lparr>live := (live (h_tabs t))(a \<mapsto> bt_owner bt)\<rparr>),
      h_cells := store c cs (h_cells t\<lparr>live := (live (h_cells t))(c \<mapsto> bt_owner bt)\<rparr>)\<rparr>"
  shows "tabs_ok t' (insert a T)" and "tab_at t' a bt cs" and "\<And>b bt' cs'. tab_at t b bt' cs' \<Longrightarrow> tab_at t' b bt' cs'"
proof -
  have ld: "load (m\<lparr>live := l\<rparr>) b = load m b" for m :: "'x mem" and l b by (simp add: load_def)
  show at: "tab_at t' a bt cs" using a c bt by (simp add: t'_def tab_at_def)
  have ne: "b \<noteq> a" "bt_buckets bt' \<noteq> c" if "tab_at t b bt' cs'" for b bt' cs'
    using that a(3) c(2) by (auto simp: tab_at_def)
  show keep: "tab_at t' b bt' cs'" if "tab_at t b bt' cs'" for b bt' cs'
    using that ne [OF that] by (simp add: t'_def tab_at_def ld)
  have old: "tab_at t b bt' cs'" if bT: "b \<in> T" and b': "tab_at t' b bt' cs'" for b bt' cs'
  proof -
    obtain b1 c1 where "tab_at t b b1 c1" using tabs_okD(1) [OF T bT] by blast
    then show ?thesis using keep tab_at_unique b' by blast
  qed
  show "tabs_ok t' (insert a T)"
    unfolding tabs_ok_def
  proof (intro conjI ballI allI impI)
    show "\<exists>bt cs. tab_at t' b bt cs" if "b \<in> insert a T" for b using at keep tabs_okD(1) [OF T] that by blast
    show "b = d" if "b \<in> insert a T" "d \<in> insert a T" "tab_at t' b bt1 cs1" "tab_at t' d bt2 cs2" "bt_buckets bt1 = bt_buckets bt2"
      for b d bt1 cs1 bt2 cs2
    proof -
      have "bt_buckets bt1 \<noteq> c" if "b \<noteq> a" using old ne \<open>b \<in> insert a T\<close> \<open>tab_at t' b bt1 cs1\<close> that by blast
      moreover have "bt_buckets bt2 \<noteq> c" if "d \<noteq> a" using old ne \<open>d \<in> insert a T\<close> \<open>tab_at t' d bt2 cs2\<close> that by blast
      moreover have "bt_buckets bt1 = c" if "b = a" using tab_at_unique [OF at] \<open>tab_at t' b bt1 cs1\<close> that bt(1) by auto
      moreover have "bt_buckets bt2 = c" if "d = a" using tab_at_unique [OF at] \<open>tab_at t' d bt2 cs2\<close> that bt(1) by auto
      ultimately show ?thesis using tabs_okD(2) [OF T, of b d] old that by (metis insertE)
    qed
    show "b \<in> insert a T" if "live (h_tabs t') b \<noteq> None" for b
      using tabs_okD(3) [OF T, of b] that by (auto simp: t'_def split: if_splits)
    show "\<exists>b \<in> insert a T. \<exists>bt cs. tab_at t' b bt cs \<and> bt_buckets bt = d" if "live (h_cells t') d \<noteq> None" for d
    proof (cases "d = c")
      case True
      then show ?thesis using at bt(1) by blast
    next
      case False
      then have "live (h_cells t) d \<noteq> None" using that by (simp add: t'_def)
      then show ?thesis using tabs_okD(4) [OF T] keep by blast
    qed
  qed
qed

lemma make_table_spec:
  assumes s: "store_ok ok pd t N T" and al: "allocs_ok al"
  shows "returns (make_table al sz t) (\<lambda>(r, t'). keeps N T t t' \<and>
    (case r of Inl e \<Rightarrow> e = Bad_alloc \<and> starved al t' \<and> store_ok ok pd t' N T
     | Inr a \<Rightarrow> a \<notin> T \<and> store_ok ok pd t' N (insert a T) \<and>
         (\<exists>bt. tab_at t' a bt (replicate (unat sz) 0) \<and> bt_size bt = sz)))"
proof -
  let ?T = "T \<union> parked Free_table (pd (h_rc t))"
  have T: "tabs_ok t ?T" using s by (simp add: store_ok_def)
  show ?thesis
  proof (cases "al_table al (live (h_tabs t))")
    case None
    then show ?thesis using s by (simp add: make_table_def allocate_def keeps_def starved_def)
  next
    case (Some a)
    have a: "a \<noteq> 0" "live (h_tabs t) a = None" using al Some by (auto simp: allocs_ok_def)
    then have "a \<notin> ?T" using tabs_okD(1) [OF T, of a] by (auto simp: tab_at_def)
    show ?thesis
    proof (cases "al_cells al (live (h_cells t))")
      case None
      obtain tm where tm: "deallocate (h_na t) a ((h_tabs t)\<lparr>live := (live (h_tabs t))(a \<mapsto> h_na t)\<rparr>) = Some tm"
        "live tm = live (h_tabs t)" "\<forall>b. load tm b = (if b = a then None else load (h_tabs t) b)"
        using a by (auto simp: deallocate_def load_def fun_eq_iff)
      let ?t = "t\<lparr>h_tabs := tm\<rparr>"
      have at: "tab_at ?t = tab_at t" using a tm(2,3) by (intro ext) (auto simp: tab_at_def)
      have "tabs_ok ?t X = tabs_ok t X" for X unfolding tabs_ok_def at by (simp add: tm(2))
      then have "store_ok ok pd ?t N T" using s by (simp add: store_ok_def)
      moreover have "keeps N T t ?t" by (simp add: keeps_def at)
      ultimately show ?thesis using Some None tm(1) by (simp add: make_table_def allocate_def starved_def)
    next
      case (Some c)
      have c: "c \<noteq> 0" "live (h_cells t) c = None" using al Some by (auto simp: allocs_ok_def)
      let ?bt = "\<lparr>bt_size = sz, bt_buckets = c, bt_owner = h_na t\<rparr>"
      let ?t = "t\<lparr>h_tabs := store a ?bt (h_tabs t\<lparr>live := (live (h_tabs t))(a \<mapsto> bt_owner ?bt)\<rparr>),
        h_cells := store c (replicate (unat sz) 0) (h_cells t\<lparr>live := (live (h_cells t))(c \<mapsto> bt_owner ?bt)\<rparr>)\<rparr>"
      note n = tabs_ok_new [OF T \<open>a \<notin> ?T\<close> a c, of ?bt "replicate (unat sz) 0", simplified]
      have "store_ok ok pd ?t N (insert a T)" using s n(1) \<open>a \<notin> ?T\<close> by (simp add: store_ok_def)
      moreover have "keeps N T t ?t" using n(3) by (simp add: keeps_def)
      ultimately show ?thesis using Some \<open>al_table al (live (h_tabs t)) = Some a\<close> \<open>a \<notin> ?T\<close> n(2)
        by (auto simp: make_table_def allocate_def)
    qed
  qed
qed

subsection \<open>Copying the cells\<close>

lemma write_cell_at:
  "tab_at t a bt cs \<Longrightarrow> unat b < length cs \<Longrightarrow>
     write_cell a b d t = Some (t\<lparr>h_cells := store (bt_buckets bt) (cs[unat b := d]) (h_cells t)\<rparr>)"
  by (simp add: write_cell_def tab_at_def)

lemma copy_cells_spec:
  assumes "store_ok ok pd t N T" and "tab_at t src bs css" "tab_at t dst bd csd" "src \<in> T" "dst \<in> T" "src \<noteq> dst"
    and "\<forall>i \<in> set is. i < length css \<and> i < length csd \<and> i < 2 ^ 64"
  shows "returns (copy_cells src dst is t) (\<lambda>t'. store_ok ok pd t' N T \<and> keeps N (T - {dst}) t t' \<and> h_rc t' = h_rc t \<and>
    tab_at t' dst bd (fold (\<lambda>i cs. cs[i := css ! i]) is csd))"
  using assms
proof (induction "is" arbitrary: t csd)
  case Nil
  then show ?case by simp
next
  case (Cons i "is")
  have i: "unat (of_nat i :: u64) = i" using Cons.prems(7) by (simp add: unsigned_of_nat take_bit_nat_eq_self)
  let ?t = "t\<lparr>h_cells := store (bt_buckets bd) (csd[i := css ! i]) (h_cells t)\<rparr>"
  note st = store_cells [OF Cons.prems(1,3,5), of "csd[i := css ! i]", simplified length_list_update, OF refl]
  have src: "tab_at ?t src bs css" using keeps_tab [OF st(3) _ Cons.prems(2)] Cons.prems(4,6) by blast
  have "returns (copy_cells src dst is ?t) (\<lambda>t'. store_ok ok pd t' N T \<and> keeps N (T - {dst}) ?t t' \<and> h_rc t' = h_rc ?t \<and>
    tab_at t' dst bd (fold (\<lambda>i cs. cs[i := css ! i]) is (csd[i := css ! i])))"
    by (rule Cons.IH [OF st(1) src st(2) Cons.prems(4,5,6)]) (use Cons.prems(7) in simp)
  then have "returns (copy_cells src dst is ?t) (\<lambda>t'. store_ok ok pd t' N T \<and> keeps N (T - {dst}) t t' \<and> h_rc t' = h_rc t \<and>
    tab_at t' dst bd (fold (\<lambda>i cs. cs[i := css ! i]) (i # is) csd))"
    by (rule returns_mono) (use keeps_trans [OF st(3)] in auto)
  moreover have "read_cell src (of_nat i) t = Some (css ! i)" using Cons.prems(2,7) i by (simp add: read_cell_def tab_at_def)
  moreover have "write_cell dst (of_nat i) (css ! i) t = Some ?t" using write_cell_at [OF Cons.prems(3)] Cons.prems(7) i by simp
  ultimately show ?case by simp
qed

lemma fold_copy:
  assumes "n \<le> length csd"
  shows "fold (\<lambda>i cs. cs[i := css ! i]) [0..<n] csd = map ((!) css) [0..<n] @ drop n csd"
  using assms
proof (induction n)
  case (Suc n)
  then have "fold (\<lambda>i cs. cs[i := css ! i]) [0..<Suc n] csd = (map ((!) css) [0..<n] @ drop n csd)[n := css ! n]" by simp
  also have "\<dots> = map ((!) css) [0..<Suc n] @ drop (Suc n) csd"
    using Suc.prems by (simp add: list_update_append Cons_nth_drop_Suc [symmetric, of n csd])
  finally show ?case .
qed simp

lemma cells_ok_double:
  assumes "cells_ok ns k css" and "length css = 2 ^ k" and "k < 30"
  shows "cells_ok ns (Suc k) (css @ replicate (2 ^ k) 0)"
proof -
  have "(css @ replicate (2 ^ k) 0) ! 0 = css ! 0" using assms(2) by (simp add: nth_append)
  moreover have "\<exists>d. ((css @ replicate (2 ^ k) 0) ! b, d) \<in> set ns \<and> fst d = dummy_split_order_key (of_nat b)"
    if "b < 2 ^ Suc k" "(css @ replicate (2 ^ k) 0) ! b \<noteq> 0" for b
    using that assms(1,2) by (cases "b < 2 ^ k") (auto simp: cells_ok_def nth_append)
  ultimately show ?thesis using assms(1,3) by (auto simp: cells_ok_def)
qed

lemma lseg_same: "same_on N (h_mem t) (h_mem t') \<Longrightarrow> addrs xs \<subseteq> N \<Longrightarrow> lseg t' xs q = lseg t xs q"
  by (intro lseg_cong) (auto simp: same_on_def)

lemma pow_double: "k < 30 \<Longrightarrow> (2 :: u64) ^ k * 2 = 2 ^ Suc k" "k < 30 \<Longrightarrow> unat ((2 :: u64) ^ Suc k) = 2 ^ Suc k"
  by (simp, rule unat_pow2) simp

context table_reclaimer
begin

text \<open>One doubling.\<close>

lemma double_spec:
  assumes T: "table_ok ok pd hash eq W V t k ns" and k: "k < 30" and al: "allocs_ok al"
  shows "returns (double_table rc th al pu (h_table t) (2 ^ k) t) (\<lambda>(r, t'). grown W V t t' \<and> h_growing t' = h_growing t \<and>
    (r = Inr () \<and> table_ok ok pd hash eq W V t' (Suc k) ns \<or>
     r = Inl Bad_alloc \<and> starved al t' \<and> table_ok ok pd hash eq W V t' k ns \<or>
     r = Inl Bad_alloc \<and> pu (h_table t) \<noteq> Push_ok \<and> table_ok ok pd hash eq W (insert (h_table t) V) t' (Suc k) ns))"
proof -
  let ?N = "addrs ns \<union> W" and ?V = "insert (h_table t) V"
  obtain r t1 where 1: "make_table al (2 ^ k * 2) t = Some (r, t1)" "keeps ?N ?V t t1" and r: "case r of
      Inl e \<Rightarrow> e = Bad_alloc \<and> starved al t1 \<and> store_ok ok pd t1 ?N ?V
    | Inr a \<Rightarrow> a \<notin> ?V \<and> store_ok ok pd t1 ?N (insert a ?V) \<and>
        (\<exists>bt. tab_at t1 a bt (replicate (unat ((2 :: u64) ^ k * 2)) 0) \<and> bt_size bt = 2 ^ k * 2)"
    using make_table_spec [OF table_okD(5) [OF T] al, of "2 ^ k * 2"] by (elim returns_pairE) blast
  have kW: "keeps W V t t1" using keeps_mono [OF 1(2)] by blast
  show ?thesis
  proof (cases r)
    case (Inl e)
    then have "table_ok ok pd hash eq W V t1 k ns" using r table_okD(3) [OF T] by (intro table_ok_keeps [OF T 1(2)]) auto
    then show ?thesis using 1(1) Inl r keeps_grown [OF kW] keeps_members [OF kW] by (simp add: double_table_def)
  next
    case (Inr a)
    obtain bt where bt: "tab_at t1 a bt (replicate (2 ^ Suc k) 0)" "bt_size bt = 2 ^ Suc k"
      using r Inr pow_double [OF k] by auto
    have a: "a \<noteq> h_table t" "a \<notin> V" and s1: "store_ok ok pd t1 ?N (insert a ?V)" using r Inr by auto
    obtain bs css where src: "tab_at t (h_table t) bs css" "bt_size bs = 2 ^ k" "cells_ok ns k css"
      using table_okD(10) [OF T] by blast
    have len: "length css = 2 ^ k" using src(1,2) k by (simp add: tab_at_def)
    have src1: "tab_at t1 (h_table t) bs css" using keeps_tab [OF 1(2) _ src(1)] by simp
    have "(2 :: nat) ^ k < 2 ^ 64" using k by (intro power_strict_increasing) auto
    then have idx: "\<forall>i \<in> set [0..<2 ^ k]. i < length css \<and> i < length (replicate (2 ^ Suc k) (0 :: ptr)) \<and> i < 2 ^ 64"
      using len by auto
    obtain t2 where 2: "copy_cells (h_table t) a [0..<2 ^ k] t1 = Some t2" "store_ok ok pd t2 ?N (insert a ?V)"
      "keeps ?N (insert a ?V - {a}) t1 t2"
      "tab_at t2 a bt (fold (\<lambda>i cs. cs[i := css ! i]) [0..<2 ^ k] (replicate (2 ^ Suc k) 0))"
      using copy_cells_spec [OF s1 src1 bt(1) _ _ _ idx] a by (auto elim!: returnsE)
    have "map ((!) css) [0..<2 ^ k] = css" using map_nth [of css] len by simp
    then have at2: "tab_at t2 a bt (css @ replicate (2 ^ k) 0)"
      using 2(4) by (simp add: fold_copy)
    have k2: "keeps ?N ?V t t2" using keeps_trans [OF 1(2) keeps_mono [OF 2(3)]] a by blast
    let ?t2 = "t2\<lparr>h_table := a\<rparr>"
    have s2: "store_ok ok pd ?t2 ?N (insert (h_table t) (insert a V))" using 2(2) by (simp add: insert_commute)
    have new: "h_table t \<notin> insert a V" using a table_okD(4) [OF T] by auto
    have fin: "table_ok ok pd hash eq W V' t3 (Suc k) ns \<and> grown W V t t3 \<and> h_growing t3 = h_growing t"
      if s3: "store_ok ok pd t3 ?N (insert a V')" and k3: "keeps ?N (insert a V) ?t2 t3" and aV: "a \<notin> V'" for t3 V'
    proof -
      have m: "h_table t3 = a" "h_count t3 = h_count t" "h_growing t3 = h_growing t" "h_na t3 = h_na t"
        "h_max_load t3 = h_max_load t" "h_inv_load t3 = h_inv_load t"
        using keeps_members [OF k3] keeps_members [OF k2] by simp_all
      have same: "same_on ?N (h_mem t) (h_mem t3)" using k2 k3 by (auto simp: keeps_def intro: same_on_trans)
      have "tab_at t3 a bt (css @ replicate (2 ^ k) 0)" using keeps_tab [OF k3, of a] at2 by simp
      moreover have "lseg t3 ns 0" using table_okD(1) [OF T] lseg_same [OF same, of ns 0] by simp
      ultimately have "table_ok ok pd hash eq W V' t3 (Suc k) ns"
        using table_okD [OF T] m s3 aV bt(2) cells_ok_double [OF src(3) len k] by (auto simp: table_ok_def)
      moreover have "grown W V t t3"
        using m same_on_mono [OF same, of W] k2 k3 by (auto simp: grown_def keeps_def)
      ultimately show ?thesis using m by blast
    qed
    have len': "unat ((2 :: u64) ^ k) = 2 ^ k" using k by simp
    have tb: "h_table t2 = h_table t" using keeps_members [OF k2] by simp
    show ?thesis
    proof (cases "pu (h_table t) = Push_ok")
      case True
      have "returns (h_retire rc th Push_ok (h_table t) Free_table ?t2) (\<lambda>(r, t'). grown W V t t' \<and> h_growing t' = h_growing t \<and>
        r = Inr () \<and> table_ok ok pd hash eq W V t' (Suc k) ns)"
        using h_retire_table [OF s2 new, of th] by (rule returns_mono) (use fin [OF _ _ a(2)] in auto)
      then show ?thesis using 1(1) Inr 2(1) tb True len' by (auto simp: double_table_def elim!: returns_mono)
    next
      case False
      have "store_ok ok pd ?t2 ?N (insert a (insert (h_table t) V))" using s2 by (simp add: insert_commute)
      then have "table_ok ok pd hash eq W (insert (h_table t) V) ?t2 (Suc k) ns \<and> grown W V t ?t2 \<and> h_growing ?t2 = h_growing t"
        using a by (intro fin keeps_refl) auto
      then show ?thesis using h_retire_throws [OF store_ready [OF s2] False] False 1(1) Inr 2(1) tb len'
        by (simp add: double_table_def)
    qed
  qed
qed

end

subsection \<open>Growing\<close>

text \<open>
  What a growth does: the same elements in a table that is at least as large; an exception can
  lose one table. \<open>full\<close>: the table has reached the ceiling.
\<close>

definition grow_post ::
  "('r \<Rightarrow> bool) \<Rightarrow> ('r \<Rightarrow> (ptr \<times> table_act) multiset) \<Rightarrow> ('k \<Rightarrow> u64) \<Rightarrow> ('k \<Rightarrow> 'k \<Rightarrow> bool) \<Rightarrow> ptr set \<Rightarrow> ptr set \<Rightarrow>
   allocs \<Rightarrow> (ptr \<Rightarrow> push) \<Rightarrow> bool \<Rightarrow> ('k, 'v, 'r) htable \<Rightarrow> nat \<Rightarrow> ('k, 'v) nodes \<Rightarrow> exn + unit \<Rightarrow>
   ('k, 'v, 'r) htable \<Rightarrow> bool" where
  "grow_post ok pd hash eq W V al pu force t k ns r t' \<longleftrightarrow> grown W V t t' \<and> h_growing t' = h_growing t \<and>
     (\<exists>k' V'. k \<le> k' \<and> table_ok ok pd hash eq W V' t' k' ns \<and>
       (r = Inr () \<and> V' = V \<and> (force \<longrightarrow> k' = 30) \<or>
        r = Inl Bad_alloc \<and> (starved al t' \<and> V' = V \<or> (\<exists>a. pu a \<noteq> Push_ok \<and> V' = insert a V))))"

lemma grow_postI:
  "grown W V t t' \<Longrightarrow> h_growing t' = h_growing t \<Longrightarrow> k \<le> k' \<Longrightarrow> table_ok ok pd hash eq W V' t' k' ns \<Longrightarrow>
   r = Inr () \<and> V' = V \<and> (force \<longrightarrow> k' = 30) \<or>
     r = Inl Bad_alloc \<and> (starved al t' \<and> V' = V \<or> (\<exists>a. pu a \<noteq> Push_ok \<and> V' = insert a V)) \<Longrightarrow>
   grow_post ok pd hash eq W V al pu force t k ns r t'"
  unfolding grow_post_def by blast

lemma grow_postE:
  assumes "grow_post ok pd hash eq W V al pu force t k ns r t'"
  obtains k' V' where "grown W V t t'" "h_growing t' = h_growing t" "k \<le> k'" "table_ok ok pd hash eq W V' t' k' ns"
    "r = Inr () \<and> V' = V \<and> (force \<longrightarrow> k' = 30) \<or>
     r = Inl Bad_alloc \<and> (starved al t' \<and> V' = V \<or> (\<exists>a. pu a \<noteq> Push_ok \<and> V' = insert a V))"
  using assms unfolding grow_post_def by (elim conjE exE) rule

lemma grow_post_trans:
  assumes "grown W V t t1" and "h_growing t1 = h_growing t" and "k \<le> k1" and "grow_post ok pd hash eq W V al pu force t1 k1 ns r t'"
  shows "grow_post ok pd hash eq W V al pu force t k ns r t'"
  using assms(4)
proof (rule grow_postE)
  fix k' V'
  assume "grown W V t1 t'" "h_growing t' = h_growing t1" "k1 \<le> k'" "table_ok ok pd hash eq W V' t' k' ns"
    "r = Inr () \<and> V' = V \<and> (force \<longrightarrow> k' = 30) \<or>
     r = Inl Bad_alloc \<and> (starved al t' \<and> V' = V \<or> (\<exists>a. pu a \<noteq> Push_ok \<and> V' = insert a V))"
  then show ?thesis using assms(1-3) by (intro grow_postI [where k' = k' and V' = V']) (auto intro: grown_trans)
qed

lemma table_size_bound: "table_ok ok pd hash eq W V t k ns \<Longrightarrow> k \<le> 30"
  by (auto simp: table_ok_def cells_ok_def)

lemma at_ceiling: "k \<le> 30 \<Longrightarrow> (2 :: u64) ^ k \<ge> MAX_BUCKETS \<longleftrightarrow> k = 30"
proof -
  assume "k \<le> 30"
  then have "(2 :: u64) ^ k \<ge> MAX_BUCKETS \<longleftrightarrow> (2 :: nat) ^ k \<ge> 2 ^ 30"
    using unat_pow2 [of 30] by (simp add: MAX_BUCKETS_def word_le_nat_alt)
  moreover have "(2 :: nat) ^ 30 \<le> 2 ^ k \<longleftrightarrow> 30 \<le> k" by (rule power_increasing_iff) simp
  ultimately show ?thesis using \<open>k \<le> 30\<close> by simp
qed

context table_reclaimer
begin

lemma grow_loop_spec:
  assumes T: "table_ok ok pd hash eq W V t k ns" and al: "allocs_ok al" and lo: "force \<or> load_ok (h_inv_load t)"
  shows "returns (grow_loop rc th al pu force t) (\<lambda>(r, t').
    grow_post ok pd hash eq W V al pu force t k ns r t')"
  using T lo
proof (induction "30 - k" arbitrary: t k rule: less_induct)
  case less
  note T = less.prems(1)
  have k30: "k \<le> 30" using table_size_bound [OF T] .
  obtain bt cs where at: "tab_at t (h_table t) bt cs" "bt_size bt = 2 ^ k" using table_okD(10) [OF T] by blast
  obtain t1 where 1: "h_publish rc HP_TABLE (h_table t) t = Some t1" "hreads t t1"
    using h_publish_spec [of t HP_TABLE "h_table t"] table_okD(7) [OF T] by (auto elim!: returnsE)
  have T1: "table_ok ok pd hash eq W V t1 k ns" and k1: "keeps W V t t1" using reads_table [OF T 1(2)] .
  have tb: "h_table t1 = h_table t" "h_inv_load t1 = h_inv_load t" "h_growing t1 = h_growing t" using keeps_members [OF k1] by simp_all
  have bt1: "load (h_tabs t1) (h_table t) = Some bt" using at(1) hreads_simps [OF 1(2)] by (simp add: tab_at_def)
  obtain stop where stop: "(if force then Some False
      else do { thr \<leftarrow> growth_threshold (bt_size bt) (h_inv_load t1); Some (h_count t1 \<le> thr) }) = Some stop" "force \<longrightarrow> \<not> stop"
    using less.prems(2) k30 at(2) tb(2) by (cases force) (auto simp: load_ok_def)
  have here: "grow_post ok pd hash eq W V al pu force t k ns (Inr ()) t1" if "force \<Longrightarrow> k = 30"
    by (rule grow_postI [OF keeps_grown [OF k1] tb(3) order_refl T1]) (use that in auto)
  show ?case
  proof (cases "stop \<or> k = 30")
    case True
    then have "grow_loop rc th al pu force t = Some (Inr (), t1)"
      using 1(1) tb bt1 stop(1) at(2) at_ceiling [OF k30] by (subst grow_loop.simps) (auto simp: Let_def)
    then show ?thesis using here True stop(2) by auto
  next
    case False
    then have k: "k < 30" using k30 by simp
    have len: "unat (bt_size bt) = 2 ^ k" using at(2) k by simp
    have run: "grow_loop rc th al pu force t = do {
        (r, t) \<leftarrow> double_table rc th al pu (h_table t1) (2 ^ k) t1;
        case r of Inl e \<Rightarrow> Some (Inl e, t) | Inr _ \<Rightarrow> grow_loop rc th al pu force t }"
      using 1(1) tb bt1 stop(1) at(2) at_ceiling [OF k30] False
      by (subst grow_loop.simps [of rc th al pu force t]) (simp add: Let_def)
    obtain r t2 where 2: "double_table rc th al pu (h_table t1) (2 ^ k) t1 = Some (r, t2)" "grown W V t1 t2" "h_growing t2 = h_growing t1"
      "r = Inr () \<and> table_ok ok pd hash eq W V t2 (Suc k) ns \<or>
       r = Inl Bad_alloc \<and> starved al t2 \<and> table_ok ok pd hash eq W V t2 k ns \<or>
       r = Inl Bad_alloc \<and> pu (h_table t1) \<noteq> Push_ok \<and> table_ok ok pd hash eq W (insert (h_table t1) V) t2 (Suc k) ns"
      using double_spec [OF T1 k al, of th pu] by (elim returns_pairE) blast
    have g: "grown W V t t2" "h_growing t2 = h_growing t" using grown_trans [OF keeps_grown [OF k1] 2(2)] 2(3) tb(3) by auto
    from 2(4) consider (more) "r = Inr ()" "table_ok ok pd hash eq W V t2 (Suc k) ns"
      | (alloc) "r = Inl Bad_alloc" "starved al t2" "table_ok ok pd hash eq W V t2 k ns"
      | (push) "r = Inl Bad_alloc" "pu (h_table t1) \<noteq> Push_ok" "table_ok ok pd hash eq W (insert (h_table t1) V) t2 (Suc k) ns"
      by blast
    then show ?thesis
    proof cases
      case more
      have lo2: "force \<or> load_ok (h_inv_load t2)" using less.prems(2) g(1) by (simp add: grown_def)
      have "30 - Suc k < 30 - k" using k by simp
      from less.hyps [OF this more(2) lo2]
      have "returns (grow_loop rc th al pu force t2) (\<lambda>(r, t'). grow_post ok pd hash eq W V al pu force t k ns r t')"
        by (rule returns_mono) (use grow_post_trans [OF g le_SucI [OF order_refl]] in auto)
      then show ?thesis using run 2(1) more(1) by simp
    next
      case alloc
      have "grow_post ok pd hash eq W V al pu force t k ns r t2"
        by (rule grow_postI [OF g order_refl alloc(3)]) (use alloc in auto)
      then show ?thesis using run 2(1) alloc(1) by simp
    next
      case push
      have "grow_post ok pd hash eq W V al pu force t k ns r t2"
        by (rule grow_postI [OF g le_SucI [OF order_refl] push(3)]) (use push in auto)
      then show ?thesis using run 2(1) push(1) by simp
    qed
  qed
qed

lemma grow_once_spec:
  assumes T: "table_ok ok pd hash eq W V t k ns" and al: "allocs_ok al" and lo: "force \<or> load_ok (h_inv_load t)"
    and g: "\<not> h_growing t"
  shows "returns (grow_once rc th al pu force t) (\<lambda>(r, t').
    grow_post ok pd hash eq W V al pu force t k ns r t')"
proof -
  have "table_ok ok pd hash eq W V (t\<lparr>h_growing := True\<rparr>) k ns" "force \<or> load_ok (h_inv_load (t\<lparr>h_growing := True\<rparr>))"
    using T lo by simp_all
  then obtain r t1 where 1: "grow_loop rc th al pu force (t\<lparr>h_growing := True\<rparr>) = Some (r, t1)"
    "grow_post ok pd hash eq W V al pu force (t\<lparr>h_growing := True\<rparr>) k ns r t1"
    by (rule returns_pairE [OF grow_loop_spec [OF _ al, of hash eq W V _ k ns force th pu]])
  have "grow_post ok pd hash eq W V al pu force t k ns r (t1\<lparr>h_growing := False\<rparr>)"
    using 1(2) g by (simp add: grow_post_def grown_def)
  then show ?thesis using g 1(1) by (simp add: grow_once_def)
qed

lemma maybe_grow_spec:
  assumes T: "table_ok ok pd hash eq W V t k ns" and al: "allocs_ok al" and lo: "load_ok (h_inv_load t)" and g: "\<not> h_growing t"
  shows "returns (maybe_grow rc th al pu t) (\<lambda>(r, t'). grow_post ok pd hash eq W V al pu False t k ns r t')"
proof (cases "h_cached t > 0 \<and> h_count t \<le> h_cached t")
  case True
  then show ?thesis using grow_postI [OF grown_refl refl order_refl T] by (simp add: maybe_grow_def)
next
  case False
  have thr: "\<exists>x. growth_threshold (2 ^ j) (h_inv_load t) = Some x" if "j \<le> 30" for j
    using lo that by (simp add: load_ok_def)
  obtain bt cs where at: "tab_at t (h_table t) bt cs" "bt_size bt = 2 ^ k" using table_okD(10) [OF T] by blast
  obtain x where x: "growth_threshold (2 ^ k) (h_inv_load t) = Some x" using thr table_size_bound [OF T] by blast
  let ?t = "t\<lparr>h_cached := x\<rparr>"
  have T1: "table_ok ok pd hash eq W V ?t k ns" "load_ok (h_inv_load ?t)" "\<not> h_growing ?t" using T lo g by simp_all
  have g1: "grown W V t ?t" by (simp add: grown_def)
  show ?thesis
  proof (cases "h_count t > x")
    case False
    have "grow_post ok pd hash eq W V al pu False t k ns (Inr ()) ?t"
      by (rule grow_postI [OF g1 _ order_refl T1(1)]) simp_all
    then show ?thesis using \<open>\<not> (h_cached t > 0 \<and> h_count t \<le> h_cached t)\<close> False at x by (auto simp: maybe_grow_def tab_at_def)
  next
    case True
    have bt: "load (h_tabs t) (h_table t) = Some bt" using at(1) by (simp add: tab_at_def)
    obtain r t2 where 2: "grow_once rc th al pu False ?t = Some (r, t2)" "grow_post ok pd hash eq W V al pu False ?t k ns r t2"
      by (rule returns_pairE [OF grow_once_spec [OF T1(1) al _ T1(3), of False th pu]]) (use T1(2) in simp_all)
    have 3: "grow_post ok pd hash eq W V al pu False t k ns r t2"
      using grow_post_trans [OF g1 _ order_refl 2(2)] by simp
    obtain k' V' where k': "table_ok ok pd hash eq W V' t2 k' ns" "h_inv_load t2 = h_inv_load t" "r = Inr () \<or> r = Inl Bad_alloc"
      using 3 by (auto simp: grow_post_def grown_def)
    obtain bt2 cs2 where at2: "tab_at t2 (h_table t2) bt2 cs2" "bt_size bt2 = 2 ^ k'" using table_okD(10) [OF k'(1)] by blast
    obtain y where y: "growth_threshold (2 ^ k') (h_inv_load t) = Some y" using thr table_size_bound [OF k'(1)] by blast
    have "grow_post ok pd hash eq W V al pu False t k ns r (t2\<lparr>h_cached := y\<rparr>)"
      using 3 by (simp add: grow_post_def grown_def)
    then show ?thesis using \<open>\<not> (h_cached t > 0 \<and> h_count t \<le> h_cached t)\<close> True bt at(2) x 2(1) 3 k'(2,3) at2 y
      by (auto simp: maybe_grow_def tab_at_def)
  qed
qed

text \<open>
  \<open>reserve\<close>: when the table is too small, the forced growth does not stop at the target but at
  the ceiling.
\<close>

lemma bucket_count_spec: "table_ok ok pd hash eq W V t k ns \<Longrightarrow> table_bucket_count t = Some (2 ^ k)"
  by (auto simp: table_ok_def table_bucket_count_def tab_at_def)

lemma reserve_loop_enough:
  assumes "table_ok ok pd hash eq W V t k ns" and "target \<le> 2 ^ k"
  shows "reserve_loop rc th al pu target t = Some (Inr (), t)"
  using bucket_count_spec [OF assms(1)] assms(2) by (subst reserve_loop.simps) auto

lemma reserve_loop_spec:
  assumes T: "table_ok ok pd hash eq W V t k ns" and al: "allocs_ok al" and g: "\<not> h_growing t"
    and target: "2 ^ k < target" "target \<le> 2 ^ 30"
  shows "returns (reserve_loop rc th al pu target t) (\<lambda>(r, t'). grow_post ok pd hash eq W V al pu True t k ns r t')"
proof -
  obtain r t1 where 1: "grow_once rc th al pu True t = Some (r, t1)" "grow_post ok pd hash eq W V al pu True t k ns r t1"
    by (rule returns_pairE [OF grow_once_spec [OF T al _ g, of True th pu]]) simp_all
  show ?thesis
  proof (cases r)
    case (Inl e)
    then show ?thesis using bucket_count_spec [OF T] target(1) 1 by (subst reserve_loop.simps) simp
  next
    case (Inr u)
    then have "table_ok ok pd hash eq W V t1 30 ns" using 1(2) by (auto simp: grow_post_def)
    from reserve_loop_enough [OF this target(2), of th al pu]
    show ?thesis using bucket_count_spec [OF T] target(1) 1 Inr by (subst reserve_loop.simps) simp
  qed
qed

text \<open>With a target above the ceiling it throws or loops for ever.\<close>

lemma reserve_loop_stuck:
  fixes t :: "('k, 'v, 'r) htable"
  assumes "table_ok ok pd hash eq W V t k ns" and "allocs_ok al" and "\<not> h_growing t" and "2 ^ 30 < target"
  shows "reserve_loop rc th al pu target t \<noteq> Some (Inr (), t')"
proof -
  let ?P = "\<lambda>rc1 th al pu target (t :: ('k, 'v, 'r) htable) y. \<not> (\<exists>k. fst y = Inr () \<and> rc1 = rc \<and> allocs_ok al \<and>
      2 ^ 30 < target \<and> table_ok ok pd hash eq W V t k ns \<and> \<not> h_growing t)"
  have "?P rc1 th al pu target t y" if "reserve_loop rc1 th al pu target t = Some y" for rc1 y
    using that
  proof (rule reserve_loop.raw_induct [where P = ?P, rotated])
    fix loop and rc1 :: "(table_act, 'r) reclaimer_ops" and th al pu target and t :: "('k, 'v, 'r) htable" and y
    assume IH: "\<And>rc th al pu target t y. loop rc th al pu target t = Some y \<Longrightarrow> ?P rc th al pu target t y"
      and run: "(table_bucket_count t \<bind> (\<lambda>bc. if bc < target
           then grow_once rc1 th al pu True t \<bind> (\<lambda>(r, t). case r of Inl e \<Rightarrow> Some (Inl e, t)
             | Inr x \<Rightarrow> loop rc1 th al pu target t)
           else Some (Inr (), t))) = Some y"
    show "?P rc1 th al pu target t y"
    proof (intro notI, elim exE conjE)
      fix k
      assume y: "fst y = Inr ()" and [simp]: "rc1 = rc" and al: "allocs_ok al" and target: "2 ^ 30 < target"
        and T: "table_ok ok pd hash eq W V t k ns" and g: "\<not> h_growing t"
      have "(2 :: u64) ^ k \<le> 2 ^ 30"
        using table_size_bound [OF T] power_increasing [of k 30 "2 :: nat"] by (simp add: word_le_nat_alt)
      then have lt: "2 ^ k < target" using target by (rule le_less_trans)
      obtain r t1 where 2: "grow_once rc th al pu True t = Some (r, t1)" "grow_post ok pd hash eq W V al pu True t k ns r t1"
        by (rule returns_pairE [OF grow_once_spec [OF T al _ g, of True th pu]]) simp_all
      have r: "r = Inr ()"
        using run bucket_count_spec [OF T] lt 2(1) y by (cases r) auto
      then have T1: "table_ok ok pd hash eq W V t1 30 ns" "\<not> h_growing t1"
        using 2(2) g by (auto simp: grow_post_def)
      have "loop rc th al pu target t1 = Some y" using run bucket_count_spec [OF T] lt 2(1) r by simp
      from IH [OF this] show False using y al target T1 by auto
    qed
  qed
  then show ?thesis using assms by (cases "reserve_loop rc th al pu target t") auto
qed

end

end
