(* ===== verification/TableEnds.thy ===== *)
theory TableEnds
  imports TableGrow
begin

section \<open>Construction, clearing and destruction of the hash table\<close>

text \<open>
  The constructor establishes the invariant with no element; \<open>clear\<close> frees the regular nodes and
  keeps the dummies; the destructor gives every block back, except those of other containers
  and those that are retired and not yet safe to free.
\<close>

subsection \<open>Construction\<close>

lemma store_ok_write:
  assumes "store_ok ok pd t N T" and "tab_at t a bt cs" "a \<in> T" and "unat b < length cs"
  shows "returns (write_cell a b d t) (\<lambda>t'. store_ok ok pd t' N T \<and> keeps N (T - {a}) t t' \<and> tab_at t' a bt (cs[unat b := d]) \<and>
    h_mem t' = h_mem t)"
  using store_cells [OF assms(1,2,3), of "cs[unat b := d]"] write_cell_at [OF assms(2,4)] by simp

context table_reclaimer
begin

lemma table_ctor_spec:
  fixes a mlf m p tm cm r hash eq
  defines "t0 \<equiv> new_htable a mlf m p tm cm r"
  assumes s: "store_ok ok pd t0 W V" and al: "allocs_ok al"
  shows "returns (table_ctor th al pl a mlf m p tm cm r) (\<lambda>(res, t'). grown W V t0 t' \<and> \<not> h_growing t' \<and>
    (case res of
       Inl e \<Rightarrow> e = Bad_alloc \<and> starved al t' \<and> (store_ok ok pd t' W V \<or> h_table t' \<notin> V \<and> store_ok ok pd t' W (insert (h_table t') V))
     | Inr _ \<Rightarrow> \<exists>ns. table_ok ok pd hash eq W V t' 1 ns \<and> regulars ns = []))"
proof -
  have mem0: "h_count t0 = 0" "h_growing t0 = False" by (simp_all add: t0_def new_htable_def)
  obtain r1 t1 where 1: "make_table al 2 t0 = Some (r1, t1)" "keeps W V t0 t1" and r1: "case r1 of
      Inl e \<Rightarrow> e = Bad_alloc \<and> starved al t1 \<and> store_ok ok pd t1 W V
    | Inr a \<Rightarrow> a \<notin> V \<and> store_ok ok pd t1 W (insert a V) \<and> (\<exists>bt. tab_at t1 a bt (replicate (unat (2 :: u64)) 0) \<and> bt_size bt = 2)"
    using make_table_spec [OF s al, of 2] by (elim returns_pairE) blast
  show ?thesis
  proof (cases r1)
    case (Inl e)
    then show ?thesis using 1 r1 mem0 keeps_grown [OF 1(2)] keeps_members [OF 1(2)]
      by (simp add: table_ctor_def t0_def [symmetric])
  next
    case (Inr tp)
    have "unat (2 :: u64) = 2" "replicate 2 (0 :: ptr) = [0, 0]" by (simp, simp add: numeral_2_eq_2)
    then have two: "replicate (unat (2 :: u64)) (0 :: ptr) = [0, 0]" by (simp only:)
    obtain bt where bt: "tp \<notin> V" "store_ok ok pd t1 W (insert tp V)" "tab_at t1 tp bt [0, 0]" "bt_size bt = 2"
      using r1 Inr two by auto
    let ?t1 = "t1\<lparr>h_table := tp\<rparr>"
    have s1: "store_ok ok pd ?t1 W (insert tp V)" using bt(2) by simp
    have g1: "grown W V t0 ?t1" using keeps_grown [OF 1(2)] by (simp add: grown_def)
    obtain r2 t2 where 2: "alloc_hnode th al pl ?t1 = Some (r2, t2)" "keeps W (insert tp V) ?t1 t2" and r2: "case r2 of
        Inl e \<Rightarrow> e = Bad_alloc \<and> starved al t2 \<and> store_ok ok pd t2 W (insert tp V)
      | Inr a \<Rightarrow> a \<notin> W \<and> store_ok ok pd t2 (insert a W) (insert tp V) \<and> hnode_at t2 a = Some (mk_hnode 0 (0, fst pl, snd pl, h_na ?t1))"
      using store_alloc [OF s1 al, of th pl] by (elim returns_pairE) blast
    have tb: "h_table t2 = tp" "h_growing t2 = h_growing t1" "h_count t2 = h_count t1" "h_na t2 = h_na t1"
      using keeps_members [OF 2(2)] by simp_all
    have m1: "h_growing t1 = False" "h_count t1 = 0" using keeps_members [OF 1(2)] mem0 by simp_all
    have kW: "keeps W V ?t1 t2" using keeps_mono [OF 2(2)] by blast
    have g2: "grown W V t0 t2" using grown_trans [OF g1 keeps_grown [OF kW]] .
    show ?thesis
    proof (cases r2)
      case (Inl e)
      then show ?thesis using 1 2 r2 \<open>r1 = Inr tp\<close> g2 tb m1 bt(1) by (simp add: table_ctor_def t0_def [symmetric])
    next
      case (Inr d)
      let ?it = "(0, fst pl, snd pl, h_na t1)"
      have d: "d \<notin> W" "store_ok ok pd t2 (insert d W) (insert tp V)" "hnode_at t2 d = Some (mk_hnode 0 ?it)"
        using r2 Inr by auto
      let ?t3 = "put_hnode d (mk_hnode 0 ?it) t2"
      have s3: "store_ok ok pd ?t3 (insert d W) (insert tp V)" by (rule store_put [OF d(2) insertI1 d(3)]) simp
      have at3: "tab_at ?t3 tp bt [0, 0]" using keeps_tab [OF 2(2), of tp] bt(3) by simp
      obtain t4 where 4: "write_cell tp 0 d ?t3 = Some t4" "store_ok ok pd t4 (insert d W) (insert tp V)"
        "keeps (insert d W) (insert tp V - {tp}) ?t3 t4" "tab_at t4 tp bt [d, 0]" "h_mem t4 = h_mem ?t3"
        using store_ok_write [OF s3 at3 insertI1, of 0 d] by (auto elim!: returnsE)
      have d0: "d \<noteq> 0" "aligned d" using store_node [OF d(2) insertI1] by blast+
      have tb4: "h_table t4 = tp" "h_growing t4 = False" "h_count t4 = 0" using keeps_members [OF 4(3)] tb m1 by simp_all
      have cells: "cells_ok [(d, ?it)] 1 [d, 0]" using d0(1) by (auto simp: cells_ok_def less_2_cases_iff)
      have "lseg t4 [(d, ?it)] 0" using d0 4(5) by simp
      moreover have "list_ok hash eq [(d, ?it)]" by (simp add: list_ok_def in_order_def regular_def)
      moreover have "\<not> regular (d, ?it)" by (simp add: regular_def)
      ultimately have "table_ok ok pd hash eq W V t4 1 [(d, ?it)]"
        using d(1) bt(1,4) 4(2,4) tb4 cells by (auto simp: table_ok_def)
      moreover have "regulars [(d, ?it)] = []" by (simp add: regular_def)
      moreover have "grown W V t0 t4"
      proof -
        have "keeps W V t2 ?t3" using d(1) by (rule keeps_put)
        moreover have "keeps W V ?t3 t4" by (rule keeps_mono [OF 4(3)]) (use bt(1) in auto)
        ultimately show ?thesis using g2 keeps_grown grown_trans by blast
      qed
      moreover have "table_ctor th al pl a mlf m p tm cm r = Some (Inr (), t4)"
        using 1(1) \<open>r1 = Inr tp\<close> 2(1) Inr d(3) 4(1) tb(1) by (simp add: table_ctor_def t0_def [symmetric] set_so_key_def)
      ultimately show ?thesis using tb4 by auto
    qed
  qed
qed

end

subsection \<open>Clearing\<close>

lemma in_order_filter: "in_order eq ns \<Longrightarrow> in_order eq (filter P ns)"
  by (simp add: in_order_def sorted_wrt_filter)

lemma list_ok_filter:
  assumes "list_ok hash eq ns"
  shows "list_ok hash eq (filter P ns)"
proof -
  have "distinct (map fst (filter P ns))" using assms distinct_map_filter by (auto simp: list_ok_def)
  then show ?thesis using assms by (auto simp: list_ok_def in_order_filter)
qed

lemma head_dummy:
  assumes "table_ok ok pd hash eq W V t k ns"
  obtains c d ys where "ns = (c, d) # ys" "read_cell (h_table t) 0 t = Some c" "fst d = 0" "c \<noteq> 0"
proof -
  obtain bt cs where at: "tab_at t (h_table t) bt cs" "bt_size bt = 2 ^ k" and c: "cells_ok ns k cs"
    using table_okD(10) [OF assms] by blast
  have k: "k \<le> 30" using c by (simp add: cells_ok_def)
  obtain c d ys where ns: "ns = (c, d) # ys" using c by (cases ns) (auto simp: cells_ok_def)
  have "read_cell (h_table t) 0 t = Some (cs ! 0)" using read_cell_at [OF at k, of 0] by simp
  moreover have "cs ! 0 = c" "c \<noteq> 0" using c ns by (simp_all add: cells_ok_def)
  moreover have "fst d = 0"
    using before_nonempty(1) [OF assms, of 1] unfolding ns by (cases "fst d = 0") (auto simp: word_less_nat_alt unat_eq_0)
  ultimately show thesis using that [OF ns] by simp
qed

context table_reclaimer
begin

lemma clear_list_spec:
  assumes "lseg t (us @ (p, e) # ys) 0" and "distinct (map fst (us @ (p, e) # ys))"
    and "store_ok ok pd t (addrs (us @ (p, e) # ys) \<union> W) T" and "addrs (us @ (p, e) # ys) \<inter> W = {}"
  shows "returns (clear_list th p (hd_ptr ys 0) t) (\<lambda>t'. lseg t' (us @ (p, e) # filter (\<lambda>x. \<not> regular x) ys) 0 \<and>
    store_ok ok pd t' (addrs (us @ (p, e) # filter (\<lambda>x. \<not> regular x) ys) \<union> W) T \<and> keeps W T t t' \<and> h_rc t' = h_rc t)"
  using assms
proof (induction ys arbitrary: us p e t)
  case Nil
  then show ?case by (subst clear_list.simps) simp
next
  case (Cons y ys)
  obtain a it where y: "y = (a, it)" by (cases y)
  note l = Cons.prems(1) [unfolded y] and d = Cons.prems(2) [unfolded y] and dj = Cons.prems(4) [unfolded y]
  have nd: "hnode_at t a = Some (mk_hnode (hd_ptr ys 0) it)" "a \<noteq> 0" "aligned (hd_ptr ys 0)" "p \<noteq> 0" "a \<noteq> p"
    "hnode_at t p = Some (mk_hnode a e)"
    using l d lseg_aligned [of t ys 0] by auto
  show ?case
  proof (cases "regular y")
    case False
    have "returns (clear_list th a (hd_ptr ys 0) t) (\<lambda>t'. lseg t' ((us @ [(p, e)]) @ (a, it) # filter (\<lambda>x. \<not> regular x) ys) 0 \<and>
      store_ok ok pd t' (addrs ((us @ [(p, e)]) @ (a, it) # filter (\<lambda>x. \<not> regular x) ys) \<union> W) T \<and> keeps W T t t' \<and> h_rc t' = h_rc t)"
      by (rule Cons.IH) (use Cons.prems y in simp_all)
    then show ?thesis using nd False by (subst clear_list.simps) (simp add: y Let_def regular_def)
  next
    case True
    let ?t1 = "put_hnode p (mk_hnode (hd_ptr ys 0) e) t"
    have s1: "store_ok ok pd ?t1 (insert a (addrs (us @ (p, e) # ys) \<union> W)) T"
      using store_put [OF Cons.prems(3) _ nd(6), of "mk_hnode (hd_ptr ys 0) e"] by (simp add: y insert_commute)
    have out: "a \<notin> addrs (us @ (p, e) # ys) \<union> W" using d dj by auto
    obtain t2 where 2: "free_hnode th a ?t1 = Some t2" "store_ok ok pd t2 (addrs (us @ (p, e) # ys) \<union> W) T"
      "keeps (addrs (us @ (p, e) # ys) \<union> W) T ?t1 t2" "h_rc t2 = h_rc ?t1"
      using store_free [OF s1 out, of th] by (auto elim!: returnsE)
    have l1: "lseg ?t1 (us @ (p, e) # ys) 0"
      using l d by (auto simp: image_Un)
    have l2: "lseg t2 (us @ (p, e) # ys) 0" using keeps_lseg [OF 2(3), of "us @ (p, e) # ys" 0] l1 by blast
    have pW: "p \<notin> W" using dj by auto
    have k2: "keeps W T t t2" using keeps_trans [OF keeps_put [OF pW] keeps_mono [OF 2(3)]] by blast
    have "returns (clear_list th p (hd_ptr ys 0) t2) (\<lambda>t'. lseg t' (us @ (p, e) # filter (\<lambda>x. \<not> regular x) ys) 0 \<and>
      store_ok ok pd t' (addrs (us @ (p, e) # filter (\<lambda>x. \<not> regular x) ys) \<union> W) T \<and> keeps W T t2 t' \<and> h_rc t' = h_rc t2)"
      by (rule Cons.IH [OF l2 _ 2(2)]) (use d dj in auto)
    then have "returns (clear_list th p (hd_ptr ys 0) t2) (\<lambda>t'. lseg t' (us @ (p, e) # filter (\<lambda>x. \<not> regular x) ys) 0 \<and>
      store_ok ok pd t' (addrs (us @ (p, e) # filter (\<lambda>x. \<not> regular x) ys) \<union> W) T \<and> keeps W T t t' \<and> h_rc t' = h_rc t)"
      by (rule returns_mono) (use keeps_trans [OF k2] 2(4) in auto)
    then show ?thesis using nd True 2(1) by (subst clear_list.simps) (simp add: y Let_def regular_def set_next_def)
  qed
qed

lemma guard_reads:
  "ok (h_rc t) \<Longrightarrow> hreads t (h_guard_in rc t)" "ok (h_rc t) \<Longrightarrow> hreads t (h_guard_out rc t)"
  using enter_ok [of "h_rc t"] exit_ok [of "h_rc t"] by (auto simp: hreads_def h_guard_in_def h_guard_out_def)

lemma table_clear_spec:
  assumes T: "table_ok ok pd hash eq W V t k ns"
  shows "returns (table_clear rc th t) (\<lambda>t'. \<exists>t3 ns'. t' = t3\<lparr>h_count := 0\<rparr> \<and> keeps W V t t3 \<and>
    table_ok ok pd hash eq W V t' k ns' \<and> regulars ns' = [])"
proof -
  let ?t1 = "h_guard_in rc t"
  have r1: "hreads t ?t1" using guard_reads(1) table_okD(7) [OF T] by blast
  have T1: "table_ok ok pd hash eq W V ?t1 k ns" and k1: "keeps W V t ?t1" using reads_table [OF T r1] .
  obtain c d ys where ns: "ns = (c, d) # ys" and c: "read_cell (h_table ?t1) 0 ?t1 = Some c" "fst d = 0" "c \<noteq> 0"
    using head_dummy [OF T1] by metis
  let ?ns = "(c, d) # filter (\<lambda>x. \<not> regular x) ys"
  have irr: "\<not> regular (c, d)" using c(2) by (simp add: regular_def)
  then have flt: "?ns = filter (\<lambda>x. \<not> regular x) ns" by (simp add: ns)
  have lns: "lseg ?t1 ([] @ (c, d) # ys) 0" using table_okD(1) [OF T1] by (simp add: ns)
  have nd: "hnode_at ?t1 c = Some (mk_hnode (hd_ptr ys 0) d)" "aligned (hd_ptr ys 0)"
    using lns lseg_aligned [of ?t1 ys 0] by simp_all
  obtain t2 where 2: "clear_list th c (hd_ptr ys 0) ?t1 = Some t2" "lseg t2 ?ns 0"
    "store_ok ok pd t2 (addrs ?ns \<union> W) (insert (h_table ?t1) V)" "keeps W (insert (h_table ?t1) V) ?t1 t2"
    using clear_list_spec [OF lns, of W "insert (h_table ?t1) V" th] table_okD(3,5,9) [OF T1] by (auto simp: ns elim!: returnsE)
  let ?t3 = "h_guard_out rc t2"
  have r3: "hreads t2 ?t3" using guard_reads(2) store_ready [OF 2(3)] by blast
  have s3: "store_ok ok pd ?t3 (addrs ?ns \<union> W) (insert (h_table ?t1) V)" using hreads_store [OF r3 2(3)] .
  have k3: "keeps W (insert (h_table ?t1) V) ?t1 ?t3" using keeps_trans [OF 2(4) hreads_keeps [OF r3]] .
  have l3: "lseg ?t3 ?ns 0" using hreads_lseg [OF r3] 2(2) by (simp del: lseg.simps)
  obtain bt cs where at: "tab_at ?t1 (h_table ?t1) bt cs" "bt_size bt = 2 ^ k" and cl: "cells_ok ns k cs"
    using table_okD(10) [OF T1] by blast
  have "\<exists>d. (cs ! b, d) \<in> set ?ns \<and> fst d = dummy_split_order_key (of_nat b)" if b: "b < 2 ^ k" "cs ! b \<noteq> 0" for b
  proof -
    obtain d' where d': "(cs ! b, d') \<in> set ns" "fst d' = dummy_split_order_key (of_nat b)"
      using cl b unfolding cells_ok_def by blast
    have "(2 :: nat) ^ k \<le> 2 ^ 30" using cl by (intro power_increasing) (simp_all add: cells_ok_def)
    then have "b < 2 ^ 30" using b(1) by linarith
    then have "unat (of_nat b :: u64) < 2 ^ 63" by (simp add: unsigned_of_nat take_bit_nat_eq_self)
    then have "\<not> regular (cs ! b, d')" using d'(2) even_dummy by (simp add: regular_def)
    then have "(cs ! b, d') \<in> set ?ns" using d'(1) unfolding flt by simp
    then show ?thesis using d'(2) by blast
  qed
  then have cl': "cells_ok ?ns k cs" using cl by (simp add: cells_ok_def ns)
  have "table_ok ok pd hash eq W V (?t3\<lparr>h_count := 0\<rparr>) k ?ns"
  proof -
    have "list_ok hash eq ?ns" unfolding flt by (rule list_ok_filter [OF table_okD(2) [OF T1]])
    moreover have "addrs ?ns \<inter> W = {}" using table_okD(3) [OF T1] by (auto simp: ns)
    moreover have "regulars ?ns = []" using irr by (simp add: filter_filter)
    moreover have "\<exists>bt cs. tab_at ?t3 (h_table ?t1) bt cs \<and> bt_size bt = 2 ^ k \<and> cells_ok ?ns k cs"
      using keeps_tab [OF k3 _ at(1)] at(2) cl' by blast
    ultimately show ?thesis using s3 l3 table_okD(4) [OF T1] keeps_members [OF k3] unfolding table_ok_def
      by (simp del: lseg.simps)
  qed
  moreover have "regulars ?ns = []" using irr by (simp add: filter_filter)
  moreover have "keeps W V t ?t3" using keeps_trans [OF k1 keeps_mono [OF k3]] by blast
  moreover have "table_clear rc th t = Some (?t3\<lparr>h_count := 0\<rparr>)"
    using c nd 2(1) by (simp add: table_clear_def Let_def h_guard_out_def)
  ultimately show ?thesis by (simp del: filter.simps) blast
qed

subsection \<open>Destruction\<close>

lemma free_list_spec:
  assumes "lseg t ys 0" and "distinct (map fst ys)" and "store_ok ok pd t (addrs ys \<union> W) T" and "addrs ys \<inter> W = {}"
  shows "returns (free_list th (hd_ptr ys 0) t) (\<lambda>t'. store_ok ok pd t' W T \<and> keeps W T t t' \<and> h_rc t' = h_rc t)"
  using assms
proof (induction ys arbitrary: t)
  case Nil
  then show ?case by (subst free_list.simps) simp
next
  case (Cons y ys)
  obtain a it where y: "y = (a, it)" by (cases y)
  have nd: "hnode_at t a = Some (mk_hnode (hd_ptr ys 0) it)" "a \<noteq> 0" "aligned (hd_ptr ys 0)" "lseg t ys 0"
    using Cons.prems(1) lseg_aligned [of t ys 0] by (auto simp: y)
  have out: "a \<notin> addrs ys \<union> W" using Cons.prems(2,4) by (auto simp: y)
  have "store_ok ok pd t (insert a (addrs ys \<union> W)) T" using Cons.prems(3) by (simp add: y)
  from store_free [OF this out, of th] obtain t2 where 2: "free_hnode th a t = Some t2" "store_ok ok pd t2 (addrs ys \<union> W) T"
    "keeps (addrs ys \<union> W) T t t2" "h_rc t2 = h_rc t" by (auto elim!: returnsE)
  have l2: "lseg t2 ys 0" using keeps_lseg [OF 2(3), of ys 0] nd(4) by blast
  have k2: "keeps W T t t2" using keeps_mono [OF 2(3)] by blast
  have "returns (free_list th (hd_ptr ys 0) t2) (\<lambda>t'. store_ok ok pd t' W T \<and> keeps W T t2 t' \<and> h_rc t' = h_rc t2)"
    by (rule Cons.IH [OF l2 _ 2(2)]) (use Cons.prems(2,4) y in auto)
  then have "returns (free_list th (hd_ptr ys 0) t2) (\<lambda>t'. store_ok ok pd t' W T \<and> keeps W T t t' \<and> h_rc t' = h_rc t)"
    by (rule returns_mono) (use keeps_trans [OF k2] 2(4) in auto)
  then show ?case using nd 2(1) by (subst free_list.simps) (simp add: y Let_def)
qed

lemma store_drained:
  assumes s: "store_ok ok pd t N T" and r: "rc_drain_all rc (h_rc t) = Some (fs, s')" "ok s'" "pd (h_rc t) = pd s' + mset fs"
  shows "returns (run_acts th fs (t\<lparr>h_rc := s'\<rparr>)) (\<lambda>t'. store_ok ok pd t' N T \<and> keeps N T t t')"
proof -
  let ?P = "pd s'" and ?t = "t\<lparr>h_rc := s'\<rparr>"
  have cnt: "count ?P x + count (mset fs) x \<le> 1" for x
    using s unfolding store_ok_def r(3) count_union by blast
  have dist: "distinct fs" by (rule distinct_count_le) (use cnt add_leD2 in blast)
  have disj: "set_mset ?P \<inter> set fs = {}" using count_split_le [of ?P "mset fs"] cnt by (simp only: set_mset_mset)
  have par: "parked a ?P \<inter> parked a (mset fs) = {}" for a using disj by (auto simp: parked_def)
  have n: "nodes_ok ?t ((N \<union> parked Free_node ?P) \<union> parked Free_node (mset fs))"
    and tb: "tabs_ok ?t ((T \<union> parked Free_table ?P) \<union> parked Free_table (mset fs))"
    using s unfolding store_ok_def r(3) parked_union by (simp_all add: Un_assoc)
  have dj: "(N \<union> parked Free_node ?P) \<inter> parked Free_node (mset fs) = {}" "(T \<union> parked Free_table ?P) \<inter> parked Free_table (mset fs) = {}"
    using s par unfolding store_ok_def r(3) parked_union by blast+
  obtain t' where 1: "run_acts th fs ?t = Some t'" "nodes_ok t' (N \<union> parked Free_node ?P)"
    "tabs_ok t' (T \<union> parked Free_table ?P)" "keeps (N \<union> parked Free_node ?P) (T \<union> parked Free_table ?P) ?t t'" "h_rc t' = s'"
    using run_acts_spec [OF n tb dj dist, of th] by auto
  have "keeps N T t ?t" by (simp add: keeps_def)
  with keeps_mono [OF 1(4), of N T] have "keeps N T t t'" by (auto intro: keeps_trans)
  moreover have "count ?P x \<le> 1" for x using cnt [of x] by simp
  ultimately show ?thesis using r(2) 1 s unfolding store_ok_def r(3) parked_union by auto
qed

lemma store_free_table:
  assumes s: "store_ok ok pd t N (insert a T)" and a: "a \<notin> T"
  shows "returns (free_table a t) (\<lambda>t'. store_ok ok pd t' N T \<and> keeps N T t t' \<and> h_mem t' = h_mem t \<and> h_pool t' = h_pool t)"
proof -
  let ?T = "T \<union> parked Free_table (pd (h_rc t))"
  have n: "a \<notin> ?T" and ok: "tabs_ok t (insert a ?T)" using s a by (auto simp: store_ok_def)
  obtain tm cm where "free_table a t = Some (t\<lparr>h_cells := cm, h_tabs := tm\<rparr>)" "tabs_ok (t\<lparr>h_cells := cm, h_tabs := tm\<rparr>) ?T"
    "\<forall>b \<in> ?T. \<forall>bt cs. tab_at t b bt cs \<longrightarrow> tab_at (t\<lparr>h_cells := cm, h_tabs := tm\<rparr>) b bt cs"
    using free_table_spec [OF ok n] by blast
  then show ?thesis using s by (simp add: store_ok_def keeps_def)
qed

text \<open>
  After the destructor the blocks that are still allocated belong to other containers, or are
  retired and not yet safe to free.
\<close>

lemma table_dtor_spec:
  assumes T: "table_ok ok pd hash eq W V t k ns"
  shows "returns (table_dtor rc th t) (\<lambda>t'. store_ok ok pd t' W V \<and> keeps W V t t' \<and>
    (\<forall>b. live (h_mem t') b \<noteq> None \<longrightarrow> b \<in> W \<union> parked Free_node (pd (h_rc t'))))"
proof -
  let ?V = "insert (h_table t) V"
  obtain c d ys where ns: "ns = (c, d) # ys" and c: "read_cell (h_table t) 0 t = Some c" "fst d = 0" "c \<noteq> 0"
    using head_dummy [OF T] by metis
  have "returns (free_list th (hd_ptr ns 0) t) (\<lambda>t'. store_ok ok pd t' W ?V \<and> keeps W ?V t t' \<and> h_rc t' = h_rc t)"
    by (rule free_list_spec [OF table_okD(1,9,5,3) [OF T]])
  then obtain t1 where 1: "free_list th c t = Some t1" "store_ok ok pd t1 W ?V" "keeps W ?V t t1"
    by (auto simp: ns elim!: returnsE)
  obtain fs s' where r: "rc_drain_all rc (h_rc t1) = Some (fs, s')" "ok s'" "pd (h_rc t1) = pd s' + mset fs"
    using drain_all [OF store_ready [OF 1(2)]] by blast
  obtain t2 where 2: "run_acts th fs (t1\<lparr>h_rc := s'\<rparr>) = Some t2" "store_ok ok pd t2 W ?V" "keeps W ?V t1 t2"
    using store_drained [OF 1(2) r, of th] by (auto elim!: returnsE)
  obtain t3 where 3: "free_table (h_table t) t2 = Some t3" "store_ok ok pd t3 W V" "keeps W V t2 t3"
    using store_free_table [OF 2(2) table_okD(4) [OF T]] by (auto elim!: returnsE)
  let ?N = "W \<union> parked Free_node (pd (h_rc t3))"
  have "blocks pool_link_next (h_mem t3) (h_pool t3) ?N" using 3(2) by (simp add: store_ok_def nodes_ok_def)
  then obtain m p where 4: "drain pool_link_next (h_mem t3) (h_pool t3) = Some (m, p)" "blocks pool_link_next m p ?N"
    "same_on ?N (h_mem t3) m" "\<forall>a. live m a \<noteq> None \<longrightarrow> a \<in> ?N"
    using nl.blocks_drain by blast
  let ?t4 = "t3\<lparr>h_mem := m, h_pool := p\<rparr>"
  have al: "aligned a" if "a \<in> ?N" for a
    using nodes_ok_aligned [of t3 ?N a] that 3(2) by (simp add: store_ok_def)
  have "store_ok ok pd ?t4 W V" using 3(2) 4(2,4) al by (auto simp: store_ok_def nodes_ok_def)
  moreover have "keeps W V t3 ?t4" using same_on_mono [OF 4(3), of W] by (auto simp: keeps_def)
  then have "keeps W V t ?t4"
    using keeps_mono [OF 1(3), of W V] keeps_mono [OF 2(3), of W V] 3(3) by (blast intro: keeps_trans)
  moreover have "table_dtor rc th t = Some ?t4"
    using c(1) 1(1) r(1) 2(1) 3(1) 4(1) by (simp add: table_dtor_def Let_def)
  ultimately show ?thesis using 4(4) by simp
qed

end

end
