(* ===== verification/TableIter.thy ===== *)
theory TableIter
  imports TableEnds
begin

section \<open>Iteration over the hash table\<close>

text \<open>
  \<open>h_first_node\<close> answers with the first regular node of the list, \<open>h_next_node\<close> with the regular node
  after the one with the given key (and with the end when that key is gone), so repeated calls
  visit the regular nodes in list order.
\<close>

definition info_at :: "ptr \<times> ('k, 'v) item \<Rightarrow> 'k node_info" where
  "info_at x = info_of (mk_hnode 0 (snd x))"

definition first_of :: "('k, 'v) nodes \<Rightarrow> 'k node_info option" where
  "first_of ns = (case regulars ns of [] \<Rightarrow> None | x # _ \<Rightarrow> Some (info_at x))"

definition next_of :: "('k \<Rightarrow> 'k \<Rightarrow> bool) \<Rightarrow> 'k \<Rightarrow> ('k, 'v) nodes \<Rightarrow> 'k node_info option" where
  "next_of eq key ns = first_of (drop 1 (dropWhile (\<lambda>x. \<not> eq (key_at x) key) (regulars ns)))"

lemma info_of_mk [simp]: "info_of (mk_hnode p d) = info_at (a, d)"
  by (simp add: info_at_def info_of_def)

lemma info_at_simps [simp]:
  "i_sk (info_at x) = sok x" "i_key (info_at x) = key_at x"
  by (simp_all add: info_at_def info_of_def)

text \<open>The mixed hash that the iterator recovers leads to the same split-order key.\<close>

lemma top_cleared: "bit (NOT (push_bit 63 (1 :: u64))) n \<longleftrightarrow> n < 64 \<and> n \<noteq> 63"
  by (simp only: bit_not_iff bit_push_bit_iff bit_1_iff possible_bit_word) auto

lemma info_mixed: "odd sk \<Longrightarrow> so_key_of (bit_reverse sk AND NOT (push_bit 63 1)) = sk"
  by (rule bit_word_eqI)
     (simp only: bit_so_key bit_and_iff top_cleared bit_bit_reverse, auto simp: bit_0 dest: bit_imp_le_length)

lemma info_at_mixed: "regular x \<Longrightarrow> so_key_of (i_mixed (info_at x)) = sok x"
  unfolding info_at_def info_of_def regular_def node_info.simps mk_hnode_simps by (rule info_mixed)

lemma dropWhile_lookup:
  assumes ok: "list_ok hash eq (us @ x # zs)" and law: "lawful hash eq" and look: "lookup_node eq key (us @ x # zs) = Some x"
  shows "dropWhile (\<lambda>x. \<not> eq (key_at x) key) (regulars (us @ x # zs)) = x # regulars zs"
proof -
  have x: "regular x" "eq (key_at x) key" using look lookup_unique [OF ok law] by auto
  have "\<not> eq (key_at y) key" if "y \<in> set us" "regular y" for y
  proof
    assume "eq (key_at y) key"
    then have "lookup_node eq key (us @ x # zs) = Some y" using lookup_unique [OF ok law, of key y] that by simp
    then have "y = x" using look by simp
    then show False using ok that(1) by (auto simp: list_ok_def image_iff)
  qed
  then have "dropWhile (\<lambda>x. \<not> eq (key_at x) key) (regulars us @ x # regulars zs) = x # regulars zs"
    using x(2) by (subst dropWhile_append2) auto
  then show ?thesis using x(1) by simp
qed

context table_reclaimer
begin

lemma step_over_spec:
  assumes "ok (h_rc t)" and "hnode_at t a = Some (mk_hnode p d)" and "aligned p"
  shows "\<exists>t'. step_over rc a t = Some (p, p, t') \<and> hreads t t'"
proof -
  obtain t1 where 1: "h_publish rc HP_PREV a t = Some t1" "hreads t t1"
    using h_publish_spec [OF assms(1), of HP_PREV a] by (auto elim!: returnsE)
  have r1: "ok (h_rc t1)" "hnode_at t1 a = Some (mk_hnode p d)" using hreads_simps [OF 1(2)] assms(2) by auto
  obtain t2 where 2: "protect_from rc a HP_CUR t1 = Some (p, p, t2)" "hreads t1 t2"
    using protect_from_spec [OF r1 assms(3), of HP_CUR] by (auto elim!: returnsE)
  then show ?thesis using 1 hreads_trans [OF 1(2) 2(2)] by (simp add: step_over_def)
qed

text \<open>The node after the head of a list segment.\<close>

lemma lseg_step:
  assumes "ok (h_rc t)" and "lseg t (y # ys) 0"
  shows "hnode_at t (fst y) = Some (mk_hnode (hd_ptr ys 0) (snd y))" and "fst y \<noteq> 0" and "aligned (hd_ptr ys 0)"
    and "\<exists>t'. step_over rc (fst y) t = Some (hd_ptr ys 0, hd_ptr ys 0, t') \<and> hreads t t' \<and> ok (h_rc t') \<and> lseg t' ys 0"
proof -
  obtain a d where y: "y = (a, d)" by (cases y)
  have nd: "hnode_at t a = Some (mk_hnode (hd_ptr ys 0) d)" "a \<noteq> 0" "aligned (hd_ptr ys 0)" "lseg t ys 0"
    using assms(2) lseg_aligned [of t ys 0] by (auto simp: y)
  then show "hnode_at t (fst y) = Some (mk_hnode (hd_ptr ys 0) (snd y))" "fst y \<noteq> 0" "aligned (hd_ptr ys 0)" by (simp_all add: y)
  show "\<exists>t'. step_over rc (fst y) t = Some (hd_ptr ys 0, hd_ptr ys 0, t') \<and> hreads t t' \<and> ok (h_rc t') \<and> lseg t' ys 0"
    using step_over_spec [OF assms(1) nd(1,3)] nd(4) hreads_simps hreads_lseg by (fastforce simp: y)
qed

lemma h_first_walk_spec:
  assumes "ok (h_rc t)" and "lseg t ys 0"
  shows "returns (h_first_walk rc p (hd_ptr ys 0) tg t) (\<lambda>(r, t'). hreads t t' \<and> r = first_of ys)"
  using assms
proof (induction ys arbitrary: p tg t)
  case Nil
  then show ?case by (subst h_first_walk.simps) (simp add: hreads_refl first_of_def)
next
  case (Cons y ys)
  note st = lseg_step [OF Cons.prems]
  obtain t1 where 1: "step_over rc (fst y) t = Some (hd_ptr ys 0, hd_ptr ys 0, t1)" "hreads t t1" "ok (h_rc t1)" "lseg t1 ys 0"
    using st(4) by blast
  have hd: "hd_ptr (y # ys) 0 = fst y" by (cases y) simp
  show ?case
  proof (cases "regular y")
    case True
    then show ?thesis using st Cons.prems(1) hreads_refl unfolding hd
      by (subst h_first_walk.simps) (simp add: Let_def first_of_def regular_def info_of_mk [of _ _ "fst y"])
  next
    case False
    have "returns (h_first_walk rc (fst y) (hd_ptr ys 0) (hd_ptr ys 0) t1) (\<lambda>(r, t'). hreads t t' \<and> r = first_of (y # ys))"
      using Cons.IH [OF 1(3,4)] by (rule returns_mono) (use hreads_trans [OF 1(2)] False in \<open>auto simp: first_of_def\<close>)
    then show ?thesis using st 1(1) False unfolding hd
      by (subst h_first_walk.simps) (simp add: Let_def regular_def)
  qed
qed

lemma h_first_node_spec:
  assumes T: "table_ok ok pd hash eq W V t k ns"
  shows "returns (h_first_node rc t) (\<lambda>(r, t'). hreads t t' \<and> r = first_of ns)"
proof -
  let ?t = "h_guard_in rc t"
  have r0: "hreads t ?t" using guard_reads(1) table_okD(7) [OF T] by blast
  obtain t1 where 1: "h_publish rc HP_TABLE (h_table ?t) ?t = Some t1" "hreads ?t t1"
    using h_publish_spec [of ?t HP_TABLE "h_table ?t"] hreads_simps [OF r0] by (auto elim!: returnsE)
  have r1: "hreads t t1" using hreads_trans [OF r0 1(2)] .
  have T1: "table_ok ok pd hash eq W V t1 k ns" using reads_table(1) [OF T r1] .
  have tb: "h_table t1 = h_table ?t" using hreads_simps [OF 1(2)] by simp
  obtain c d ys where ns: "ns = (c, d) # ys" and c: "read_cell (h_table t1) 0 t1 = Some c" "fst d = 0" "c \<noteq> 0"
    using head_dummy [OF T1] by metis
  note st = lseg_step [OF table_okD(7) [OF T1] table_okD(1) [OF T1, unfolded ns]]
  obtain t2 where 2: "step_over rc c t1 = Some (hd_ptr ys 0, hd_ptr ys 0, t2)" "hreads t1 t2" "ok (h_rc t2)" "lseg t2 ys 0"
    using st(4) by auto
  have "first_of ys = first_of ns" using c(2) by (simp add: ns first_of_def regular_def)
  then obtain t3 where 3: "h_first_walk rc c (hd_ptr ys 0) (hd_ptr ys 0) t2 = Some (first_of ns, t3)" "hreads t2 t3"
    using h_first_walk_spec [OF 2(3,4), of c "hd_ptr ys 0"] by (auto elim!: returnsE)
  have r3: "hreads t t3" using r1 2(2) 3(2) hreads_trans by blast
  have "hreads t3 (h_guard_out rc t3)" using guard_reads(2) hreads_simps [OF r3] by blast
  then have "hreads t (h_guard_out rc t3)" using hreads_trans [OF r3] by blast
  moreover have "h_first_loop rc ?t = Some (first_of ns, t3)"
    using 1(1) tb c 2(1) 3(1) by (subst h_first_loop.simps) (simp add: Let_def)
  ultimately show ?thesis by (simp add: h_first_node_def)
qed

lemma next_skip_spec:
  assumes "ok (h_rc t)" and "lseg t ys 0"
  shows "returns (next_skip rc eq sk key p (hd_ptr ys 0) tg t) (\<lambda>(res, t'). hreads t t' \<and>
    map_option (\<lambda>(_, c, _). c) res = (case dropWhile (other eq sk key) ys of [] \<Rightarrow> None
      | x # _ \<Rightarrow> if sok x = sk then Some (fst x) else None))"
  using assms
proof (induction ys arbitrary: p tg t)
  case Nil
  then show ?case by (subst next_skip.simps) (simp add: hreads_refl)
next
  case (Cons y ys)
  note st = lseg_step [OF Cons.prems]
  obtain t1 where 1: "step_over rc (fst y) t = Some (hd_ptr ys 0, hd_ptr ys 0, t1)" "hreads t t1" "ok (h_rc t1)" "lseg t1 ys 0"
    using st(4) by blast
  have hd: "hd_ptr (y # ys) 0 = fst y" by (cases y) simp
  show ?case
  proof (cases "other eq sk key y")
    case False
    then show ?thesis using st Cons.prems(1) hreads_refl unfolding hd by (subst next_skip.simps) (auto simp: Let_def)
  next
    case True
    have e: "dropWhile (other eq sk key) (y # ys) = dropWhile (other eq sk key) ys" using True by simp
    have "returns (next_skip rc eq sk key (fst y) (hd_ptr ys 0) (hd_ptr ys 0) t1) (\<lambda>(res, t'). hreads t t' \<and>
      map_option (\<lambda>(_, c, _). c) res = (case dropWhile (other eq sk key) (y # ys) of [] \<Rightarrow> None
        | x # _ \<Rightarrow> if sok x = sk then Some (fst x) else None))"
      unfolding e by (rule returns_mono [OF Cons.IH [OF 1(3,4)]]) (use hreads_trans [OF 1(2)] in auto)
    then show ?thesis using st 1(1) True unfolding hd by (subst next_skip.simps) (simp add: Let_def)
  qed
qed

lemma scan_addr:
  "(case dw of [] \<Rightarrow> None | x # _ \<Rightarrow> if sok x = sk then Some (fst x) else None) =
   map_option fst (case dw of [] \<Rightarrow> None | x # _ \<Rightarrow> if sok x = sk then Some x else None)"
  by (cases dw) auto

lemma next_advance_spec:
  assumes "ok (h_rc t)" and "lseg t (x # ys) 0" and "odd sk"
  shows "returns (next_advance rc sk p (fst x) tg t) (\<lambda>(r, t'). hreads t t' \<and> r = first_of ys)"
  using assms(1,2)
proof (induction ys arbitrary: x p tg t)
  case Nil
  note st = lseg_step [OF Nil.prems]
  show ?case using st by (subst next_advance.simps) (auto simp: Let_def first_of_def)
next
  case (Cons y ys)
  note st = lseg_step [OF Cons.prems]
  obtain t1 where 1: "step_over rc (fst x) t = Some (hd_ptr (y # ys) 0, hd_ptr (y # ys) 0, t1)" "hreads t t1" "ok (h_rc t1)" "lseg t1 (y # ys) 0"
    using st(4) by blast
  have hd: "hd_ptr (y # ys) 0 = fst y" by (cases y) simp
  note st1 = lseg_step [OF 1(3,4)]
  show ?case
  proof (cases "regular y")
    case True
    then show ?thesis using st st1 1 unfolding hd
      by (subst next_advance.simps) (simp add: Let_def first_of_def regular_def info_of_mk [of _ _ "fst y"])
  next
    case False
    have ne: "sok y \<noteq> sk" using False assms(3) by (auto simp: regular_def)
    have "returns (next_advance rc sk (fst x) (fst y) (fst y) t1) (\<lambda>(r, t'). hreads t t' \<and> r = first_of (y # ys))"
      using Cons.IH [OF 1(3,4)] by (rule returns_mono) (use hreads_trans [OF 1(2)] False in \<open>auto simp: first_of_def\<close>)
    then show ?thesis using st st1 1(1) False ne unfolding hd
      by (subst next_advance.simps) (simp add: Let_def regular_def)
  qed
qed

lemma h_next_node_spec:
  assumes T: "table_ok ok pd hash eq W V t k ns" and al: "allocs_ok al" and law: "lawful hash eq"
    and m: "so_key_of m = so_key_of (mixed_hash hash key)" and sk: "sk = so_key_of m"
  shows "returns (h_next_node rc th al pl eq m sk key t) (\<lambda>(r, t'). settled ok pd hash eq W V k ns t t' \<and>
    (case r of Inl e \<Rightarrow> e = Bad_alloc \<and> starved al t' | Inr i \<Rightarrow> i = next_of eq key ns))"
proof -
  let ?t = "h_guard_in rc t"
  have r0: "hreads t ?t" using guard_reads(1) table_okD(7) [OF T] by blast
  have T0: "table_ok ok pd hash eq W V ?t k ns" "keeps W V t ?t" using reads_table [OF T r0] .
  obtain r t1 ns1 where 1: "locate rc th al pl m sk ?t = Some (r, t1)" "keeps W V ?t t1"
    "table_ok ok pd hash eq W V t1 k ns1" "regulars ns1 = regulars ns"
    "case r of Inl e \<Rightarrow> e = Bad_alloc \<and> starved al t1
     | Inr (p, c) \<Rightarrow> p = fst (last (before sk ns1)) \<and> c = hd_ptr (rest sk ns1) 0 \<and> before sk ns1 \<noteq> []"
    using locate_spec [OF T0(1) al, of th pl m, folded sk] by (auto elim!: returnsE)
  note T1 = 1(3)
  have st: "settled ok pd hash eq W V k ns t (h_guard_out rc t2)" if "hreads t1 t2" for t2
  proof -
    have r: "hreads t1 (h_guard_out rc t2)"
      using hreads_trans [OF that guard_reads(2)] hreads_simps [OF that] by blast
    show ?thesis
      using settledI [OF reads_table(1) [OF T1 r] 1(4) keeps_trans [OF T0(2) keeps_trans [OF 1(2) reads_table(2) [OF T1 r]]]] .
  qed
  have here: "hreads t1 t1" using hreads_refl table_okD(7) [OF T1] by blast
  have nx: "next_of eq key ns = next_of eq key ns1" by (simp add: next_of_def 1(4))
  note scan = lookup_scan [OF table_okD(2) [OF T1] law, of key, folded m, folded sk]
  have none: "next_of eq key ns1 = None" if "lookup_node eq key ns1 = None"
  proof -
    have "dropWhile (\<lambda>x. \<not> eq (key_at x) key) (regulars ns1) = []"
      unfolding dropWhile_eq_Nil_conv using that by (auto simp: lookup_node_def find_None_iff)
    then show ?thesis by (simp only: next_of_def first_of_def drop_Nil filter.simps list.simps)
  qed
  show ?thesis
  proof (cases r)
    case (Inl e)
    then show ?thesis using 1(1,5) st [OF here] by (simp add: h_next_node_def)
  next
    case (Inr pc)
    let ?ys = "rest sk ns1" and ?dw = "dropWhile (other eq sk key) (rest sk ns1)"
    obtain p where r: "r = Inr (p, hd_ptr ?ys 0)" using 1(5) Inr by (cases pc) auto
    have l: "lseg t1 ?ys 0" using table_rest [OF T1] by blast
    obtain res t2 where 2: "(if hd_ptr ?ys 0 = 0 then Some (None, t1) else next_skip rc eq sk key p (hd_ptr ?ys 0) 0 t1) = Some (res, t2)"
      "hreads t1 t2" "map_option (\<lambda>(_, c, _). c) res = map_option fst (lookup_node eq key ns1)"
    proof (cases "?ys = []")
      case True
      have z: "hd_ptr ?ys 0 = 0" "dropWhile (other eq sk key) ?ys = []" unfolding True by simp_all
      have none1: "lookup_node eq key ns1 = None" unfolding scan z(2) by simp
      have "(if hd_ptr ?ys 0 = 0 then Some (None, t1) else next_skip rc eq sk key p (hd_ptr ?ys 0) 0 t1) = Some (None, t1)"
        by (rule if_P [OF z(1)])
      then show thesis by (rule that [OF _ here]) (simp add: none1)
    next
      case False
      then have nz: "hd_ptr ?ys 0 \<noteq> 0" using hd_ptr_null [OF l] by blast
      show thesis
      proof (rule returns_pairE [OF next_skip_spec [OF table_okD(7) [OF T1] l, of eq sk key p 0]], elim conjE)
        fix res t2
        assume run: "next_skip rc eq sk key p (hd_ptr ?ys 0) 0 t1 = Some (res, t2)" and h: "hreads t1 t2"
          and m: "map_option (\<lambda>(_, c, _). c) res = (case ?dw of [] \<Rightarrow> None | x # _ \<Rightarrow> if sok x = sk then Some (fst x) else None)"
        have "(if hd_ptr ?ys 0 = 0 then Some (None, t1) else next_skip rc eq sk key p (hd_ptr ?ys 0) 0 t1) = Some (res, t2)"
          by (rule trans [OF if_not_P [OF nz] run])
        then show thesis by (rule that [OF _ h m [unfolded scan_addr, folded scan]])
      qed
    qed
    show ?thesis
    proof (cases res)
      case None
      then have "lookup_node eq key ns1 = None" using 2(3) by simp
      then show ?thesis using 1(1) r 2(1) None st [OF 2(2)] none nx by (simp add: h_next_node_def)
    next
      case (Some q)
      then obtain p' tg' x where q: "q = (p', fst x, tg')" and look: "lookup_node eq key ns1 = Some x"
        using 2(3) by (cases q; cases "lookup_node eq key ns1") auto
      then have "x \<in> set ns1" using lookup_unique [OF table_okD(2) [OF T1] law] by blast
      then obtain us zs where ns1: "ns1 = us @ x # zs" by (meson split_list)
      have T2: "table_ok ok pd hash eq W V t2 k ns1" using reads_table(1) [OF T1 2(2)] .
      have l2: "lseg t2 (x # zs) 0" using table_okD(1) [OF T2] unfolding ns1 lseg_append by blast
      have od: "odd sk" by (simp add: sk)
      obtain t3 where 3: "next_advance rc sk p' (fst x) tg' t2 = Some (first_of zs, t3)" "hreads t2 t3"
        using next_advance_spec [OF table_okD(7) [OF T2] l2 od] by (auto elim!: returnsE)
      have "next_of eq key ns1 = first_of (regulars zs)"
        unfolding next_of_def ns1 dropWhile_lookup [OF table_okD(2) [OF T1, unfolded ns1] law look [unfolded ns1]] by simp
      also have "\<dots> = first_of zs" by (simp add: first_of_def)
      finally show ?thesis using 1(1) r 2(1) Some q 3(1) st [OF hreads_trans [OF 2(2) 3(2)]] nx by (simp add: h_next_node_def)
    qed
  qed
qed

end

end
