(* ===== verification/UMapModel.thy ===== *)
theory UMapModel
  imports TableIter
begin

section \<open>The unordered containers\<close>

text \<open>
  \<open>mpmc::unordered_map\<close> (\<open>mpmc_unordered_map.hpp\<close>) over the hash table engine. A container is the
  engine's state, its address \<open>self\<close> is what its iterators remember. An iterator is the owner, an
  end flag, a copy of a key with its mixed hash and split-order key: dereferencing and advancing
  locate the element again.

  \<open>pl\<close> is the default-initialised payload that \<open>alloc_node\<close> leaves in a node and in a dummy, \<open>dk\<close> the
  key of a default-initialised iterator. The arguments of \<open>emplace\<close> are forwarded to the constructor
  of the payload: \<open>Some (k, v)\<close> is the pair it constructs, \<open>None\<close> that it throws.
\<close>

record 'k uiter =
  u_owner :: ptr
  u_is_end :: bool
  u_key :: 'k
  u_mixed :: u64
  u_sk :: u64

definition uiter_end :: "ptr \<Rightarrow> 'k \<Rightarrow> 'k uiter" where
  "uiter_end self dk = \<lparr>u_owner = self, u_is_end = True, u_key = dk, u_mixed = 0, u_sk = 0\<rparr>"

definition uiter_at :: "ptr \<Rightarrow> 'k \<Rightarrow> u64 \<Rightarrow> u64 \<Rightarrow> 'k uiter" where
  "uiter_at self k mixed sk = \<lparr>u_owner = self, u_is_end = False, u_key = k, u_mixed = mixed, u_sk = sk\<rparr>"

subsection \<open>Construction and capacity\<close>

definition umap_ctor ::
  "thread \<Rightarrow> allocs \<Rightarrow> 'k \<times> 'v \<Rightarrow> alloc \<Rightarrow> ('k, 'v) hnode mem \<Rightarrow> pool \<Rightarrow> bucket_table mem \<Rightarrow> ptr list mem \<Rightarrow> 'r \<Rightarrow>
   ((exn + unit) \<times> ('k, 'v, 'r) htable) option" where
  "umap_ctor th al pl a m p tm cm r = table_ctor th al pl a (Fin 1) m p tm cm r"

definition umap_reserve ::
  "(table_act, 'r) reclaimer_ops \<Rightarrow> thread \<Rightarrow> allocs \<Rightarrow> (ptr \<Rightarrow> push) \<Rightarrow> u64 \<Rightarrow> ('k, 'v, 'r) htable \<Rightarrow>
   ((exn + unit) \<times> ('k, 'v, 'r) htable) option" where
  "umap_reserve rc th al pu n t = table_reserve rc th al pu n t"

text \<open>When \<open>reserve\<close> throws in the constructor's body, the engine is destroyed.\<close>

definition umap_ctor_reserve ::
  "(table_act, 'r) reclaimer_ops \<Rightarrow> thread \<Rightarrow> allocs \<Rightarrow> (ptr \<Rightarrow> push) \<Rightarrow> 'k \<times> 'v \<Rightarrow> u64 \<Rightarrow> alloc \<Rightarrow> ('k, 'v) hnode mem \<Rightarrow> pool \<Rightarrow>
   bucket_table mem \<Rightarrow> ptr list mem \<Rightarrow> 'r \<Rightarrow> ((exn + unit) \<times> ('k, 'v, 'r) htable) option" where
  "umap_ctor_reserve rc th al pu pl n a m p tm cm r =
     do {
       (r, t) \<leftarrow> umap_ctor th al pl a m p tm cm r;
       case r of
         Inl e \<Rightarrow> Some (Inl e, t)
       | Inr _ \<Rightarrow> do {
           (r, t) \<leftarrow> umap_reserve rc th al pu n t;
           case r of
             Inl e \<Rightarrow> do { t \<leftarrow> table_dtor rc th t; Some (Inl e, t) }
           | Inr _ \<Rightarrow> Some (Inr (), t)
         }
     }"

definition umap_dtor ::
  "(table_act, 'r) reclaimer_ops \<Rightarrow> thread \<Rightarrow> ('k, 'v, 'r) htable \<Rightarrow> ('k, 'v, 'r) htable option" where
  "umap_dtor rc th t = table_dtor rc th t"

definition umap_empty :: "('k, 'v, 'r) htable \<Rightarrow> bool" where
  "umap_empty t = table_empty t"

definition umap_size :: "('k, 'v, 'r) htable \<Rightarrow> u64" where
  "umap_size t = table_size t"

definition umap_max_size :: "u64 \<Rightarrow> u64" where
  "umap_max_size sizeof_value = (- 1) div sizeof_value"

definition umap_bucket_count :: "('k, 'v, 'r) htable \<Rightarrow> u64 option" where
  "umap_bucket_count t = table_bucket_count t"

definition umap_load_factor :: "('k, 'v, 'r) htable \<Rightarrow> fl option" where
  "umap_load_factor t =
     do { bc \<leftarrow> table_bucket_count t;
          Some (if bc = 0 then Fin 0 else fl_div f32 (of_size f32 (table_size t)) (of_size f32 bc)) }"

definition umap_max_load_factor :: "('k, 'v, 'r) htable \<Rightarrow> fl" where
  "umap_max_load_factor t = h_max_load t"

definition umap_set_max_load_factor :: "fl \<Rightarrow> ('k, 'v, 'r) htable \<Rightarrow> ('k, 'v, 'r) htable" where
  "umap_set_max_load_factor f t = set_max_load_factor f t"

subsection \<open>Modifiers\<close>

text \<open>
  What follows an insertion in \<open>emplace\<close>: the growth check, or the unused node is destroyed. When
  \<open>insert_node\<close> or \<open>maybe_grow\<close> throws there is no handler.
\<close>

definition umap_emplace ::
  "(table_act, 'r) reclaimer_ops \<Rightarrow> ('k \<Rightarrow> u64) \<Rightarrow> ('k \<Rightarrow> 'k \<Rightarrow> bool) \<Rightarrow> thread \<Rightarrow> allocs \<Rightarrow> (ptr \<Rightarrow> push) \<Rightarrow> 'k \<times> 'v \<Rightarrow> ptr \<Rightarrow>
   ('k \<times> 'v) option \<Rightarrow> ('k, 'v, 'r) htable \<Rightarrow> ((exn + 'k uiter \<times> bool) \<times> ('k, 'v, 'r) htable) option" where
  "umap_emplace rc hash eq th al pu pl self args t =
     do {
       (r, t) \<leftarrow> alloc_hnode th al pl t;
       case r of
         Inl e \<Rightarrow> Some (Inl e, t)
       | Inr n \<Rightarrow>
           (case args of
              None \<Rightarrow> do { t \<leftarrow> destroy_hnode th n t; Some (Inl Payload_throws, t) }
            | Some (k, v) \<Rightarrow> do {
                t \<leftarrow> construct_hpayload n k v t;
                nd \<leftarrow> hnode_at t n;
                let k = d_key nd;
                let mixed = mixed_hash hash k;
                let sk = so_key_of mixed;
                (r, t) \<leftarrow> h_insert_node rc th al pl eq n mixed sk k t;
                case r of
                  Inl e \<Rightarrow> Some (Inl e, t)
                | Inr True \<Rightarrow> do {
                    (r, t) \<leftarrow> maybe_grow rc th al pu t;
                    case r of
                      Inl e \<Rightarrow> Some (Inl e, t)
                    | Inr _ \<Rightarrow> Some (Inr (uiter_at self k mixed sk, True), t)
                  }
                | Inr False \<Rightarrow> do { t \<leftarrow> destroy_hnode th n t; Some (Inr (uiter_at self k mixed sk, False), t) }
              })
     }"

definition umap_insert ::
  "(table_act, 'r) reclaimer_ops \<Rightarrow> ('k \<Rightarrow> u64) \<Rightarrow> ('k \<Rightarrow> 'k \<Rightarrow> bool) \<Rightarrow> thread \<Rightarrow> allocs \<Rightarrow> (ptr \<Rightarrow> push) \<Rightarrow> 'k \<times> 'v \<Rightarrow> ptr \<Rightarrow>
   'k \<times> 'v \<Rightarrow> ('k, 'v, 'r) htable \<Rightarrow> ((exn + 'k uiter \<times> bool) \<times> ('k, 'v, 'r) htable) option" where
  "umap_insert rc hash eq th al pu pl self kv t = umap_emplace rc hash eq th al pu pl self (Some kv) t"

definition umap_try_emplace ::
  "(table_act, 'r) reclaimer_ops \<Rightarrow> ('k \<Rightarrow> u64) \<Rightarrow> ('k \<Rightarrow> 'k \<Rightarrow> bool) \<Rightarrow> thread \<Rightarrow> allocs \<Rightarrow> (ptr \<Rightarrow> push) \<Rightarrow> 'k \<times> 'v \<Rightarrow> ptr \<Rightarrow>
   'k \<Rightarrow> 'v option \<Rightarrow> ('k, 'v, 'r) htable \<Rightarrow> ((exn + 'k uiter \<times> bool) \<times> ('k, 'v, 'r) htable) option" where
  "umap_try_emplace rc hash eq th al pu pl self k args t =
     umap_emplace rc hash eq th al pu pl self (map_option (Pair k) args) t"

text \<open>An assignment through a payload pointer.\<close>

definition assign_hvalue :: "ptr \<Rightarrow> 'v \<Rightarrow> ('k, 'v, 'r) htable \<Rightarrow> ('k, 'v, 'r) htable option" where
  "assign_hvalue p v t = do { nd \<leftarrow> hnode_at t p; Some (put_hnode p (nd\<lparr>d_value := v\<rparr>) t) }"

text \<open>
  \<open>insert_or_assign\<close> forwards \<open>obj\<close> twice. \<open>moved\<close> is what is left of an object after it was
  forwarded once: the identity for an lvalue, the moved-from value for an rvalue.
\<close>

definition umap_insert_or_assign ::
  "(table_act, 'r) reclaimer_ops \<Rightarrow> ('k \<Rightarrow> u64) \<Rightarrow> ('k \<Rightarrow> 'k \<Rightarrow> bool) \<Rightarrow> thread \<Rightarrow> allocs \<Rightarrow> (ptr \<Rightarrow> push) \<Rightarrow> 'k \<times> 'v \<Rightarrow> ptr \<Rightarrow>
   ('v \<Rightarrow> 'v) \<Rightarrow> 'k \<Rightarrow> 'v \<Rightarrow> ('k, 'v, 'r) htable \<Rightarrow> ((exn + 'k uiter \<times> bool) \<times> ('k, 'v, 'r) htable) option" where
  "umap_insert_or_assign rc hash eq th al pu pl self moved k obj t =
     do {
       (r, t) \<leftarrow> umap_try_emplace rc hash eq th al pu pl self k (Some obj) t;
       case r of
         Inl e \<Rightarrow> Some (Inl e, t)
       | Inr (it, inserted) \<Rightarrow>
           if \<not> inserted then do {
             let mixed = mixed_hash hash k;
             (r, t) \<leftarrow> h_find_value_ptr rc th al pl eq k mixed (so_key_of mixed) t;
             case r of
               Inl e \<Rightarrow> Some (Inl e, t)
             | Inr p \<Rightarrow> do {
                 t \<leftarrow> (if p \<noteq> 0 then assign_hvalue p (moved obj) t else Some t);
                 Some (Inr (it, inserted), t)
               }
           }
           else Some (Inr (it, inserted), t)
     }"

text \<open>
  \<open>operator[]\<close> returns a reference: the node that holds the value. \<open>dv\<close> is the value-initialised
  mapped object, \<open>None\<close> when its constructor throws; there is no handler for that here.
\<close>

definition umap_index ::
  "(table_act, 'r) reclaimer_ops \<Rightarrow> ('k \<Rightarrow> u64) \<Rightarrow> ('k \<Rightarrow> 'k \<Rightarrow> bool) \<Rightarrow> thread \<Rightarrow> allocs \<Rightarrow> (ptr \<Rightarrow> push) \<Rightarrow> 'k \<times> 'v \<Rightarrow>
   'v option \<Rightarrow> 'k \<Rightarrow> ('k, 'v, 'r) htable \<Rightarrow> ((exn + ptr) \<times> ('k, 'v, 'r) htable) option" where
  "umap_index rc hash eq th al pu pl dv k t =
     do {
       let mixed = mixed_hash hash k;
       let sk = so_key_of mixed;
       (r, t) \<leftarrow> h_find_value_ptr rc th al pl eq k mixed sk t;
       case r of
         Inl e \<Rightarrow> Some (Inl e, t)
       | Inr p \<Rightarrow>
           if p \<noteq> 0 then Some (Inr p, t)
           else do {
             (r, t) \<leftarrow> alloc_hnode th al pl t;
             case r of
               Inl e \<Rightarrow> Some (Inl e, t)
             | Inr n \<Rightarrow>
                 (case dv of
                    None \<Rightarrow> Some (Inl Payload_throws, t)
                  | Some v \<Rightarrow> do {
                      t \<leftarrow> construct_hpayload n k v t;
                      (r, t) \<leftarrow> h_insert_node rc th al pl eq n mixed sk k t;
                      case r of
                        Inl e \<Rightarrow> Some (Inl e, t)
                      | Inr True \<Rightarrow> do {
                          (r, t) \<leftarrow> maybe_grow rc th al pu t;
                          Some (case r of Inl e \<Rightarrow> Inl e | Inr _ \<Rightarrow> Inr n, t)
                        }
                      | Inr False \<Rightarrow> do {
                          t \<leftarrow> destroy_hnode th n t;
                          (r, t) \<leftarrow> h_find_value_ptr rc th al pl eq k mixed sk t;
                          case r of Inl e \<Rightarrow> Some (Inl e, t) | Inr p \<Rightarrow> if p = 0 then None else Some (Inr p, t)
                        }
                    })
           }
     }"

definition umap_erase ::
  "(table_act, 'r) reclaimer_ops \<Rightarrow> ('k \<Rightarrow> u64) \<Rightarrow> ('k \<Rightarrow> 'k \<Rightarrow> bool) \<Rightarrow> thread \<Rightarrow> allocs \<Rightarrow> push \<Rightarrow> 'k \<times> 'v \<Rightarrow>
   'k \<Rightarrow> ('k, 'v, 'r) htable \<Rightarrow> ((exn + u64) \<times> ('k, 'v, 'r) htable) option" where
  "umap_erase rc hash eq th al pu pl k t =
     do {
       let mixed = mixed_hash hash k;
       (r, t) \<leftarrow> h_erase_node rc th al pl eq pu k mixed (so_key_of mixed) t;
       Some (case r of Inl e \<Rightarrow> Inl e | Inr b \<Rightarrow> Inr (if b then 1 else 0), t)
     }"

definition umap_clear :: "('act, 'r) reclaimer_ops \<Rightarrow> thread \<Rightarrow> ('k, 'v, 'r) htable \<Rightarrow> ('k, 'v, 'r) htable option" where
  "umap_clear rc th t = table_clear rc th t"

subsection \<open>Lookup\<close>

definition umap_find ::
  "('act, 'r) reclaimer_ops \<Rightarrow> ('k \<Rightarrow> u64) \<Rightarrow> ('k \<Rightarrow> 'k \<Rightarrow> bool) \<Rightarrow> thread \<Rightarrow> allocs \<Rightarrow> 'k \<times> 'v \<Rightarrow> ptr \<Rightarrow> 'k \<Rightarrow>
   'k \<Rightarrow> ('k, 'v, 'r) htable \<Rightarrow> ((exn + 'k uiter) \<times> ('k, 'v, 'r) htable) option" where
  "umap_find rc hash eq th al pl self dk k t =
     do {
       let mixed = mixed_hash hash k;
       let sk = so_key_of mixed;
       (r, t) \<leftarrow> h_find_node rc th al pl eq k mixed sk t;
       Some (case r of
           Inl e \<Rightarrow> Inl e
         | Inr res \<Rightarrow> Inr (if res \<noteq> None then uiter_at self k mixed sk else uiter_end self dk), t)
     }"

definition umap_contains ::
  "('act, 'r) reclaimer_ops \<Rightarrow> ('k \<Rightarrow> u64) \<Rightarrow> ('k \<Rightarrow> 'k \<Rightarrow> bool) \<Rightarrow> thread \<Rightarrow> allocs \<Rightarrow> 'k \<times> 'v \<Rightarrow>
   'k \<Rightarrow> ('k, 'v, 'r) htable \<Rightarrow> ((exn + bool) \<times> ('k, 'v, 'r) htable) option" where
  "umap_contains rc hash eq th al pl k t =
     do {
       let mixed = mixed_hash hash k;
       (r, t) \<leftarrow> h_find_node rc th al pl eq k mixed (so_key_of mixed) t;
       Some (case r of Inl e \<Rightarrow> Inl e | Inr res \<Rightarrow> Inr (res \<noteq> None), t)
     }"

definition umap_count ::
  "('act, 'r) reclaimer_ops \<Rightarrow> ('k \<Rightarrow> u64) \<Rightarrow> ('k \<Rightarrow> 'k \<Rightarrow> bool) \<Rightarrow> thread \<Rightarrow> allocs \<Rightarrow> 'k \<times> 'v \<Rightarrow>
   'k \<Rightarrow> ('k, 'v, 'r) htable \<Rightarrow> ((exn + u64) \<times> ('k, 'v, 'r) htable) option" where
  "umap_count rc hash eq th al pl k t =
     do { (r, t) \<leftarrow> umap_contains rc hash eq th al pl k t;
          Some (case r of Inl e \<Rightarrow> Inl e | Inr b \<Rightarrow> Inr (if b then 1 else 0), t) }"

definition umap_at ::
  "('act, 'r) reclaimer_ops \<Rightarrow> ('k \<Rightarrow> u64) \<Rightarrow> ('k \<Rightarrow> 'k \<Rightarrow> bool) \<Rightarrow> thread \<Rightarrow> allocs \<Rightarrow> 'k \<times> 'v \<Rightarrow>
   'k \<Rightarrow> ('k, 'v, 'r) htable \<Rightarrow> ((exn + ptr) \<times> ('k, 'v, 'r) htable) option" where
  "umap_at rc hash eq th al pl k t =
     do {
       let mixed = mixed_hash hash k;
       (r, t) \<leftarrow> h_find_value_ptr rc th al pl eq k mixed (so_key_of mixed) t;
       Some (case r of Inl e \<Rightarrow> Inl e | Inr p \<Rightarrow> if p = 0 then Inl Out_of_range else Inr p, t)
     }"

subsection \<open>Iterators\<close>

definition umap_begin ::
  "('act, 'r) reclaimer_ops \<Rightarrow> ptr \<Rightarrow> 'k \<Rightarrow> ('k, 'v, 'r) htable \<Rightarrow> ('k uiter \<times> ('k, 'v, 'r) htable) option" where
  "umap_begin rc self dk t =
     do { (info, t) \<leftarrow> h_first_node rc t;
          Some (case info of Some i \<Rightarrow> uiter_at self (i_key i) (i_mixed i) (i_sk i) | None \<Rightarrow> uiter_end self dk, t) }"

definition uiter_eq :: "('k \<Rightarrow> 'k \<Rightarrow> bool) \<Rightarrow> 'k uiter \<Rightarrow> 'k uiter \<Rightarrow> bool" where
  "uiter_eq eq i j =
     (if u_owner i \<noteq> u_owner j \<or> u_is_end i \<noteq> u_is_end j then False
      else if u_is_end i then True
      else u_sk i = u_sk j \<and> eq (u_key i) (u_key j))"

definition uiter_neq :: "('k \<Rightarrow> 'k \<Rightarrow> bool) \<Rightarrow> 'k uiter \<Rightarrow> 'k uiter \<Rightarrow> bool" where
  "uiter_neq eq i j = (\<not> uiter_eq eq i j)"

definition uiter_resolve ::
  "('act, 'r) reclaimer_ops \<Rightarrow> ('k \<Rightarrow> 'k \<Rightarrow> bool) \<Rightarrow> thread \<Rightarrow> allocs \<Rightarrow> 'k \<times> 'v \<Rightarrow> 'k uiter \<Rightarrow> ('k, 'v, 'r) htable \<Rightarrow>
   ((exn + ptr) \<times> ('k, 'v, 'r) htable) option" where
  "uiter_resolve rc eq th al pl i t = h_find_value_ptr rc th al pl eq (u_key i) (u_mixed i) (u_sk i) t"

text \<open>\<open>operator*\<close>: undefined when the key is gone (the null pointer is dereferenced).\<close>

definition uiter_deref ::
  "('act, 'r) reclaimer_ops \<Rightarrow> ('k \<Rightarrow> 'k \<Rightarrow> bool) \<Rightarrow> thread \<Rightarrow> allocs \<Rightarrow> 'k \<times> 'v \<Rightarrow> 'k uiter \<Rightarrow> ('k, 'v, 'r) htable \<Rightarrow>
   ((exn + 'k \<times> 'v) \<times> ('k, 'v, 'r) htable) option" where
  "uiter_deref rc eq th al pl i t =
     do {
       (r, t) \<leftarrow> uiter_resolve rc eq th al pl i t;
       case r of
         Inl e \<Rightarrow> Some (Inl e, t)
       | Inr p \<Rightarrow> do { nd \<leftarrow> hnode_at t p; Some (Inr (d_key nd, d_value nd), t) }
     }"

definition uiter_advance ::
  "('act, 'r) reclaimer_ops \<Rightarrow> ('k \<Rightarrow> 'k \<Rightarrow> bool) \<Rightarrow> thread \<Rightarrow> allocs \<Rightarrow> 'k \<times> 'v \<Rightarrow> 'k uiter \<Rightarrow> ('k, 'v, 'r) htable \<Rightarrow>
   ((exn + 'k uiter) \<times> ('k, 'v, 'r) htable) option" where
  "uiter_advance rc eq th al pl i t =
     do {
       (r, t) \<leftarrow> h_next_node rc th al pl eq (u_mixed i) (u_sk i) (u_key i) t;
       Some (case r of
           Inl e \<Rightarrow> Inl e
         | Inr (Some n) \<Rightarrow> Inr (i\<lparr>u_key := i_key n, u_mixed := i_mixed n, u_sk := i_sk n\<rparr>)
         | Inr None \<Rightarrow> Inr (i\<lparr>u_is_end := True\<rparr>), t)
     }"

definition uiter_post_inc ::
  "('act, 'r) reclaimer_ops \<Rightarrow> ('k \<Rightarrow> 'k \<Rightarrow> bool) \<Rightarrow> thread \<Rightarrow> allocs \<Rightarrow> 'k \<times> 'v \<Rightarrow> 'k uiter \<Rightarrow> ('k, 'v, 'r) htable \<Rightarrow>
   ((exn + 'k uiter \<times> 'k uiter) \<times> ('k, 'v, 'r) htable) option" where
  "uiter_post_inc rc eq th al pl i t =
     do { let tmp = i;
          (r, t) \<leftarrow> uiter_advance rc eq th al pl i t;
          Some (map_sum id (Pair tmp) r, t) }"

definition to_uiter :: "'k uiter \<Rightarrow> 'k uiter" where
  "to_uiter c = uiter_at (u_owner c) (u_key c) (u_mixed c) (u_sk c)"

definition umap_erase_at ::
  "(table_act, 'r) reclaimer_ops \<Rightarrow> ('k \<Rightarrow> 'k \<Rightarrow> bool) \<Rightarrow> thread \<Rightarrow> allocs \<Rightarrow> push \<Rightarrow> 'k \<times> 'v \<Rightarrow> 'k uiter \<Rightarrow>
   ('k, 'v, 'r) htable \<Rightarrow> ((exn + 'k uiter) \<times> ('k, 'v, 'r) htable) option" where
  "umap_erase_at rc eq th al pu pl pos t =
     do {
       let nxt = to_uiter pos;
       (r, t) \<leftarrow> uiter_advance rc eq th al pl nxt t;
       case r of
         Inl e \<Rightarrow> Some (Inl e, t)
       | Inr nxt \<Rightarrow>
           if \<not> u_is_end pos then do {
             (r, t) \<leftarrow> h_erase_node rc th al pl eq pu (u_key pos) (u_mixed pos) (u_sk pos) t;
             Some (case r of Inl e \<Rightarrow> Inl e | Inr _ \<Rightarrow> Inr nxt, t)
           }
           else Some (Inr nxt, t)
     }"

text \<open>A loop \<open>for (it = begin(); it != end(); ++it)\<close> that collects \<open>*it\<close>, at most \<open>n\<close> steps.\<close>

fun uiter_collect ::
  "('act, 'r) reclaimer_ops \<Rightarrow> ('k \<Rightarrow> 'k \<Rightarrow> bool) \<Rightarrow> thread \<Rightarrow> allocs \<Rightarrow> 'k \<times> 'v \<Rightarrow> nat \<Rightarrow> 'k uiter \<Rightarrow>
   ('k, 'v, 'r) htable \<Rightarrow> ((exn + ('k \<times> 'v) list \<times> 'k uiter) \<times> ('k, 'v, 'r) htable) option" where
  "uiter_collect rc eq th al pl 0 i t = Some (Inr ([], i), t)"
| "uiter_collect rc eq th al pl (Suc n) i t =
     (if uiter_neq eq i (uiter_end (u_owner i) (u_key i)) then do {
        (r, t) \<leftarrow> uiter_deref rc eq th al pl i t;
        case r of
          Inl e \<Rightarrow> Some (Inl e, t)
        | Inr e \<Rightarrow> do {
            (r, t) \<leftarrow> uiter_advance rc eq th al pl i t;
            case r of
              Inl x \<Rightarrow> Some (Inl x, t)
            | Inr i \<Rightarrow> do {
                (r, t) \<leftarrow> uiter_collect rc eq th al pl n i t;
                Some (map_sum id (apfst ((#) e)) r, t)
              }
          }
      }
      else Some (Inr ([], i), t))"

end
