(* ===== verification/UMapSpec.thy ===== *)
theory UMapSpec
  imports UMapModel
begin

section \<open>What the unordered containers promise\<close>

text \<open>
  The contents of a container as a function on keys: equal keys (for the key equality the
  container was given) have the same value. \<open>serves\<close> is the engine's invariant between the
  operations of a container; \<open>W\<close> and \<open>V\<close> are the nodes and bucket tables of other containers.
\<close>

definition contents :: "('k \<Rightarrow> 'k \<Rightarrow> bool) \<Rightarrow> ('k, 'v) nodes \<Rightarrow> 'k \<Rightarrow> 'v option" where
  "contents eq ns x = map_option val_at (lookup_node eq x ns)"

definition put_key :: "('k \<Rightarrow> 'k \<Rightarrow> bool) \<Rightarrow> 'k \<Rightarrow> 'v \<Rightarrow> ('k \<Rightarrow> 'v option) \<Rightarrow> 'k \<Rightarrow> 'v option" where
  "put_key eq k v m = (\<lambda>x. if eq k x then Some v else m x)"

definition drop_key :: "('k \<Rightarrow> 'k \<Rightarrow> bool) \<Rightarrow> 'k \<Rightarrow> ('k \<Rightarrow> 'v option) \<Rightarrow> 'k \<Rightarrow> 'v option" where
  "drop_key eq k m = (\<lambda>x. if eq k x then None else m x)"

definition serves ::
  "('r \<Rightarrow> bool) \<Rightarrow> ('r \<Rightarrow> (ptr \<times> table_act) multiset) \<Rightarrow> ('k \<Rightarrow> u64) \<Rightarrow> ('k \<Rightarrow> 'k \<Rightarrow> bool) \<Rightarrow> ptr set \<Rightarrow> ptr set \<Rightarrow>
   ('k, 'v, 'r) htable \<Rightarrow> ('k, 'v) nodes \<Rightarrow> bool" where
  "serves ok pd hash eq W V t ns \<longleftrightarrow> (\<exists>k. table_ok ok pd hash eq W V t k ns) \<and> \<not> h_growing t \<and> load_ok (h_inv_load t)"

definition h_others :: "ptr set \<Rightarrow> ptr set \<Rightarrow> ('k, 'v, 'r) htable \<Rightarrow> ('k, 'v, 'r) htable \<Rightarrow> bool" where
  "h_others W V t t' \<longleftrightarrow> same_on W (h_mem t) (h_mem t') \<and> (\<forall>a \<in> V. \<forall>bt cs. tab_at t a bt cs \<longrightarrow> tab_at t' a bt cs)"

lemma h_others_refl [simp]: "h_others W V t t"
  by (simp add: h_others_def)

lemma h_others_trans: "h_others W V t t' \<Longrightarrow> h_others W V t' t'' \<Longrightarrow> h_others W V t t''"
  by (auto simp: h_others_def intro: same_on_trans)

lemma h_others_mono: "h_others W V t t' \<Longrightarrow> W' \<subseteq> W \<Longrightarrow> V' \<subseteq> V \<Longrightarrow> h_others W' V' t t'"
  by (auto simp: h_others_def intro: same_on_mono)

lemma keeps_others: "keeps W V t t' \<Longrightarrow> h_others W V t t'"
  by (simp add: keeps_def h_others_def)

lemma grown_others: "grown W V t t' \<Longrightarrow> h_others W V t t'"
  by (simp add: grown_def h_others_def)

lemma h_others_count [simp]: "h_others W V t (t'\<lparr>h_count := c\<rparr>) = h_others W V t t'"
  by (simp add: h_others_def)

lemma serves_keeps:
  "serves ok pd hash eq W V t ns \<Longrightarrow> keeps N T t t' \<Longrightarrow> table_ok ok pd hash eq W' V' t' k ns' \<Longrightarrow>
     serves ok pd hash eq W' V' t' ns'"
  by (auto simp: serves_def dest: keeps_members)

subsection \<open>The contents after an insertion and a removal\<close>

lemma lookup_mem:
  assumes "list_ok hash eq ns" and "lawful hash eq"
  shows "lookup_node eq k ns = Some x \<longleftrightarrow> x \<in> set (regulars ns) \<and> eq (key_at x) k"
  using lookup_unique [OF assms] by auto

lemma contents_put:
  assumes ns: "list_ok hash eq ns" and ns': "list_ok hash eq ns'" and law: "lawful hash eq"
    and m: "mset (regulars ns') = add_mset x (mset (regulars ns))"
  shows "contents eq ns' = put_key eq (key_at x) (val_at x) (contents eq ns)"
proof
  fix y
  have set: "set (regulars ns') = insert x (set (regulars ns))" using arg_cong [OF m, of set_mset] by simp
  show "contents eq ns' y = put_key eq (key_at x) (val_at x) (contents eq ns) y"
  proof (cases "eq (key_at x) y")
    case True
    then have "lookup_node eq y ns' = Some x" unfolding lookup_mem [OF ns' law] set by simp
    then show ?thesis using True by (simp add: contents_def put_key_def)
  next
    case False
    have "lookup_node eq y ns' = Some z \<longleftrightarrow> lookup_node eq y ns = Some z" for z
      unfolding lookup_mem [OF ns' law] lookup_mem [OF ns law] set using False by auto
    then have "lookup_node eq y ns' = lookup_node eq y ns" by (metis option.exhaust)
    then show ?thesis using False by (simp add: contents_def put_key_def)
  qed
qed

lemma contents_drop:
  assumes ns: "list_ok hash eq ns" and ns': "list_ok hash eq ns'" and law: "lawful hash eq"
    and m: "mset (regulars ns) = add_mset x (mset (regulars ns'))" and x: "lookup_node eq k ns = Some x"
  shows "contents eq ns' = drop_key eq k (contents eq ns)"
proof
  fix y
  have set: "set (regulars ns) = insert x (set (regulars ns'))" using arg_cong [OF m, of set_mset] by simp
  have xk: "eq (key_at x) k" using x lookup_mem [OF ns law] by blast
  have d: "distinct (regulars ns)" using ns by (auto simp: list_ok_def distinct_map intro: distinct_filter)
  then have "distinct (x # regulars ns')" using mset_eq_imp_distinct_iff [of "regulars ns" "x # regulars ns'"] m by simp
  then have out: "x \<notin> set (regulars ns')" by simp
  show "contents eq ns' y = drop_key eq k (contents eq ns) y"
  proof (cases "eq k y")
    case True
    have "lookup_node eq y ns' \<noteq> Some z" for z
    proof
      assume "lookup_node eq y ns' = Some z"
      then have z: "z \<in> set (regulars ns')" "eq (key_at z) y" unfolding lookup_mem [OF ns' law] by simp_all
      then have "lookup_node eq k ns = Some z"
        unfolding lookup_mem [OF ns law] set using lawfulD(2,4) [OF law] True by blast
      then show False using x z(1) out by simp
    qed
    then have "lookup_node eq y ns' = None" by (metis option.exhaust)
    then show ?thesis using True by (simp add: contents_def drop_key_def)
  next
    case False
    have "\<not> eq (key_at x) y" using False xk lawfulD(2,4) [OF law] by blast
    then have "lookup_node eq y ns' = Some z \<longleftrightarrow> lookup_node eq y ns = Some z" for z
      unfolding lookup_mem [OF ns' law] lookup_mem [OF ns law] set by auto
    then have "lookup_node eq y ns' = lookup_node eq y ns" by (metis option.exhaust)
    then show ?thesis using False by (simp add: contents_def drop_key_def)
  qed
qed

lemma contents_same: "regulars ns' = regulars ns \<Longrightarrow> contents eq ns' = contents eq ns"
  by (simp add: contents_def lookup_node_def fun_eq_iff)

lemma contents_None: "contents eq ns k = None \<longleftrightarrow> lookup_node eq k ns = None"
  by (simp add: contents_def)

subsection \<open>Assigning a value\<close>

definition set_val :: "ptr \<Rightarrow> 'v \<Rightarrow> ptr \<times> ('k, 'v) item \<Rightarrow> ptr \<times> ('k, 'v) item" where
  "set_val p v x = (fst x, sok x, key_at x, if fst x = p then v else val_at x, snd (snd (snd (snd x))))"

lemma set_val_simps [simp]:
  "fst (set_val p v x) = fst x" "sok (set_val p v x) = sok x" "key_at (set_val p v x) = key_at x"
  "val_at (set_val p v x) = (if fst x = p then v else val_at x)" "regular (set_val p v x) = regular x"
  by (simp_all add: set_val_def regular_def)

lemma map_set_val [simp]:
  "map fst (map (set_val p v) ns) = map fst ns" "addrs (map (set_val p v) ns) = addrs ns"
  "hd_ptr (map (set_val p v) ns) q = hd_ptr ns q" "regulars (map (set_val p v) ns) = map (set_val p v) (regulars ns)"
proof -
  show "map fst (map (set_val p v) ns) = map fst ns" by simp
  show "addrs (map (set_val p v) ns) = addrs ns" by force
  show "hd_ptr (map (set_val p v) ns) q = hd_ptr ns q" by (cases ns) (auto simp: set_val_def)
  show "regulars (map (set_val p v) ns) = map (set_val p v) (regulars ns)" by (simp add: filter_map o_def)
qed

lemma set_val_other: "p \<notin> addrs ns \<Longrightarrow> map (set_val p v) ns = ns"
  by (rule map_idI) (auto simp: set_val_def)

lemma lseg_set_val:
  assumes "lseg t ns q" and "distinct (map fst ns)" and "hnode_at t p = Some nd"
  shows "lseg (put_hnode p (nd\<lparr>d_value := v\<rparr>) t) (map (set_val p v) ns) q"
  using assms
proof (induction ns)
  case (Cons x ns)
  obtain a d where x: "x = (a, d)" by (cases x)
  have p0: "p \<noteq> 0" using Cons.prems(3) by auto
  show ?case
  proof (cases "a = p")
    case True
    then have "p \<notin> addrs ns" using Cons.prems(2) by (auto simp: x)
    then have "map (set_val p v) (x # ns) = (a, fst d, fst (snd d), v, snd (snd (snd d))) # ns"
      using True by (simp add: x set_val_other) (simp add: set_val_def)
    then show ?thesis using Cons.prems True p0 \<open>p \<notin> addrs ns\<close> by (simp add: x mk_hnode_def)
  next
    case False
    then have "set_val p v (a, d) = (a, d)" by (simp add: set_val_def)
    then show ?thesis using Cons False by (simp add: x)
  qed
qed simp

lemma list_ok_set_val: "list_ok hash eq ns \<Longrightarrow> list_ok hash eq (map (set_val p v) ns)"
  unfolding list_ok_def in_order_def sorted_wrt_map by (simp add: o_def)

lemma cells_ok_set_val: "cells_ok ns k cs \<Longrightarrow> cells_ok (map (set_val p v) ns) k cs"
proof -
  assume c: "cells_ok ns k cs"
  have "\<exists>d. (a, d) \<in> set (map (set_val p v) ns) \<and> fst d = y" if "(a, e) \<in> set ns" "fst e = y" for a e y
  proof -
    have "set_val p v (a, e) \<in> set (map (set_val p v) ns)" using that(1) by simp
    then show ?thesis using that(2) by (intro exI [of _ "snd (set_val p v (a, e))"]) (simp add: set_val_def)
  qed
  then show ?thesis using c unfolding cells_ok_def by (auto simp: hd_map)
qed

lemma table_ok_assign:
  assumes T: "table_ok ok pd hash eq W V t k ns" and p: "p \<in> addrs ns" "hnode_at t p = Some nd"
  shows "table_ok ok pd hash eq W V (put_hnode p (nd\<lparr>d_value := v\<rparr>) t) k (map (set_val p v) ns)"
proof -
  have "store_ok ok pd (put_hnode p (nd\<lparr>d_value := v\<rparr>) t) (addrs ns \<union> W) (insert (h_table t) V)"
    by (rule store_put [OF table_okD(5) [OF T] _ p(2)]) (use p(1) in simp_all)
  moreover have "\<exists>bt cs. tab_at t (h_table t) bt cs \<and> bt_size bt = 2 ^ k \<and> cells_ok (map (set_val p v) ns) k cs"
    using table_okD(10) [OF T] by (metis cells_ok_set_val)
  ultimately show ?thesis
    using lseg_set_val [OF table_okD(1,9) [OF T] p(2)] list_ok_set_val [OF table_okD(2) [OF T]] table_okD [OF T]
    unfolding table_ok_def map_set_val by simp
qed

lemma lookup_set_val: "lookup_node eq k (map (set_val p v) ns) = map_option (set_val p v) (lookup_node eq k ns)"
proof -
  have "find P (map (set_val p v) xs) = map_option (set_val p v) (find (P \<circ> set_val p v) xs)" for P and xs :: "('a, 'b) nodes"
    by (induction xs) auto
  then show ?thesis by (simp add: lookup_node_def o_def)
qed

lemma contents_assign:
  assumes ns: "list_ok hash eq ns" and law: "lawful hash eq" and x: "lookup_node eq k ns = Some x"
  shows "contents eq (map (set_val (fst x) v) ns) = put_key eq k v (contents eq ns)"
proof
  fix y
  have xm: "x \<in> set (regulars ns)" "eq (key_at x) k" using x lookup_mem [OF ns law] by blast+
  have d: "distinct (map fst ns)" using ns by (simp add: list_ok_def)
  show "contents eq (map (set_val (fst x) v) ns) y = put_key eq k v (contents eq ns) y"
  proof (cases "eq k y")
    case True
    have "lookup_node eq y ns = Some x" using xm lawfulD(4) [OF law _ True] lookup_mem [OF ns law] by blast
    then show ?thesis using True by (simp add: contents_def lookup_set_val put_key_def)
  next
    case False
    show ?thesis
    proof (cases "lookup_node eq y ns")
      case None
      then show ?thesis using False by (simp add: contents_def lookup_set_val put_key_def)
    next
      case (Some z)
      then have z: "z \<in> set (regulars ns)" "eq (key_at z) y" using lookup_mem [OF ns law] by blast+
      have "fst z \<noteq> fst x"
      proof
        assume "fst z = fst x"
        then have "z = x" using d xm(1) z(1) by (metis filter_is_subset in_mono distinct_map inj_onD)
        then show False using False xm(2) z(2) lawfulD(2,4) [OF law] by blast
      qed
      then show ?thesis using False Some by (simp add: contents_def lookup_set_val put_key_def)
    qed
  qed
qed

subsection \<open>The steps of an operation\<close>

lemma servesE:
  assumes "serves ok pd hash eq W V t ns"
  obtains k where "table_ok ok pd hash eq W V t k ns" "\<not> h_growing t" "load_ok (h_inv_load t)" "list_ok hash eq ns"
  using assms unfolding serves_def by (auto dest: table_okD(2))

lemma serves_settled:
  assumes "serves ok pd hash eq W V t ns" and "settled ok pd hash eq W V k ns t t'"
  shows "h_others W V t t' \<and> (\<exists>ns'. serves ok pd hash eq W V t' ns' \<and> regulars ns' = regulars ns)"
  using assms by (auto simp: settled_def intro: keeps_others serves_keeps)

context table_reclaimer
begin

lemma u_alloc:
  assumes S: "serves ok pd hash eq W V t ns" and al: "allocs_ok al"
  shows "returns (alloc_hnode th al pl t) (\<lambda>(r, t'). h_others W V t t' \<and>
    (case r of Inl e \<Rightarrow> e = Bad_alloc \<and> starved al t' \<and> serves ok pd hash eq W V t' ns
     | Inr n \<Rightarrow> n \<notin> W \<and> serves ok pd hash eq (insert n W) V t' ns \<and>
         (\<exists>ow. hnode_at t' n = Some (mk_hnode 0 (0, fst pl, snd pl, ow)))))"
  using S
proof (rule servesE)
  fix k
  assume T: "table_ok ok pd hash eq W V t k ns"
  show ?thesis
  proof (rule returns_mono [OF table_alloc [OF T al]], clarify)
    fix r t'
    assume k: "keeps W (insert (h_table t) V) t t'" and r: "case r of Inl e \<Rightarrow> e = Bad_alloc \<and> starved al t' \<and> table_ok ok pd hash eq W V t' k ns
     | Inr a \<Rightarrow> a \<notin> W \<and> table_ok ok pd hash eq (insert a W) V t' k ns \<and>
         hnode_at t' a = Some (mk_hnode 0 (0, fst pl, snd pl, h_na t))"
    have kV: "keeps W V t t'" by (rule keeps_mono [OF k]) auto
    show "h_others W V t t' \<and>
      (case r of Inl e \<Rightarrow> e = Bad_alloc \<and> starved al t' \<and> serves ok pd hash eq W V t' ns
       | Inr n \<Rightarrow> n \<notin> W \<and> serves ok pd hash eq (insert n W) V t' ns \<and>
           (\<exists>ow. hnode_at t' n = Some (mk_hnode 0 (0, fst pl, snd pl, ow))))"
      using keeps_others [OF kV] r serves_keeps [OF S kV] by (auto split: sum.splits)
  qed
qed

lemma u_construct:
  assumes S: "serves ok pd hash eq W V t ns" and n: "n \<in> W" "hnode_at t n = Some (mk_hnode z (s0, k0, v0, ow))"
  shows "returns (construct_hpayload n k v t) (\<lambda>t'. h_others (W - {n}) V t t' \<and> serves ok pd hash eq W V t' ns \<and>
    hnode_at t' n = Some (mk_hnode z (s0, k, v, ow)))"
  using S
proof (rule servesE)
  fix j
  assume T: "table_ok ok pd hash eq W V t j ns" "\<not> h_growing t" "load_ok (h_inv_load t)"
  let ?nd = "mk_hnode z (s0, k, v, ow)"
  note p = table_ok_put [OF T(1) n, of ?nd]
  have "serves ok pd hash eq W V (put_hnode n ?nd t) ns"
    using serves_def T(2,3) p(1) by (auto simp: serves_def put_hnode_def)
  moreover have "n \<noteq> 0" using n(2) by (auto dest: load_SomeD)
  moreover have "construct_hpayload n k v t = Some (put_hnode n ?nd t)" using n(2) by (simp add: construct_hpayload_def mk_hnode_def)
  ultimately show ?thesis using keeps_others [OF p(2), of V] by auto
qed

lemma u_destroy:
  assumes S: "serves ok pd hash eq (insert n W) V t ns" and n: "n \<notin> W"
  shows "returns (destroy_hnode th n t) (\<lambda>t'. h_others W V t t' \<and> serves ok pd hash eq W V t' ns)"
  using S
proof (rule servesE)
  fix k
  assume T: "table_ok ok pd hash eq (insert n W) V t k ns"
  have out: "n \<notin> addrs ns \<union> W" using n table_okD(3) [OF T] by auto
  have "store_ok ok pd t (insert n (addrs ns \<union> W)) (insert (h_table t) V)" using table_okD(5) [OF T] by simp
  from store_free [OF this out, of th] show ?thesis
    unfolding destroy_hnode_def
  proof (rule returns_mono, elim conjE)
    fix t'
    assume s: "store_ok ok pd t' (addrs ns \<union> W) (insert (h_table t) V)" and k: "keeps (addrs ns \<union> W) (insert (h_table t) V) t t'"
    have T0: "lseg t ns 0" "list_ok hash eq ns" using table_okD(1,2) [OF T] .
    have "lseg t' ns 0" using T0(1) keeps_lseg [OF k, of ns 0] by simp
    moreover have "\<exists>bt cs. tab_at t' (h_table t) bt cs \<and> bt_size bt = 2 ^ k \<and> cells_ok ns k cs"
      using table_okD(10) [OF T] keeps_tab [OF k, of "h_table t"] by blast
    ultimately have T': "table_ok ok pd hash eq W V t' k ns"
      using table_okD [OF T] keeps_members [OF k] s by (simp add: table_ok_def)
    have kW: "keeps W V t t'" by (rule keeps_mono [OF k]) auto
    show "h_others W V t t' \<and> serves ok pd hash eq W V t' ns"
      using keeps_others [OF kW] S T' keeps_members [OF kW] by (auto simp: serves_def)
  qed
qed

lemma u_insert:
  assumes S: "serves ok pd hash eq (insert n W) V t ns" and n: "n \<notin> W" "hnode_at t n = Some (mk_hnode z (s0, key, v, ow))"
    and al: "allocs_ok al" and law: "lawful hash eq"
  shows "returns (h_insert_node rc th al pl eq n (mixed_hash hash key) (so_key_of (mixed_hash hash key)) key t) (\<lambda>(r, t').
    h_others W V t t' \<and> (case r of
      Inl e \<Rightarrow> e = Bad_alloc \<and> starved al t' \<and>
        (\<exists>ns'. serves ok pd hash eq (insert n W) V t' ns' \<and> regulars ns' = regulars ns)
    | Inr False \<Rightarrow> lookup_node eq key ns \<noteq> None \<and>
        (\<exists>ns'. serves ok pd hash eq (insert n W) V t' ns' \<and> regulars ns' = regulars ns)
    | Inr True \<Rightarrow> lookup_node eq key ns = None \<and> (\<exists>ns' x. serves ok pd hash eq W V t' ns' \<and>
        fst x = n \<and> key_at x = key \<and> val_at x = v \<and> mset (regulars ns') = add_mset x (mset (regulars ns)))))"
  using S
proof (rule servesE)
  fix k
  assume T: "table_ok ok pd hash eq (insert n W) V t k ns" "\<not> h_growing t" "load_ok (h_inv_load t)"
  show ?thesis
  proof (rule returns_mono [OF h_insert_node_spec [OF T(1) n al law refl refl]], clarify, goal_cases)
    case (1 r t')
    consider (throw) e where "r = Inl e" | (dup) "r = Inr False" | (new) "r = Inr True" by (cases r) auto
    then show ?case
    proof cases
      case throw
      then obtain ns' where "e = Bad_alloc" "starved al t'" "keeps W V t t'"
        "table_ok ok pd hash eq (insert n W) V t' k ns'" "regulars ns' = regulars ns" using 1 by auto
      then show ?thesis using throw keeps_others serves_keeps [OF S] by fastforce
    next
      case dup
      then obtain ns' where "lookup_node eq key ns \<noteq> None" "keeps W V t t'"
        "table_ok ok pd hash eq (insert n W) V t' k ns'" "regulars ns' = regulars ns" using 1 by auto
      then show ?thesis using dup keeps_others serves_keeps [OF S] by fastforce
    next
      case new
      then obtain t3 ns' where 2: "lookup_node eq key ns = None" "t' = t3\<lparr>h_count := h_count t3 + 1\<rparr>" "keeps W V t t3"
        "table_ok ok pd hash eq W V t' k ns'"
        "mset (regulars ns') = add_mset (n, so_key_of (mixed_hash hash key), key, v, ow) (mset (regulars ns))"
        using 1 by auto
      have "serves ok pd hash eq W V t' ns'"
        using 2(2,4) T(2,3) keeps_members [OF 2(3)] by (auto simp: serves_def)
      then show ?thesis using new 2 keeps_others [OF 2(3)] by auto
    qed
  qed
qed

lemma u_grow:
  assumes S: "serves ok pd hash eq W V t ns" and al: "allocs_ok al"
  shows "returns (maybe_grow rc th al pu t) (\<lambda>(r, t'). h_others W V t t' \<and> (case r of
      Inl e \<Rightarrow> e = Bad_alloc \<and> (starved al t' \<and> serves ok pd hash eq W V t' ns \<or>
        (\<exists>p a. pu p \<noteq> Push_ok \<and> serves ok pd hash eq W (insert a V) t' ns))
    | Inr _ \<Rightarrow> serves ok pd hash eq W V t' ns))"
  using S
proof (rule servesE)
  fix k
  assume T: "table_ok ok pd hash eq W V t k ns" "\<not> h_growing t" "load_ok (h_inv_load t)"
  show ?thesis
  proof (rule returns_mono [OF maybe_grow_spec [OF T(1) al T(3,2)]], clarify, goal_cases)
    case (1 r t')
    then show ?case
    proof (rule grow_postE)
      fix k' V'
      assume g: "grown W V t t'" "h_growing t' = h_growing t" "table_ok ok pd hash eq W V' t' k' ns"
        and r: "r = Inr () \<and> V' = V \<and> (False \<longrightarrow> k' = 30) \<or>
          r = Inl Bad_alloc \<and> (starved al t' \<and> V' = V \<or> (\<exists>a. pu a \<noteq> Push_ok \<and> V' = insert a V))"
      have s: "serves ok pd hash eq W V' t' ns" using g T(2,3) by (auto simp: serves_def grown_def)
      from r consider "r = Inr ()" "V' = V" | "r = Inl Bad_alloc" "starved al t'" "V' = V"
        | a where "r = Inl Bad_alloc" "pu a \<noteq> Push_ok" "V' = insert a V" by blast
      then show ?thesis using s grown_others [OF g(1)] by cases auto
    qed
  qed
qed

lemma u_find:
  assumes S: "serves ok pd hash eq W V t ns" and al: "allocs_ok al" and law: "lawful hash eq"
    and m: "so_key_of m = so_key_of (mixed_hash hash key)"
  shows "returns (h_find_node rc th al pl eq key m (so_key_of m) t) (\<lambda>(r, t'). h_others W V t t' \<and>
    (\<exists>ns'. serves ok pd hash eq W V t' ns' \<and> regulars ns' = regulars ns) \<and>
    (case r of Inl e \<Rightarrow> e = Bad_alloc \<and> starved al t' | Inr res \<Rightarrow> res = map_option fst (lookup_node eq key ns)))"
  using S
proof (rule servesE)
  fix k
  assume T: "table_ok ok pd hash eq W V t k ns"
  show ?thesis
    by (rule returns_mono [OF h_find_node_spec [OF T al law m]]) (use serves_settled [OF S] in blast)
qed

lemma guard_serves:
  assumes "serves ok pd hash eq W V t ns"
  shows "serves ok pd hash eq W V (h_guard_in rc t) ns" "h_others W V t (h_guard_in rc t)"
    "serves ok pd hash eq W V (h_guard_out rc t) ns" "h_others W V t (h_guard_out rc t)"
proof -
  obtain k where T: "table_ok ok pd hash eq W V t k ns" using assms servesE by blast
  have r: "hreads t (h_guard_in rc t)" "hreads t (h_guard_out rc t)" using guard_reads table_okD(7) [OF T] by blast+
  show "serves ok pd hash eq W V (h_guard_in rc t) ns" "h_others W V t (h_guard_in rc t)"
    "serves ok pd hash eq W V (h_guard_out rc t) ns" "h_others W V t (h_guard_out rc t)"
    using reads_table [OF T r(1)] reads_table [OF T r(2)] serves_keeps [OF assms] keeps_others by blast+
qed

text \<open>The null pointer stands for an absent key.\<close>

lemma node_ne0: "serves ok pd hash eq W V t ns \<Longrightarrow> x \<in> set ns \<Longrightarrow> fst x \<noteq> 0"
  by (auto elim!: servesE dest!: table_okD(1) dest: lseg_ne0)

lemma u_find_value:
  assumes S: "serves ok pd hash eq W V t ns" and al: "allocs_ok al" and law: "lawful hash eq"
    and m: "so_key_of m = so_key_of (mixed_hash hash key)" and sk: "sk = so_key_of m"
  shows "returns (h_find_value_ptr rc th al pl eq key m sk t) (\<lambda>(r, t'). h_others W V t t' \<and>
    (\<exists>ns'. serves ok pd hash eq W V t' ns' \<and> regulars ns' = regulars ns) \<and>
    (case r of Inl e \<Rightarrow> e = Bad_alloc \<and> starved al t'
     | Inr p \<Rightarrow> (case lookup_node eq key ns of None \<Rightarrow> p = 0 | Some x \<Rightarrow> p = fst x \<and> p \<noteq> 0)))"
proof -
  obtain r t1 ns1 where 1: "h_find_node rc th al pl eq key m sk (h_guard_in rc t) = Some (r, t1)"
    "h_others W V (h_guard_in rc t) t1" "serves ok pd hash eq W V t1 ns1" "regulars ns1 = regulars ns"
    "case r of Inl e \<Rightarrow> e = Bad_alloc \<and> starved al t1 | Inr res \<Rightarrow> res = map_option fst (lookup_node eq key ns)"
    using u_find [OF guard_serves(1) [OF S] al law m, of th pl] unfolding sk by (elim returns_pairE) blast
  have o: "h_others W V t (h_guard_out rc t1)"
    using h_others_trans [OF h_others_trans [OF guard_serves(2) [OF S] 1(2)] guard_serves(4) [OF 1(3)]] .
  have ne: "fst x \<noteq> 0" if "lookup_node eq key ns = Some x" for x
  proof -
    have "list_ok hash eq ns" using S servesE by blast
    from lookup_mem [OF this law, of key x] have "x \<in> set ns" using that by auto
    then show ?thesis using node_ne0 [OF S] by blast
  qed
  show ?thesis
    using 1 o guard_serves(3) [OF 1(3)] ne
    by (auto simp: h_find_value_ptr_def split: sum.splits option.splits)
qed

end

subsection \<open>The operations of the map\<close>

definition umap_ok ::
  "('r \<Rightarrow> bool) \<Rightarrow> ('r \<Rightarrow> (ptr \<times> table_act) multiset) \<Rightarrow> ('k \<Rightarrow> u64) \<Rightarrow> ('k \<Rightarrow> 'k \<Rightarrow> bool) \<Rightarrow> ptr set \<Rightarrow> ptr set \<Rightarrow>
   ('k, 'v, 'r) htable \<Rightarrow> ('k \<Rightarrow> 'v option) \<Rightarrow> bool" where
  "umap_ok ok pd hash eq W V t m \<longleftrightarrow> (\<exists>ns. serves ok pd hash eq W V t ns \<and> contents eq ns = m)"

definition h_refers :: "('k \<Rightarrow> 'k \<Rightarrow> bool) \<Rightarrow> ('k, 'v, 'r) htable \<Rightarrow> ptr \<Rightarrow> 'k \<Rightarrow> 'v \<Rightarrow> bool" where
  "h_refers eq t p k v \<longleftrightarrow> (\<exists>nd. hnode_at t p = Some nd \<and> eq (d_key nd) k \<and> d_value nd = v)"

text \<open>
  What is left when \<open>insert_node\<close> or the growth check throws: the new node belongs to nobody, or the
  pair is in the map; in the latter case the old bucket table may be lost.
\<close>

definition insert_thrown ::
  "('r \<Rightarrow> bool) \<Rightarrow> ('r \<Rightarrow> (ptr \<times> table_act) multiset) \<Rightarrow> ('k \<Rightarrow> u64) \<Rightarrow> ('k \<Rightarrow> 'k \<Rightarrow> bool) \<Rightarrow> ptr set \<Rightarrow> ptr set \<Rightarrow>
   allocs \<Rightarrow> (ptr \<Rightarrow> push) \<Rightarrow> ('k, 'v, 'r) htable \<Rightarrow> ('k \<Rightarrow> 'v option) \<Rightarrow> 'k \<Rightarrow> 'v \<Rightarrow> bool" where
  "insert_thrown ok pd hash eq W V al pu t m k v \<longleftrightarrow>
     starved al t \<and> (\<exists>n. n \<notin> W \<and> umap_ok ok pd hash eq (insert n W) V t m) \<or>
     m k = None \<and> starved al t \<and> umap_ok ok pd hash eq W V t (put_key eq k v m) \<or>
     m k = None \<and> (\<exists>p a. pu p \<noteq> Push_ok \<and> umap_ok ok pd hash eq W (insert a V) t (put_key eq k v m))"

lemma serves_umap: "serves ok pd hash eq W V t ns' \<Longrightarrow> regulars ns' = regulars ns \<Longrightarrow> umap_ok ok pd hash eq W V t (contents eq ns)"
  unfolding umap_ok_def using contents_same by blast

lemma serves_umap_put:
  assumes "serves ok pd hash eq W V t ns'" and "list_ok hash eq ns" and "lawful hash eq"
    and "mset (regulars ns') = add_mset x (mset (regulars ns))"
  shows "umap_ok ok pd hash eq W V t (put_key eq (key_at x) (val_at x) (contents eq ns))"
  unfolding umap_ok_def using assms contents_put [OF assms(2) _ assms(3,4)] by (blast elim: servesE)

lemma serves_ref:
  assumes "serves ok pd hash eq W V t ns" and "x \<in> set (regulars ns)" and "eq (key_at x) k"
  shows "h_refers eq t (fst x) k (val_at x)"
proof -
  obtain j where "table_ok ok pd hash eq W V t j ns" using assms(1) servesE by blast
  then have l: "lseg t ns 0" using table_okD(1) by blast
  obtain us zs where "ns = us @ x # zs" using assms(2) by (auto dest: split_list)
  with l have "lseg t (x # zs) 0" by simp
  then show ?thesis using assms(3) by (cases x) (simp add: h_refers_def)
qed

context table_reclaimer
begin

lemma emplace_spec:
  assumes U: "umap_ok ok pd hash eq W V t m" and al: "allocs_ok al" and law: "lawful hash eq"
  shows "returns (umap_emplace rc hash eq th al pu pl self args t) (\<lambda>(r, t'). h_others W V t t' \<and>
    (case r of
       Inl x \<Rightarrow> x = Payload_throws \<and> args = None \<and> umap_ok ok pd hash eq W V t' m \<or>
         x = Bad_alloc \<and> starved al t' \<and> umap_ok ok pd hash eq W V t' m \<or>
         x = Bad_alloc \<and> (\<exists>k v. args = Some (k, v) \<and> insert_thrown ok pd hash eq W V al pu t' m k v)
     | Inr (it, b) \<Rightarrow> \<exists>k v. args = Some (k, v) \<and> it = uiter_at self k (mixed_hash hash k) (so_key_of (mixed_hash hash k)) \<and>
         b = (m k = None) \<and> umap_ok ok pd hash eq W V t' (if b then put_key eq k v m else m)))"
proof -
  obtain ns where S: "serves ok pd hash eq W V t ns" and m: "contents eq ns = m" using U by (auto simp: umap_ok_def)
  have lo: "list_ok hash eq ns" using S servesE by blast
  obtain r t1 where 1: "alloc_hnode th al pl t = Some (r, t1)" "h_others W V t t1"
    "case r of Inl e \<Rightarrow> e = Bad_alloc \<and> starved al t1 \<and> serves ok pd hash eq W V t1 ns
     | Inr n \<Rightarrow> n \<notin> W \<and> serves ok pd hash eq (insert n W) V t1 ns \<and>
         (\<exists>ow. hnode_at t1 n = Some (mk_hnode 0 (0, fst pl, snd pl, ow)))"
    using u_alloc [OF S al, of th pl] by (elim returns_pairE) blast
  show ?thesis
  proof (cases r)
    case (Inl e)
    then show ?thesis using 1 serves_umap [OF _ refl, of ok pd hash eq W V t1 ns] by (auto simp: umap_emplace_def m)
  next
    case (Inr n)
    obtain ow where n: "n \<notin> W" "serves ok pd hash eq (insert n W) V t1 ns" "hnode_at t1 n = Some (mk_hnode 0 (0, fst pl, snd pl, ow))"
      using 1(3) Inr by auto
    show ?thesis
    proof (cases args)
      case None
      obtain t2 where "destroy_hnode th n t1 = Some t2" "h_others W V t1 t2" "serves ok pd hash eq W V t2 ns"
        using u_destroy [OF n(2,1), of th] by (auto elim!: returnsE)
      then show ?thesis using 1(1,2) Inr None serves_umap [OF _ refl] h_others_trans by (fastforce simp: umap_emplace_def m)
    next
      case (Some kv)
      obtain k v where kv: "args = Some (k, v)" using Some by (cases kv) auto
      obtain t2 where 2: "construct_hpayload n k v t1 = Some t2" "h_others (insert n W - {n}) V t1 t2"
        "serves ok pd hash eq (insert n W) V t2 ns" "hnode_at t2 n = Some (mk_hnode 0 (0, k, v, ow))"
        using u_construct [OF n(2) insertI1 n(3), of k v] by (auto elim!: returnsE)
      have o2: "h_others W V t t2" using h_others_trans [OF 1(2)] 2(2) n(1) by simp
      let ?m = "mixed_hash hash k" and ?it = "uiter_at self k (mixed_hash hash k) (so_key_of (mixed_hash hash k))"
      obtain r3 t3 where 3: "h_insert_node rc th al pl eq n ?m (so_key_of ?m) k t2 = Some (r3, t3)" "h_others W V t2 t3"
        "case r3 of
          Inl e \<Rightarrow> e = Bad_alloc \<and> starved al t3 \<and> (\<exists>ns'. serves ok pd hash eq (insert n W) V t3 ns' \<and> regulars ns' = regulars ns)
        | Inr False \<Rightarrow> lookup_node eq k ns \<noteq> None \<and> (\<exists>ns'. serves ok pd hash eq (insert n W) V t3 ns' \<and> regulars ns' = regulars ns)
        | Inr True \<Rightarrow> lookup_node eq k ns = None \<and> (\<exists>ns' x. serves ok pd hash eq W V t3 ns' \<and>
            fst x = n \<and> key_at x = k \<and> val_at x = v \<and> mset (regulars ns') = add_mset x (mset (regulars ns)))"
        by (rule returns_pairE [OF u_insert [OF 2(3) n(1) 2(4) al law, of th pl]]) blast
      have o3: "h_others W V t t3" using h_others_trans [OF o2 3(2)] .
      have run: "umap_emplace rc hash eq th al pu pl self args t = (case r3 of
           Inl e \<Rightarrow> Some (Inl e, t3)
         | Inr True \<Rightarrow> do { (r, t) \<leftarrow> maybe_grow rc th al pu t3;
             case r of Inl e \<Rightarrow> Some (Inl e, t) | Inr _ \<Rightarrow> Some (Inr (?it, True), t) }
         | Inr False \<Rightarrow> do { t \<leftarrow> destroy_hnode th n t3; Some (Inr (?it, False), t) })"
        using 1(1) Inr kv 2(1,4) 3(1) by (simp add: umap_emplace_def Let_def cong: sum.case_cong bool.case_cong)
      consider (throw) e where "r3 = Inl e" | (dup) "r3 = Inr False" | (new) "r3 = Inr True" by (cases r3) auto
      then show ?thesis
      proof cases
        case throw
        then have "insert_thrown ok pd hash eq W V al pu t3 m k v" "e = Bad_alloc"
          using 3(3) n(1) serves_umap unfolding insert_thrown_def m [symmetric] by fastforce+
        then show ?thesis using run throw o3 kv by simp
      next
        case dup
        then obtain ns3 where s3: "serves ok pd hash eq (insert n W) V t3 ns3" "regulars ns3 = regulars ns" "m k \<noteq> None"
          using 3(3) contents_None [of eq ns k] m by auto
        obtain t4 where 4: "destroy_hnode th n t3 = Some t4" "h_others W V t3 t4" "serves ok pd hash eq W V t4 ns3"
          using u_destroy [OF s3(1) n(1), of th] by (auto elim!: returnsE)
        have "umap_ok ok pd hash eq W V t4 m" using serves_umap [OF 4(3) s3(2)] by (simp add: m)
        then show ?thesis using run dup 4(1) kv s3(3) h_others_trans [OF o3 4(2)] by auto
      next
        case new
        then obtain ns3 x where s3: "serves ok pd hash eq W V t3 ns3" "fst x = n" "key_at x = k" "val_at x = v"
          "mset (regulars ns3) = add_mset x (mset (regulars ns))" "m k = None"
          using 3(3) contents_None [of eq ns k] m by auto
        have put: "umap_ok ok pd hash eq W V' t' (put_key eq k v m)" if "serves ok pd hash eq W V' t' ns3" for t' V'
          using serves_umap_put [OF that lo law s3(5)] unfolding s3(3,4) m .
        show ?thesis
        proof (rule returns_pairE [OF u_grow [OF s3(1) al, of th pu]], elim conjE)
          fix r4 t4
          assume 4: "maybe_grow rc th al pu t3 = Some (r4, t4)" "h_others W V t3 t4" "case r4 of
            Inl e \<Rightarrow> e = Bad_alloc \<and> (starved al t4 \<and> serves ok pd hash eq W V t4 ns3 \<or>
              (\<exists>p a. pu p \<noteq> Push_ok \<and> serves ok pd hash eq W (insert a V) t4 ns3))
          | Inr _ \<Rightarrow> serves ok pd hash eq W V t4 ns3"
          have o4: "h_others W V t t4" using h_others_trans [OF o3 4(2)] .
          show ?thesis
          proof (cases r4)
            case (Inl e)
            then have "insert_thrown ok pd hash eq W V al pu t4 m k v" "e = Bad_alloc"
              using 4(3) s3(6) put unfolding insert_thrown_def by auto
            then show ?thesis using run new 4(1) Inl o4 kv by simp
          next
            case (Inr u)
            then show ?thesis using run new 4(1,3) o4 kv s3(6) put by simp
          qed
        qed
      qed
    qed
  qed
qed

end

end
