(* ===== verification/UMapOps.thy ===== *)
theory UMapOps
  imports UMapSpec
begin

section \<open>The operations of the unordered map\<close>

text \<open>
  Lookup, assignment, erasure, clearing, construction and destruction against the contents of the
  container, for every reclaimer that meets its contract.
\<close>

context table_reclaimer
begin

subsection \<open>Lookup\<close>

lemma umap_find_spec:
  assumes U: "umap_ok ok pd hash eq W V t m" and al: "allocs_ok al" and law: "lawful hash eq"
  shows "returns (umap_find rc hash eq th al pl self dk k t) (\<lambda>(r, t'). h_others W V t t' \<and> umap_ok ok pd hash eq W V t' m \<and>
    (case r of Inl e \<Rightarrow> e = Bad_alloc \<and> starved al t'
     | Inr i \<Rightarrow> i = (if m k = None then uiter_end self dk else uiter_at self k (mixed_hash hash k) (so_key_of (mixed_hash hash k)))))"
proof -
  obtain ns where S: "serves ok pd hash eq W V t ns" and m: "contents eq ns = m" using U by (auto simp: umap_ok_def)
  note [simp] = m [symmetric] contents_None
  show ?thesis
    by (rule returns_pairE [OF u_find [OF S al law refl, of th pl k]])
       (auto simp: umap_find_def Let_def serves_umap split: sum.splits)
qed

lemma umap_contains_spec:
  assumes U: "umap_ok ok pd hash eq W V t m" and al: "allocs_ok al" and law: "lawful hash eq"
  shows "returns (umap_contains rc hash eq th al pl k t) (\<lambda>(r, t'). h_others W V t t' \<and> umap_ok ok pd hash eq W V t' m \<and>
    (case r of Inl e \<Rightarrow> e = Bad_alloc \<and> starved al t' | Inr b \<Rightarrow> b = (m k \<noteq> None)))"
proof -
  obtain ns where S: "serves ok pd hash eq W V t ns" and m: "contents eq ns = m" using U by (auto simp: umap_ok_def)
  note [simp] = m [symmetric] contents_None
  show ?thesis
    by (rule returns_pairE [OF u_find [OF S al law refl, of th pl k]])
       (auto simp: umap_contains_def Let_def serves_umap contents_def split: sum.splits)
qed

lemma umap_count_spec:
  assumes U: "umap_ok ok pd hash eq W V t m" and al: "allocs_ok al" and law: "lawful hash eq"
  shows "returns (umap_count rc hash eq th al pl k t) (\<lambda>(r, t'). h_others W V t t' \<and> umap_ok ok pd hash eq W V t' m \<and>
    (case r of Inl e \<Rightarrow> e = Bad_alloc \<and> starved al t' | Inr n \<Rightarrow> n = (if m k = None then 0 else 1)))"
  by (rule returns_pairE [OF umap_contains_spec [OF U al law, of th pl k]])
     (auto simp: umap_count_def split: sum.splits)

lemma umap_value_ptr:
  assumes U: "umap_ok ok pd hash eq W V t m" and al: "allocs_ok al" and law: "lawful hash eq"
    and mk: "so_key_of mk = so_key_of (mixed_hash hash k)" "sk = so_key_of mk"
  shows "returns (h_find_value_ptr rc th al pl eq k mk sk t) (\<lambda>(r, t'). h_others W V t t' \<and> umap_ok ok pd hash eq W V t' m \<and>
    (case r of Inl e \<Rightarrow> e = Bad_alloc \<and> starved al t'
     | Inr p \<Rightarrow> (case m k of None \<Rightarrow> p = 0 | Some v \<Rightarrow> p \<noteq> 0 \<and> h_refers eq t' p k v)))"
proof -
  obtain ns where S: "serves ok pd hash eq W V t ns" and m: "contents eq ns = m" using U by (auto simp: umap_ok_def)
  show ?thesis
  proof (rule returns_mono [OF u_find_value [OF S al law mk]], clarify, goal_cases)
    case (1 r t' ns')
    have lo: "list_ok hash eq ns" using S servesE by blast
    have "h_refers eq t' (fst x) k (val_at x)" if "lookup_node eq k ns = Some x" for x
    proof -
      have "x \<in> set (regulars ns)" "eq (key_at x) k" using lookup_mem [OF lo law] that by blast+
      then show ?thesis using serves_ref [OF 1(3), of x k] 1(4) by simp
    qed
    then show ?case using 1 serves_umap [OF 1(3,4)]
      by (auto simp: m [symmetric] contents_def split: sum.splits option.splits)
  qed
qed

lemma umap_at_spec:
  assumes U: "umap_ok ok pd hash eq W V t m" and al: "allocs_ok al" and law: "lawful hash eq"
  shows "returns (umap_at rc hash eq th al pl k t) (\<lambda>(r, t'). h_others W V t t' \<and> umap_ok ok pd hash eq W V t' m \<and>
    (case r of Inl e \<Rightarrow> e = Bad_alloc \<and> starved al t' \<or> e = Out_of_range \<and> m k = None
     | Inr p \<Rightarrow> \<exists>v. m k = Some v \<and> h_refers eq t' p k v))"
  by (rule returns_pairE [OF umap_value_ptr [OF U al law refl refl, of th pl k]])
     (auto simp: umap_at_def Let_def split: sum.splits option.splits)

subsection \<open>Assignment\<close>

lemma umap_assign_spec:
  assumes U: "umap_ok ok pd hash eq W V t m" and al: "allocs_ok al" and law: "lawful hash eq"
  shows "returns (umap_insert_or_assign rc hash eq th al pu pl self moved k obj t) (\<lambda>(r, t'). h_others W V t t' \<and>
    (case r of
       Inl x \<Rightarrow> x = Bad_alloc \<and> (starved al t' \<and> umap_ok ok pd hash eq W V t' m \<or> insert_thrown ok pd hash eq W V al pu t' m k obj)
     | Inr (it, b) \<Rightarrow> it = uiter_at self k (mixed_hash hash k) (so_key_of (mixed_hash hash k)) \<and>
         b = (m k = None) \<and> umap_ok ok pd hash eq W V t' (put_key eq k (if b then obj else moved obj) m)))"
proof (rule returns_pairE [OF emplace_spec [OF U al law, of th pu pl self "Some (k, obj)"]], elim conjE)
  fix r t1
  let ?it = "uiter_at self k (mixed_hash hash k) (so_key_of (mixed_hash hash k))"
  assume run: "umap_emplace rc hash eq th al pu pl self (Some (k, obj)) t = Some (r, t1)" and o1: "h_others W V t t1"
    and r: "case r of
       Inl x \<Rightarrow> x = Payload_throws \<and> Some (k, obj) = None \<and> umap_ok ok pd hash eq W V t1 m \<or>
         x = Bad_alloc \<and> starved al t1 \<and> umap_ok ok pd hash eq W V t1 m \<or>
         x = Bad_alloc \<and> (\<exists>k' v. Some (k, obj) = Some (k', v) \<and> insert_thrown ok pd hash eq W V al pu t1 m k' v)
     | Inr (it, b) \<Rightarrow> \<exists>k' v. Some (k, obj) = Some (k', v) \<and> it = uiter_at self k' (mixed_hash hash k') (so_key_of (mixed_hash hash k')) \<and>
         b = (m k' = None) \<and> umap_ok ok pd hash eq W V t1 (if b then put_key eq k' v m else m)"
  show ?thesis
  proof (cases r)
    case (Inl e)
    then show ?thesis using run o1 r by (auto simp: umap_insert_or_assign_def umap_try_emplace_def)
  next
    case (Inr ib)
    then have ib: "ib = (?it, m k = None)" and U1: "umap_ok ok pd hash eq W V t1 (if m k = None then put_key eq k obj m else m)"
      using r by (cases ib; simp)+
    show ?thesis
    proof (cases "m k = None")
      case True
      then show ?thesis using run o1 Inr ib U1 by (simp add: umap_insert_or_assign_def umap_try_emplace_def)
    next
      case False
      then obtain ns where S: "serves ok pd hash eq W V t1 ns" and m: "contents eq ns = m" using U1 by (auto simp: umap_ok_def)
      have lo: "list_ok hash eq ns" using S servesE by blast
      obtain x where x: "lookup_node eq k ns = Some x" using False m contents_None [of eq ns k] by auto
      obtain r2 t2 ns2 where 2: "h_find_value_ptr rc th al pl eq k (mixed_hash hash k) (so_key_of (mixed_hash hash k)) t1 = Some (r2, t2)"
        "h_others W V t1 t2" "serves ok pd hash eq W V t2 ns2" "regulars ns2 = regulars ns"
        "case r2 of Inl e \<Rightarrow> e = Bad_alloc \<and> starved al t2
         | Inr p \<Rightarrow> (case lookup_node eq k ns of None \<Rightarrow> p = 0 | Some x \<Rightarrow> p = fst x \<and> p \<noteq> 0)"
        using u_find_value [OF S al law refl refl, of th pl k] by (elim returns_pairE) blast
      have o2: "h_others W V t t2" using h_others_trans [OF o1 2(2)] .
      show ?thesis
      proof (cases r2)
        case (Inl e)
        then show ?thesis using run \<open>r = Inr ib\<close> ib False 2(1,5) o2 serves_umap [OF 2(3,4)] m
          by (simp add: umap_insert_or_assign_def umap_try_emplace_def Let_def)
      next
        case (Inr p)
        then have p: "p = fst x" "p \<noteq> 0" using 2(5) x by auto
        have look: "lookup_node eq k ns2 = Some x" using x 2(4) by (simp add: lookup_node_def)
        obtain j where T: "table_ok ok pd hash eq W V t2 j ns2" "\<not> h_growing t2" "load_ok (h_inv_load t2)" "list_ok hash eq ns2"
          using 2(3) servesE by blast
        have xin: "x \<in> set ns2" using look lookup_mem [OF T(4) law] by auto
        obtain nd where nd: "hnode_at t2 p = Some nd"
          using nodes_ok_aligned table_okD(5) [OF T(1)] xin p(1) by (fastforce simp: store_ok_def)
        let ?t3 = "put_hnode p (nd\<lparr>d_value := moved obj\<rparr>) t2"
        have "table_ok ok pd hash eq W V ?t3 j (map (set_val p (moved obj)) ns2)"
          by (rule table_ok_assign [OF T(1) _ nd]) (use xin p(1) in simp)
        then have "serves ok pd hash eq W V ?t3 (map (set_val p (moved obj)) ns2)"
          using T(2,3) by (auto simp: serves_def put_hnode_def)
        moreover have "contents eq (map (set_val p (moved obj)) ns2) = put_key eq k (moved obj) m"
          unfolding p(1) contents_assign [OF T(4) law look] contents_same [OF 2(4)] m ..
        ultimately have U3: "umap_ok ok pd hash eq W V ?t3 (put_key eq k (moved obj) m)"
          unfolding umap_ok_def by (intro exI conjI)
        have "p \<notin> W" using xin p(1) table_okD(3) [OF T(1)] by blast
        then have "h_others W V t ?t3"
          using h_others_trans [OF o2 keeps_others [OF keeps_put]] by blast
        then show ?thesis using run \<open>r = Inr ib\<close> ib False 2(1) Inr p(2) nd U3
          by (simp add: umap_insert_or_assign_def umap_try_emplace_def Let_def assign_hvalue_def)
      qed
    qed
  qed
qed

subsection \<open>Erasure\<close>

text \<open>
  When the retirement of the node throws, the key is gone, the node belongs to nobody and the
  counter is one too large.
\<close>

lemma u_erase:
  assumes U: "umap_ok ok pd hash eq W V t m" and al: "allocs_ok al" and law: "lawful hash eq"
    and mk: "so_key_of mk = so_key_of (mixed_hash hash k)" "sk = so_key_of mk"
  shows "returns (h_erase_node rc th al pl eq pu k mk sk t) (\<lambda>(r, t'). h_others W V t t' \<and>
    (case r of
       Inl e \<Rightarrow> e = Bad_alloc \<and> (starved al t' \<and> umap_ok ok pd hash eq W V t' m \<or>
         pu \<noteq> Push_ok \<and> m k \<noteq> None \<and>
           (\<exists>n. n \<notin> W \<and> umap_ok ok pd hash eq (insert n W) V (t'\<lparr>h_count := h_count t' - 1\<rparr>) (drop_key eq k m)))
     | Inr b \<Rightarrow> b = (m k \<noteq> None) \<and> umap_ok ok pd hash eq W V t' (drop_key eq k m)))"
proof -
  obtain ns where S: "serves ok pd hash eq W V t ns" and m: "contents eq ns = m" using U by (auto simp: umap_ok_def)
  obtain j where T: "table_ok ok pd hash eq W V t j ns" "\<not> h_growing t" "load_ok (h_inv_load t)" "list_ok hash eq ns"
    using S servesE by blast
  have gone: "drop_key eq k m = m" if "lookup_node eq k ns = None"
  proof
    fix y
    have "lookup_node eq y ns \<noteq> Some z" if "eq k y" for z
    proof
      assume "lookup_node eq y ns = Some z"
      then have "z \<in> set (regulars ns)" "eq (key_at z) k"
        using lookup_mem [OF T(4) law] lawfulD(2,4) [OF law] that by blast+
      then show False using \<open>lookup_node eq k ns = None\<close> lookup_mem [OF T(4) law, of k z] by simp
    qed
    then have "eq k y \<longrightarrow> lookup_node eq y ns = None" by (metis option.exhaust)
    then show "drop_key eq k m y = m y" by (auto simp: drop_key_def m [symmetric] contents_def)
  qed
  show ?thesis
  proof (rule returns_pairE [OF h_erase_node_spec [OF T(1) al law mk, of th pl pu]], elim disjE)
    fix r t'
    assume run: "h_erase_node rc th al pl eq pu k mk sk t = Some (r, t')"
      and r: "(r = Inl Bad_alloc \<and> starved al t' \<or> r = Inr False \<and> lookup_node eq k ns = None) \<and> settled ok pd hash eq W V j ns t t'"
    have "h_others W V t t'" "umap_ok ok pd hash eq W V t' m"
      using serves_settled [OF S] r serves_umap m by blast+
    then show ?thesis using run r gone contents_None [of eq ns k] m by auto
  next
    fix r t'
    assume run: "h_erase_node rc th al pl eq pu k mk sk t = Some (r, t')"
      and "\<exists>x t3 ns'. lookup_node eq k ns = Some x \<and> keeps W V t t3 \<and> mset (regulars ns) = add_mset x (mset (regulars ns')) \<and>
        (if pu = Push_ok then r = Inr True \<and> t' = t3\<lparr>h_count := h_count t3 - 1\<rparr> \<and> table_ok ok pd hash eq W V t' j ns'
         else r = Inl Bad_alloc \<and> t' = t3 \<and> table_ok ok pd hash eq (insert (fst x) W) V (t3\<lparr>h_count := h_count t3 - 1\<rparr>) j ns')"
    then obtain x t3 ns' where x: "lookup_node eq k ns = Some x" "keeps W V t t3" "mset (regulars ns) = add_mset x (mset (regulars ns'))"
      and p: "if pu = Push_ok then r = Inr True \<and> t' = t3\<lparr>h_count := h_count t3 - 1\<rparr> \<and> table_ok ok pd hash eq W V t' j ns'
         else r = Inl Bad_alloc \<and> t' = t3 \<and> table_ok ok pd hash eq (insert (fst x) W) V (t3\<lparr>h_count := h_count t3 - 1\<rparr>) j ns'"
      by blast
    have mk': "m k \<noteq> None" using x(1) contents_None [of eq ns k] m by auto
    have k3: "\<not> h_growing t3" "load_ok (h_inv_load t3)" using keeps_members [OF x(2)] T(2,3) by simp_all
    have U': "umap_ok ok pd hash eq W' V t4 (drop_key eq k m)" if "table_ok ok pd hash eq W' V t4 j ns'" "t4 = t3\<lparr>h_count := h_count t3 - 1\<rparr>" for W' t4
    proof -
      have "serves ok pd hash eq W' V t4 ns'" using that k3 by (auto simp: serves_def)
      then show ?thesis using contents_drop [OF T(4) table_okD(2) [OF that(1)] law x(3,1)] m unfolding umap_ok_def by blast
    qed
    have "fst x \<notin> W"
    proof -
      have "x \<in> set ns" using x(1) lookup_mem [OF T(4) law] by auto
      then show ?thesis using table_okD(3) [OF T(1)] by blast
    qed
    then show ?thesis using run p U' mk' keeps_others [OF x(2)] by (auto split: if_splits)
  qed
qed

lemma umap_erase_spec:
  assumes U: "umap_ok ok pd hash eq W V t m" and al: "allocs_ok al" and law: "lawful hash eq"
  shows "returns (umap_erase rc hash eq th al pu pl k t) (\<lambda>(r, t'). h_others W V t t' \<and>
    (case r of
       Inl e \<Rightarrow> e = Bad_alloc \<and> (starved al t' \<and> umap_ok ok pd hash eq W V t' m \<or>
         pu \<noteq> Push_ok \<and> m k \<noteq> None \<and>
           (\<exists>n. n \<notin> W \<and> umap_ok ok pd hash eq (insert n W) V (t'\<lparr>h_count := h_count t' - 1\<rparr>) (drop_key eq k m)))
     | Inr c \<Rightarrow> c = (if m k = None then 0 else 1) \<and> umap_ok ok pd hash eq W V t' (drop_key eq k m)))"
  by (rule returns_pairE [OF u_erase [OF U al law refl refl, of th pl pu k]])
     (auto simp: umap_erase_def Let_def split: sum.splits)

subsection \<open>The index operator\<close>

lemma umap_index_spec:
  assumes U: "umap_ok ok pd hash eq W V t m" and al: "allocs_ok al" and law: "lawful hash eq"
  shows "returns (umap_index rc hash eq th al pu pl dv k t) (\<lambda>(r, t'). h_others W V t t' \<and>
    (case r of
       Inr p \<Rightarrow> (case m k of
           Some v \<Rightarrow> h_refers eq t' p k v \<and> umap_ok ok pd hash eq W V t' m
         | None \<Rightarrow> \<exists>v. dv = Some v \<and> h_refers eq t' p k v \<and> umap_ok ok pd hash eq W V t' (put_key eq k v m))
     | Inl x \<Rightarrow> x = Bad_alloc \<and> starved al t' \<and> umap_ok ok pd hash eq W V t' m \<or>
         x = Bad_alloc \<and> m k = None \<and> (\<exists>v. dv = Some v \<and> insert_thrown ok pd hash eq W V al pu t' m k v) \<or>
         x = Payload_throws \<and> m k = None \<and> dv = None \<and> (\<exists>n. n \<notin> W \<and> umap_ok ok pd hash eq (insert n W) V t' m)))"
proof -
  let ?m = "mixed_hash hash k"
  obtain r t1 where 1: "h_find_value_ptr rc th al pl eq k ?m (so_key_of ?m) t = Some (r, t1)" "h_others W V t t1"
    "umap_ok ok pd hash eq W V t1 m" "case r of Inl e \<Rightarrow> e = Bad_alloc \<and> starved al t1
     | Inr p \<Rightarrow> (case m k of None \<Rightarrow> p = 0 | Some v \<Rightarrow> p \<noteq> 0 \<and> h_refers eq t1 p k v)"
    using umap_value_ptr [OF U al law refl refl, of th pl k] by (elim returns_pairE) blast
  show ?thesis
  proof (cases r)
    case (Inl e)
    then show ?thesis using 1 by (simp add: umap_index_def Let_def)
  next
    case (Inr p)
    show ?thesis
    proof (cases "m k")
      case (Some v)
      then show ?thesis using 1 Inr by (simp add: umap_index_def Let_def)
    next
      case None
      then have p: "p = 0" using 1(4) Inr by simp
      obtain ns where S: "serves ok pd hash eq W V t1 ns" and m: "contents eq ns = m" using 1(3) by (auto simp: umap_ok_def)
      have lo: "list_ok hash eq ns" using S servesE by blast
      have look: "lookup_node eq k ns = None" using None contents_None [of eq ns k] m by simp
      obtain r2 t2 where 2: "alloc_hnode th al pl t1 = Some (r2, t2)" "h_others W V t1 t2"
        "case r2 of Inl e \<Rightarrow> e = Bad_alloc \<and> starved al t2 \<and> serves ok pd hash eq W V t2 ns
         | Inr n \<Rightarrow> n \<notin> W \<and> serves ok pd hash eq (insert n W) V t2 ns \<and>
             (\<exists>ow. hnode_at t2 n = Some (mk_hnode 0 (0, fst pl, snd pl, ow)))"
        using u_alloc [OF S al, of th pl] by (elim returns_pairE) blast
      have o2: "h_others W V t t2" using h_others_trans [OF 1(2) 2(2)] .
      show ?thesis
      proof (cases r2)
        case (Inl e)
        then show ?thesis using 1(1) Inr p 2(1,3) o2 serves_umap [OF _ refl, of ok pd hash eq W V t2 ns] m
          by (simp add: umap_index_def Let_def)
      next
        case (Inr n)
        obtain ow where n: "n \<notin> W" "serves ok pd hash eq (insert n W) V t2 ns" "hnode_at t2 n = Some (mk_hnode 0 (0, fst pl, snd pl, ow))"
          using 2(3) Inr by auto
        show ?thesis
        proof (cases dv)
          case no_value: None
          have "umap_ok ok pd hash eq (insert n W) V t2 m" using serves_umap [OF n(2) refl] by (simp add: m)
          then show ?thesis using 1(1) \<open>r = Inr p\<close> p 2(1) Inr no_value o2 None n(1)
            by (auto simp: umap_index_def Let_def)
        next
          case (Some v)
          obtain t3 where 3: "construct_hpayload n k v t2 = Some t3" "h_others (insert n W - {n}) V t2 t3"
            "serves ok pd hash eq (insert n W) V t3 ns" "hnode_at t3 n = Some (mk_hnode 0 (0, k, v, ow))"
            using u_construct [OF n(2) insertI1 n(3), of k v] by (auto elim!: returnsE)
          have o3: "h_others W V t t3" using h_others_trans [OF o2] 3(2) n(1) by simp
          obtain r4 t4 where 4: "h_insert_node rc th al pl eq n ?m (so_key_of ?m) k t3 = Some (r4, t4)" "h_others W V t3 t4"
            "case r4 of
              Inl e \<Rightarrow> e = Bad_alloc \<and> starved al t4 \<and> (\<exists>ns'. serves ok pd hash eq (insert n W) V t4 ns' \<and> regulars ns' = regulars ns)
            | Inr False \<Rightarrow> lookup_node eq k ns \<noteq> None \<and> (\<exists>ns'. serves ok pd hash eq (insert n W) V t4 ns' \<and> regulars ns' = regulars ns)
            | Inr True \<Rightarrow> lookup_node eq k ns = None \<and> (\<exists>ns' x. serves ok pd hash eq W V t4 ns' \<and>
                fst x = n \<and> key_at x = k \<and> val_at x = v \<and> mset (regulars ns') = add_mset x (mset (regulars ns)))"
            by (rule returns_pairE [OF u_insert [OF 3(3) n(1) 3(4) al law, of th pl]]) blast
          have o4: "h_others W V t t4" using h_others_trans [OF o3 4(2)] .
          have run: "umap_index rc hash eq th al pu pl dv k t = (case r4 of
              Inl e \<Rightarrow> Some (Inl e, t4)
            | Inr True \<Rightarrow> do { (r, t) \<leftarrow> maybe_grow rc th al pu t4; Some (case r of Inl e \<Rightarrow> Inl e | Inr _ \<Rightarrow> Inr n, t) }
            | Inr False \<Rightarrow> do {
                t \<leftarrow> destroy_hnode th n t4;
                (r, t) \<leftarrow> h_find_value_ptr rc th al pl eq k ?m (so_key_of ?m) t;
                case r of Inl e \<Rightarrow> Some (Inl e, t) | Inr p \<Rightarrow> if p = 0 then None else Some (Inr p, t) })"
            using 1(1) \<open>r = Inr p\<close> p 2(1) Inr Some 3(1) 4(1) by (simp add: umap_index_def Let_def)
          consider (throw) e where "r4 = Inl e" | (new) "r4 = Inr True" using 4(3) look by (cases r4) (auto split: bool.splits)
          then show ?thesis
          proof cases
            case throw
            then have "insert_thrown ok pd hash eq W V al pu t4 m k v" "e = Bad_alloc"
              using 4(3) n(1) serves_umap unfolding insert_thrown_def m [symmetric] by fastforce+
            then show ?thesis using run throw o4 Some None by simp
          next
            case new
            then obtain ns4 x where s4: "serves ok pd hash eq W V t4 ns4" "fst x = n" "key_at x = k" "val_at x = v"
              "mset (regulars ns4) = add_mset x (mset (regulars ns))" using 4(3) by auto
            have put: "umap_ok ok pd hash eq W V' t' (put_key eq k v m)" if "serves ok pd hash eq W V' t' ns4" for t' V'
              using serves_umap_put [OF that lo law s4(5)] unfolding s4(3,4) m .
            have "x \<in> set (regulars ns4)" using arg_cong [OF s4(5), of set_mset] by simp
            then have ref: "h_refers eq t' n k v" if "serves ok pd hash eq W V t' ns4" for t'
              using serves_ref [OF that, of x k] s4(2-4) lawfulD(1) [OF law] by simp
            show ?thesis
            proof (rule returns_pairE [OF u_grow [OF s4(1) al, of th pu]], elim conjE)
              fix r5 t5
              assume 5: "maybe_grow rc th al pu t4 = Some (r5, t5)" "h_others W V t4 t5" "case r5 of
                Inl e \<Rightarrow> e = Bad_alloc \<and> (starved al t5 \<and> serves ok pd hash eq W V t5 ns4 \<or>
                  (\<exists>p a. pu p \<noteq> Push_ok \<and> serves ok pd hash eq W (insert a V) t5 ns4))
              | Inr _ \<Rightarrow> serves ok pd hash eq W V t5 ns4"
              have o5: "h_others W V t t5" using h_others_trans [OF o4 5(2)] .
              show ?thesis
              proof (cases r5)
                case (Inl e)
                then have "insert_thrown ok pd hash eq W V al pu t5 m k v" "e = Bad_alloc"
                  using 5(3) None put unfolding insert_thrown_def by auto
                then show ?thesis using run new 5(1) Inl o5 Some None by simp
              next
                case (Inr u)
                then show ?thesis using run new 5(1,3) o5 Some None put ref by simp
              qed
            qed
          qed
        qed
      qed
    qed
  qed
qed

end

subsection \<open>Construction, reservation, clearing and destruction\<close>

lemma fresh_map [simp]: "regulars ns = [] \<Longrightarrow> contents eq ns = (\<lambda>_. None)"
  by (simp add: contents_def lookup_node_def fun_eq_iff)

lemma default_load: "h_inv_load (new_htable a (Fin 1) m p tm cm r) = Fin 1"
  using f32_pow2 [of 0] by (simp add: new_htable_def)

context table_reclaimer
begin

lemma umap_ctor_spec:
  fixes a m p tm cm r hash eq
  defines "t0 \<equiv> new_htable a (Fin 1) m p tm cm r"
  assumes s: "store_ok ok pd t0 W V" and al: "allocs_ok al"
  shows "returns (umap_ctor th al pl a m p tm cm r) (\<lambda>(res, t'). h_others W V t0 t' \<and> (case res of
      Inl e \<Rightarrow> e = Bad_alloc \<and> starved al t' \<and> (store_ok ok pd t' W V \<or> (\<exists>x. x \<notin> V \<and> store_ok ok pd t' W (insert x V)))
    | Inr _ \<Rightarrow> umap_ok ok pd hash eq W V t' (\<lambda>_. None) \<and> h_inv_load t' = Fin 1))"
  unfolding umap_ctor_def
proof (rule returns_mono [OF table_ctor_spec [OF s [unfolded t0_def] al, of th pl hash eq]], clarify, goal_cases)
  case (1 res t')
  have il: "h_inv_load t' = Fin 1" using 1(1) default_load by (simp add: grown_def)
  show ?case
  proof (cases res)
    case (Inl e)
    then show ?thesis using 1 grown_others by (auto simp: t0_def)
  next
    case (Inr u)
    then obtain ns where "table_ok ok pd hash eq W V t' 1 ns" "regulars ns = []" using 1 by auto
    then have "serves ok pd hash eq W V t' ns" "contents eq ns = (\<lambda>_. None)"
      using 1(2) il load_ok_one by (auto simp: serves_def)
    then show ?thesis using Inr il 1(1) grown_others by (auto simp: t0_def umap_ok_def)
  qed
qed

lemma umap_clear_spec:
  assumes U: "umap_ok ok pd hash eq W V t m"
  shows "returns (umap_clear rc th t) (\<lambda>t'. h_others W V t t' \<and> umap_ok ok pd hash eq W V t' (\<lambda>_. None) \<and> umap_empty t')"
  unfolding umap_clear_def
proof -
  obtain ns k where T: "table_ok ok pd hash eq W V t k ns" "\<not> h_growing t" "load_ok (h_inv_load t)"
    using U unfolding umap_ok_def by (auto elim: servesE)
  show "returns (table_clear rc th t) (\<lambda>t'. h_others W V t t' \<and> umap_ok ok pd hash eq W V t' (\<lambda>_. None) \<and> umap_empty t')"
  proof (rule returns_mono [OF table_clear_spec [OF T(1)]], elim exE conjE)
    fix t' t3 ns'
    assume t': "t' = t3\<lparr>h_count := 0\<rparr>" and k: "keeps W V t t3" and T': "table_ok ok pd hash eq W V t' k ns'" "regulars ns' = []"
    have "serves ok pd hash eq W V t' ns'" using T(2,3) T'(1) keeps_members [OF k] by (auto simp: serves_def t')
    then have "umap_ok ok pd hash eq W V t' (\<lambda>_. None)"
      unfolding umap_ok_def using fresh_map [OF T'(2), of eq] by blast
    then show "h_others W V t t' \<and> umap_ok ok pd hash eq W V t' (\<lambda>_. None) \<and> umap_empty t'"
      using keeps_others [OF k] by (simp add: t' umap_empty_def table_empty_def table_size_def)
  qed
qed

lemma umap_dtor_spec:
  assumes U: "umap_ok ok pd hash eq W V t m"
  shows "returns (umap_dtor rc th t) (\<lambda>t'. h_others W V t t' \<and> store_ok ok pd t' W V \<and>
    (\<forall>b. live (h_mem t') b \<noteq> None \<longrightarrow> b \<in> W \<union> parked Free_node (pd (h_rc t'))))"
proof -
  obtain ns k where T: "table_ok ok pd hash eq W V t k ns" using U unfolding umap_ok_def by (auto elim: servesE)
  show ?thesis unfolding umap_dtor_def
    by (rule returns_mono [OF table_dtor_spec [OF T]]) (auto dest: keeps_others)
qed

lemma umap_size_spec:
  assumes U: "umap_ok ok pd hash eq W V t m"
  shows "\<exists>ns. contents eq ns = m \<and> list_ok hash eq ns \<and> umap_size t = of_nat (length (regulars ns)) \<and>
    (\<exists>k. 1 \<le> k \<and> k \<le> 30 \<and> umap_bucket_count t = Some (2 ^ k))"
proof -
  obtain ns k where T: "table_ok ok pd hash eq W V t k ns" "contents eq ns = m" using U unfolding umap_ok_def by (auto elim: servesE)
  have "1 \<le> k" "k \<le> 30" using table_okD(10) [OF T(1)] by (auto simp: cells_ok_def)
  then show ?thesis using T table_okD(2,6) [OF T(1)] bucket_count_spec [OF T(1)]
    by (auto simp: umap_size_def table_size_def umap_bucket_count_def)
qed

text \<open>A reservation that has to grow does not stop before the ceiling.\<close>

lemma umap_reserve_spec:
  assumes U: "umap_ok ok pd hash eq W V t m" and al: "allocs_ok al"
    and tg: "reserve_target n (h_inv_load t) = Some tg" "tg \<le> 2 ^ 30"
  shows "returns (umap_reserve rc th al pu n t) (\<lambda>(r, t'). h_others W V t t' \<and> (case r of
      Inl e \<Rightarrow> e = Bad_alloc \<and> (starved al t' \<and> umap_ok ok pd hash eq W V t' m \<or>
        (\<exists>p a. pu p \<noteq> Push_ok \<and> umap_ok ok pd hash eq W (insert a V) t' m))
    | Inr _ \<Rightarrow> umap_ok ok pd hash eq W V t' m \<and> h_inv_load t' = h_inv_load t \<and>
        (\<exists>c. umap_bucket_count t = Some c \<and> (if tg \<le> c then t' = t else umap_bucket_count t' = Some (2 ^ 30)))))"
proof -
  obtain ns k where T: "table_ok ok pd hash eq W V t k ns" "\<not> h_growing t" "load_ok (h_inv_load t)" and m: "contents eq ns = m"
    using U unfolding umap_ok_def by (auto elim: servesE)
  have bc: "umap_bucket_count t = Some (2 ^ k)" using bucket_count_spec [OF T(1)] by (simp add: umap_bucket_count_def)
  have run: "umap_reserve rc th al pu n t = reserve_loop rc th al pu tg t"
    using tg(1) by (simp add: umap_reserve_def table_reserve_def)
  show ?thesis
  proof (cases "tg \<le> 2 ^ k")
    case True
    then show ?thesis using run reserve_loop_enough [OF T(1) True, of th al pu] U bc by simp
  next
    case False
    then have lt: "2 ^ k < tg" by simp
    show ?thesis
      unfolding run
    proof (rule returns_mono [OF reserve_loop_spec [OF T(1) al T(2) lt tg(2)]], clarify, erule grow_postE, goal_cases)
      case (1 r t' k' V')
      have "serves ok pd hash eq W V' t' ns" using 1(1,2,4) T(2,3) by (auto simp: serves_def grown_def)
      then have U': "umap_ok ok pd hash eq W V' t' m" unfolding umap_ok_def using m by blast
      have "umap_bucket_count t' = Some (2 ^ k')" using bucket_count_spec [OF 1(4)] by (simp add: umap_bucket_count_def)
      then show ?case using U' 1(1,5) grown_others [OF 1(1)] bc False by (auto simp: grown_def)
    qed
  qed
qed

lemma umap_reserve_stuck:
  assumes U: "umap_ok ok pd hash eq W V t m" and al: "allocs_ok al"
    and tg: "reserve_target n (h_inv_load t) = Some tg" "2 ^ 30 < tg"
  shows "umap_reserve rc th al pu n t \<noteq> Some (Inr (), t')"
proof -
  obtain ns k where T: "table_ok ok pd hash eq W V t k ns" "\<not> h_growing t" using U unfolding umap_ok_def by (auto elim: servesE)
  show ?thesis using reserve_loop_stuck [OF T(1) al T(2) tg(2)] tg(1) by (simp add: umap_reserve_def table_reserve_def)
qed

end

end
