(* ===== verification/UMapIter.thy ===== *)
theory UMapIter
  imports UMapOps
begin

section \<open>Iteration over the unordered map\<close>

text \<open>
  A loop from \<open>begin()\<close> to \<open>end()\<close> visits the regular nodes in list order, each once, and
  \<open>erase(iterator)\<close> removes the element and answers with an iterator at another one or at the end.
\<close>

definition iter_of_node :: "ptr \<Rightarrow> ptr \<times> ('k, 'v) item \<Rightarrow> 'k uiter" where
  "iter_of_node self x = uiter_at self (key_at x) (i_mixed (info_at x)) (sok x)"

text \<open>The hashes that an iterator remembers lead to its key.\<close>

definition uiter_ok :: "('k \<Rightarrow> u64) \<Rightarrow> 'k uiter \<Rightarrow> bool" where
  "uiter_ok hash i \<longleftrightarrow> u_sk i = so_key_of (u_mixed i) \<and> u_sk i = so_key_of (mixed_hash hash (u_key i))"

definition lists_map :: "('k \<Rightarrow> 'k \<Rightarrow> bool) \<Rightarrow> ('k \<Rightarrow> 'v option) \<Rightarrow> ('k \<times> 'v) list \<Rightarrow> bool" where
  "lists_map eq m es \<longleftrightarrow> sorted_wrt (\<lambda>a b. \<not> eq (fst a) (fst b)) es \<and>
     (\<forall>k v. m k = Some v \<longleftrightarrow> (\<exists>k'. (k', v) \<in> set es \<and> eq k' k))"

lemma iter_of_node_simps [simp]:
  "u_owner (iter_of_node self x) = self" "\<not> u_is_end (iter_of_node self x)" "u_key (iter_of_node self x) = key_at x"
  "u_mixed (iter_of_node self x) = i_mixed (info_at x)" "u_sk (iter_of_node self x) = sok x"
  by (simp_all add: iter_of_node_def uiter_at_def)

lemma uiter_okD:
  "uiter_ok hash i \<Longrightarrow> so_key_of (u_mixed i) = so_key_of (mixed_hash hash (u_key i))"
  "uiter_ok hash i \<Longrightarrow> u_sk i = so_key_of (u_mixed i)"
  by (metis uiter_ok_def)+

lemma iter_of_node_ok:
  assumes "list_ok hash eq ns" and "x \<in> set (regulars ns)"
  shows "uiter_ok hash (iter_of_node self x)"
  using assms info_at_mixed [of x] by (auto simp: uiter_ok_def list_ok_def)

lemma step_iter: "(iter_of_node self x)\<lparr>u_key := i_key (info_at y), u_mixed := i_mixed (info_at y), u_sk := i_sk (info_at y)\<rparr>
   = iter_of_node self y"
  by (simp add: iter_of_node_def uiter_at_def)

lemma first_of_regulars: "\<forall>y \<in> set ys. regular y \<Longrightarrow> first_of ys = (case ys of [] \<Rightarrow> None | y # _ \<Rightarrow> Some (info_at y))"
  by (simp add: first_of_def filter_id_conv)

lemma first_of_same: "regulars ns' = regulars ns \<Longrightarrow> first_of ns' = first_of ns"
  by (simp add: first_of_def)

lemma lookup_at:
  assumes "list_ok hash eq ns" and "lawful hash eq" and "y \<in> set (regulars ns)"
  shows "lookup_node eq (key_at y) ns = Some y"
  using lookup_mem [OF assms(1,2)] assms(3) lawfulD(1) [OF assms(2)] by blast

lemma next_of_regulars:
  assumes ok: "list_ok hash eq ns" and law: "lawful hash eq" and r: "regulars ns = xs @ y # ys"
  shows "next_of eq (key_at y) ns = (case ys of [] \<Rightarrow> None | z # _ \<Rightarrow> Some (info_at z))"
proof -
  have d: "distinct (regulars ns)" using ok by (auto simp: list_ok_def distinct_map intro: distinct_filter)
  have "\<not> eq (key_at x) (key_at y)" if "x \<in> set xs" for x
  proof
    assume "eq (key_at x) (key_at y)"
    then have "lookup_node eq (key_at y) ns = Some x" unfolding lookup_mem [OF ok law] r using that by simp
    moreover have "lookup_node eq (key_at y) ns = Some y" by (rule lookup_at [OF ok law]) (simp add: r)
    ultimately show False using d that by (auto simp: r)
  qed
  then have "dropWhile (\<lambda>x. \<not> eq (key_at x) (key_at y)) (regulars ns) = y # ys"
    unfolding r using lawfulD(1) [OF law] by (subst dropWhile_append2) auto
  moreover have "\<forall>z \<in> set ys. regular z" using arg_cong [OF r, of set] by auto
  ultimately show ?thesis using first_of_regulars [of ys] by (simp add: next_of_def)
qed

lemma serves_node:
  assumes "serves ok pd hash eq W V t ns" and "x \<in> set (regulars ns)"
  shows "\<exists>nd. hnode_at t (fst x) = Some nd \<and> d_key nd = key_at x \<and> d_value nd = val_at x"
proof -
  obtain j where "table_ok ok pd hash eq W V t j ns" using assms(1) servesE by blast
  then have l: "lseg t ns 0" using table_okD(1) by blast
  obtain us zs where "ns = us @ x # zs" using assms(2) by (auto dest: split_list)
  with l have "lseg t (x # zs) 0" by simp
  then show ?thesis by (cases x) simp
qed

text \<open>Sixty-four bits are enough for the counter.\<close>

lemma serves_size:
  assumes "serves ok pd hash eq W V t ns"
  shows "unat (umap_size t) = length (regulars ns)"
proof -
  obtain j where T: "table_ok ok pd hash eq W V t j ns" using assms servesE by blast
  have "0 \<notin> addrs ns" using lseg_ne0 [OF table_okD(1) [OF T]] by blast
  then have "addrs ns \<subseteq> UNIV - {0}" by blast
  then have "card (addrs ns) \<le> card (UNIV - {0 :: u64})" by (rule card_mono [rotated]) simp
  moreover have "card (addrs ns) = length ns" using distinct_card [OF table_okD(9) [OF T]] by simp
  moreover have "card (UNIV - {0 :: u64}) < 2 ^ 64" by (simp add: card_word)
  ultimately have "length ns < 2 ^ 64" by linarith
  then have "length (regulars ns) < 2 ^ 64" using length_filter_le [of regular ns] by linarith
  then show ?thesis using table_okD(6) [OF T]
    by (simp add: umap_size_def table_size_def unsigned_of_nat take_bit_nat_eq_self)
qed

lemma lists_contents:
  assumes ok: "list_ok hash eq ns" and law: "lawful hash eq"
  shows "lists_map eq (contents eq ns) (map (\<lambda>x. (key_at x, val_at x)) (regulars ns))"
proof -
  have "sorted_wrt (\<lambda>x y. \<not> eq (key_at x) (key_at y)) (regulars ns)"
  proof -
    have "sorted_wrt (\<lambda>x y. sok x \<le> sok y \<and> (regular x \<longrightarrow> regular y \<longrightarrow> \<not> eq (key_at x) (key_at y))) (regulars ns)"
      using ok unfolding list_ok_def in_order_def by (intro sorted_wrt_filter) simp
    then show ?thesis by (rule sorted_wrt_mono_rel [rotated]) auto
  qed
  moreover have "contents eq ns k = Some v \<longleftrightarrow> (\<exists>x \<in> set (regulars ns). val_at x = v \<and> eq (key_at x) k)" for k v
    unfolding contents_def map_option_eq_Some lookup_mem [OF ok law] by blast
  ultimately show ?thesis by (simp add: lists_map_def sorted_wrt_map) force
qed

lemma next_of_member:
  assumes lo: "list_ok hash eq ns" and law: "lawful hash eq" and nx: "next_of eq k ns = Some n"
  obtains y where "y \<in> set (regulars ns)" and "n = info_at y" and "\<not> eq k (key_at y)"
proof -
  let ?dw = "dropWhile (\<lambda>x. \<not> eq (key_at x) k) (regulars ns)"
  have "first_of (drop 1 ?dw) = Some n" using nx by (simp add: next_of_def)
  then obtain y ys where dw: "drop 1 ?dw = y # ys" and n: "n = info_at y"
  proof -
    have "\<forall>z \<in> set (drop 1 ?dw). regular z" by (auto dest!: in_set_dropD set_dropWhileD)
    from first_of_regulars [OF this] \<open>first_of (drop 1 ?dw) = Some n\<close> show thesis
      by (cases "drop 1 ?dw") (auto intro: that)
  qed
  then obtain x where x: "?dw = x # y # ys" by (cases ?dw) auto
  have xy: "x \<in> set (regulars ns)" "y \<in> set (regulars ns)" "x \<noteq> y"
  proof -
    have "set ?dw \<subseteq> set (regulars ns)" by (auto dest: set_dropWhileD)
    then show "x \<in> set (regulars ns)" "y \<in> set (regulars ns)" unfolding x by auto
    have "distinct (regulars ns)" using lo by (auto simp: list_ok_def distinct_map intro: distinct_filter)
    then have "distinct ?dw" by (rule distinct_dropWhile)
    then show "x \<noteq> y" unfolding x by simp
  qed
  have ex: "eq (key_at x) k" using hd_dropWhile [of "\<lambda>x. \<not> eq (key_at x) k" "regulars ns"] x by auto
  have "\<not> eq k (key_at y)"
  proof
    assume "eq k (key_at y)"
    then have "lookup_node eq (key_at y) ns = Some x" unfolding lookup_mem [OF lo law] using xy(1) lawfulD(4) [OF law ex] by blast
    then show False using lookup_at [OF lo law xy(2)] xy(3) by simp
  qed
  then show thesis using that xy(2) n by blast
qed

context table_reclaimer
begin

lemma u_first:
  assumes S: "serves ok pd hash eq W V t ns"
  shows "returns (umap_begin rc self dk t) (\<lambda>(i, t'). h_others W V t t' \<and> serves ok pd hash eq W V t' ns \<and>
    i = (case regulars ns of [] \<Rightarrow> uiter_end self dk | x # _ \<Rightarrow> iter_of_node self x))"
proof -
  obtain k where T: "table_ok ok pd hash eq W V t k ns" using S servesE by blast
  obtain r t' where 1: "h_first_node rc t = Some (r, t')" "hreads t t'" "r = first_of ns"
    using h_first_node_spec [OF T] by (auto elim!: returnsE)
  have T': "table_ok ok pd hash eq W V t' k ns" "keeps W V t t'" using reads_table [OF T 1(2)] .
  show ?thesis using 1(1,3) serves_keeps [OF S T'(2,1)] keeps_others [OF T'(2)]
    by (simp add: umap_begin_def first_of_def iter_of_node_def split: list.split)
qed

lemma u_next:
  assumes S: "serves ok pd hash eq W V t ns" and al: "allocs_ok al" and law: "lawful hash eq" and i: "uiter_ok hash i"
  shows "returns (uiter_advance rc eq th al pl i t) (\<lambda>(r, t'). h_others W V t t' \<and>
    (\<exists>ns'. serves ok pd hash eq W V t' ns' \<and> regulars ns' = regulars ns) \<and>
    (case r of Inl e \<Rightarrow> e = Bad_alloc \<and> starved al t'
     | Inr j \<Rightarrow> j = (case next_of eq (u_key i) ns of
           None \<Rightarrow> i\<lparr>u_is_end := True\<rparr>
         | Some n \<Rightarrow> i\<lparr>u_key := i_key n, u_mixed := i_mixed n, u_sk := i_sk n\<rparr>)))"
proof -
  obtain k where T: "table_ok ok pd hash eq W V t k ns" using S servesE by blast
  have sk: "so_key_of (u_mixed i) = so_key_of (mixed_hash hash (u_key i))" "u_sk i = so_key_of (u_mixed i)"
    using uiter_okD [OF i] .
  show ?thesis
  proof (rule returns_pairE [OF h_next_node_spec [OF T al law sk, of th pl]], elim conjE)
    fix r t'
    assume run: "h_next_node rc th al pl eq (u_mixed i) (u_sk i) (u_key i) t = Some (r, t')"
      and s: "settled ok pd hash eq W V k ns t t'"
      and r: "case r of Inl e \<Rightarrow> e = Bad_alloc \<and> starved al t' | Inr n \<Rightarrow> n = next_of eq (u_key i) ns"
    show ?thesis using run serves_settled [OF S s] r by (auto simp: uiter_advance_def split: sum.splits option.splits)
  qed
qed

lemma u_deref:
  assumes S: "serves ok pd hash eq W V t ns" and al: "allocs_ok al" and law: "lawful hash eq" and y: "y \<in> set (regulars ns)"
  shows "returns (uiter_deref rc eq th al pl (iter_of_node self y) t) (\<lambda>(r, t'). h_others W V t t' \<and>
    (\<exists>ns'. serves ok pd hash eq W V t' ns' \<and> regulars ns' = regulars ns) \<and>
    (case r of Inl e \<Rightarrow> e = Bad_alloc \<and> starved al t' | Inr e \<Rightarrow> e = (key_at y, val_at y)))"
proof -
  let ?i = "iter_of_node self y"
  have lo: "list_ok hash eq ns" using S servesE by blast
  have "uiter_ok hash ?i" by (rule iter_of_node_ok [OF lo y])
  then have sk: "so_key_of (u_mixed ?i) = so_key_of (mixed_hash hash (u_key ?i))" "u_sk ?i = so_key_of (u_mixed ?i)"
    using uiter_okD by blast+
  obtain r t' ns' where 1: "h_find_value_ptr rc th al pl eq (u_key ?i) (u_mixed ?i) (u_sk ?i) t = Some (r, t')" "h_others W V t t'"
    "serves ok pd hash eq W V t' ns'" "regulars ns' = regulars ns" "case r of Inl e \<Rightarrow> e = Bad_alloc \<and> starved al t'
     | Inr p \<Rightarrow> (case lookup_node eq (u_key ?i) ns of None \<Rightarrow> p = 0 | Some x \<Rightarrow> p = fst x \<and> p \<noteq> 0)"
    using u_find_value [OF S al law sk, of th pl] by (elim returns_pairE) blast
  obtain nd where nd: "hnode_at t' (fst y) = Some nd" "d_key nd = key_at y" "d_value nd = val_at y"
    using serves_node [OF 1(3), unfolded 1(4), OF y] by blast
  show ?thesis
  proof (cases r)
    case (Inl e)
    then show ?thesis using 1 by (auto simp: uiter_deref_def uiter_resolve_def)
  next
    case (Inr p)
    then have "p = fst y" using 1(5) lookup_at [OF lo law y] by simp
    then show ?thesis using 1 Inr nd by (auto simp: uiter_deref_def uiter_resolve_def)
  qed
qed

lemma collect_spec:
  assumes "serves ok pd hash eq W V t ns" and al: "allocs_ok al" and law: "lawful hash eq" and "regulars ns = xs @ ys"
    and "length ys \<le> n" and "if ys = [] then u_is_end i else i = iter_of_node self (hd ys)"
  shows "returns (uiter_collect rc eq th al pl n i t) (\<lambda>(r, t'). h_others W V t t' \<and>
    (\<exists>ns'. serves ok pd hash eq W V t' ns' \<and> regulars ns' = regulars ns) \<and>
    (case r of Inl e \<Rightarrow> e = Bad_alloc \<and> starved al t'
     | Inr (es, j) \<Rightarrow> es = map (\<lambda>x. (key_at x, val_at x)) ys \<and> u_is_end j))"
  using assms(1,4-6)
proof (induction ys arbitrary: xs n i t ns)
  case Nil
  then have "uiter_collect rc eq th al pl n i t = Some (Inr ([], i), t)"
    by (cases n) (simp_all add: uiter_neq_def uiter_eq_def uiter_end_def)
  then show ?case using Nil by auto
next
  case (Cons y ys)
  note S = Cons.prems(1)
  have lo: "list_ok hash eq ns" using S servesE by blast
  obtain n' where n: "n = Suc n'" using Cons.prems(3) by (cases n) auto
  have i: "i = iter_of_node self y" using Cons.prems(4) by simp
  have y: "y \<in> set (regulars ns)" using Cons.prems(2) by simp
  have neq: "uiter_neq eq i (uiter_end (u_owner i) (u_key i))" by (simp add: i uiter_neq_def uiter_eq_def uiter_end_def)
  obtain r1 t1 ns1 where 1: "uiter_deref rc eq th al pl i t = Some (r1, t1)" "h_others W V t t1"
    "serves ok pd hash eq W V t1 ns1" "regulars ns1 = regulars ns"
    "case r1 of Inl e \<Rightarrow> e = Bad_alloc \<and> starved al t1 | Inr e \<Rightarrow> e = (key_at y, val_at y)"
    using u_deref [OF S al law y, of th pl self] unfolding i by (elim returns_pairE) blast
  show ?case
  proof (cases r1)
    case (Inl e)
    then show ?thesis using 1 neq by (auto simp: n)
  next
    case (Inr e)
    have lo1: "list_ok hash eq ns1" using 1(3) servesE by blast
    have y1: "y \<in> set (regulars ns1)" using y 1(4) by simp
    obtain r2 t2 ns2 where 2: "uiter_advance rc eq th al pl i t1 = Some (r2, t2)" "h_others W V t1 t2"
      "serves ok pd hash eq W V t2 ns2" "regulars ns2 = regulars ns1"
      "case r2 of Inl e \<Rightarrow> e = Bad_alloc \<and> starved al t2
       | Inr j \<Rightarrow> j = (case next_of eq (u_key i) ns1 of
           None \<Rightarrow> i\<lparr>u_is_end := True\<rparr>
         | Some n \<Rightarrow> i\<lparr>u_key := i_key n, u_mixed := i_mixed n, u_sk := i_sk n\<rparr>)"
      using u_next [OF 1(3) al law iter_of_node_ok [OF lo1 y1], of th pl self] unfolding i by (elim returns_pairE) blast
    have o2: "h_others W V t t2" using h_others_trans [OF 1(2) 2(2)] .
    have r2: "regulars ns2 = (xs @ [y]) @ ys" using 2(4) 1(4) Cons.prems(2) by simp
    show ?thesis
    proof (cases r2)
      case (Inl x)
      then show ?thesis using 1(1,4) 2 Inr o2 neq by (auto simp: n)
    next
      case (Inr j)
      have "next_of eq (u_key i) ns1 = (case ys of [] \<Rightarrow> None | z # _ \<Rightarrow> Some (info_at z))"
        using next_of_regulars [OF lo1 law, of xs y ys] 1(4) Cons.prems(2) by (simp add: i)
      then have j: "if ys = [] then u_is_end j else j = iter_of_node self (hd ys)"
        using 2(5) Inr i step_iter by (cases ys) simp_all
      have len: "length ys \<le> n'" using Cons.prems(3) n by simp
      show ?thesis
      proof (rule returns_pairE [OF Cons.IH [OF 2(3) r2 len j]], elim conjE exE)
        fix r3 t3 ns3
        assume 3: "uiter_collect rc eq th al pl n' j t2 = Some (r3, t3)" "h_others W V t2 t3"
          "serves ok pd hash eq W V t3 ns3" "regulars ns3 = regulars ns2"
          "case r3 of Inl e \<Rightarrow> e = Bad_alloc \<and> starved al t3 | Inr (es, j) \<Rightarrow> es = map (\<lambda>x. (key_at x, val_at x)) ys \<and> u_is_end j"
        have run: "uiter_collect rc eq th al pl n i t = Some (map_sum id (apfst ((#) e)) r3, t3)"
          using neq 1(1) \<open>r1 = Inr e\<close> 2(1) Inr 3(1) by (simp add: n)
        have e: "e = (key_at y, val_at y)" using 1(5) \<open>r1 = Inr e\<close> by simp
        show ?thesis
          using run h_others_trans [OF o2 3(2)] 3(3-5) r2 Cons.prems(2) e by (auto split: sum.splits)
      qed
    qed
  qed
qed

lemma traverse_spec:
  assumes U: "umap_ok ok pd hash eq W V t m" and al: "allocs_ok al" and law: "lawful hash eq"
  shows "returns (umap_begin rc self dk t) (\<lambda>(i, t1). h_others W V t t1 \<and> umap_ok ok pd hash eq W V t1 m \<and>
    returns (uiter_collect rc eq th al pl (unat (umap_size t)) i t1) (\<lambda>(r, t2). h_others W V t t2 \<and> umap_ok ok pd hash eq W V t2 m \<and>
      (case r of Inl e \<Rightarrow> e = Bad_alloc \<and> starved al t2
       | Inr (es, j) \<Rightarrow> lists_map eq m es \<and> length es = unat (umap_size t) \<and> u_is_end j)))"
proof -
  obtain ns where S: "serves ok pd hash eq W V t ns" and m: "contents eq ns = m" using U by (auto simp: umap_ok_def)
  have lo: "list_ok hash eq ns" using S servesE by blast
  have len: "length (regulars ns) \<le> unat (umap_size t)" using serves_size [OF S] by simp
  show ?thesis
  proof (rule returns_pairE [OF u_first [OF S, of self dk]], elim conjE)
    fix i t1
    assume 1: "umap_begin rc self dk t = Some (i, t1)" "h_others W V t t1" "serves ok pd hash eq W V t1 ns"
      "i = (case regulars ns of [] \<Rightarrow> uiter_end self dk | x # _ \<Rightarrow> iter_of_node self x)"
    have i: "if regulars ns = [] then u_is_end i else i = iter_of_node self (hd (regulars ns))"
      using 1(4) by (simp add: uiter_end_def split: list.splits)
    have "returns (uiter_collect rc eq th al pl (unat (umap_size t)) i t1) (\<lambda>(r, t2). h_others W V t t2 \<and> umap_ok ok pd hash eq W V t2 m \<and>
      (case r of Inl e \<Rightarrow> e = Bad_alloc \<and> starved al t2
       | Inr (es, j) \<Rightarrow> lists_map eq m es \<and> length es = unat (umap_size t) \<and> u_is_end j))"
    proof (rule returns_mono [OF collect_spec [OF 1(3) al law _ len i, where xs = "[]"]], simp, clarify, goal_cases)
      case (1 r t2 ns2)
      have "umap_ok ok pd hash eq W V t2 m" using serves_umap [OF 1(3,4)] m by simp
      then show ?case using 1 h_others_trans [OF \<open>h_others W V t t1\<close>] lists_contents [OF lo law] m serves_size [OF S]
        by (auto split: sum.splits)
    qed
    then show ?thesis using 1(1,2) serves_umap [OF 1(3) refl] m by simp
  qed
qed

lemma erase_at_spec:
  assumes U: "umap_ok ok pd hash eq W V t m" and al: "allocs_ok al" and law: "lawful hash eq"
    and i: "uiter_ok hash i" "\<not> u_is_end i"
  shows "returns (umap_erase_at rc eq th al pu pl i t) (\<lambda>(r, t'). h_others W V t t' \<and>
    (case r of
       Inl e \<Rightarrow> e = Bad_alloc \<and> (starved al t' \<and> umap_ok ok pd hash eq W V t' m \<or>
         pu \<noteq> Push_ok \<and> m (u_key i) \<noteq> None \<and>
           (\<exists>n. n \<notin> W \<and> umap_ok ok pd hash eq (insert n W) V (t'\<lparr>h_count := h_count t' - 1\<rparr>) (drop_key eq (u_key i) m)))
     | Inr j \<Rightarrow> umap_ok ok pd hash eq W V t' (drop_key eq (u_key i) m) \<and> u_owner j = u_owner i \<and> uiter_ok hash j \<and>
         (u_is_end j \<or> drop_key eq (u_key i) m (u_key j) \<noteq> None)))"
proof -
  obtain ns where S: "serves ok pd hash eq W V t ns" and m: "contents eq ns = m" using U by (auto simp: umap_ok_def)
  have lo: "list_ok hash eq ns" using S servesE by blast
  have to: "to_uiter i = i" using i(2) by (cases i) (simp add: to_uiter_def uiter_at_def)
  have sk: "so_key_of (u_mixed i) = so_key_of (mixed_hash hash (u_key i))" "u_sk i = so_key_of (u_mixed i)"
    using uiter_okD [OF i(1)] .
  obtain r1 t1 ns1 where 1: "uiter_advance rc eq th al pl i t = Some (r1, t1)" "h_others W V t t1"
    "serves ok pd hash eq W V t1 ns1" "regulars ns1 = regulars ns"
    "case r1 of Inl e \<Rightarrow> e = Bad_alloc \<and> starved al t1
     | Inr j \<Rightarrow> j = (case next_of eq (u_key i) ns of
         None \<Rightarrow> i\<lparr>u_is_end := True\<rparr>
       | Some n \<Rightarrow> i\<lparr>u_key := i_key n, u_mixed := i_mixed n, u_sk := i_sk n\<rparr>)"
    using u_next [OF S al law i(1), of th pl] by (elim returns_pairE) blast
  have U1: "umap_ok ok pd hash eq W V t1 m" using serves_umap [OF 1(3,4)] m by simp
  show ?thesis
  proof (cases r1)
    case (Inl e)
    then show ?thesis using 1 U1 by (simp add: umap_erase_at_def to)
  next
    case (Inr j)
    have j: "u_owner j = u_owner i \<and> uiter_ok hash j \<and> (u_is_end j \<or> drop_key eq (u_key i) m (u_key j) \<noteq> None)"
    proof (cases "next_of eq (u_key i) ns")
      case None
      then show ?thesis using 1(5) Inr i(1) by (auto simp: uiter_ok_def)
    next
      case (Some n)
      obtain y where y: "y \<in> set (regulars ns)" and n: "n = info_at y" and ny: "\<not> eq (u_key i) (key_at y)"
        using next_of_member [OF lo law Some] .
      note ny
      moreover have "m (key_at y) \<noteq> None" using lookup_at [OF lo law y] by (simp add: m [symmetric] contents_def)
      moreover have "j = i\<lparr>u_key := key_at y, u_mixed := i_mixed n, u_sk := sok y\<rparr>" using 1(5) Inr Some n by simp
      moreover have "uiter_ok hash (iter_of_node self y)" for self by (rule iter_of_node_ok [OF lo y])
      ultimately show ?thesis by (auto simp: uiter_ok_def drop_key_def n)
    qed
    have run: "umap_erase_at rc eq th al pu pl i t = do {
        (r, t) \<leftarrow> h_erase_node rc th al pl eq pu (u_key i) (u_mixed i) (u_sk i) t1;
        Some (case r of Inl e \<Rightarrow> Inl e | Inr _ \<Rightarrow> Inr j, t) }"
      using 1(1) Inr i(2) by (simp add: umap_erase_at_def to)
    show ?thesis unfolding run
      by (rule returns_pairE [OF u_erase [OF U1 al law sk, of th pl pu]])
         (use j h_others_trans [OF 1(2)] in \<open>auto split: sum.splits\<close>)
  qed
qed

text \<open>
  An iterator that an increment left at the end: the contents stay, but the result is the
  increment of an iterator at the key it keeps.
\<close>

lemma erase_at_end_spec:
  assumes U: "umap_ok ok pd hash eq W V t m" and al: "allocs_ok al" and law: "lawful hash eq"
    and i: "uiter_ok hash i" "u_is_end i"
  shows "returns (umap_erase_at rc eq th al pu pl i t) (\<lambda>(r, t'). h_others W V t t' \<and> umap_ok ok pd hash eq W V t' m \<and>
    (case r of
       Inl e \<Rightarrow> e = Bad_alloc \<and> starved al t'
     | Inr j \<Rightarrow> u_owner j = u_owner i \<and> uiter_ok hash j \<and>
         (u_is_end j \<or> m (u_key j) \<noteq> None \<and> \<not> eq (u_key i) (u_key j))))"
proof -
  obtain ns where S: "serves ok pd hash eq W V t ns" and m: "contents eq ns = m" using U by (auto simp: umap_ok_def)
  have lo: "list_ok hash eq ns" using S servesE by blast
  have to: "uiter_ok hash (to_uiter i)" "u_key (to_uiter i) = u_key i" "u_owner (to_uiter i) = u_owner i"
    using i(1) uiter_okD [OF i(1)] by (auto simp: uiter_ok_def to_uiter_def uiter_at_def)
  obtain r t1 ns1 where 1: "uiter_advance rc eq th al pl (to_uiter i) t = Some (r, t1)" "h_others W V t t1"
    "serves ok pd hash eq W V t1 ns1" "regulars ns1 = regulars ns"
    "case r of Inl e \<Rightarrow> e = Bad_alloc \<and> starved al t1
     | Inr j \<Rightarrow> j = (case next_of eq (u_key i) ns of
         None \<Rightarrow> (to_uiter i)\<lparr>u_is_end := True\<rparr>
       | Some n \<Rightarrow> (to_uiter i)\<lparr>u_key := i_key n, u_mixed := i_mixed n, u_sk := i_sk n\<rparr>)"
    using u_next [OF S al law to(1), of th pl] unfolding to(2) by (elim returns_pairE) blast
  have U1: "umap_ok ok pd hash eq W V t1 m" using serves_umap [OF 1(3,4)] m by simp
  have run: "umap_erase_at rc eq th al pu pl i t = Some (r, t1)"
    using 1(1) i(2) by (cases r) (simp_all add: umap_erase_at_def)
  have at: "u_owner j = u_owner i \<and> uiter_ok hash j \<and> (u_is_end j \<or> m (u_key j) \<noteq> None \<and> \<not> eq (u_key i) (u_key j))" if "r = Inr j" for j
  proof (cases "next_of eq (u_key i) ns")
    case None
    then show ?thesis using 1(5) that to by (auto simp: uiter_ok_def)
  next
    case (Some n)
    obtain y where y: "y \<in> set (regulars ns)" and n: "n = info_at y" and ny: "\<not> eq (u_key i) (key_at y)"
      using next_of_member [OF lo law Some] .
    have "m (key_at y) \<noteq> None" using lookup_at [OF lo law y] by (simp add: m [symmetric] contents_def)
    moreover have "j = (to_uiter i)\<lparr>u_key := key_at y, u_mixed := i_mixed n, u_sk := sok y\<rparr>" using 1(5) that Some n by simp
    moreover have "uiter_ok hash (iter_of_node self y)" for self by (rule iter_of_node_ok [OF lo y])
    ultimately show ?thesis using ny to(3) by (auto simp: uiter_ok_def n)
  qed
  show ?thesis
  proof (cases r)
    case (Inl e)
    then show ?thesis using 1(2,5) U1 unfolding run by simp
  next
    case (Inr j)
    then show ?thesis using 1(2) U1 at [OF Inr] unfolding run by simp
  qed
qed

end

end
