(* ===== verification/USetModel.thy ===== *)
theory USetModel
  imports UMapIter
begin

section \<open>The unordered set\<close>

text \<open>
  \<open>mpmc::unordered_set\<close> (\<open>mpmc_unordered_set.hpp\<close>): the hash table engine over a payload that is the
  key alone (the mapped type is \<open>unit\<close>), with its own copies of the container operations and of
  the iterator's members. They are written out here as the file has them; \<open>uset_as_umap\<close> relates
  each of them to the map's operation.
\<close>

type_synonym ('k, 'r) hset = "('k, unit, 'r) htable"

subsection \<open>Construction and capacity\<close>

definition uset_ctor ::
  "thread \<Rightarrow> allocs \<Rightarrow> 'k \<Rightarrow> alloc \<Rightarrow> ('k, unit) hnode mem \<Rightarrow> pool \<Rightarrow> bucket_table mem \<Rightarrow> ptr list mem \<Rightarrow> 'r \<Rightarrow>
   ((exn + unit) \<times> ('k, 'r) hset) option" where
  "uset_ctor th al pk a m p tm cm r = table_ctor th al (pk, ()) a (Fin 1) m p tm cm r"

definition uset_reserve ::
  "(table_act, 'r) reclaimer_ops \<Rightarrow> thread \<Rightarrow> allocs \<Rightarrow> (ptr \<Rightarrow> push) \<Rightarrow> u64 \<Rightarrow> ('k, 'r) hset \<Rightarrow>
   ((exn + unit) \<times> ('k, 'r) hset) option" where
  "uset_reserve rc th al pu n t = table_reserve rc th al pu n t"

definition uset_ctor_reserve ::
  "(table_act, 'r) reclaimer_ops \<Rightarrow> thread \<Rightarrow> allocs \<Rightarrow> (ptr \<Rightarrow> push) \<Rightarrow> 'k \<Rightarrow> u64 \<Rightarrow> alloc \<Rightarrow> ('k, unit) hnode mem \<Rightarrow> pool \<Rightarrow>
   bucket_table mem \<Rightarrow> ptr list mem \<Rightarrow> 'r \<Rightarrow> ((exn + unit) \<times> ('k, 'r) hset) option" where
  "uset_ctor_reserve rc th al pu pk n a m p tm cm r =
     do {
       (r, t) \<leftarrow> uset_ctor th al pk a m p tm cm r;
       case r of
         Inl e \<Rightarrow> Some (Inl e, t)
       | Inr _ \<Rightarrow> do {
           (r, t) \<leftarrow> uset_reserve rc th al pu n t;
           case r of
             Inl e \<Rightarrow> do { t \<leftarrow> table_dtor rc th t; Some (Inl e, t) }
           | Inr _ \<Rightarrow> Some (Inr (), t)
         }
     }"

definition uset_dtor ::
  "(table_act, 'r) reclaimer_ops \<Rightarrow> thread \<Rightarrow> ('k, 'r) hset \<Rightarrow> ('k, 'r) hset option" where
  "uset_dtor rc th t = table_dtor rc th t"

definition uset_empty :: "('k, 'r) hset \<Rightarrow> bool" where
  "uset_empty t = table_empty t"

definition uset_size :: "('k, 'r) hset \<Rightarrow> u64" where
  "uset_size t = table_size t"

definition uset_max_size :: "u64 \<Rightarrow> u64" where
  "uset_max_size sizeof_value = (- 1) div sizeof_value"

definition uset_bucket_count :: "('k, 'r) hset \<Rightarrow> u64 option" where
  "uset_bucket_count t = table_bucket_count t"

definition uset_load_factor :: "('k, 'r) hset \<Rightarrow> fl option" where
  "uset_load_factor t =
     do { bc \<leftarrow> table_bucket_count t;
          Some (if bc = 0 then Fin 0 else fl_div f32 (of_size f32 (table_size t)) (of_size f32 bc)) }"

definition uset_max_load_factor :: "('k, 'r) hset \<Rightarrow> fl" where
  "uset_max_load_factor t = h_max_load t"

definition uset_set_max_load_factor :: "fl \<Rightarrow> ('k, 'r) hset \<Rightarrow> ('k, 'r) hset" where
  "uset_set_max_load_factor f t = set_max_load_factor f t"

subsection \<open>Modifiers\<close>

text \<open>\<open>args\<close>: the key that the forwarded arguments construct, or \<open>None\<close> when that throws.\<close>

definition uset_emplace ::
  "(table_act, 'r) reclaimer_ops \<Rightarrow> ('k \<Rightarrow> u64) \<Rightarrow> ('k \<Rightarrow> 'k \<Rightarrow> bool) \<Rightarrow> thread \<Rightarrow> allocs \<Rightarrow> (ptr \<Rightarrow> push) \<Rightarrow> 'k \<Rightarrow> ptr \<Rightarrow>
   'k option \<Rightarrow> ('k, 'r) hset \<Rightarrow> ((exn + 'k uiter \<times> bool) \<times> ('k, 'r) hset) option" where
  "uset_emplace rc hash eq th al pu pk self args t =
     do {
       (r, t) \<leftarrow> alloc_hnode th al (pk, ()) t;
       case r of
         Inl e \<Rightarrow> Some (Inl e, t)
       | Inr n \<Rightarrow>
           (case args of
              None \<Rightarrow> do { t \<leftarrow> destroy_hnode th n t; Some (Inl Payload_throws, t) }
            | Some k \<Rightarrow> do {
                t \<leftarrow> construct_hpayload n k () t;
                nd \<leftarrow> hnode_at t n;
                let k = d_key nd;
                let mixed = mixed_hash hash k;
                let sk = so_key_of mixed;
                (r, t) \<leftarrow> h_insert_node rc th al (pk, ()) eq n mixed sk k t;
                case r of
                  Inl e \<Rightarrow> Some (Inl e, t)
                | Inr True \<Rightarrow> do {
                    (r, t) \<leftarrow> maybe_grow rc th al pu t;
                    case r of
                      Inl e \<Rightarrow> Some (Inl e, t)
                    | Inr _ \<Rightarrow> Some (Inr (uiter_at self k mixed sk, True), t)
                  }
                | Inr False \<Rightarrow> do { t \<leftarrow> destroy_hnode th n t; Some (Inr (uiter_at self k mixed sk, False), t) }
              })
     }"

definition uset_insert ::
  "(table_act, 'r) reclaimer_ops \<Rightarrow> ('k \<Rightarrow> u64) \<Rightarrow> ('k \<Rightarrow> 'k \<Rightarrow> bool) \<Rightarrow> thread \<Rightarrow> allocs \<Rightarrow> (ptr \<Rightarrow> push) \<Rightarrow> 'k \<Rightarrow> ptr \<Rightarrow>
   'k \<Rightarrow> ('k, 'r) hset \<Rightarrow> ((exn + 'k uiter \<times> bool) \<times> ('k, 'r) hset) option" where
  "uset_insert rc hash eq th al pu pk self k t = uset_emplace rc hash eq th al pu pk self (Some k) t"

definition uset_erase ::
  "(table_act, 'r) reclaimer_ops \<Rightarrow> ('k \<Rightarrow> u64) \<Rightarrow> ('k \<Rightarrow> 'k \<Rightarrow> bool) \<Rightarrow> thread \<Rightarrow> allocs \<Rightarrow> push \<Rightarrow> 'k \<Rightarrow>
   'k \<Rightarrow> ('k, 'r) hset \<Rightarrow> ((exn + u64) \<times> ('k, 'r) hset) option" where
  "uset_erase rc hash eq th al pu pk k t =
     do {
       let mixed = mixed_hash hash k;
       (r, t) \<leftarrow> h_erase_node rc th al (pk, ()) eq pu k mixed (so_key_of mixed) t;
       Some (case r of Inl e \<Rightarrow> Inl e | Inr b \<Rightarrow> Inr (if b then 1 else 0), t)
     }"

definition uset_clear :: "('act, 'r) reclaimer_ops \<Rightarrow> thread \<Rightarrow> ('k, 'r) hset \<Rightarrow> ('k, 'r) hset option" where
  "uset_clear rc th t = table_clear rc th t"

subsection \<open>Lookup\<close>

definition uset_find ::
  "('act, 'r) reclaimer_ops \<Rightarrow> ('k \<Rightarrow> u64) \<Rightarrow> ('k \<Rightarrow> 'k \<Rightarrow> bool) \<Rightarrow> thread \<Rightarrow> allocs \<Rightarrow> 'k \<Rightarrow> ptr \<Rightarrow> 'k \<Rightarrow>
   'k \<Rightarrow> ('k, 'r) hset \<Rightarrow> ((exn + 'k uiter) \<times> ('k, 'r) hset) option" where
  "uset_find rc hash eq th al pk self dk k t =
     do {
       let mixed = mixed_hash hash k;
       let sk = so_key_of mixed;
       (r, t) \<leftarrow> h_find_node rc th al (pk, ()) eq k mixed sk t;
       Some (case r of
           Inl e \<Rightarrow> Inl e
         | Inr res \<Rightarrow> Inr (if res \<noteq> None then uiter_at self k mixed sk else uiter_end self dk), t)
     }"

definition uset_contains ::
  "('act, 'r) reclaimer_ops \<Rightarrow> ('k \<Rightarrow> u64) \<Rightarrow> ('k \<Rightarrow> 'k \<Rightarrow> bool) \<Rightarrow> thread \<Rightarrow> allocs \<Rightarrow> 'k \<Rightarrow>
   'k \<Rightarrow> ('k, 'r) hset \<Rightarrow> ((exn + bool) \<times> ('k, 'r) hset) option" where
  "uset_contains rc hash eq th al pk k t =
     do {
       let mixed = mixed_hash hash k;
       (r, t) \<leftarrow> h_find_node rc th al (pk, ()) eq k mixed (so_key_of mixed) t;
       Some (case r of Inl e \<Rightarrow> Inl e | Inr res \<Rightarrow> Inr (res \<noteq> None), t)
     }"

definition uset_count ::
  "('act, 'r) reclaimer_ops \<Rightarrow> ('k \<Rightarrow> u64) \<Rightarrow> ('k \<Rightarrow> 'k \<Rightarrow> bool) \<Rightarrow> thread \<Rightarrow> allocs \<Rightarrow> 'k \<Rightarrow>
   'k \<Rightarrow> ('k, 'r) hset \<Rightarrow> ((exn + u64) \<times> ('k, 'r) hset) option" where
  "uset_count rc hash eq th al pk k t =
     do { (r, t) \<leftarrow> uset_contains rc hash eq th al pk k t;
          Some (case r of Inl e \<Rightarrow> Inl e | Inr b \<Rightarrow> Inr (if b then 1 else 0), t) }"

subsection \<open>Iterators\<close>

definition uset_begin ::
  "('act, 'r) reclaimer_ops \<Rightarrow> ptr \<Rightarrow> 'k \<Rightarrow> ('k, 'r) hset \<Rightarrow> ('k uiter \<times> ('k, 'r) hset) option" where
  "uset_begin rc self dk t =
     do { (info, t) \<leftarrow> h_first_node rc t;
          Some (case info of Some i \<Rightarrow> uiter_at self (i_key i) (i_mixed i) (i_sk i) | None \<Rightarrow> uiter_end self dk, t) }"

definition uset_iter_eq :: "('k \<Rightarrow> 'k \<Rightarrow> bool) \<Rightarrow> 'k uiter \<Rightarrow> 'k uiter \<Rightarrow> bool" where
  "uset_iter_eq eq i j =
     (if u_owner i \<noteq> u_owner j \<or> u_is_end i \<noteq> u_is_end j then False
      else if u_is_end i then True
      else u_sk i = u_sk j \<and> eq (u_key i) (u_key j))"

definition uset_iter_neq :: "('k \<Rightarrow> 'k \<Rightarrow> bool) \<Rightarrow> 'k uiter \<Rightarrow> 'k uiter \<Rightarrow> bool" where
  "uset_iter_neq eq i j = (\<not> uset_iter_eq eq i j)"

definition uset_iter_resolve ::
  "('act, 'r) reclaimer_ops \<Rightarrow> ('k \<Rightarrow> 'k \<Rightarrow> bool) \<Rightarrow> thread \<Rightarrow> allocs \<Rightarrow> 'k \<Rightarrow> 'k uiter \<Rightarrow> ('k, 'r) hset \<Rightarrow>
   ((exn + ptr) \<times> ('k, 'r) hset) option" where
  "uset_iter_resolve rc eq th al pk i t = h_find_value_ptr rc th al (pk, ()) eq (u_key i) (u_mixed i) (u_sk i) t"

definition uset_iter_deref ::
  "('act, 'r) reclaimer_ops \<Rightarrow> ('k \<Rightarrow> 'k \<Rightarrow> bool) \<Rightarrow> thread \<Rightarrow> allocs \<Rightarrow> 'k \<Rightarrow> 'k uiter \<Rightarrow> ('k, 'r) hset \<Rightarrow>
   ((exn + 'k) \<times> ('k, 'r) hset) option" where
  "uset_iter_deref rc eq th al pk i t =
     do {
       (r, t) \<leftarrow> uset_iter_resolve rc eq th al pk i t;
       case r of
         Inl e \<Rightarrow> Some (Inl e, t)
       | Inr p \<Rightarrow> do { nd \<leftarrow> hnode_at t p; Some (Inr (d_key nd), t) }
     }"

definition uset_iter_advance ::
  "('act, 'r) reclaimer_ops \<Rightarrow> ('k \<Rightarrow> 'k \<Rightarrow> bool) \<Rightarrow> thread \<Rightarrow> allocs \<Rightarrow> 'k \<Rightarrow> 'k uiter \<Rightarrow> ('k, 'r) hset \<Rightarrow>
   ((exn + 'k uiter) \<times> ('k, 'r) hset) option" where
  "uset_iter_advance rc eq th al pk i t =
     do {
       (r, t) \<leftarrow> h_next_node rc th al (pk, ()) eq (u_mixed i) (u_sk i) (u_key i) t;
       Some (case r of
           Inl e \<Rightarrow> Inl e
         | Inr (Some n) \<Rightarrow> Inr (i\<lparr>u_key := i_key n, u_mixed := i_mixed n, u_sk := i_sk n\<rparr>)
         | Inr None \<Rightarrow> Inr (i\<lparr>u_is_end := True\<rparr>), t)
     }"

definition uset_iter_post_inc ::
  "('act, 'r) reclaimer_ops \<Rightarrow> ('k \<Rightarrow> 'k \<Rightarrow> bool) \<Rightarrow> thread \<Rightarrow> allocs \<Rightarrow> 'k \<Rightarrow> 'k uiter \<Rightarrow> ('k, 'r) hset \<Rightarrow>
   ((exn + 'k uiter \<times> 'k uiter) \<times> ('k, 'r) hset) option" where
  "uset_iter_post_inc rc eq th al pk i t =
     do { let tmp = i;
          (r, t) \<leftarrow> uset_iter_advance rc eq th al pk i t;
          Some (map_sum id (Pair tmp) r, t) }"

definition uset_to_iter :: "'k uiter \<Rightarrow> 'k uiter" where
  "uset_to_iter c = uiter_at (u_owner c) (u_key c) (u_mixed c) (u_sk c)"

definition uset_erase_at ::
  "(table_act, 'r) reclaimer_ops \<Rightarrow> ('k \<Rightarrow> 'k \<Rightarrow> bool) \<Rightarrow> thread \<Rightarrow> allocs \<Rightarrow> push \<Rightarrow> 'k \<Rightarrow> 'k uiter \<Rightarrow>
   ('k, 'r) hset \<Rightarrow> ((exn + 'k uiter) \<times> ('k, 'r) hset) option" where
  "uset_erase_at rc eq th al pu pk pos t =
     do {
       let nxt = uset_to_iter pos;
       (r, t) \<leftarrow> uset_iter_advance rc eq th al pk nxt t;
       case r of
         Inl e \<Rightarrow> Some (Inl e, t)
       | Inr nxt \<Rightarrow>
           if \<not> u_is_end pos then do {
             (r, t) \<leftarrow> h_erase_node rc th al (pk, ()) eq pu (u_key pos) (u_mixed pos) (u_sk pos) t;
             Some (case r of Inl e \<Rightarrow> Inl e | Inr _ \<Rightarrow> Inr nxt, t)
           }
           else Some (Inr nxt, t)
     }"

fun uset_collect ::
  "('act, 'r) reclaimer_ops \<Rightarrow> ('k \<Rightarrow> 'k \<Rightarrow> bool) \<Rightarrow> thread \<Rightarrow> allocs \<Rightarrow> 'k \<Rightarrow> nat \<Rightarrow> 'k uiter \<Rightarrow>
   ('k, 'r) hset \<Rightarrow> ((exn + 'k list \<times> 'k uiter) \<times> ('k, 'r) hset) option" where
  "uset_collect rc eq th al pk 0 i t = Some (Inr ([], i), t)"
| "uset_collect rc eq th al pk (Suc n) i t =
     (if uset_iter_neq eq i (uiter_end (u_owner i) (u_key i)) then do {
        (r, t) \<leftarrow> uset_iter_deref rc eq th al pk i t;
        case r of
          Inl e \<Rightarrow> Some (Inl e, t)
        | Inr e \<Rightarrow> do {
            (r, t) \<leftarrow> uset_iter_advance rc eq th al pk i t;
            case r of
              Inl x \<Rightarrow> Some (Inl x, t)
            | Inr i \<Rightarrow> do {
                (r, t) \<leftarrow> uset_collect rc eq th al pk n i t;
                Some (map_sum id (apfst ((#) e)) r, t)
              }
          }
      }
      else Some (Inr ([], i), t))"

subsection \<open>The set operations are the map operations\<close>

lemma uset_emplace_map:
  "uset_emplace rc hash eq th al pu pk self args t =
     umap_emplace rc hash eq th al pu (pk, ()) self (map_option (\<lambda>k. (k, ())) args) t"
  by (cases args) (simp_all add: uset_emplace_def umap_emplace_def cong: sum.case_cong)

lemma uset_whole_map:
  "uset_ctor th al pk = umap_ctor th al (pk, ())" "uset_reserve = umap_reserve" "uset_dtor = umap_dtor"
  "uset_empty = umap_empty" "uset_size = umap_size" "uset_bucket_count = umap_bucket_count" "uset_clear = umap_clear"
  by (intro ext; simp add: uset_ctor_def uset_reserve_def uset_dtor_def uset_empty_def uset_size_def
      uset_bucket_count_def uset_clear_def umap_ctor_def umap_reserve_def umap_dtor_def umap_empty_def umap_size_def
      umap_bucket_count_def umap_clear_def)+

lemma uset_lookup_map:
  "uset_erase rc' hash eq th al pu pk = umap_erase rc' hash eq th al pu (pk, ())"
  "uset_find rc hash eq th al pk = umap_find rc hash eq th al (pk, ())"
  "uset_contains rc hash eq th al pk = umap_contains rc hash eq th al (pk, ())"
  "uset_count rc hash eq th al pk = umap_count rc hash eq th al (pk, ())"
  by (intro ext; simp add: uset_erase_def uset_find_def uset_contains_def uset_count_def
      umap_erase_def umap_find_def umap_contains_def umap_count_def)+

lemma uset_iter_map:
  "uset_begin = umap_begin" "uset_iter_eq = uiter_eq" "uset_iter_neq = uiter_neq" "uset_to_iter = to_uiter"
  "uset_iter_resolve rc eq th al pk = uiter_resolve rc eq th al (pk, ())"
  "uset_iter_advance rc eq th al pk = uiter_advance rc eq th al (pk, ())"
  "uset_iter_post_inc rc eq th al pk = uiter_post_inc rc eq th al (pk, ())"
  "uset_erase_at rc' eq th al pu pk = umap_erase_at rc' eq th al pu (pk, ())"
  by (intro ext; simp add: uset_begin_def uset_iter_eq_def uset_iter_neq_def uset_to_iter_def uset_iter_resolve_def
      uset_iter_advance_def uset_iter_post_inc_def uset_erase_at_def umap_begin_def uiter_eq_def uiter_neq_def to_uiter_def
      uiter_resolve_def uiter_advance_def uiter_post_inc_def umap_erase_at_def)+

lemmas uset_as_umap = uset_emplace_map uset_whole_map uset_lookup_map uset_iter_map

lemma uset_deref_map:
  "uset_iter_deref rc eq th al pk i t = map_option (apfst (map_sum id fst)) (uiter_deref rc eq th al (pk, ()) i t)"
  unfolding uset_iter_deref_def uiter_deref_def uset_iter_map
  by (cases "uiter_resolve rc eq th al (pk, ()) i t") (auto simp: map_option_bind comp_def split: sum.split)

lemma uset_collect_map:
  "uset_collect rc eq th al pk n i t =
     map_option (apfst (map_sum id (apfst (map fst)))) (uiter_collect rc eq th al (pk, ()) n i t)"
proof (induction n arbitrary: i t)
  case 0
  then show ?case by simp
next
  case (Suc n)
  show ?case
  proof (cases "uiter_deref rc eq th al (pk, ()) i t")
    case (Some y)
    obtain r t1 where y: "y = (r, t1)" by (cases y)
    show ?thesis
    proof (cases "uiter_advance rc eq th al (pk, ()) i t1")
      case None
      then show ?thesis using Some y by (cases r) (simp_all add: uset_as_umap uset_deref_map)
    next
      case (Some z)
      obtain r2 t2 where z: "z = (r2, t2)" by (cases z)
      have m: "map_sum id (apfst ((#) a)) (map_sum (\<lambda>x. x) (apfst (map fst)) q) =
          map_sum (\<lambda>x. x) (apfst (map fst)) (map_sum id (apfst ((#) (a, ()))) q)" for a and q :: "exn + ('a \<times> unit) list \<times> 'a uiter"
        by (cases q) auto
      show ?thesis using \<open>uiter_deref rc eq th al (pk, ()) i t = Some y\<close> Some y z
        by (cases r; cases r2) (auto simp: uset_as_umap uset_deref_map Suc.IH map_option_bind comp_def split_def map_conv_bind_option m)
    qed
  qed (simp add: uset_as_umap uset_deref_map)
qed

text \<open>The contents as a predicate on keys, constant on equal keys.\<close>

definition members_of :: "('k \<Rightarrow> bool) \<Rightarrow> 'k \<Rightarrow> unit option" where
  "members_of A = (\<lambda>k. if A k then Some () else None)"

lemma members_of_simps [simp]:
  "members_of A k = None \<longleftrightarrow> \<not> A k" "put_key eq k () (members_of A) = members_of (\<lambda>x. eq k x \<or> A x)"
  "drop_key eq k (members_of A) = members_of (\<lambda>x. \<not> eq k x \<and> A x)" "members_of (\<lambda>_. False) = (\<lambda>_. None)"
  by (auto simp: members_of_def put_key_def drop_key_def fun_eq_iff)

text \<open>What the set operations do to the members.\<close>

context table_reclaimer
begin

lemma uset_emplace_spec:
  assumes "umap_ok ok pd hash eq W V t (members_of A)" and "allocs_ok al" and "lawful hash eq"
  shows "returns (uset_emplace rc hash eq th al pu pk self (Some k) t) (\<lambda>(r, t'). h_others W V t t' \<and>
      (case r of
         Inl x \<Rightarrow> x = Bad_alloc \<and> (starved al t' \<and> umap_ok ok pd hash eq W V t' (members_of A) \<or>
           insert_thrown ok pd hash eq W V al pu t' (members_of A) k ())
       | Inr (it, b) \<Rightarrow> b = (\<not> A k) \<and> it = uiter_at self k (mixed_hash hash k) (so_key_of (mixed_hash hash k)) \<and>
           umap_ok ok pd hash eq W V t' (members_of (if b then \<lambda>x. eq k x \<or> A x else A))))"
  unfolding uset_as_umap
  by (rule returns_pairE [OF emplace_spec [OF assms, of th pu "(pk, ())" self "Some (k, ())"]])
     (auto split: sum.splits if_splits)

lemma uset_erase_spec:
  assumes "umap_ok ok pd hash eq W V t (members_of A)" and "allocs_ok al" and "lawful hash eq"
  shows "returns (uset_erase rc hash eq th al Push_ok pk k t) (\<lambda>(r, t'). h_others W V t t' \<and>
      (case r of
         Inl e \<Rightarrow> e = Bad_alloc \<and> starved al t' \<and> umap_ok ok pd hash eq W V t' (members_of A)
       | Inr c \<Rightarrow> c = (if A k then 1 else 0) \<and> umap_ok ok pd hash eq W V t' (members_of (\<lambda>x. \<not> eq k x \<and> A x))))"
  unfolding uset_as_umap
  by (rule returns_pairE [OF umap_erase_spec [OF assms, of th Push_ok "(pk, ())" k]]) (auto split: sum.splits if_splits)

lemma uset_contains_spec:
  assumes "umap_ok ok pd hash eq W V t (members_of A)" and "allocs_ok al" and "lawful hash eq"
  shows "returns (uset_contains rc hash eq th al pk k t) (\<lambda>(r, t'). h_others W V t t' \<and>
      umap_ok ok pd hash eq W V t' (members_of A) \<and>
      (case r of Inl e \<Rightarrow> e = Bad_alloc \<and> starved al t' | Inr b \<Rightarrow> b = A k))"
  unfolding uset_as_umap
  by (rule returns_pairE [OF umap_contains_spec [OF assms, of th "(pk, ())" k]]) (auto split: sum.splits)

end

end
