(* ===== verification/UMapApi.thy ===== *)
theory UMapApi
  imports USetModel MapApi
begin

section \<open>The unordered containers with the two schemes\<close>

text \<open>
  The invariant of a container for each reclamation scheme, a container to start from, and what
  \<open>reserve\<close> computes with the load factor that the constructors set.
\<close>

abbreviation epoch_umap where
  "epoch_umap th \<equiv> umap_ok (epoch_ready th) epoch_pending"

abbreviation hazard_umap where
  "hazard_umap th \<equiv> umap_ok (hazard_ready th) hz_pending"

subsection \<open>A container with one element\<close>

definition one_nodes :: "('k \<Rightarrow> u64) \<Rightarrow> 'k \<Rightarrow> 'v \<Rightarrow> ('k, 'v) nodes" where
  "one_nodes hash k v = [(64, 0, k, v, 0), (128, so_key_of (mixed_hash hash k), k, v, 0)]"

definition one_table :: "('k \<Rightarrow> u64) \<Rightarrow> 'k \<Rightarrow> 'v \<Rightarrow> 'r \<Rightarrow> ('k, 'v, 'r) htable" where
  "one_table hash k v r =
     \<lparr>h_mem = \<lparr>heap = [64 \<mapsto> mk_hnode 128 (0, k, v, 0), 128 \<mapsto> mk_hnode 0 (so_key_of (mixed_hash hash k), k, v, 0)],
        live = [64 \<mapsto> 0, 128 \<mapsto> 0]\<rparr>,
      h_pool = new_pool,
      h_tabs = \<lparr>heap = [64 \<mapsto> \<lparr>bt_size = 2, bt_buckets = 64, bt_owner = 0\<rparr>], live = [64 \<mapsto> 0]\<rparr>,
      h_cells = \<lparr>heap = [64 \<mapsto> [64, 0]], live = [64 \<mapsto> 0]\<rparr>,
      h_rc = r, h_table = 64, h_count = 1, h_growing = False, h_max_load = Fin 1, h_inv_load = Fin 1,
      h_cached = 0, h_na = 0\<rparr>"

lemma one_aligned [simp]: "aligned 64" "aligned 128" "aligned 192" "aligned 256"
  by (simp_all add: aligned_def)

lemma one_ne [simp]: "(64 :: ptr) \<noteq> 0" "(128 :: ptr) \<noteq> 0" "(64 :: ptr) \<noteq> 128" "(128 :: ptr) \<noteq> 64"
  by simp_all

lemma one_hnode: "hnode_at (one_table hash k v r) a =
    (if a = 64 then Some (mk_hnode 128 (0, k, v, 0))
     else if a = 128 then Some (mk_hnode 0 (so_key_of (mixed_hash hash k), k, v, 0)) else None)"
  by (simp add: one_table_def load_def)

lemma one_live: "live (h_mem (one_table hash k v r)) a = (if a = 64 \<or> a = 128 then Some 0 else None)"
  by (simp add: one_table_def)

lemma one_nodes_ok: "nodes_ok (one_table hash k v r) {64, 128}"
proof -
  have "pool_rel pool_link_next (h_mem (one_table hash k v r)) (h_pool (one_table hash k v r)) (replicate SHARDS [])"
    by (simp add: one_table_def new_shards)
  moreover have "pooled (replicate SHARDS []) = {}" by (simp add: pooled_def)
  moreover have "in_use pool_link_next (h_mem (one_table hash k v r)) a" if "a \<in> {64, 128}" for a
    using that unfolding in_use_def one_hnode one_live by (auto simp: pool_link_next_def)
  ultimately show ?thesis unfolding nodes_ok_def blocks_def one_live by (auto split: if_splits)
qed

lemma one_tab_at: "tab_at (one_table hash k v r) a bt cs \<longleftrightarrow>
    a = 64 \<and> bt = \<lparr>bt_size = 2, bt_buckets = 64, bt_owner = 0\<rparr> \<and> cs = [64, 0]"
  by (auto simp: tab_at_def one_table_def load_def split: if_splits)

lemma one_tabs_ok: "tabs_ok (one_table hash k v r) {64}"
  unfolding tabs_ok_def one_tab_at by (auto simp: one_table_def split: if_splits)

lemma one_list_ok: "list_ok hash eq (one_nodes hash k v)"
  by (auto simp: list_ok_def one_nodes_def in_order_def regular_def)

lemma one_cells_ok: "cells_ok (one_nodes hash k v) 1 [64, 0]"
proof -
  have "b = 0 \<or> b = 1" if "b < 2 ^ 1" for b :: nat using that by auto
  then have "\<exists>d. ([64, 0] ! b, d) \<in> set (one_nodes hash k v) \<and> fst d = dummy_split_order_key (of_nat b)"
    if "b < 2 ^ 1" "[64, 0] ! b \<noteq> (0 :: ptr)" for b :: nat
    using that by (fastforce simp: one_nodes_def)
  then show ?thesis by (simp add: cells_ok_def one_nodes_def)
qed

lemma one_serves:
  assumes "ok r" and "pd r = {#}"
  shows "serves ok pd hash eq {} {} (one_table hash k v r) (one_nodes hash k v)"
proof -
  let ?t = "one_table hash k v r" and ?ns = "one_nodes hash k v"
  have a: "addrs ?ns = {64, 128}" by (auto simp: one_nodes_def)
  have f: "h_rc ?t = r" "h_table ?t = 64" by (simp_all add: one_table_def)
  have s: "store_ok ok pd ?t (addrs ?ns \<union> {}) (insert (h_table ?t) {})"
    using one_nodes_ok [of hash k v r] one_tabs_ok [of hash k v r] assms
    unfolding a f store_ok_def by (simp only: parked_empty Un_empty_right Int_empty_right simp_thms count_empty le0)
  have "lseg ?t ?ns 0" unfolding one_nodes_def by (simp add: one_hnode)
  moreover have "h_count ?t = of_nat (length (regulars ?ns))"
    by (simp add: one_table_def one_nodes_def regular_def)
  moreover have "\<exists>bt cs. tab_at ?t (h_table ?t) bt cs \<and> bt_size bt = 2 ^ 1 \<and> cells_ok ?ns 1 cs"
    unfolding one_tab_at f using one_cells_ok by (intro exI conjI) (rule refl | assumption | simp)+
  ultimately have "table_ok ok pd hash eq {} {} ?t 1 ?ns"
    using s one_list_ok [of hash eq k v] unfolding table_ok_def by simp
  moreover have "\<not> h_growing (one_table hash k v r)" "h_inv_load (one_table hash k v r) = Fin 1" by (simp_all add: one_table_def)
  ultimately show ?thesis unfolding serves_def using load_ok_one by metis
qed

lemma one_contents: "contents eq (one_nodes hash k v) = put_key eq k v (\<lambda>_. None)"
proof -
  have "regulars (one_nodes hash k v) = [(128, so_key_of (mixed_hash hash k), k, v, 0)]"
    by (simp add: one_nodes_def regular_def)
  then have "contents eq (one_nodes hash k v) x = put_key eq k v (\<lambda>_. None) x" for x
    by (simp add: contents_def lookup_node_def put_key_def)
  then show ?thesis ..
qed

lemma one_umap: "ok r \<Longrightarrow> pd r = {#} \<Longrightarrow> umap_ok ok pd hash eq {} {} (one_table hash k v r) (put_key eq k v (\<lambda>_. None))"
  unfolding umap_ok_def by (intro exI conjI) (rule one_serves one_contents | assumption)+

lemma one_epoch_umap: "epoch_umap 0 hash eq {} {} (one_table hash k v (new_epoch 1)) (put_key eq k v (\<lambda>_. None))"
  by (rule one_umap) (simp_all add: epoch_ready_new epoch_pending_new)

lemma one_hazard_umap: "hazard_umap 0 hash eq {} {} (one_table hash k v (new_hazard 1)) (put_key eq k v (\<lambda>_. None))"
  by (rule one_umap) (simp_all add: hazard_ready_new hz_pending_new)

lemma one_hazard_uset: "hazard_umap 0 hash (=) {} {} (one_table hash k () (new_hazard 1)) (members_of (\<lambda>x. x = k))"
proof -
  have "put_key (=) k () (\<lambda>_. None) = members_of (\<lambda>x. x = k)" by (auto simp: put_key_def members_of_def fun_eq_iff)
  then show ?thesis using one_hazard_umap [of hash "(=)" k "()"] by simp
qed

text \<open>The memory before the first container.\<close>

lemma empty_store:
  "store_ok (epoch_ready 0) epoch_pending (new_htable a (Fin 1) \<lparr>heap = \<lambda>_. None, live = \<lambda>_. None\<rparr> new_pool
     \<lparr>heap = \<lambda>_. None, live = \<lambda>_. None\<rparr> \<lparr>heap = \<lambda>_. None, live = \<lambda>_. None\<rparr> (new_epoch 1)) {} {}"
proof -
  have "blocks pool_link_next \<lparr>heap = \<lambda>_. None, live = \<lambda>_. None\<rparr> new_pool {}"
    unfolding blocks_def by (intro exI [of _ "replicate SHARDS []"]) (simp add: new_shards pooled_def)
  then show ?thesis
    by (simp add: store_ok_def new_htable_def nodes_ok_def tabs_ok_def epoch_ready_new epoch_pending_new)
qed

text \<open>Allocators with a few blocks.\<close>

definition few_blocks :: allocs where
  "few_blocks = (let f = (\<lambda>lv. find (\<lambda>b. lv b = None) [64, 128, 192, 256])
     in \<lparr>al_node = f, al_table = f, al_cells = f\<rparr>)"

lemma few_blocks_ok: "allocs_ok few_blocks"
  by (auto simp: allocs_ok_def few_blocks_def Let_def split: if_splits)

lemma std_lawful: "lawful hash (=)"
  by (simp add: lawful_def)

subsection \<open>The shape of a container\<close>

lemma umap_shape_spec:
  assumes U: "umap_ok ok pd hash eq W V t m" and law: "lawful hash eq"
  shows "\<exists>es k. lists_map eq m es \<and> unat (umap_size t) = length es \<and> (umap_empty t \<longleftrightarrow> m = (\<lambda>_. None)) \<and>
    umap_bucket_count t = Some (2 ^ k) \<and> 1 \<le> k \<and> k \<le> (30 :: nat)"
proof -
  obtain ns where S: "serves ok pd hash eq W V t ns" and m: "contents eq ns = m" using U by (auto simp: umap_ok_def)
  obtain k where T: "table_ok ok pd hash eq W V t k ns" "list_ok hash eq ns" using S servesE by blast
  have k: "1 \<le> k" "k \<le> 30" using table_okD(10) [OF T(1)] by (auto simp: cells_ok_def)
  let ?es = "map (\<lambda>x. (key_at x, val_at x)) (regulars ns)"
  have l: "lists_map eq m ?es" using lists_contents [OF T(2) law] m by simp
  have sz: "unat (umap_size t) = length ?es" using serves_size [OF S] by simp
  have "umap_empty t \<longleftrightarrow> unat (umap_size t) = 0"
    by (simp add: umap_empty_def table_empty_def umap_size_def unat_eq_0)
  also have "\<dots> \<longleftrightarrow> regulars ns = []" unfolding sz by simp
  also have "\<dots> \<longleftrightarrow> m = (\<lambda>_. None)"
  proof
    assume "m = (\<lambda>_. None)"
    then have "lookup_node eq k ns = None" for k using contents_None [of eq ns k] m by simp
    then show "regulars ns = []"
      using lookup_at [OF T(2) law] by (metis hd_in_set option.distinct(1))
  qed (use m in simp)
  finally have "umap_empty t \<longleftrightarrow> m = (\<lambda>_. None)" .
  moreover have "umap_bucket_count t = Some (2 ^ k)" using T(1)
    by (auto simp: umap_bucket_count_def table_ok_def table_bucket_count_def tab_at_def)
  ultimately show ?thesis using l sz k by blast
qed

text \<open>The containers of the examples: the key 5 with the value 10.\<close>

abbreviation epoch_one :: "(nat, nat, table_act epoch) htable" where
  "epoch_one \<equiv> one_table of_nat 5 10 (new_epoch 1)"

abbreviation hazard_one :: "(nat, nat, table_act hazard) htable" where
  "hazard_one \<equiv> one_table of_nat 5 10 (new_hazard 1)"

abbreviation one_map :: "nat \<Rightarrow> nat option" where
  "one_map \<equiv> put_key (=) 5 10 (\<lambda>_. None)"

subsection \<open>The target of a reservation\<close>

text \<open>With the load factor 1 the target is the argument.\<close>

lemma reserve_target_one:
  assumes "n < 2 ^ 31"
  shows "reserve_target n (Fin 1) = Some n"
proof -
  define N where "N = unat n"
  have n31: "N < 2 ^ 31" using assms unat_pow2 [of 31] by (simp add: word_less_nat_alt N_def)
  let ?n = "of_nat N :: rat"
  have "Suc N \<le> 2 ^ 31" using n31 by simp
  then have "(of_nat (Suc N) :: rat) \<le> of_nat (2 ^ 31)" by (simp only: of_nat_le_iff)
  then have nq: "?n + 1 \<le> 2 ^ 31" "0 \<le> ?n" by simp_all
  have N53: "N < 2 ^ 53" using n31 power_increasing [of 31 53 "2 :: nat"] by simp
  obtain c where c: "f64 (999999 / 1000000) = Fin c" "\<bar>c - 999999 / 1000000\<bar> \<le> 2 powi (-54)"
    using fl_round_near [of "-1" "999999 / 1000000" "-1022" 1023 53] by (auto simp: f64_def power_int_minus)
  have small: "(2 :: rat) powi (-54) \<le> 1 / 10000000" by (simp add: power_int_minus)
  have n1: "of_size f64 n = Fin ?n" using f64_nat [OF N53] unfolding of_size_def N_def .
  have n2: "fl_mul f64 (of_size f64 n) (Fin 1) = Fin ?n" using f64_nat [OF N53] unfolding n1 by simp
  define x where "x = ?n + c"
  have x: "1 / 2 \<le> x" "x < 2 ^ 31" "\<bar>x - (?n + 999999 / 1000000)\<bar> \<le> 1 / 10000000"
  proof -
    have near: "\<bar>c - 999999 / 1000000\<bar> \<le> 1 / 10000000" using c(2) small by (rule order_trans)
    then have "c - 999999 / 1000000 \<le> 1 / 10000000" "999999 / 1000000 - c \<le> 1 / 10000000" by (simp_all only: abs_le_iff minus_diff_eq)
    then show "1 / 2 \<le> x" "x < 2 ^ 31" using nq by (simp_all add: x_def)
    have "x - (?n + 999999 / 1000000) = c - 999999 / 1000000" by (simp add: x_def)
    then show "\<bar>x - (?n + 999999 / 1000000)\<bar> \<le> 1 / 10000000" using near by (simp only:)
  qed
  define e where "e = exponent_of x"
  have b: "2 powi e \<le> x" "x < 2 powi (e + 1)" using exponent_bounds [of x] x(1) by (simp_all add: e_def)
  have "(2 :: rat) powi (-1) < 2 powi (e + 1)" using b(2) x(1) by (simp add: power_int_minus)
  then have e0: "-1 \<le> e" using power_int_increasing [of "e + 1" "-1" "2 :: rat"] by (cases "-1 \<le> e") auto
  have "(2 :: rat) powi e < 2 powi 31" using b(1) x(2) by simp
  then have e30: "e \<le> 30" using power_int_increasing [of 31 e "2 :: rat"] by (cases "e \<le> 30") auto
  obtain y where y: "f64 x = Fin y" "\<bar>y - x\<bar> \<le> 2 powi (e - 53)"
    using fl_round_near [OF b, of "-1022" 1023 53] e0 e30 by (auto simp: f64_def)
  have "(2 :: rat) powi (e - 53) \<le> 2 powi (-23)" using e30 by (intro power_int_increasing) auto
  also have "\<dots> \<le> 2 / 10000000" by (simp add: power_int_minus)
  finally have "\<bar>y - x\<bar> \<le> 2 / 10000000" using y(2) by linarith
  then have yb: "?n \<le> y" "y < ?n + 1" using x(3) unfolding abs_le_iff by linarith+
  then have "\<lfloor>y\<rfloor> = int N" by (intro floor_unique) simp_all
  moreover have "y < 2 ^ 64" using yb(2) nq(1) power_increasing [of 31 64 "2 :: rat"] by linarith
  moreover have "-1 < y" "\<not> y < 0" using yb(1) nq(2) by linarith+
  ultimately have "to_size (Fin y) = Some n" by (simp add: N_def)
  moreover have "fl_add_rat f64 (fl_mul f64 (of_size f64 n) (Fin 1)) c = Fin y" using y(1) unfolding n2 by (simp add: x_def)
  ultimately show ?thesis using c(1) by (simp add: reserve_target_def)
qed

end
