(* ===== verification/HazardSteps.thy ===== *)
theory HazardSteps
  imports TableList
begin

section \<open>The hazard protocol, one memory access at a time\<close>

text \<open>
  Any number of threads run \<open>protect_from\<close>, the scan of \<open>is_protected\<close>, registration and
  unregistration of slots (\<open>detail/hazard_pointer.hpp\<close>) on one list of nodes with tagged links
  (\<open>detail/split_ordered_table.hpp\<close>), interleaved between any two accesses to shared memory.

  \<open>hc_next\<close> is the link of each node, \<open>hc_roots\<close> the dummies, \<open>hc_attached\<close> the nodes in the list,
  \<open>hc_detached\<close> those that were unlinked and not retired yet, \<open>hc_freed\<close> those whose free action has
  run, \<open>hc_held\<close> what each thread took from \<open>protect_from\<close> and still publishes, per hazard pointer.
  The protocol is safe when no held node is freed.
\<close>

subsection \<open>Configurations\<close>

text \<open>
  Where a thread is: between two operations, in \<open>protect_from\<close> (hazard pointer, source, value read),
  in \<open>is_protected\<close> (object, registry entries to read, next entry, its slot, next hazard pointer), in
  \<open>unregister_active\<close>, in \<open>register_active\<close>, or without a slot.
\<close>

datatype hp_pc =
  Ready
| Src_read nat ptr ptr
| Src_published nat ptr ptr
| Scan_entry ptr nat nat
| Scan_owner ptr nat nat nat
| Scan_hp ptr nat nat nat nat
| Leave_count nat
| Leave_find nat nat nat
| Leave_last nat nat
| Leave_move nat nat int
| Leave_clear nat
| Leave_sub
| Join_add nat
| Join_store nat nat
| Away

record hp_conf =
  hc_state :: "unit hazard"
  hc_next :: "ptr \<Rightarrow> ptr"
  hc_roots :: "ptr set"
  hc_attached :: "ptr set"
  hc_detached :: "ptr set"
  hc_freed :: "ptr set"
  hc_pcs :: "hp_pc list"
  hc_held :: "(nat \<Rightarrow> ptr) list"

definition pc_to :: "thread \<Rightarrow> hp_pc \<Rightarrow> hp_conf \<Rightarrow> hp_conf" where
  "pc_to th q c = c\<lparr>hc_pcs := (hc_pcs c)[th := q]\<rparr>"

definition hold :: "thread \<Rightarrow> nat \<Rightarrow> ptr \<Rightarrow> hp_conf \<Rightarrow> hp_conf" where
  "hold th i p c = c\<lparr>hc_held := (hc_held c)[th := (hc_held c ! th)(i := p)]\<rparr>"

definition publish :: "thread \<Rightarrow> nat \<Rightarrow> ptr \<Rightarrow> hp_conf \<Rightarrow> hp_conf option" where
  "publish th i p c = do { s \<leftarrow> protect th i p (hc_state c); Some (c\<lparr>hc_state := s\<rparr>) }"

definition set_retired :: "thread \<Rightarrow> ptr list \<Rightarrow> hp_conf \<Rightarrow> hp_conf" where
  "set_retired th ps c =
     (let s = hc_state c
      in c\<lparr>hc_state := put_htls th ((htls s th)\<lparr>ht_retired := ps, ht_actions := replicate (length ps) ()\<rparr>) s\<rparr>)"

subsection \<open>The accesses\<close>

text \<open>
  \<open>protect_from\<close> after its first load: publish the cleared pointer, read the source again. (A
  failed validation goes back to the first load.)
\<close>

definition access_publish :: "thread \<Rightarrow> nat \<Rightarrow> ptr \<Rightarrow> ptr \<Rightarrow> hp_conf \<Rightarrow> hp_conf option" where
  "access_publish th i a raw c =
     do { c \<leftarrow> publish th i (tag_clear raw) c; Some (pc_to th (Src_published i a raw) (hold th i 0 c)) }"

definition access_validate :: "thread \<Rightarrow> nat \<Rightarrow> ptr \<Rightarrow> ptr \<Rightarrow> hp_conf \<Rightarrow> hp_conf option" where
  "access_validate th i a raw c =
     Some (pc_to th Ready (if hc_next c a = raw then hold th i (tag_clear raw) c else c))"

text \<open>\<open>is_protected\<close>: an entry of the registry, the owner of its slot, each hazard pointer.\<close>

definition access_entry :: "thread \<Rightarrow> ptr \<Rightarrow> nat \<Rightarrow> nat \<Rightarrow> hp_conf \<Rightarrow> hp_conf option" where
  "access_entry th p n k c =
     (if k < n then
        let idx = hz_active (hc_state c) ! k
        in Some (pc_to th (if idx < 0 then Scan_entry p n (k + 1) else Scan_owner p n k (nat idx)) c)
      else
        Some (pc_to th Ready
          (set_retired th (remove1 p (ht_retired (htls (hc_state c) th))) (c\<lparr>hc_freed := insert p (hc_freed c)\<rparr>))))"

definition access_owner :: "thread \<Rightarrow> ptr \<Rightarrow> nat \<Rightarrow> nat \<Rightarrow> nat \<Rightarrow> hp_conf \<Rightarrow> hp_conf option" where
  "access_owner th p n k x c =
     Some (pc_to th (if hs_owner (hz_slots (hc_state c) ! x) = 0 then Scan_entry p n (k + 1) else Scan_hp p n k x 0) c)"

definition access_hp :: "thread \<Rightarrow> ptr \<Rightarrow> nat \<Rightarrow> nat \<Rightarrow> nat \<Rightarrow> nat \<Rightarrow> hp_conf \<Rightarrow> hp_conf option" where
  "access_hp th p n k x h c =
     Some (pc_to th
       (if h < HAZARD_POINTERS
        then if hs_hp (hz_slots (hc_state c) ! x) ! h = p then Ready else Scan_hp p n k x (h + 1)
        else Scan_entry p n (k + 1)) c)"

text \<open>
  \<open>unregister_active\<close>: find the entry of the slot, read the last entry, move it, clear it, lower the
  count; then \<open>finalize_thread\<close> is over.
\<close>

fun access_leave :: "thread \<Rightarrow> hp_pc \<Rightarrow> hp_conf \<Rightarrow> hp_conf option" where
  "access_leave th (Leave_count i) c = Some (pc_to th (Leave_find i (unat (hz_count (hc_state c))) 0) c)"
| "access_leave th (Leave_find i n j) c =
     Some (pc_to th
       (if j < n then if hz_active (hc_state c) ! j = int i then Leave_last n j else Leave_find i n (j + 1)
        else Away) c)"
| "access_leave th (Leave_last n k) c = Some (pc_to th (Leave_move n k (hz_active (hc_state c) ! (n - 1))) c)"
| "access_leave th (Leave_move n k l) c =
     (let s = hc_state c
      in Some (pc_to th (Leave_clear n) (c\<lparr>hc_state := s\<lparr>hz_active := (hz_active s)[k := l]\<rparr>\<rparr>)))"
| "access_leave th (Leave_clear n) c =
     (let s = hc_state c
      in Some (pc_to th Leave_sub (c\<lparr>hc_state := s\<lparr>hz_active := (hz_active s)[n - 1 := - 1]\<rparr>\<rparr>)))"
| "access_leave th Leave_sub c =
     (let s = hc_state c
      in Some (pc_to th Away (c\<lparr>hc_state := put_htls th ((htls s th)\<lparr>ht_slot := - 1\<rparr>) (s\<lparr>hz_count := hz_count s - 1\<rparr>)\<rparr>)))"
| "access_leave th q c = None"

text \<open>\<open>register_active\<close>: raise the count, then store the entry.\<close>

definition access_add :: "thread \<Rightarrow> nat \<Rightarrow> hp_conf \<Rightarrow> hp_conf option" where
  "access_add th i c =
     (let s = hc_state c; k = unat (hz_count s)
      in if k < MAX_THREADS
         then Some (pc_to th (Join_store i k) (c\<lparr>hc_state := s\<lparr>hz_count := hz_count s + 1\<rparr>\<rparr>)) else None)"

definition access_store :: "thread \<Rightarrow> nat \<Rightarrow> nat \<Rightarrow> hp_conf \<Rightarrow> hp_conf option" where
  "access_store th i k c =
     (let s = hc_state c
      in Some (pc_to th Ready (c\<lparr>hc_state := s\<lparr>hz_active := (hz_active s)[k := int i]\<rparr>\<rparr>)))"

fun next_access :: "thread \<Rightarrow> hp_pc \<Rightarrow> hp_conf \<Rightarrow> hp_conf option" where
  "next_access th (Src_read i a raw) c = access_publish th i a raw c"
| "next_access th (Src_published i a raw) c = access_validate th i a raw c"
| "next_access th (Scan_entry p n k) c = access_entry th p n k c"
| "next_access th (Scan_owner p n k x) c = access_owner th p n k x c"
| "next_access th (Scan_hp p n k x h) c = access_hp th p n k x h c"
| "next_access th (Join_add i) c = access_add th i c"
| "next_access th (Join_store i k) c = access_store th i k c"
| "next_access th q c = access_leave th q c"

subsection \<open>The steps\<close>

text \<open>
  \<open>Load_from i a\<close> starts \<open>protect_from(a->next, i, ...)\<close> for a dummy or a node held by another hazard
  pointer, \<open>Copy_to i j\<close> is \<open>protect(j, p)\<close> for the node \<open>p\<close> held by \<open>i\<close>. \<open>Insert\<close>, \<open>Mark\<close>, \<open>Cut\<close> are the
  compare-and-swaps of the list: link a fresh node, mark, unlink a marked node from an unmarked
  one. \<open>Retire_node\<close> is \<open>retire\<close> by the thread that unlinked, without the scan; \<open>Scan\<close> starts the scan for
  one of the thread's retired objects, \<open>Leave\<close> the end of \<open>finalize_thread\<close> (nothing is left to
  retire), \<open>Join\<close> the registration in \<open>slot\<close>; \<open>Next\<close> is the next access of an operation.
\<close>

datatype hp_event =
  Load_from nat ptr | Copy_to nat nat | Insert ptr ptr | Mark ptr | Cut ptr | Retire_node ptr
| Scan ptr | Leave | Join | Next

definition source_ok :: "hp_conf \<Rightarrow> thread \<Rightarrow> nat \<Rightarrow> ptr \<Rightarrow> bool" where
  "source_ok c th i a \<longleftrightarrow>
     a \<in> hc_roots c \<or> a \<noteq> 0 \<and> list_ex (\<lambda>j. j \<noteq> i \<and> (hc_held c ! th) j = a) [0..<HAZARD_POINTERS]"

definition retired_by :: "hp_conf \<Rightarrow> thread \<Rightarrow> ptr list" where
  "retired_by c th = ht_retired (htls (hc_state c) th)"

definition fresh_node :: "hp_conf \<Rightarrow> ptr \<Rightarrow> bool" where
  "fresh_node c b \<longleftrightarrow> b \<noteq> 0 \<and> aligned b \<and> b \<notin> hc_roots c \<union> hc_attached c \<union> hc_detached c \<and>
     list_all (\<lambda>th. b \<notin> set (retired_by c th)) [0..<length (hc_pcs c)]"

definition list_insert :: "ptr \<Rightarrow> ptr \<Rightarrow> hp_conf \<Rightarrow> hp_conf option" where
  "list_insert a b c =
     (if a \<in> hc_roots c \<union> hc_attached c \<and> \<not> is_marked (hc_next c a) \<and> fresh_node c b
      then Some (c\<lparr>hc_next := (hc_next c)(b := hc_next c a, a := b),
        hc_attached := insert b (hc_attached c), hc_freed := hc_freed c - {b}\<rparr>)
      else None)"

definition list_mark :: "ptr \<Rightarrow> hp_conf \<Rightarrow> hp_conf option" where
  "list_mark a c =
     (if a \<in> hc_attached c \<and> \<not> is_marked (hc_next c a)
      then Some (c\<lparr>hc_next := (hc_next c)(a := set_marked (hc_next c a))\<rparr>) else None)"

definition list_cut :: "ptr \<Rightarrow> hp_conf \<Rightarrow> hp_conf option" where
  "list_cut a c =
     (let b = hc_next c a
      in if a \<in> hc_roots c \<union> hc_attached c \<and> \<not> is_marked b \<and> tag_clear b = b \<and> b \<in> hc_attached c \<and>
           is_marked (hc_next c b)
         then Some (c\<lparr>hc_next := (hc_next c)(a := clear_mark (hc_next c b)),
           hc_attached := hc_attached c - {b}, hc_detached := insert b (hc_detached c)\<rparr>)
         else None)"

definition begin_leave :: "thread \<Rightarrow> hp_conf \<Rightarrow> hp_conf option" where
  "begin_leave th c =
     (let s = hc_state c; i = nat (ht_slot (htls s th))
      in if 0 \<le> ht_slot (htls s th) \<and> retired_by c th = []
         then Some (pc_to th (Leave_count i) (c\<lparr>hc_state := s\<lparr>hz_slots := (hz_slots s)[i := (hz_slots s ! i)\<lparr>hs_owner := 0\<rparr>]\<rparr>,
           hc_held := (hc_held c)[th := \<lambda>_. 0]\<rparr>))
         else None)"

definition begin_join :: "thread \<Rightarrow> hp_conf \<Rightarrow> hp_conf option" where
  "begin_join th c =
     (let (self, s) = thread_owner_id (hc_state c)
      in case free_slot (hz_slots s) 0 of
           None \<Rightarrow> None
         | Some i \<Rightarrow> Some (pc_to th (Join_add i)
             (c\<lparr>hc_state := put_htls th ((htls s th)\<lparr>ht_slot := int i\<rparr>)
               (s\<lparr>hz_slots := (hz_slots s)[i := (hz_slots s ! i)\<lparr>hs_owner := self\<rparr>]\<rparr>)\<rparr>)))"

fun hp_step :: "thread \<Rightarrow> hp_event \<Rightarrow> hp_conf \<Rightarrow> hp_conf option" where
  "hp_step th (Load_from i a) c =
     (if hc_pcs c ! th = Ready \<and> i < HAZARD_POINTERS \<and> source_ok c th i a
      then Some (pc_to th (Src_read i a (hc_next c a)) c) else None)"
| "hp_step th (Copy_to i j) c =
     (if hc_pcs c ! th = Ready \<and> i < HAZARD_POINTERS \<and> j < HAZARD_POINTERS \<and> (hc_held c ! th) i \<noteq> 0
      then do { c' \<leftarrow> publish th j ((hc_held c ! th) i) c; Some (hold th j ((hc_held c ! th) i) c') } else None)"
| "hp_step th (Insert a b) c = (if hc_pcs c ! th = Ready then list_insert a b c else None)"
| "hp_step th (Mark a) c = (if hc_pcs c ! th = Ready then list_mark a c else None)"
| "hp_step th (Cut a) c = (if hc_pcs c ! th = Ready then list_cut a c else None)"
| "hp_step th (Retire_node p) c =
     (if hc_pcs c ! th = Ready \<and> p \<in> hc_detached c
      then Some (set_retired th (retired_by c th @ [p]) (c\<lparr>hc_detached := hc_detached c - {p}\<rparr>)) else None)"
| "hp_step th (Scan p) c =
     (if hc_pcs c ! th = Ready \<and> p \<in> set (retired_by c th)
      then Some (pc_to th (Scan_entry p (unat (hz_count (hc_state c))) 0) c) else None)"
| "hp_step th Leave c = (if hc_pcs c ! th = Ready then begin_leave th c else None)"
| "hp_step th Join c = (if hc_pcs c ! th = Away then begin_join th c else None)"
| "hp_step th Next c = next_access th (hc_pcs c ! th) c"

fun hp_run :: "(thread \<times> hp_event) list \<Rightarrow> hp_conf \<Rightarrow> hp_conf option" where
  "hp_run [] c = Some c"
| "hp_run ((th, e) # es) c = (if th < length (hc_pcs c) then do { c \<leftarrow> hp_step th e c; hp_run es c } else None)"

text \<open>A held node that was freed.\<close>

definition hp_dangling :: "hp_conf \<Rightarrow> bool" where
  "hp_dangling c \<longleftrightarrow> list_ex (\<lambda>th. list_ex (\<lambda>i. (hc_held c ! th) i \<noteq> 0 \<and> (hc_held c ! th) i \<in> hc_freed c)
     [0..<HAZARD_POINTERS]) [0..<length (hc_pcs c)]"

text \<open>The start: \<open>n\<close> threads that called \<open>slot\<close> one after the other, dummies with nothing behind them.\<close>

fun enrol :: "nat \<Rightarrow> nat \<Rightarrow> unit hazard option" where
  "enrol n 0 = Some (new_hazard n)"
| "enrol n (Suc th) = do { s \<leftarrow> enrol n th; (i, s) \<leftarrow> slot th s; Some s }"

definition hp_start :: "nat \<Rightarrow> ptr set \<Rightarrow> hp_conf option" where
  "hp_start n R =
     do { s \<leftarrow> enrol n n;
          Some \<lparr>hc_state = s, hc_next = \<lambda>_. 0, hc_roots = R, hc_attached = {}, hc_detached = {}, hc_freed = {},
            hc_pcs = replicate n Ready, hc_held = replicate n (\<lambda>_. 0)\<rparr> }"

end
