(* ===== verification/HazardRaces.thy ===== *)
theory HazardRaces
  imports HazardSteps
begin

section \<open>Runs of the hazard protocol that free a held node\<close>

subsection \<open>The registered threads\<close>

definition enrolled :: "nat \<Rightarrow> nat \<Rightarrow> unit hazard" where
  "enrolled n m =
     \<lparr>hz_slots = map (\<lambda>i. \<lparr>hs_owner = (if i < m then of_nat (Suc i) else 0), hs_hp = replicate HAZARD_POINTERS 0\<rparr>) [0..<MAX_THREADS],
      hz_count = of_nat m, hz_active = map (\<lambda>i. if i < m then int i else - 1) [0..<MAX_THREADS], hz_late = [],
      hz_outstanding = 0, hz_next_owner = of_nat m,
      hz_tls = map (\<lambda>i. \<lparr>ht_slot = (if i < m then int i else - 1), ht_retired = [], ht_actions = []\<rparr>) [0..<n]\<rparr>"

lemma free_slot_first:
  assumes "m < length sls" and "hs_owner (sls ! m) = 0" and "\<And>i. i < m \<Longrightarrow> hs_owner (sls ! i) \<noteq> 0"
  shows "free_slot sls j = Some (j + m)"
  using assms
proof (induction sls arbitrary: j m)
  case (Cons sl sls)
  show ?case
  proof (cases m)
    case (Suc m')
    have "hs_owner (sls ! i) \<noteq> 0" if "i < m'" for i using Cons.prems(3) [of "Suc i"] that Suc by simp
    then have "free_slot sls (j + 1) = Some (j + 1 + m')" using Cons.IH [of m'] Cons.prems(1,2) Suc by simp
    moreover have "hs_owner sl \<noteq> 0" using Cons.prems(3) [of 0] Suc by simp
    ultimately show ?thesis using Suc by simp
  qed (use Cons.prems in simp)
qed simp

lemma owner_id: "m < MAX_THREADS \<Longrightarrow> (1 :: u32) + of_nat m \<noteq> 0"
proof
  assume m: "m < MAX_THREADS" and "(1 :: u32) + of_nat m = 0"
  then have "(of_nat (Suc m) :: u32) = 0" by simp
  then have "2 ^ 32 dvd Suc m" by (simp only: word_of_nat_eq_0_iff) simp
  then show False using m dvd_imp_le [of "2 ^ 32" "Suc m"] by (simp add: MAX_THREADS_def)
qed

lemma enrol_eq: "m \<le> n \<Longrightarrow> n \<le> MAX_THREADS \<Longrightarrow> enrol n m = Some (enrolled n m)"
proof (induction m)
  case 0
  have "map (\<lambda>i. x) [0..<k] = replicate k x" for k :: nat and x :: 'b by (simp add: map_replicate_const)
  then show ?case
    by (simp add: enrolled_def new_hazard_def new_hazard_slot_def new_hz_thread_def map_replicate_const)
next
  case (Suc m)
  let ?s = "enrolled n m"
  have m: "m < MAX_THREADS" "m < n" using Suc.prems by simp_all
  have "hs_owner (hz_slots ?s ! i) \<noteq> 0" if "i < m" for i using that m owner_id [of i] by (simp add: enrolled_def)
  then have "free_slot (hz_slots ?s) 0 = Some m" using free_slot_first [of m "hz_slots ?s" 0] m by (simp add: enrolled_def)
  moreover have "unat (of_nat m :: u32) = m" using m by (simp add: unat_of_nat MAX_THREADS_def)
  ultimately have "slot m ?s = Some (m, enrolled n (Suc m))" using m
    by (auto simp: slot_def thread_owner_id_def register_active_def put_htls_def enrolled_def nth_list_update less_Suc_eq
        intro!: nth_equalityI)
  then show ?case using Suc by simp
qed

text \<open>What is read of the state of two or three registered threads.\<close>

lemma enrolled_simps:
  assumes "th < n" and "n \<le> MAX_THREADS"
  shows "ht_slot (htls (enrolled n n) th) = int th" "hs_owner (hz_slots (enrolled n n) ! th) \<noteq> 0"
    "hs_hp (hz_slots (enrolled n n) ! th) = replicate HAZARD_POINTERS 0" "hz_active (enrolled n n) ! th = int th"
  using assms owner_id [of th] by (simp_all add: enrolled_def)


lemma enrolled_lengths [simp]:
  "length (hz_slots (enrolled n m)) = MAX_THREADS" "length (hz_active (enrolled n m)) = MAX_THREADS"
  "length (hz_tls (enrolled n m)) = n" "hz_count (enrolled n m) = of_nat m" "hz_next_owner (enrolled n m) = of_nat m"
  by (simp_all add: enrolled_def)

lemma times_numeral: "replicate (numeral k) x = x # replicate (pred_numeral k) x"
  by (simp add: numeral_eq_Suc)

subsection \<open>A scan and a copy to a lower hazard pointer\<close>

text \<open>
  Thread 0 holds node 128 in hazard pointer \<open>HP_CUR\<close>. Thread 1 marks, unlinks and retires it and
  starts a scan, which reads \<open>HP_TABLE\<close> and \<open>HP_PREV\<close> of thread 0. Then thread 0 goes on in its walk
  (\<open>prev = cur\<close>): it publishes the node in \<open>HP_PREV\<close>, and its successor in \<open>HP_CUR\<close>, which the scan
  reads only now.
\<close>

abbreviation times :: "nat \<Rightarrow> thread \<Rightarrow> (thread \<times> hp_event) list" where
  "times n th \<equiv> replicate n (th, Next)"

definition protect_run :: "thread \<Rightarrow> nat \<Rightarrow> ptr \<Rightarrow> (thread \<times> hp_event) list" where
  "protect_run th i a = [(th, Load_from i a), (th, Next), (th, Next)]"

definition remove_run :: "thread \<Rightarrow> ptr \<Rightarrow> ptr \<Rightarrow> (thread \<times> hp_event) list" where
  "remove_run th a p = [(th, Mark p), (th, Cut a), (th, Retire_node p), (th, Scan p)]"

definition copy_race :: "(thread \<times> hp_event) list" where
  "copy_race =
     [(1, Insert 64 128), (1, Insert 128 192)] @ protect_run 0 HP_CUR 64 @
     remove_run 1 64 128 @ times 4 1 @
     [(0, Copy_to HP_CUR HP_PREV), (0, Load_from HP_CUR 128), (0, Next)] @ times 11 1"

lemma start_eq:
  "n \<le> MAX_THREADS \<Longrightarrow> hp_start n R =
     Some \<lparr>hc_state = enrolled n n, hc_next = \<lambda>_. 0, hc_roots = R, hc_attached = {}, hc_detached = {}, hc_freed = {},
       hc_pcs = replicate n Ready, hc_held = replicate n (\<lambda>_. 0)\<rparr>"
  by (simp add: hp_start_def enrol_eq)

lemma run_append: "hp_run (es @ fs) c = do { c \<leftarrow> hp_run es c; hp_run fs c }"
  by (induction es c rule: hp_run.induct) (auto split: Option.bind_split)

lemmas hp_eval = pc_to_def hold_def publish_def set_retired_def access_publish_def access_validate_def
  access_entry_def access_owner_def access_hp_def access_add_def access_store_def source_ok_def retired_by_def fresh_node_def
  list_insert_def list_mark_def list_cut_def begin_leave_def begin_join_def protect_def slot_def put_htls_def
  HP_TABLE_def HP_PREV_def HP_CUR_def HAZARD_POINTERS_def MAX_THREADS_def protect_run_def remove_run_def

lemma node_aligned [simp]: "aligned 64" "aligned 128" "aligned 192"
  by (simp_all add: aligned_def)

lemma enrolled_reads [simp]:
  assumes "0 < n" and "n \<le> MAX_THREADS"
  shows "htls (enrolled n n) 0 = \<lparr>ht_slot = 0, ht_retired = [], ht_actions = []\<rparr>"
    "hz_slots (enrolled n n) ! 0 = \<lparr>hs_owner = 1, hs_hp = replicate HAZARD_POINTERS 0\<rparr>" "hz_active (enrolled n n) ! 0 = 0"
  using assms by (simp_all add: enrolled_def MAX_THREADS_def)

lemma enrolled_reads1 [simp]:
  assumes "1 < n" and "n \<le> MAX_THREADS"
  shows "htls (enrolled n n) (Suc 0) = \<lparr>ht_slot = 1, ht_retired = [], ht_actions = []\<rparr>"
    "hz_slots (enrolled n n) ! (Suc 0) = \<lparr>hs_owner = 2, hs_hp = replicate HAZARD_POINTERS 0\<rparr>" "hz_active (enrolled n n) ! (Suc 0) = 1"
  using assms by (simp_all add: enrolled_def MAX_THREADS_def)

lemma enrolled_reads2 [simp]:
  assumes "2 < n" and "n \<le> MAX_THREADS"
  shows "htls (enrolled n n) 2 = \<lparr>ht_slot = 2, ht_retired = [], ht_actions = []\<rparr>"
    "hz_slots (enrolled n n) ! 2 = \<lparr>hs_owner = 3, hs_hp = replicate HAZARD_POINTERS 0\<rparr>" "hz_active (enrolled n n) ! 2 = 2"
  using assms by (simp_all add: enrolled_def MAX_THREADS_def)

lemma upto4: "[0..<2] = [0, Suc 0]" "[0..<3] = [0, Suc 0, 2]" "[0..<4] = [0, Suc 0, 2, 3]"
  by (simp_all add: upt_rec)

lemma reps: "replicate 2 x = [x, x]" "replicate 3 x = [x, x, x]" "replicate 4 x = [x, x, x, x]"
  by (simp_all add: numeral_eq_Suc)

lemma enrolled_free [simp]:
  assumes "k < n" and "n \<le> MAX_THREADS" and "hs_owner sl = 0"
  shows "free_slot ((hz_slots (enrolled n n))[k := sl]) 0 = Some k"
  using free_slot_first [of k "(hz_slots (enrolled n n))[k := sl]" 0] enrolled_simps(2) [of _ n] assms by simp

lemmas race_eval = start_eq hp_eval upto4 reps hp_dangling_def Let_def thread_owner_id_def numeral_2_eq_2 [symmetric] times_numeral

lemma copy_race_run: "\<exists>c. (do { c \<leftarrow> hp_start 2 {64}; hp_run copy_race c }) = Some c \<and> hp_dangling c"
  by (simp add: race_eval copy_race_def)

subsection \<open>A link of a removed node\<close>

text \<open>
  Thread 0 holds node 128. Thread 1 removes it, then its successor 192, and frees 192, which nobody
  publishes. Thread 0 now runs \<open>protect_from\<close> on the marked link of 128: both loads give the same
  value, and the validation succeeds.
\<close>

definition marked_race :: "(thread \<times> hp_event) list" where
  "marked_race =
     [(1, Insert 64 128), (1, Insert 128 192)] @ protect_run 0 HP_CUR 64 @ [(0, Copy_to HP_CUR HP_PREV)] @
     [(1, Mark 128), (1, Cut 64), (1, Retire_node 128)] @ remove_run 1 64 192 @ times 15 1 @
     protect_run 0 HP_CUR 128"

lemma marked_race_run: "\<exists>c. (do { c \<leftarrow> hp_start 2 {64}; hp_run marked_race c }) = Some c \<and> hp_dangling c"
  by (simp add: race_eval marked_race_def)

subsection \<open>A scan and the exit of a thread\<close>

text \<open>
  Thread 2, the last of the registry, holds node 128; thread 1 removes it and scans the first entry,
  that of thread 0. Thread 0 exits: the last entry is moved to the place that the scan has passed.
\<close>

definition leave_race :: "(thread \<times> hp_event) list" where
  "leave_race =
     [(1, Insert 64 128)] @ protect_run 2 HP_CUR 64 @ remove_run 1 64 128 @ times 7 1 @
     [(0, Leave)] @ times 5 0 @ times 9 1"

lemma leave_race_run: "\<exists>c. (do { c \<leftarrow> hp_start 3 {64}; hp_run leave_race c }) = Some c \<and> hp_dangling c"
  by (simp add: race_eval leave_race_def)

subsection \<open>A registration and an unregistration\<close>

text \<open>
  Thread 2 leaves and registers again; between the two accesses of \<open>register_active\<close> thread 0 leaves.
  The entry of thread 2 ends up behind the count: no scan reads its hazard pointers any more.
\<close>

definition join_race :: "(thread \<times> hp_event) list" where
  "join_race =
     [(2, Leave)] @ times 8 2 @ [(2, Join), (2, Next)] @ [(0, Leave)] @ times 6 0 @ [(2, Next)] @
     [(1, Insert 64 128)] @ protect_run 2 HP_CUR 64 @ remove_run 1 64 128 @ times 9 1"

lemma join_race_run: "\<exists>c. (do { c \<leftarrow> hp_start 3 {64}; hp_run join_race c }) = Some c \<and> hp_dangling c"
  by (simp add: race_eval join_race_def)

end
