(* ===== verification/HazardSafety.thy ===== *)
theory HazardSafety
  imports HazardRaces
begin

section \<open>Safety of the hazard protocol without the four races\<close>

text \<open>
  Every run in which no validation succeeds on a marked link, copies go to higher hazard pointers
  only and the registry stays as it is keeps every held node: it is in the list, unlinked, or
  retired, and a scan for it still has the hazard pointer before it.
\<close>

fun careful :: "thread \<Rightarrow> hp_event \<Rightarrow> hp_conf \<Rightarrow> bool" where
  "careful th (Copy_to i j) c \<longleftrightarrow> i < j"
| "careful th Leave c \<longleftrightarrow> False"
| "careful th Join c \<longleftrightarrow> False"
| "careful th Next c \<longleftrightarrow>
     (case hc_pcs c ! th of Src_published i a raw \<Rightarrow> \<not> (hc_next c a = raw \<and> is_marked raw) | _ \<Rightarrow> True)"
| "careful th e c \<longleftrightarrow> True"

fun careful_run :: "(thread \<times> hp_event) list \<Rightarrow> hp_conf \<Rightarrow> bool" where
  "careful_run [] c \<longleftrightarrow> True"
| "careful_run ((th, e) # es) c \<longleftrightarrow>
     careful th e c \<and> (case hp_step th e c of None \<Rightarrow> True | Some c \<Rightarrow> careful_run es c)"

subsection \<open>The invariant\<close>

abbreviation held :: "hp_conf \<Rightarrow> thread \<Rightarrow> nat \<Rightarrow> ptr" where
  "held c th \<equiv> hc_held c ! th"

definition shown :: "hp_conf \<Rightarrow> thread \<Rightarrow> nat \<Rightarrow> ptr" where
  "shown c th i = hs_hp (hz_slots (hc_state c) ! th) ! i"

definition all_retired :: "nat \<Rightarrow> hp_conf \<Rightarrow> ptr set" where
  "all_retired N c = (\<Union>th < N. set (retired_by c th))"

text \<open>The registry: thread \<open>th\<close> owns slot \<open>th\<close>, entry \<open>th\<close>.\<close>

definition reg_inv :: "nat \<Rightarrow> hp_conf \<Rightarrow> bool" where
  "reg_inv N c \<longleftrightarrow> N \<le> MAX_THREADS \<and> length (hc_pcs c) = N \<and> length (hc_held c) = N \<and>
     length (hz_tls (hc_state c)) = N \<and> length (hz_slots (hc_state c)) = MAX_THREADS \<and> unat (hz_count (hc_state c)) = N \<and>
     (\<forall>k < N. hz_active (hc_state c) ! k = int k \<and> ht_slot (htls (hc_state c) k) = int k \<and>
        hs_owner (hz_slots (hc_state c) ! k) \<noteq> 0 \<and> length (hs_hp (hz_slots (hc_state c) ! k)) = HAZARD_POINTERS)"

text \<open>
  The list: a link leads to a node of the list, no two links to the same one; a node outside is
  marked. Objects are retired once.
\<close>

definition link_inv :: "hp_conf \<Rightarrow> bool" where
  "link_inv c \<longleftrightarrow> hc_roots c \<inter> hc_attached c = {} \<and> 0 \<notin> hc_attached c \<and>
     (\<forall>a \<in> hc_roots c \<union> hc_attached c. tag_clear (hc_next c a) = 0 \<or> tag_clear (hc_next c a) \<in> hc_attached c) \<and>
     (\<forall>a \<in> hc_roots c \<union> hc_attached c. \<forall>b \<in> hc_roots c \<union> hc_attached c.
        tag_clear (hc_next c a) = tag_clear (hc_next c b) \<longrightarrow> tag_clear (hc_next c a) \<noteq> 0 \<longrightarrow> a = b)"

definition life_inv :: "nat \<Rightarrow> hp_conf \<Rightarrow> bool" where
  "life_inv N c \<longleftrightarrow>
     (\<forall>b \<in> hc_detached c \<union> all_retired N c. is_marked (hc_next c b)) \<and>
     hc_attached c \<inter> (hc_detached c \<union> all_retired N c \<union> hc_freed c) = {} \<and>
     hc_detached c \<inter> (all_retired N c \<union> hc_freed c) = {} \<and> all_retired N c \<inter> hc_freed c = {}"

definition once_inv :: "nat \<Rightarrow> hp_conf \<Rightarrow> bool" where
  "once_inv N c \<longleftrightarrow>
     (\<forall>s < N. distinct (retired_by c s)) \<and>
     (\<forall>s < N. \<forall>t < N. s \<noteq> t \<longrightarrow> set (retired_by c s) \<inter> set (retired_by c t) = {})"

definition held_inv :: "nat \<Rightarrow> hp_conf \<Rightarrow> bool" where
  "held_inv N c \<longleftrightarrow> (\<forall>th < N. \<forall>i < HAZARD_POINTERS. held c th i \<noteq> 0 \<longrightarrow>
     shown c th i = held c th i \<and> held c th i \<in> hc_attached c \<union> hc_detached c \<union> all_retired N c)"

fun scans :: "hp_pc \<Rightarrow> ptr \<Rightarrow> bool" where
  "scans (Scan_entry p n k) q \<longleftrightarrow> q = p"
| "scans (Scan_owner p n k x) q \<longleftrightarrow> q = p"
| "scans (Scan_hp p n k x h) q \<longleftrightarrow> q = p"
| "scans _ q \<longleftrightarrow> False"

fun passed :: "hp_pc \<Rightarrow> thread \<Rightarrow> nat \<Rightarrow> bool" where
  "passed (Scan_entry p n k) t i \<longleftrightarrow> t < k"
| "passed (Scan_owner p n k x) t i \<longleftrightarrow> t < k"
| "passed (Scan_hp p n k x h) t i \<longleftrightarrow> t < k \<or> t = k \<and> i < h"
| "passed _ t i \<longleftrightarrow> False"

definition scan_inv :: "nat \<Rightarrow> hp_conf \<Rightarrow> bool" where
  "scan_inv N c \<longleftrightarrow> (\<forall>s < N. \<forall>p. scans (hc_pcs c ! s) p \<longrightarrow> p \<in> set (retired_by c s) \<and>
     (\<forall>t < N. \<forall>i < HAZARD_POINTERS. held c t i = p \<longrightarrow> p \<noteq> 0 \<longrightarrow> \<not> passed (hc_pcs c ! s) t i))"

fun pc_ok :: "nat \<Rightarrow> hp_conf \<Rightarrow> thread \<Rightarrow> hp_pc \<Rightarrow> bool" where
  "pc_ok N c th Ready \<longleftrightarrow> True"
| "pc_ok N c th (Src_read i a raw) \<longleftrightarrow> i < HAZARD_POINTERS \<and> source_ok c th i a"
| "pc_ok N c th (Src_published i a raw) \<longleftrightarrow> i < HAZARD_POINTERS \<and> source_ok c th i a \<and> shown c th i = tag_clear raw"
| "pc_ok N c th (Scan_entry p n k) \<longleftrightarrow> n = N \<and> k \<le> N"
| "pc_ok N c th (Scan_owner p n k x) \<longleftrightarrow> n = N \<and> k < N \<and> x = k"
| "pc_ok N c th (Scan_hp p n k x h) \<longleftrightarrow> n = N \<and> k < N \<and> x = k \<and> h \<le> HAZARD_POINTERS"
| "pc_ok N c th _ \<longleftrightarrow> False"

definition pc_inv :: "nat \<Rightarrow> hp_conf \<Rightarrow> bool" where
  "pc_inv N c \<longleftrightarrow> (\<forall>th < N. pc_ok N c th (hc_pcs c ! th))"

definition hp_inv :: "nat \<Rightarrow> hp_conf \<Rightarrow> bool" where
  "hp_inv N c \<longleftrightarrow> reg_inv N c \<and> link_inv c \<and> life_inv N c \<and> once_inv N c \<and> held_inv N c \<and> scan_inv N c \<and> pc_inv N c"

lemma hp_invE:
  assumes "hp_inv N c"
  obtains "reg_inv N c" "link_inv c" "life_inv N c" "once_inv N c" "held_inv N c" "scan_inv N c" "pc_inv N c"
  using assms by (simp add: hp_inv_def)

lemma no_dangling: "hp_inv N c \<Longrightarrow> \<not> hp_dangling c"
  unfolding hp_inv_def reg_inv_def held_inv_def life_inv_def hp_dangling_def list_ex_iff by fastforce

subsection \<open>What the elementary updates change\<close>

definition put_hp :: "thread \<Rightarrow> nat \<Rightarrow> ptr \<Rightarrow> hp_conf \<Rightarrow> hp_conf" where
  "put_hp th i p c =
     (let s = hc_state c; sl = hz_slots s ! th
      in c\<lparr>hc_state := s\<lparr>hz_slots := (hz_slots s)[th := sl\<lparr>hs_hp := (hs_hp sl)[i := p]\<rparr>]\<rparr>\<rparr>)"

lemma publish_eq: "reg_inv N c \<Longrightarrow> th < N \<Longrightarrow> publish th i p c = Some (put_hp th i p c)"
  by (simp add: publish_def protect_def slot_def reg_inv_def put_hp_def Let_def)

lemma upd_fields [simp]:
  "hc_next (pc_to th q c) = hc_next c" "hc_next (hold th i p c) = hc_next c" "hc_next (put_hp th i p c) = hc_next c"
  "hc_next (set_retired th ps c) = hc_next c"
  "hc_roots (pc_to th q c) = hc_roots c" "hc_roots (hold th i p c) = hc_roots c" "hc_roots (put_hp th i p c) = hc_roots c"
  "hc_roots (set_retired th ps c) = hc_roots c"
  "hc_attached (pc_to th q c) = hc_attached c" "hc_attached (hold th i p c) = hc_attached c"
  "hc_attached (put_hp th i p c) = hc_attached c" "hc_attached (set_retired th ps c) = hc_attached c"
  "hc_detached (pc_to th q c) = hc_detached c" "hc_detached (hold th i p c) = hc_detached c"
  "hc_detached (put_hp th i p c) = hc_detached c" "hc_detached (set_retired th ps c) = hc_detached c"
  "hc_freed (pc_to th q c) = hc_freed c" "hc_freed (hold th i p c) = hc_freed c"
  "hc_freed (put_hp th i p c) = hc_freed c" "hc_freed (set_retired th ps c) = hc_freed c"
  "hc_pcs (pc_to th q c) = (hc_pcs c)[th := q]" "hc_pcs (hold th i p c) = hc_pcs c" "hc_pcs (put_hp th i p c) = hc_pcs c"
  "hc_pcs (set_retired th ps c) = hc_pcs c"
  "hc_held (pc_to th q c) = hc_held c" "hc_held (put_hp th i p c) = hc_held c" "hc_held (set_retired th ps c) = hc_held c"
  "retired_by (pc_to th q c) = retired_by c" "retired_by (hold th i p c) = retired_by c" "retired_by (put_hp th i p c) = retired_by c"
  "shown (pc_to th q c) = shown c" "shown (hold th i p c) = shown c" "shown (set_retired th ps c) = shown c"
  "all_retired N (pc_to th q c) = all_retired N c" "all_retired N (hold th i p c) = all_retired N c"
  "all_retired N (put_hp th i p c) = all_retired N c"
  by (auto simp: pc_to_def hold_def put_hp_def set_retired_def retired_by_def shown_def all_retired_def put_htls_def Let_def fun_eq_iff)

lemma list_fields [simp]:
  "retired_by (c\<lparr>hc_next := f\<rparr>) = retired_by c" "retired_by (c\<lparr>hc_attached := A\<rparr>) = retired_by c"
  "retired_by (c\<lparr>hc_detached := A\<rparr>) = retired_by c" "retired_by (c\<lparr>hc_freed := A\<rparr>) = retired_by c"
  "all_retired N (c\<lparr>hc_next := f\<rparr>) = all_retired N c" "all_retired N (c\<lparr>hc_attached := A\<rparr>) = all_retired N c"
  "all_retired N (c\<lparr>hc_detached := A\<rparr>) = all_retired N c" "all_retired N (c\<lparr>hc_freed := A\<rparr>) = all_retired N c"
  "shown (c\<lparr>hc_next := f\<rparr>) = shown c" "shown (c\<lparr>hc_attached := A\<rparr>) = shown c"
  "shown (c\<lparr>hc_detached := A\<rparr>) = shown c" "shown (c\<lparr>hc_freed := A\<rparr>) = shown c"
  by (auto simp: retired_by_def shown_def all_retired_def fun_eq_iff)

lemma held_hold [simp]:
  "th < length (hc_held c) \<Longrightarrow> held (hold th i p c) t j = (if t = th \<and> j = i then p else held c t j)"
  by (auto simp: hold_def nth_list_update)

lemma retired_set [simp]:
  "th < length (hz_tls (hc_state c)) \<Longrightarrow> retired_by (set_retired th ps c) t = (if t = th then ps else retired_by c t)"
  by (auto simp: set_retired_def retired_by_def put_htls_def Let_def nth_list_update)

lemma shown_put [simp]:
  assumes "reg_inv N c" and "th < N" and "i < HAZARD_POINTERS"
  shows "shown (put_hp th i p c) t j = (if t = th \<and> j = i then p else shown c t j)"
  using assms by (auto simp: shown_def put_hp_def Let_def reg_inv_def nth_list_update)

lemma reg_upd [simp]:
  "reg_inv N (pc_to th q c) = reg_inv N c" "reg_inv N (hold th i p c) = reg_inv N c"
  "reg_inv N (c\<lparr>hc_next := f\<rparr>) = reg_inv N c" "reg_inv N (c\<lparr>hc_attached := A\<rparr>) = reg_inv N c"
  "reg_inv N (c\<lparr>hc_detached := A\<rparr>) = reg_inv N c" "reg_inv N (c\<lparr>hc_freed := A\<rparr>) = reg_inv N c"
  by (simp_all add: reg_inv_def pc_to_def hold_def)

lemma reg_put: "reg_inv N c \<Longrightarrow> th < N \<Longrightarrow> reg_inv N (put_hp th i p c)"
  by (auto simp: reg_inv_def put_hp_def Let_def nth_list_update)

lemma reg_set: "reg_inv N c \<Longrightarrow> th < N \<Longrightarrow> reg_inv N (set_retired th ps c)"
  by (auto simp: reg_inv_def set_retired_def put_htls_def Let_def nth_list_update)

text \<open>Only the thread's place changes: it leaves its scan, or moves on in it.\<close>

lemma hp_inv_pc:
  assumes I: "hp_inv N c" and th: "th < N" and ok: "pc_ok N c th q"
    and sc: "\<And>p. scans q p \<Longrightarrow> p \<in> set (retired_by c th) \<and>
      (\<forall>t < N. \<forall>i < HAZARD_POINTERS. held c t i = p \<longrightarrow> p \<noteq> 0 \<longrightarrow> \<not> passed q t i)"
  shows "hp_inv N (pc_to th q c)"
proof -
  have l: "length (hc_pcs c) = N" using I by (simp add: hp_inv_def reg_inv_def)
  have ok_same: "pc_ok N (pc_to th q c) t r = pc_ok N c t r" for t r by (cases r) (simp_all add: source_ok_def)
  have "scan_inv N (pc_to th q c)"
    using I sc th l by (auto simp: hp_inv_def scan_inv_def nth_list_update)
  moreover have "pc_inv N (pc_to th q c)"
    using I ok th l by (auto simp: hp_inv_def pc_inv_def ok_same nth_list_update)
  moreover have "link_inv (pc_to th q c)" "life_inv N (pc_to th q c)" "once_inv N (pc_to th q c)" "held_inv N (pc_to th q c)"
    using I by (simp_all add: hp_inv_def link_inv_def life_inv_def once_inv_def held_inv_def)
  ultimately show ?thesis using I by (simp add: hp_inv_def)
qed

lemma hp_invD:
  assumes "hp_inv N c"
  shows "N \<le> MAX_THREADS" "length (hc_pcs c) = N" "length (hc_held c) = N" "length (hz_tls (hc_state c)) = N"
    "unat (hz_count (hc_state c)) = N"
    "k < N \<Longrightarrow> hz_active (hc_state c) ! k = int k" "k < N \<Longrightarrow> hs_owner (hz_slots (hc_state c) ! k) \<noteq> 0"
    "th < N \<Longrightarrow> pc_ok N c th (hc_pcs c ! th)"
    "th < N \<Longrightarrow> i < HAZARD_POINTERS \<Longrightarrow> held c th i \<noteq> 0 \<Longrightarrow> shown c th i = held c th i"
    "th < N \<Longrightarrow> i < HAZARD_POINTERS \<Longrightarrow> held c th i \<noteq> 0 \<Longrightarrow>
       held c th i \<in> hc_attached c \<union> hc_detached c \<union> all_retired N c"
    "th < N \<Longrightarrow> scans (hc_pcs c ! th) p \<Longrightarrow> p \<in> set (retired_by c th)"
    "th < N \<Longrightarrow> scans (hc_pcs c ! th) p \<Longrightarrow> t < N \<Longrightarrow> i < HAZARD_POINTERS \<Longrightarrow> held c t i = p \<Longrightarrow> p \<noteq> 0 \<Longrightarrow>
       \<not> passed (hc_pcs c ! th) t i"
  using assms by (auto simp: hp_inv_def reg_inv_def held_inv_def scan_inv_def pc_inv_def)

lemma passed_mono: "passed q t j \<Longrightarrow> i \<le> j \<Longrightarrow> passed q t i"
  by (cases q) auto

lemma pc_ok_mono:
  assumes "pc_ok N c t q"
    and "\<And>j a raw. source_ok c t j a \<Longrightarrow> q = Src_read j a raw \<or> q = Src_published j a raw \<Longrightarrow> source_ok c' t j a"
    and "\<And>j a raw. q = Src_published j a raw \<Longrightarrow> shown c' t j = shown c t j"
  shows "pc_ok N c' t q"
  using assms by (cases q) simp_all

lemma ready_scan: "\<not> scans Ready p"
  by simp

text \<open>A thread publishes a pointer and holds it, or holds nothing there.\<close>

lemma hp_inv_publish:
  assumes I: "hp_inv N c" and th: "th < N" and i: "i < HAZARD_POINTERS" and pc: "\<And>p. \<not> scans (hc_pcs c ! th) p"
    and src: "\<And>j a raw. hc_pcs c ! th \<noteq> Src_published j a raw" "\<And>j a raw. hc_pcs c ! th = Src_read j a raw \<Longrightarrow> j = i"
    and x: "x = 0 \<or> x = p \<and> (\<exists>j < i. held c th j = p)"
  shows "hp_inv N (hold th i x (put_hp th i p c))"
proof -
  let ?c = "hold th i x (put_hp th i p c)"
  note D = hp_invD [OF I]
  have R: "reg_inv N c" using I by (simp add: hp_inv_def)
  have h: "held ?c t j = (if t = th \<and> j = i then x else held c t j)" for t j using th D(3) by simp
  note s = shown_put [OF R th i]
  have "held_inv N ?c"
    unfolding held_inv_def
  proof (intro allI impI)
    fix t j assume t: "t < N" "j < HAZARD_POINTERS" and nz: "held ?c t j \<noteq> 0"
    have "\<exists>j' < HAZARD_POINTERS. held ?c t j = held c t j'"
    proof (cases "t = th \<and> j = i")
      case True
      then obtain j' where "j' < i" "held c th j' = p" "x = p" using nz x by (auto simp: h)
      then show ?thesis using True i h [of t j] by (intro exI [of _ j']) simp
    qed (use t(2) in \<open>auto simp: h\<close>)
    then obtain j' where j': "j' < HAZARD_POINTERS" "held ?c t j = held c t j'" by blast
    have "shown ?c t j = held ?c t j" using nz x D(9) [OF t] by (auto simp: h s split: if_splits)
    then show "shown ?c t j = held ?c t j \<and> held ?c t j \<in> hc_attached ?c \<union> hc_detached ?c \<union> all_retired N ?c"
      using D(10) [OF t(1) j'(1)] nz j'(2) by simp
  qed
  moreover have "scan_inv N ?c"
    unfolding scan_inv_def
  proof (intro allI impI conjI)
    fix u q assume u: "u < N" "scans (hc_pcs ?c ! u) q"
    then show "q \<in> set (retired_by ?c u)" using D(11) by simp
    fix t j assume t: "t < N" "j < HAZARD_POINTERS" "held ?c t j = q" "q \<noteq> 0"
    show "\<not> passed (hc_pcs ?c ! u) t j"
    proof (cases "t = th \<and> j = i")
      case True
      then obtain j' where j': "j' < i" "held c th j' = q" using t x by (auto simp: h)
      have "\<not> passed (hc_pcs c ! u) th j'" using D(12) [OF u(1) _ th, of q j'] u(2) j' i t(4) by simp
      then show ?thesis using passed_mono [of "hc_pcs c ! u" th i j'] j'(1) True by auto
    next
      case False
      then have "held c t j = q" using t by (auto simp: h)
      then show ?thesis using D(12) [OF u(1) _ t(1,2)] u(2) t(4) by simp
    qed
  qed
  moreover have "pc_inv N ?c"
    unfolding pc_inv_def
  proof (intro allI impI)
    fix t assume t: "t < N"
    have so: "source_ok ?c t j a" if "source_ok c t j a" and "t = th \<Longrightarrow> j = i" for j a
    proof -
      have "held ?c t j' = held c t j'" if "j' \<noteq> j" for j' using h [of t j'] that \<open>t = th \<Longrightarrow> j = i\<close> by metis
      then show ?thesis using \<open>source_ok c t j a\<close> unfolding source_ok_def list_ex_iff by simp metis
    qed
    have "pc_ok N ?c t (hc_pcs c ! t)"
    proof (rule pc_ok_mono [OF D(8) [OF t]])
      fix j a raw
      show "source_ok ?c t j a" if "source_ok c t j a" "hc_pcs c ! t = Src_read j a raw \<or> hc_pcs c ! t = Src_published j a raw"
      proof (rule so [OF that(1)])
        assume "t = th"
        then show "j = i" using src that(2) by blast
      qed
      show "shown ?c t j = shown c t j" if "hc_pcs c ! t = Src_published j a raw"
      proof -
        have "t \<noteq> th" using src(1) that by blast
        then show ?thesis using s [where t = t and j = j] by simp
      qed
    qed
    then show "pc_ok N ?c t (hc_pcs ?c ! t)" by simp
  qed
  moreover have "link_inv ?c" "life_inv N ?c" "once_inv N ?c" using I by (simp_all add: hp_inv_def link_inv_def life_inv_def once_inv_def)
  ultimately show ?thesis using reg_put [OF R th] by (simp add: hp_inv_def)
qed

text \<open>A validated pointer is held.\<close>

lemma retired_all: "s < N \<Longrightarrow> p \<in> set (retired_by c s) \<Longrightarrow> p \<in> all_retired N c"
  by (auto simp: all_retired_def)

lemma hp_inv_hold:
  assumes I: "hp_inv N c" and th: "th < N" and i: "i < HAZARD_POINTERS" and sh: "shown c th i = p"
    and p: "p = 0 \<or> p \<in> hc_attached c" and src: "\<And>j a raw. hc_pcs c ! th = Src_published j a raw \<Longrightarrow> j = i"
    "\<And>j a raw. hc_pcs c ! th \<noteq> Src_read j a raw"
  shows "hp_inv N (hold th i p c)"
proof -
  let ?c = "hold th i p c"
  note D = hp_invD [OF I]
  have h: "held ?c t j = (if t = th \<and> j = i then p else held c t j)" for t j using th D(3) by simp
  have "held_inv N ?c" unfolding held_inv_def
  proof (intro allI impI)
    fix t j assume t: "t < N" "j < HAZARD_POINTERS" and nz: "held ?c t j \<noteq> 0"
    show "shown ?c t j = held ?c t j \<and> held ?c t j \<in> hc_attached ?c \<union> hc_detached ?c \<union> all_retired N ?c"
    proof (cases "t = th \<and> j = i")
      case True
      then show ?thesis using h [of t j] nz p sh by simp
    next
      case False
      then have "held ?c t j = held c t j" using h [of t j] by auto
      then show ?thesis using D(9,10) [OF t] nz by simp
    qed
  qed
  moreover have "scan_inv N ?c" unfolding scan_inv_def
  proof (intro allI impI conjI)
    fix u q assume u: "u < N" "scans (hc_pcs ?c ! u) q"
    then have q: "q \<in> set (retired_by c u)" using D(11) by simp
    then show "q \<in> set (retired_by ?c u)" by simp
    fix t j assume t: "t < N" "j < HAZARD_POINTERS" "held ?c t j = q" "q \<noteq> 0"
    have "q \<notin> hc_attached c" using I retired_all [OF u(1) q] by (auto simp: hp_inv_def life_inv_def)
    then have "held c t j = q" using t(3,4) h [of t j] p by (auto split: if_splits)
    then show "\<not> passed (hc_pcs ?c ! u) t j" using D(12) [OF u(1) _ t(1,2)] u(2) t(4) by simp
  qed
  moreover have "pc_inv N ?c" unfolding pc_inv_def
  proof (intro allI impI)
    fix t assume t: "t < N"
    have "pc_ok N ?c t (hc_pcs c ! t)"
    proof (rule pc_ok_mono [OF D(8) [OF t]])
      fix j a raw
      assume so: "source_ok c t j a" "hc_pcs c ! t = Src_read j a raw \<or> hc_pcs c ! t = Src_published j a raw"
      have "held ?c t j' = held c t j'" if "j' \<noteq> j" for j'
        using h [of t j'] that so(2) src by metis
      then show "source_ok ?c t j a" using so(1) unfolding source_ok_def list_ex_iff by simp metis
    qed simp
    then show "pc_ok N ?c t (hc_pcs ?c ! t)" by simp
  qed
  moreover have "link_inv ?c" "life_inv N ?c" "once_inv N ?c" using I by (simp_all add: hp_inv_def link_inv_def life_inv_def once_inv_def)
  ultimately show ?thesis using I by (simp add: hp_inv_def)
qed

text \<open>The list changes; nothing else does.\<close>

lemma hp_inv_list:
  assumes I: "hp_inv N c" and same: "hc_state c' = hc_state c" "hc_pcs c' = hc_pcs c" "hc_held c' = hc_held c" "hc_roots c' = hc_roots c"
    and inv: "link_inv c'" "life_inv N c'"
    and sub: "hc_attached c \<union> hc_detached c \<subseteq> hc_attached c' \<union> hc_detached c'"
  shows "hp_inv N c'"
proof -
  have r: "retired_by c' = retired_by c" "shown c' = shown c" "all_retired N c' = all_retired N c"
    using same(1) by (auto simp: retired_by_def shown_def all_retired_def fun_eq_iff)
  have "source_ok c' = source_ok c" using same(3,4) by (simp add: source_ok_def fun_eq_iff)
  then have "pc_ok N c' t q = pc_ok N c t q" for t q using r by (cases q) simp_all
  moreover have "held_inv N c'" using I sub r same by (fastforce simp: hp_inv_def held_inv_def)
  ultimately show ?thesis using I inv r same by (simp add: hp_inv_def reg_inv_def scan_inv_def pc_inv_def once_inv_def)
qed

lemma tag_clear_marks [simp]: "tag_clear (set_marked p) = tag_clear p" "tag_clear (clear_mark p) = tag_clear p" "is_marked (set_marked p)"
proof -
  show "tag_clear (set_marked p) = tag_clear p" by (rule bit_word_eqI) (auto simp: tag_bits)
  show "tag_clear (clear_mark p) = tag_clear p" by (rule bit_word_eqI) (auto simp: tag_bits)
  show "is_marked (set_marked p)" by (simp add: tag_bits)
qed

lemma hp_inv_mark:
  assumes I: "hp_inv N c" and s: "list_mark a c = Some c'"
  shows "hp_inv N c'"
proof -
  have a: "a \<in> hc_attached c" and c': "c' = c\<lparr>hc_next := (hc_next c)(a := set_marked (hc_next c a))\<rparr>"
    using s by (auto simp: list_mark_def split: if_splits)
  have "tag_clear (hc_next c' x) = tag_clear (hc_next c x)" for x by (simp add: c')
  then have "link_inv c'" using I by (simp add: hp_inv_def link_inv_def c')
  moreover have "life_inv N c'" using I a by (auto simp: hp_inv_def life_inv_def c')
  ultimately show ?thesis by (intro hp_inv_list [OF I]) (auto simp: c')
qed

lemma link_insert:
  fixes T :: "ptr \<Rightarrow> ptr"
  assumes "\<forall>x \<in> S. T x = 0 \<or> T x \<in> A" and "\<forall>x \<in> S. \<forall>y \<in> S. T x = T y \<longrightarrow> T x \<noteq> 0 \<longrightarrow> x = y"
    and "a \<in> S" and "b \<notin> S" and "b \<notin> A" and "b \<noteq> 0"
    and T': "\<And>x. T' x = (if x = a then b else if x = b then T a else T x)"
  shows "(\<forall>x \<in> insert b S. T' x = 0 \<or> T' x \<in> insert b A) \<and>
    (\<forall>x \<in> insert b S. \<forall>y \<in> insert b S. T' x = T' y \<longrightarrow> T' x \<noteq> 0 \<longrightarrow> x = y)"
proof -
  have nb: "T x \<noteq> b" if "x \<in> S" for x using assms(1,5,6) that by metis
  have u: "x = y" if "x \<in> S" "y \<in> S" "T x = T y" "T x \<noteq> 0" for x y using assms(2) that by blast
  have v: "T' x = T (if x = b then a else x)" "x \<noteq> a" if "x \<in> insert b S" "T' x \<noteq> b" for x
    using that nb assms(3,4) unfolding T' by (auto split: if_splits)
  show ?thesis
  proof (intro conjI ballI impI)
    fix x assume x: "x \<in> insert b S"
    show "T' x = 0 \<or> T' x \<in> insert b A" using x assms(1,3) unfolding T' by (auto split: if_splits)
    fix y assume y: "y \<in> insert b S" and e: "T' x = T' y" "T' x \<noteq> 0"
    show "x = y"
    proof (cases "T' x = b")
      case True
      have "z = a" if "z \<in> insert b S" "T' z = b" for z
        using that nb [of z] nb [of a] assms(3) unfolding T' by (auto split: if_splits)
      then show ?thesis using x y e(1) True by metis
    next
      case False
      have "(if x = b then a else x) = (if y = b then a else y)"
        by (rule u) (use x y e assms(3) v(1) [OF x False] v(1) [OF y] False in \<open>auto split: if_splits\<close>)
      then show ?thesis using v(2) [OF x False] v(2) [OF y] False e(1) by (simp split: if_splits)
    qed
  qed
qed

lemma hp_inv_insert:
  assumes I: "hp_inv N c" and s: "list_insert a b c = Some c'"
  shows "hp_inv N c'"
proof -
  have a: "a \<in> hc_roots c \<union> hc_attached c" "\<not> is_marked (hc_next c a)" and f: "fresh_node c b"
    and c': "c' = c\<lparr>hc_next := (hc_next c)(b := hc_next c a, a := b), hc_attached := insert b (hc_attached c), hc_freed := hc_freed c - {b}\<rparr>"
    using s by (auto simp: list_insert_def split: if_splits)
  have len: "length (hc_pcs c) = N" using hp_invD(2) [OF I] .
  have b: "b \<noteq> 0" "aligned b" "b \<notin> hc_roots c" "b \<notin> hc_attached c" "b \<notin> hc_detached c" "b \<notin> all_retired N c"
    using f len by (auto simp: fresh_node_def all_retired_def list_all_iff)
  have L: "link_inv c" "life_inv N c" using I by (simp_all add: hp_inv_def)
  have T: "tag_clear (hc_next c' x) = (if x = a then b else if x = b then tag_clear (hc_next c a) else tag_clear (hc_next c x))" for x
    using b(2) by (simp add: c')
  have "b \<notin> hc_roots c \<union> hc_attached c" using b by simp
  note li = link_insert [OF L(1) [unfolded link_inv_def, THEN conjunct2, THEN conjunct2, THEN conjunct1]
      L(1) [unfolded link_inv_def, THEN conjunct2, THEN conjunct2, THEN conjunct2] a(1) this b(4,1) T]
  have sets: "insert b (hc_attached c) = hc_attached c'" "insert b (hc_roots c \<union> hc_attached c) = hc_roots c' \<union> hc_attached c'"
    by (auto simp: c')
  have "hc_roots c' \<inter> hc_attached c' = {} \<and> 0 \<notin> hc_attached c'"
    using L(1) [unfolded link_inv_def, THEN conjunct1] L(1) [unfolded link_inv_def, THEN conjunct2, THEN conjunct1] b
    by (simp add: c')
  then have "link_inv c'" using li unfolding link_inv_def sets by (simp only: simp_thms)
  moreover have "life_inv N c'"
    using L(2) a b unfolding c' life_inv_def by auto
  ultimately show ?thesis by (intro hp_inv_list [OF I]) (auto simp: c')
qed

lemma link_cut:
  fixes T :: "ptr \<Rightarrow> ptr"
  assumes "\<forall>x \<in> S. T x = 0 \<or> T x \<in> A" and "\<forall>x \<in> S. \<forall>y \<in> S. T x = T y \<longrightarrow> T x \<noteq> 0 \<longrightarrow> x = y"
    and "a \<in> S" and "b \<in> S" and "T a = b" and "b \<noteq> 0" and "a \<noteq> b"
    and T': "\<And>x. T' x = (if x = a then T b else T x)" and S': "S' \<subseteq> S" "b \<notin> S'"
  shows "(\<forall>x \<in> S'. T' x = 0 \<or> T' x \<in> A - {b}) \<and> (\<forall>x \<in> S'. \<forall>y \<in> S'. T' x = T' y \<longrightarrow> T' x \<noteq> 0 \<longrightarrow> x = y)"
proof -
  have u: "x = y" if "x \<in> S" "y \<in> S" "T x = T y" "T x \<noteq> 0" for x y using assms(2) that by blast
  have nb: "T x \<noteq> b" if "x \<in> S" "x \<noteq> a" for x using u [of x a] that assms(3,5,6) by auto
  show ?thesis
  proof (intro conjI ballI impI)
    fix x assume x: "x \<in> S'"
    have xS: "x \<in> S" "x \<noteq> b" using x S' by auto
    show "T' x = 0 \<or> T' x \<in> A - {b}"
    proof (cases "x = a")
      case True
      then show ?thesis using bspec [OF assms(1) assms(4)] nb [OF assms(4)] assms(7) by (auto simp: T')
    next
      case False
      then show ?thesis using bspec [OF assms(1) xS(1)] nb [OF xS(1)] by (auto simp: T')
    qed
    fix y assume y: "y \<in> S'" and e: "T' x = T' y" "T' x \<noteq> 0"
    have yS: "y \<in> S" "y \<noteq> b" using y S' by auto
    show "x = y"
      using u [OF assms(4) yS(1)] u [OF xS(1) assms(4)] u [OF xS(1) yS(1)] e xS yS by (simp add: T' split: if_splits)
  qed
qed

lemma hp_inv_cut:
  assumes I: "hp_inv N c" and s: "list_cut a c = Some c'"
  shows "hp_inv N c'"
proof -
  define b where "b = hc_next c a"
  have a: "a \<in> hc_roots c \<union> hc_attached c" "\<not> is_marked b" "tag_clear b = b" and b: "b \<in> hc_attached c" "is_marked (hc_next c b)"
    and c': "c' = c\<lparr>hc_next := (hc_next c)(a := clear_mark (hc_next c b)), hc_attached := hc_attached c - {b}, hc_detached := insert b (hc_detached c)\<rparr>"
    using s by (auto simp: list_cut_def b_def Let_def split: if_splits)
  have ab: "a \<noteq> b" using a b by (auto simp: b_def)
  have L: "link_inv c" "life_inv N c" using I by (simp_all add: hp_inv_def)
  have R: "hc_roots c \<inter> hc_attached c = {}" "0 \<notin> hc_attached c" using L(1) by (simp_all add: link_inv_def)
  have b0: "b \<noteq> 0" "b \<in> hc_roots c \<union> hc_attached c" using R(2) b by auto
  have T: "tag_clear (hc_next c' x) = (if x = a then tag_clear (hc_next c b) else tag_clear (hc_next c x))" for x
    by (simp add: c')
  have Ta: "tag_clear (hc_next c a) = b" using a(3) by (simp add: b_def)
  have "hc_roots c' \<union> hc_attached c' \<subseteq> hc_roots c \<union> hc_attached c" "b \<notin> hc_roots c' \<union> hc_attached c'"
    using R(1) b(1) by (auto simp: c')
  note lc = link_cut [OF L(1) [unfolded link_inv_def, THEN conjunct2, THEN conjunct2, THEN conjunct1]
      L(1) [unfolded link_inv_def, THEN conjunct2, THEN conjunct2, THEN conjunct2] a(1) b0(2) Ta b0(1) ab T this]
  have sets: "hc_attached c - {b} = hc_attached c'" by (simp add: c')
  have "hc_roots c' \<inter> hc_attached c' = {} \<and> 0 \<notin> hc_attached c'" using R by (auto simp: c')
  then have "link_inv c'" using lc unfolding link_inv_def sets by (simp only: simp_thms)
  moreover have "a \<notin> hc_detached c \<union> all_retired N c" using L(2) a(2) unfolding b_def life_inv_def by blast
  then have "life_inv N c'"
    using L(2) b ab by (auto simp: life_inv_def c')
  ultimately show ?thesis using b by (intro hp_inv_list [OF I]) (auto simp: c')
qed

text \<open>The list of retired objects of a thread changes.\<close>

lemma hp_inv_retired:
  assumes I: "hp_inv N c" and th: "th < N" and c': "c' = set_retired th ps (c\<lparr>hc_detached := D, hc_freed := F\<rparr>)"
    and inv: "life_inv N c'" "distinct ps" "\<And>t. t < N \<Longrightarrow> t \<noteq> th \<Longrightarrow> set ps \<inter> set (retired_by c t) = {}"
    and held: "\<And>t i. t < N \<Longrightarrow> i < HAZARD_POINTERS \<Longrightarrow> held c t i \<in> hc_detached c \<union> set (retired_by c th) \<Longrightarrow> held c t i \<noteq> 0 \<Longrightarrow>
      held c t i \<in> D \<union> set ps"
    and sc: "\<And>p. scans (hc_pcs c ! th) p \<Longrightarrow> p \<in> set ps"
  shows "hp_inv N c'"
proof -
  note D = hp_invD [OF I]
  have r: "retired_by c' t = (if t = th then ps else retired_by c t)" for t using th D(4) by (simp add: c')
  have same: "hc_pcs c' = hc_pcs c" "hc_held c' = hc_held c" "hc_roots c' = hc_roots c" "shown c' = shown c" by (simp_all add: c')
  have "source_ok c' = source_ok c" using same by (simp add: source_ok_def fun_eq_iff)
  then have "pc_ok N c' t q = pc_ok N c t q" for t q using same by (cases q) simp_all
  then have "pc_inv N c'" using I same by (simp add: hp_inv_def pc_inv_def)
  moreover have "link_inv c'" using I by (simp add: hp_inv_def link_inv_def c')
  moreover have "once_inv N c'"
    using I inv(2,3) th unfolding hp_inv_def once_inv_def r by (simp add: Int_commute)
  moreover have "held_inv N c'" unfolding held_inv_def same
  proof (intro allI impI conjI)
    fix t i assume t: "t < N" "i < HAZARD_POINTERS" "held c t i \<noteq> 0"
    show "shown c t i = held c t i" by (rule D(9) [OF t])
    have ar: "set ps \<subseteq> all_retired N c'" "x \<in> all_retired N c \<Longrightarrow> x \<notin> set (retired_by c th) \<Longrightarrow> x \<in> all_retired N c'" for x
      using th by (auto simp: all_retired_def r)
    have f: "hc_attached c' = hc_attached c" "hc_detached c' = D" by (simp_all add: c')
    show "held c t i \<in> hc_attached c' \<union> hc_detached c' \<union> all_retired N c'"
      using D(10) [OF t] held [OF t(1,2) _ t(3)] ar unfolding f by blast
  qed
  moreover have "scan_inv N c'" unfolding scan_inv_def same
  proof (intro allI impI conjI)
    fix u p assume u: "u < N" "scans (hc_pcs c ! u) p"
    show "p \<in> set (retired_by c' u)" using D(11) [OF u] sc u(2) by (cases "u = th") (simp_all add: r)
    fix t i assume "t < N" "i < HAZARD_POINTERS" "held c t i = p" "p \<noteq> 0"
    then show "\<not> passed (hc_pcs c ! u) t i" by (rule D(12) [OF u])
  qed
  moreover have "reg_inv N c'" using I th by (simp add: hp_inv_def c' reg_set)
  ultimately show ?thesis using inv(1) by (simp add: hp_inv_def)
qed

lemma hp_inv_retire:
  assumes I: "hp_inv N c" and th: "th < N" and p: "p \<in> hc_detached c" and pc: "hc_pcs c ! th = Ready"
  shows "hp_inv N (set_retired th (retired_by c th @ [p]) (c\<lparr>hc_detached := hc_detached c - {p}\<rparr>))"
proof -
  let ?ps = "retired_by c th @ [p]"
  let ?c = "set_retired th ?ps (c\<lparr>hc_detached := hc_detached c - {p}, hc_freed := hc_freed c\<rparr>)"
  have L: "life_inv N c" "once_inv N c" using I by (simp_all add: hp_inv_def)
  have np: "p \<notin> all_retired N c" using L(1) p by (auto simp: life_inv_def)
  then have npt: "p \<notin> set (retired_by c t)" if "t < N" for t using that by (auto simp: all_retired_def)
  have ar: "all_retired N ?c = insert p (all_retired N c)"
    using th hp_invD(4) [OF I] by (auto simp: all_retired_def split: if_splits)
  have "hp_inv N ?c"
  proof (rule hp_inv_retired [OF I th refl])
    show "life_inv N ?c" using L(1) p unfolding life_inv_def ar by auto
    show "distinct ?ps" using L(2) npt [OF th] th by (auto simp: once_inv_def)
    show "set ?ps \<inter> set (retired_by c t) = {}" if "t < N" "t \<noteq> th" for t
      using L(2) npt [OF that(1)] th that by (auto simp: once_inv_def)
    show "held c t i \<in> hc_detached c - {p} \<union> set ?ps" if "held c t i \<in> hc_detached c \<union> set (retired_by c th)" for t i
      using that by auto
  qed (simp add: pc)
  then show ?thesis by simp
qed

lemma hp_inv_free:
  assumes I: "hp_inv N c" and th: "th < N" and p: "p \<in> set (retired_by c th)" and pc: "hc_pcs c ! th = Ready"
    and free: "\<And>t i. t < N \<Longrightarrow> i < HAZARD_POINTERS \<Longrightarrow> held c t i \<noteq> 0 \<Longrightarrow> held c t i \<noteq> p"
  shows "hp_inv N (set_retired th (remove1 p (retired_by c th)) (c\<lparr>hc_freed := insert p (hc_freed c)\<rparr>))"
proof -
  let ?ps = "remove1 p (retired_by c th)"
  let ?c = "set_retired th ?ps (c\<lparr>hc_detached := hc_detached c, hc_freed := insert p (hc_freed c)\<rparr>)"
  have L: "life_inv N c" "once_inv N c" using I by (simp_all add: hp_inv_def)
  have d: "distinct (retired_by c th)" using L(2) th by (simp add: once_inv_def)
  have dt: "t < N \<Longrightarrow> t \<noteq> th \<Longrightarrow> set (retired_by c th) \<inter> set (retired_by c t) = {}" for t
    using L(2) th by (auto simp: once_inv_def)
  have ps: "set ?ps = set (retired_by c th) - {p}" using d by simp
  have np: "t < N \<Longrightarrow> t \<noteq> th \<Longrightarrow> p \<notin> set (retired_by c t)" for t using dt [of t] p by blast
  have ar: "all_retired N ?c = all_retired N c - {p}"
    using th hp_invD(4) [OF I] np ps by (auto simp: all_retired_def split: if_splits)
  have pa: "p \<in> all_retired N c" using p th by (auto simp: all_retired_def)
  have "hp_inv N ?c"
  proof (rule hp_inv_retired [OF I th refl])
    show "life_inv N ?c" using L(1) pa unfolding life_inv_def ar by auto
    show "distinct ?ps" using d by simp
    show "set ?ps \<inter> set (retired_by c t) = {}" if "t < N" "t \<noteq> th" for t using dt [OF that] ps by blast
    show "held c t i \<in> hc_detached c \<union> set ?ps" if "t < N" "i < HAZARD_POINTERS" "held c t i \<in> hc_detached c \<union> set (retired_by c th)" "held c t i \<noteq> 0" for t i
      using free [OF that(1,2,4)] that(3) ps by blast
  qed (simp add: pc)
  then show ?thesis by simp
qed

subsection \<open>Every step\<close>

text \<open>A scan goes on when it does not pass a hazard pointer that holds its object.\<close>

lemma hp_inv_scan:
  assumes I: "hp_inv N c" and th: "th < N" and sc: "scans (hc_pcs c ! th) p" and ok: "pc_ok N c th q"
    and q: "\<And>r. scans q r \<Longrightarrow> r = p"
    and pass: "\<And>t i. t < N \<Longrightarrow> i < HAZARD_POINTERS \<Longrightarrow> passed q t i \<Longrightarrow>
      passed (hc_pcs c ! th) t i \<or> shown c t i \<noteq> p"
  shows "hp_inv N (pc_to th q c)"
proof (rule hp_inv_pc [OF I th ok])
  fix r assume "scans q r"
  then have r: "r = p" by (rule q)
  show "r \<in> set (retired_by c th) \<and> (\<forall>t < N. \<forall>i < HAZARD_POINTERS. held c t i = r \<longrightarrow> r \<noteq> 0 \<longrightarrow> \<not> passed q t i)"
  proof (intro conjI allI impI)
    show "r \<in> set (retired_by c th)" using hp_invD(11) [OF I th sc] r by simp
    fix t i assume t: "t < N" "i < HAZARD_POINTERS" "held c t i = r" "r \<noteq> 0"
    have "shown c t i = p" using hp_invD(9) [OF I t(1,2)] t(3,4) r by simp
    moreover have "\<not> passed (hc_pcs c ! th) t i" using hp_invD(12) [OF I th sc t(1,2)] t(3,4) r by simp
    ultimately show "\<not> passed q t i" using pass [OF t(1,2)] by blast
  qed
qed

lemma entry_inv:
  assumes I: "hp_inv N c" and th: "th < N" and pc: "hc_pcs c ! th = Scan_entry p n k" and s: "access_entry th p n k c = Some c'"
  shows "hp_inv N c'"
proof -
  note D = hp_invD [OF I]
  have n: "n = N" "k \<le> N" using D(8) [OF th] pc by simp_all
  have sc: "scans (hc_pcs c ! th) p" by (simp add: pc)
  show ?thesis
  proof (cases "k < N")
    case True
    then have "c' = pc_to th (Scan_owner p n k k) c" using s n D(6) by (simp add: access_entry_def)
    then show ?thesis using True n pc by (auto intro!: hp_inv_scan [OF I th sc])
  next
    case False
    let ?c = "pc_to th Ready c"
    have k: "k = N" using False n by simp
    have I': "hp_inv N ?c" by (rule hp_inv_pc [OF I th]) simp_all
    have "c' = set_retired th (remove1 p (retired_by ?c th)) (?c\<lparr>hc_freed := insert p (hc_freed ?c)\<rparr>)"
      using s n False by (cases c) (simp add: access_entry_def retired_by_def pc_to_def set_retired_def Let_def)
    moreover have "hp_inv N (set_retired th (remove1 p (retired_by ?c th)) (?c\<lparr>hc_freed := insert p (hc_freed ?c)\<rparr>))"
    proof (rule hp_inv_free [OF I' th])
      show "p \<in> set (retired_by ?c th)" using D(11) [OF th sc] by simp
      show "hc_pcs ?c ! th = Ready" using th D(2) by simp
      show "held ?c t i \<noteq> p" if "t < N" "i < HAZARD_POINTERS" "held ?c t i \<noteq> 0" for t i
        using D(12) [OF th sc that(1,2)] that pc k by auto
    qed
    ultimately show ?thesis by simp
  qed
qed

lemma hp_access_inv:
  assumes I: "hp_inv N c" and th: "th < N" and pc: "hc_pcs c ! th = Scan_hp p n k x h" and s: "access_hp th p n k x h c = Some c'"
  shows "hp_inv N c'"
proof -
  note D = hp_invD [OF I]
  have n: "n = N" "k < N" "x = k" "h \<le> HAZARD_POINTERS" using D(8) [OF th] pc by simp_all
  have sc: "scans (hc_pcs c ! th) p" by (simp add: pc)
  have "c' = pc_to th (if h < HAZARD_POINTERS then if shown c k h = p then Ready else Scan_hp p n k x (h + 1) else Scan_entry p n (k + 1)) c"
    using s [symmetric] unfolding access_hp_def shown_def n(3) by (simp only: option.inject)
  moreover have "hp_inv N (pc_to th Ready c)" by (rule hp_inv_pc [OF I th]) simp_all
  moreover have "hp_inv N (pc_to th (Scan_hp p n k x (h + 1)) c)" if "h < HAZARD_POINTERS" "shown c k h \<noteq> p"
    by (rule hp_inv_scan [OF I th sc]) (use that n pc in \<open>auto simp: less_Suc_eq\<close>)
  moreover have "hp_inv N (pc_to th (Scan_entry p n (k + 1)) c)" if "\<not> h < HAZARD_POINTERS"
    by (rule hp_inv_scan [OF I th sc]) (use that n pc in \<open>auto simp: less_Suc_eq\<close>)
  ultimately show ?thesis by simp
qed

lemma validate_inv:
  assumes I: "hp_inv N c" and th: "th < N" and pc: "hc_pcs c ! th = Src_published i a raw"
    and s: "access_validate th i a raw c = Some c'" and ca: "\<not> (hc_next c a = raw \<and> is_marked raw)"
  shows "hp_inv N c'"
proof -
  note D = hp_invD [OF I]
  have i: "i < HAZARD_POINTERS" "source_ok c th i a" "shown c th i = tag_clear raw" using D(8) [OF th] pc by simp_all
  show ?thesis
  proof (cases "hc_next c a = raw")
    case False
    then have "c' = pc_to th Ready c" using s by (simp add: access_validate_def)
    then show ?thesis using hp_inv_pc [OF I th, of Ready] by simp
  next
    case True
    then have um: "\<not> is_marked (hc_next c a)" using ca by simp
    have "a \<in> hc_roots c \<union> hc_attached c"
    proof (rule ccontr)
      assume na: "a \<notin> hc_roots c \<union> hc_attached c"
      then obtain j where j: "j < HAZARD_POINTERS" "held c th j = a" "a \<noteq> 0"
        using i(2) by (auto simp: source_ok_def list_ex_iff)
      have "a \<in> hc_detached c \<union> all_retired N c" using D(10) [OF th j(1)] j(2,3) na by auto
      then show False using I um unfolding hp_inv_def life_inv_def by blast
    qed
    then have "tag_clear raw = 0 \<or> tag_clear raw \<in> hc_attached c"
      using I True unfolding hp_inv_def link_inv_def by blast
    then have "hp_inv N (hold th i (tag_clear raw) c)"
      by (intro hp_inv_hold [OF I th i(1,3)]) (simp_all add: pc)
    then have "hp_inv N (pc_to th Ready (hold th i (tag_clear raw) c))" by (rule hp_inv_pc [OF _ th]) simp_all
    then show ?thesis using s True by (simp add: access_validate_def)
  qed
qed

lemma publish_inv:
  assumes I: "hp_inv N c" and th: "th < N" and pc: "hc_pcs c ! th = Src_read i a raw" and s: "access_publish th i a raw c = Some c'"
  shows "hp_inv N c'"
proof -
  have i: "i < HAZARD_POINTERS" "source_ok c th i a" using hp_invD(8) [OF I th] pc by simp_all
  have R: "reg_inv N c" using I by (simp add: hp_inv_def)
  let ?c = "hold th i 0 (put_hp th i (tag_clear raw) c)"
  have I': "hp_inv N ?c" by (rule hp_inv_publish [OF I th i(1)]) (simp_all add: pc)
  have "held ?c th j = held c th j" if "j \<noteq> i" for j using that th hp_invD(3) [OF I] by simp
  then have "source_ok ?c th i a" using i(2) unfolding source_ok_def list_ex_iff by simp metis
  then have "pc_ok N ?c th (Src_published i a raw)" using i(1) shown_put [OF R th i(1)] by simp
  then have "hp_inv N (pc_to th (Src_published i a raw) ?c)" by (rule hp_inv_pc [OF I' th]) simp
  then show ?thesis using s publish_eq [OF R th] by (simp add: access_publish_def)
qed

lemma next_inv:
  assumes I: "hp_inv N c" and th: "th < N" and s: "next_access th (hc_pcs c ! th) c = Some c'" and ca: "careful th Next c"
  shows "hp_inv N c'"
proof (cases "hc_pcs c ! th")
  case (Src_read i a raw)
  then show ?thesis using publish_inv [OF I th] s by simp
next
  case (Src_published i a raw)
  then show ?thesis using validate_inv [OF I th] s ca by simp
next
  case (Scan_entry p n k)
  then show ?thesis using entry_inv [OF I th] s by simp
next
  case (Scan_owner p n k x)
  have n: "n = N" "k < N" "x = k" using hp_invD(8) [OF I th] Scan_owner by simp_all
  then have "c' = pc_to th (Scan_hp p n k x 0) c" using s Scan_owner hp_invD(7) [OF I] by (simp add: access_owner_def)
  moreover have "hp_inv N (pc_to th (Scan_hp p n k x 0) c)"
    by (rule hp_inv_scan [OF I th]) (use Scan_owner n in auto)
  ultimately show ?thesis by simp
next
  case (Scan_hp p n k x h)
  then show ?thesis using hp_access_inv [OF I th] s by simp
qed (use s hp_invD(8) [OF I th] in simp_all)

lemma hp_step_inv:
  assumes I: "hp_inv N c" and th: "th < N" and s: "hp_step th e c = Some c'" and ca: "careful th e c"
  shows "hp_inv N c'"
proof (cases e)
  case (Load_from i a)
  then have "hc_pcs c ! th = Ready" "i < HAZARD_POINTERS" "source_ok c th i a" "c' = pc_to th (Src_read i a (hc_next c a)) c"
    using s by (auto split: if_splits)
  then show ?thesis using hp_inv_pc [OF I th, of "Src_read i a (hc_next c a)"] by simp
next
  case (Copy_to i j)
  have R: "reg_inv N c" using I by (simp add: hp_inv_def)
  have c: "hc_pcs c ! th = Ready" "j < HAZARD_POINTERS" "i < j" "c' = hold th j (held c th i) (put_hp th j (held c th i) c)"
    using s ca Copy_to publish_eq [OF R th] by (auto split: if_splits)
  then show ?thesis by (auto intro!: hp_inv_publish [OF I th])
next
  case (Insert a b)
  then show ?thesis using s hp_inv_insert [OF I] by (auto split: if_splits)
next
  case (Mark a)
  then show ?thesis using s hp_inv_mark [OF I] by (auto split: if_splits)
next
  case (Cut a)
  then show ?thesis using s hp_inv_cut [OF I] by (auto split: if_splits)
next
  case (Retire_node p)
  then show ?thesis using s hp_inv_retire [OF I th] by (auto split: if_splits)
next
  case (Scan p)
  then have "p \<in> set (retired_by c th)" "c' = pc_to th (Scan_entry p N 0) c"
    using s hp_invD(5) [OF I] by (auto split: if_splits)
  then show ?thesis using hp_inv_pc [OF I th, of "Scan_entry p N 0"] by simp
next
  case Next
  then show ?thesis using next_inv [OF I th] s ca by simp
qed (use ca in simp_all)

lemma hp_run_inv: "hp_inv N c \<Longrightarrow> hp_run es c = Some c' \<Longrightarrow> careful_run es c \<Longrightarrow> hp_inv N c'"
proof (induction es c rule: hp_run.induct)
  case (2 th e es c)
  then obtain c1 where 1: "th < length (hc_pcs c)" "hp_step th e c = Some c1" "hp_run es c1 = Some c'"
    by (auto split: if_splits Option.bind_splits)
  have "hp_inv N c1" using hp_step_inv [OF 2(2) _ 1(2)] 2(2,4) 1(1) hp_invD(2) [OF 2(2)] by simp
  then show ?case using 2(1) [OF 1(1) 1(2)] 1(2,3) 2(4) by simp
qed simp

lemma hp_start_inv:
  assumes n: "n \<le> MAX_THREADS" and s: "hp_start n R = Some c"
  shows "hp_inv n c"
proof -
  have c: "c = \<lparr>hc_state = enrolled n n, hc_next = \<lambda>_. 0, hc_roots = R, hc_attached = {}, hc_detached = {}, hc_freed = {},
      hc_pcs = replicate n Ready, hc_held = replicate n (\<lambda>_. 0)\<rparr>"
    using s start_eq [OF n] by simp
  have rt: "retired_by c t = []" if "t < n" for t using that by (simp add: c retired_by_def enrolled_def)
  have "unat (of_nat n :: u32) = n" using n by (simp add: unat_of_nat MAX_THREADS_def)
  then have "reg_inv n c" using n by (simp add: reg_inv_def c enrolled_simps)
  moreover have "tag_clear 0 = 0" by (simp add: tag_clear_def)
  then have "link_inv c" by (simp add: link_inv_def c)
  moreover have "all_retired n c = {}" using rt by (auto simp: all_retired_def)
  then have "life_inv n c" by (simp add: life_inv_def c)
  moreover have "once_inv n c" using rt by (simp add: once_inv_def)
  moreover have "held_inv n c" "scan_inv n c" "pc_inv n c" by (simp_all add: held_inv_def scan_inv_def pc_inv_def c)
  ultimately show ?thesis by (simp add: hp_inv_def)
qed

subsection \<open>A careful run\<close>

text \<open>
  Thread 0 holds node 128 while thread 1 removes it and scans: the node is kept. After thread 0 has
  moved on, a second scan frees it.
\<close>

definition guarded_run :: "(thread \<times> hp_event) list" where
  "guarded_run =
     [(1, Insert 64 128)] @ protect_run 0 HP_PREV 64 @ [(0, Copy_to HP_PREV HP_CUR)] @ remove_run 1 64 128 @ times 4 1 @
     protect_run 0 HP_PREV 64 @ protect_run 0 HP_CUR 64 @ [(1, Scan 128)] @ times 15 1"

lemma guarded_frees:
  "\<exists>c0 c. hp_start 2 {64} = Some c0 \<and> careful_run guarded_run c0 \<and> hp_run guarded_run c0 = Some c \<and> 128 \<in> hc_freed c"
  by (simp add: race_eval guarded_run_def)

end
