(* ===== verification/Spec2Isabelle.thy ===== *)
theory Spec2Isabelle
  imports BitUtils NodePool EpochSafety Reclaimer TreeAudit SetModel UMapApi HazardSafety
begin

text \<open>
  A verification development for \<open>mpmc_map\<close>, a header-only C++ library of concurrent containers
  (\<open>include/mpmc\<close>): an ordered map and set over a red-black tree with per-node locks, an
  unordered map and set over a split-ordered hash table, and two schemes of safe memory
  reclamation (epochs and hazard pointers).

  \<^bold>\<open>How the parts fit.\<close> A container owns an engine (\<open>detail/rb_tree.hpp\<close> or
  \<open>detail/split_ordered_table.hpp\<close>). An engine takes its nodes from a pool shared by all
  containers of the instantiation (\<open>detail/utils.hpp\<close>), which falls back on the user's allocator, and
  gives removed nodes to a reclaimer (\<open>detail/epoch.hpp\<close>, \<open>detail/hazard_pointer.hpp\<close>, chosen by
  \<open>detail/reclamation.hpp\<close>), which runs the free action later. The model has the same layers.

  \<^bold>\<open>Theories.\<close>

  \<^item> \<open>Prelude\<close>: computations as options (\<open>returns\<close>), pointers, memory, allocators, shared lemmas.
  \<^item> \<open>BitUtils\<close> (\<open>detail/utils.hpp\<close>): bit reversal, hash mixer, logarithm, split-order keys, parent bucket.
  \<^item> \<open>Floats\<close>: the IEEE arithmetic of the load factor, on rationals.
  \<^item> \<open>NodePool\<close> (\<open>detail/utils.hpp\<close>): spin lock, sharded node pool for any link accessor (locale
    \<open>pool_link\<close>); \<open>BlockStore\<close> restates it as an account of the blocks in use.
  \<^item> \<open>EpochReclaim\<close>, \<open>EpochSafety\<close> (\<open>detail/epoch.hpp\<close>): the operations of the epoch scheme, then its entry
    and exit one memory access at a time for any number of threads.
  \<^item> \<open>HazardReclaim\<close> (\<open>detail/hazard_pointer.hpp\<close>): slots, protection, retirement, scan, thread exit;
    \<open>HazardSteps\<close>, \<open>HazardRaces\<close>, \<open>HazardSafety\<close>: protection, scan, registration and exit one memory access at a time
    for any number of threads on one list, four runs that free a held node, and the invariant that
    holds without them.
  \<^item> \<open>Reclaimer\<close> (\<open>detail/reclamation.hpp\<close>): what the engines use of a scheme, and the contract
    (locale \<open>reclaim_contract\<close>) that both schemes satisfy.
  \<^item> \<open>TreeModel\<close>, \<open>TreeRead\<close> (\<open>detail/rb_tree.hpp\<close>): the tree engine; \<open>TreeHeap\<close>, \<open>TreeBalance\<close>, \<open>TreeOrder\<close>:
    trees in memory, colours and heights, key order; \<open>TreeInsert\<close>, \<open>TreeErase\<close>, \<open>TreeRemove\<close>, \<open>TreeEngine\<close>: what
    insertion, removal and retirement do to them; \<open>TreeAudit\<close>: the debugging hooks.
  \<^item> \<open>MapModel\<close>, \<open>MapSpec\<close>, \<open>MapApi\<close> (\<open>mpmc_map.hpp\<close>), \<open>SetModel\<close> (\<open>mpmc_set.hpp\<close>): the ordered containers, their
    refinement of a finite map, the set as a map with unit values.
  \<^item> \<open>TableModel\<close> (\<open>detail/split_ordered_table.hpp\<close>): nodes, tags, buckets, insert, find and erase of
    the hash table; \<open>TableWhole\<close>: growth, construction, clear, iteration. \<open>TableList\<close>, \<open>TableStore\<close>,
    \<open>TableKeys\<close>, \<open>TableInv\<close>: the list in memory, the account of nodes and bucket tables with
    retirement (locale \<open>table_reclaimer\<close>), the order of split-order keys, the invariant;
    \<open>TableLocate\<close>, \<open>TableOps\<close>, \<open>TableGrow\<close>, \<open>TableEnds\<close>, \<open>TableIter\<close>: what bucket creation, the
    operations, growth, construction and destruction, and iteration do to it.
  \<^item> \<open>UMapModel\<close>, \<open>UMapSpec\<close>, \<open>UMapOps\<close>, \<open>UMapIter\<close>, \<open>UMapApi\<close> (\<open>mpmc_unordered_map.hpp\<close>), \<open>USetModel\<close>
    (\<open>mpmc_unordered_set.hpp\<close>): the unordered containers, their refinement of a finite map up to the
    key equality, the set as a map with unit values.

  \<^bold>\<open>How the code is read.\<close> A class is a record of its members and of the memory it reaches, a method a
  function from the state to a result and a state. \<open>None\<close> is an execution without a result: a
  null or freed block is read, a block is returned twice or to the wrong allocator, an array is
  left, or a loop (a spin on a lock that the operation itself holds) does not end. So a theorem \<open>f x = Some y\<close>
  includes termination and memory safety. Exceptions are values of \<open>exn\<close>. Machine integers are
  words. Allocators, the user's comparator, hash and equality, payload constructors and what a
  \<open>push_back\<close> does are arguments. Loops are \<open>partial_function (option)\<close>, whose return is proved.

  \<^bold>\<open>What the lemmas show.\<close> Bit functions: equality with reference definitions. Pool and reclaimers:
  no block is lost or freed twice, an exception changes nothing, and
  which interleavings of each scheme can free an object in use and which cannot. Tree: order, red-black
  balance, release of every lock, memory account. Table: split order, exact count, every cell a
  dummy of its bucket, memory account. Containers: refinement of a finite map on every
  branch, exceptions included, and no leak at destruction.

  \<^bold>\<open>Bounds.\<close> \<open>TREE_MAX_HEIGHT\<close> is 256 as in the code and enough: with 64-bit addresses a red-black
  tree is at most 128 high. The audit hooks keep their array sizes (\<open>FRAMES\<close> 1024, \<open>QUEUE\<close> 65536), and a
  write past them is \<open>None\<close>. A bucket table has at most \<open>2 ^ 30\<close> cells (\<open>MAX_BUCKETS\<close>), a registry 128 threads
  (\<open>MAX_THREADS\<close>). No fuel is used, except for the number of steps of a client's loop over a container,
  which is the size of the container. The properties of \<open>reserve\<close> are for the load factor 1, which every constructor sets.

  \<^bold>\<open>Not modelled.\<close> Interleavings inside the engines (each operation of a container runs alone, and a weak
  compare-and-swap succeeds when the values agree; only the two reclamation protocols are
  interleaved); memory orderings weaker than sequential consistency; prefetching, padding and
  printing; the observers that return a comparator, hasher or allocator; a second copy of each
  iterator class (\<open>const_iterator\<close> is the same record); \<open>erase(end())\<close> of the unordered containers with an
  iterator fresh from \<open>end()\<close> is modelled and not proved; benchmarks and tests, which only drive the library.
\<close>

section \<open>Properties\<close>

subsection \<open>Bit arithmetic\<close>

text \<open>
  C37. The five mask-and-shift rounds of \<open>bit_reverse\<close> reverse the 64 bits of the word.
\<close>

theorem bit_reverse_correct: "bit_reverse x = word_reverse x"
  by (rule bit_reverse_eq_word_reverse)

text \<open>
  C38. The hash mixer loses nothing: \<open>unmix_hash\<close> inverts it on both sides, so keys with
  different hashes never get the same split-order key through the mixer.
\<close>

theorem mix_hash_bijective: "unmix_hash (mix_hash h) = h \<and> mix_hash (unmix_hash h) = h"
  by simp

text \<open>
  For a non-zero argument \<open>log2_floor\<close> is the number of its leading bit.
\<close>

theorem log2_floor_bounds:
  assumes "x \<noteq> 0"
  shows "2 ^ unat (log2_floor x) \<le> unat x \<and> unat x < 2 ^ Suc (unat (log2_floor x))"
  using log2_floor_spec [OF assms] by blast

theorem log2_floor_bounds_witness:
  "2 ^ unat (log2_floor 1000) \<le> unat (1000 :: u64) \<and> unat (1000 :: u64) < 2 ^ Suc (unat (log2_floor 1000))"
  by (rule log2_floor_bounds) simp

text \<open>
  \<open>is_power_of_two\<close> accepts exactly the 64 powers of two (and not zero).
\<close>

theorem power_of_two_iff: "is_power_of_two x \<longleftrightarrow> (\<exists>k < 64. x = 2 ^ k)"
  by (rule is_power_of_two_iff)

text \<open>
  C39. For a non-zero bucket index below \<open>2^63\<close> the loop of \<open>parent_bucket\<close> terminates and the
  parent is a smaller index: walking up the parents reaches bucket 0.
\<close>

theorem parent_bucket_descends:
  assumes "b \<noteq> 0" and "unat b < 2 ^ 63"
  shows "\<exists>p. parent_bucket b = Some p \<and> unat p < unat b"
  using assms by (rule parent_bucket_less)

theorem parent_bucket_descends_witness:
  "\<exists>p. parent_bucket 12 = Some p \<and> unat p < unat (12 :: u64)"
  by (rule parent_bucket_descends) simp_all

text \<open>
  C40. The order of the list refines the buckets of every table size: a key falls in bucket
  \<open>b\<close> of \<open>2^k\<close> exactly when its split-order key agrees with the bucket's dummy on the top \<open>k\<close>
  bits, so a bucket's nodes form the interval that starts at its dummy.
\<close>

theorem bucket_is_interval:
  assumes "k \<le> 63" and "unat b < 2 ^ k"
  shows "m AND (2 ^ k - 1) = b \<longleftrightarrow>
    drop_bit (64 - k) (split_order_key m) = drop_bit (64 - k) (dummy_split_order_key b)"
  using assms by (rule same_bucket_iff)

theorem bucket_is_interval_witness:
  "13 AND (2 ^ 3 - 1) = (5 :: u64) \<longleftrightarrow>
    drop_bit (64 - 3) (split_order_key 13) = drop_bit (64 - 3) (dummy_split_order_key 5)"
  by (rule bucket_is_interval) simp_all

subsection \<open>The node pool\<close>

text \<open>
  C35. \<open>release\<close> returns, and hands the block to exactly one place: the thread's shard, or, when
  the shard is at its watermark, the allocator, together with everything the shard held.
\<close>

theorem pool_release_correct:
  assumes "pool_rel pool_link_left m p xss" and "load m n = Some nd" and "live m n = Some (n_owner nd)"
    and "n \<notin> pooled xss" and "my_shard th p = (i, p1)"
  shows "\<exists>m' p'. release pool_link_left th n m p = Some (m', p') \<and>
    (if length (xss ! i) < PER_SHARD_WATERMARK
     then pool_rel pool_link_left m' p' (xss[i := n # xss ! i]) \<and> live m' = live m \<and>
       (\<forall>b. b \<noteq> n \<longrightarrow> load m' b = load m b)
     else pool_rel pool_link_left m' p' (xss[i := []]) \<and> freed (insert n (set (xss ! i))) m m')"
  using tl.release_spec [OF assms(1,2) _ assms(4,5)] assms(3) by (simp add: pool_link_left_def)

theorem pool_release_correct_witness:
  "let m = \<lparr>heap = [64 \<mapsto> mk_node 0 0 False RED (1 :: nat, (), 7)], live = [64 \<mapsto> 7]\<rparr> in
   \<exists>m' p'. release pool_link_left 0 64 m new_pool = Some (m', p') \<and>
    (if length (replicate SHARDS ([] :: ptr list) ! 0) < PER_SHARD_WATERMARK
     then pool_rel pool_link_left m' p' ((replicate SHARDS [])[0 := 64 # replicate SHARDS [] ! 0]) \<and> live m' = live m \<and>
       (\<forall>b. b \<noteq> 64 \<longrightarrow> load m' b = load m b)
     else pool_rel pool_link_left m' p' ((replicate SHARDS [])[0 := []]) \<and>
       freed (insert 64 (set (replicate SHARDS [] ! 0))) m m')"
  unfolding Let_def
  by (rule pool_release_correct [where i = 0 and nd = "mk_node 0 0 False RED (1, (), 7)" and
      ?p1.0 = "snd (my_shard 0 new_pool)", OF new_shards])
    (simp_all add: pooled_def my_shard_def new_pool_def Let_def SHARDS_def load_def)

text \<open>
  C36. \<open>drain\<close> returns every pooled block to the allocator it came from, once, and leaves all
  shards empty.
\<close>

theorem pool_drain_correct:
  assumes "pool_rel pool_link_left m p xss"
  shows "\<exists>m' p'. drain pool_link_left m p = Some (m', p') \<and>
    pool_rel pool_link_left m' p' (replicate SHARDS []) \<and> freed (pooled xss) m m'"
  using assms by (rule drain_spec)

theorem pool_drain_correct_witness:
  "\<exists>m' p'. drain pool_link_left (no_mem :: (nat, nat) node mem) new_pool = Some (m', p') \<and>
    pool_rel pool_link_left m' p' (replicate SHARDS []) \<and> freed (pooled (replicate SHARDS [])) no_mem m'"
  by (rule pool_drain_correct) (rule new_shards)

subsection \<open>Epoch-based reclamation\<close>

text \<open>
  C27. While guard entry and exit are single steps and every retirement happens
  inside a guard, no interleaving of entering, leaving, reading, linking, unlinking and
  retiring, and thread exit leaves a running guard with a pointer to an object whose retire
  action has run.
\<close>

theorem epoch_atomic_safe: "atomic_reach n L c \<Longrightarrow> n < 2 ^ 32 \<Longrightarrow> \<not> dangling c"
  using atomic_reach_inv inv_no_dangling by blast

theorem epoch_atomic_safe_witness:
  "\<exists>c. atomic_reach 2 {64} c \<and> pcs c ! 0 = Inside \<and> 64 \<in> refs c ! 0 \<and> \<not> dangling c"
proof -
  define c1 where "c1 = set_pc 0 Inside ((init_conf 2 {64})\<lparr>ep := epoch_enter 0 (new_epoch 2)\<rparr>)"
  define c2 where "c2 = c1\<lparr>refs := (refs c1)[0 := insert 64 (refs c1 ! 0)]\<rparr>"
  have "atomic_step (init_conf 2 {64}) c1"
    using atomic_step.enter [of 0 "init_conf 2 {64}"] by (simp add: c1_def)
  then have 1: "atomic_reach 2 {64} c1" using atomic_reach.init atomic_reach.step by blast
  have "atomic_step c1 c2"
    unfolding c2_def by (rule atomic_step.read) (simp_all add: c1_def set_pc_def)
  then have 2: "atomic_reach 2 {64} c2" using 1 atomic_reach.step by blast
  moreover have "pcs c2 ! 0 = Inside" "64 \<in> refs c2 ! 0"
    by (simp_all add: c2_def c1_def set_pc_def)
  moreover have "\<not> dangling c2" using epoch_atomic_safe [OF 2] by simp
  ultimately show ?thesis by blast
qed

text \<open>
  C28. With the accesses of \<open>exit\<close> taken one at a time, as the code performs them, there
  is a run of three threads, each retirement inside a guard, after which a thread inside a
  guard holds a pointer to an object that was freed: the last leaver's compare-and-swap may
  come after other threads have entered the same epoch.
\<close>

theorem epoch_exit_race: "\<exists>c. fine_run exit_race (init_conf 3 {64}) = Some c \<and> dangling c"
  by (rule exit_race_run)

text \<open>
  C29. A retirement outside a guard, as \<open>erase_node\<close> of both engines performs it, is tagged
  with the thread's last epoch; the object can be freed while a guard that read it is running.
\<close>

theorem epoch_unguarded_retire:
  "\<exists>c. fine_run unguarded_retire (init_conf 3 {64}) = Some c \<and> dangling c"
  by (rule unguarded_retire_run)

text \<open>
  C32. A retirement whose vector pushes succeed returns; it is added to the pending
  retirements, and exactly the retirements whose actions ran, all with the tag two epochs
  old, leave them.
\<close>

theorem epoch_retire_accounts:
  assumes "epoch_ok s" and "th < length (e_tls s)"
  shows "\<exists>fs s'. retire th Push_ok p act s = Some (Inr fs, s') \<and> epoch_ok s' \<and>
    add_mset (p, act, local_epoch (tls s th)) (pending s) =
      pending s' + tagged ((e_global s + 1) mod EPOCHS) fs"
  using retire_ok_spec [OF assms] by blast

theorem epoch_retire_accounts_witness:
  "\<exists>fs s'. retire 0 Push_ok 64 () (new_epoch 1 :: unit epoch) = Some (Inr fs, s') \<and> epoch_ok s' \<and>
    add_mset (64, (), local_epoch (tls (new_epoch 1 :: unit epoch) 0)) (pending (new_epoch 1 :: unit epoch)) =
      pending s' + tagged ((e_global (new_epoch 1 :: unit epoch) + 1) mod EPOCHS) fs"
  by (rule epoch_retire_accounts) (simp_all add: epoch_ok_new)

text \<open>
  A retirement whose pointer push or action push throws \<open>std::bad_alloc\<close> leaves the
  reclaimer as it was: the object is leaked, but the two vectors stay aligned and the
  counter is restored.
\<close>

theorem epoch_retire_throws:
  assumes "epoch_ok s" and "th < length (e_tls s)" and "pu \<noteq> Push_ok"
  shows "retire th pu p act s = Some (Inl Bad_alloc, s)"
  using assms by (rule retire_throw_spec)

theorem epoch_retire_throws_witness:
  "retire 0 Action_push_throws 64 () (new_epoch 1) = Some (Inl Bad_alloc, new_epoch 1)"
  by (rule epoch_retire_throws) (simp_all add: epoch_ok_new)

subsection \<open>Hazard pointers\<close>

text \<open>
  \<open>protect\<close> registers the thread when it has no slot yet and publishes the pointer: from then
  on it is among the protected ones.
\<close>

theorem protect_publishes:
  assumes "hazard_ok s" and "th < length (hz_tls s)" and "slot_available th s" and "i < HAZARD_POINTERS"
  shows "\<exists>s'. protect th i p s = Some s' \<and> hazard_ok s' \<and> hz_pending s' = hz_pending s \<and>
    is_protected s' p \<and> slot_available th s'"
  using protect_spec [OF assms] is_protected_iff by (fastforce simp: hazard_ok_def)

theorem protect_publishes_witness:
  "\<exists>s'. protect 0 1 64 (new_hazard 2 :: unit hazard) = Some s' \<and> hazard_ok s' \<and>
    hz_pending s' = hz_pending (new_hazard 2) \<and> is_protected s' 64 \<and> slot_available 0 s'"
  using hazard_ready_new [of 0 2] by (intro protect_publishes) (auto simp: hazard_ready_def HAZARD_POINTERS_def)

text \<open>
  C33. \<open>retire\<close> returns, accounts for the retirement, frees no protected object, and leaves the thread
  with at most the threshold of retired objects or with protected ones only.
\<close>

theorem hazard_retire_safe:
  assumes "hazard_ok s" and "th < length (hz_tls s)"
  shows "\<exists>fs s'. hz_retire th Push_ok p act s = Some (Inr fs, s') \<and> hazard_ok s' \<and>
    add_mset (p, act) (hz_pending s) = hz_pending s' + mset fs \<and>
    (\<forall>x \<in> set fs. \<not> is_protected s (fst x)) \<and>
    (length (ht_retired (htls s' th)) \<le> HAZARD_RETIRE_THRESHOLD \<or>
     (\<forall>q \<in> set (ht_retired (htls s' th)). is_protected s q))"
  using hz_retire_ok_spec [OF assms] is_protected_iff assms(1) by (fastforce simp: hazard_ok_def)

theorem hazard_retire_safe_witness:
  "\<exists>fs s'. hz_retire 0 Push_ok 64 () (new_hazard 1) = Some (Inr fs, s') \<and> hazard_ok s' \<and>
    add_mset (64, ()) (hz_pending (new_hazard 1)) = hz_pending s' + mset fs \<and>
    (\<forall>x \<in> set fs. \<not> is_protected (new_hazard 1 :: unit hazard) (fst x)) \<and>
    (length (ht_retired (htls s' 0)) \<le> HAZARD_RETIRE_THRESHOLD \<or>
     (\<forall>q \<in> set (ht_retired (htls s' 0)). is_protected (new_hazard 1 :: unit hazard) q))"
  using hazard_ready_new [of 0 1] by (intro hazard_retire_safe) (auto simp: hazard_ready_def)

text \<open>
  When a thread exits, its slot is free for others, its local lists are empty, and every
  retirement it still had is kept for a later scan.
\<close>

theorem hazard_thread_exit:
  assumes "hazard_ok s" and "th < length (hz_tls s)"
  shows "\<exists>fs s'. hz_finalize_thread th s = Some (fs, s') \<and> hazard_ok s' \<and>
    hz_pending s = hz_pending s' + mset fs \<and> (\<forall>x \<in> set fs. \<not> is_protected s (fst x)) \<and>
    htls s' th = new_hz_thread \<and> owned s' = {i \<in> owned s. int i \<noteq> ht_slot (htls s th)}"
  using hz_finalize_thread_spec [OF assms] is_protected_iff assms(1) by (fastforce simp: hazard_ok_def)

theorem hazard_thread_exit_witness:
  "\<exists>fs s'. hz_finalize_thread 0 (new_hazard 1 :: unit hazard) = Some (fs, s') \<and> hazard_ok s' \<and>
    hz_pending (new_hazard 1) = hz_pending s' + mset fs \<and>
    (\<forall>x \<in> set fs. \<not> is_protected (new_hazard 1 :: unit hazard) (fst x)) \<and>
    htls s' 0 = new_hz_thread \<and>
    owned s' = {i \<in> owned (new_hazard 1 :: unit hazard). int i \<noteq> ht_slot (htls (new_hazard 1 :: unit hazard) 0)}"
  using hazard_ready_new [of 0 1] by (intro hazard_thread_exit) (auto simp: hazard_ready_def)

subsection \<open>The contract of both schemes\<close>



text \<open>
  C30. Up to 128 threads run \<open>protect_from\<close>, list updates, retirements and scans, interleaved between
  any two accesses. When no validation succeeds on a marked link, a held pointer is only copied to a
  higher hazard pointer and no thread registers or exits, no thread holds a freed node.
\<close>

theorem hazard_protocol_safe:
  assumes "n \<le> MAX_THREADS" and "hp_start n R = Some c0" and "careful_run es c0" and "hp_run es c0 = Some c"
  shows "\<not> hp_dangling c"
  by (rule no_dangling [OF hp_run_inv [OF hp_start_inv [OF assms(1,2)] assms(4,3)]])

theorem hazard_protocol_safe_witness:
  "\<exists>c0 c. hp_start 2 {64} = Some c0 \<and> hp_run guarded_run c0 = Some c \<and> 128 \<in> hc_freed c \<and> \<not> hp_dangling c"
proof -
  have "(2 :: nat) \<le> MAX_THREADS" by (simp add: MAX_THREADS_def)
  then show ?thesis using guarded_frees hazard_protocol_safe by blast
qed

text \<open>
  C31. None of these conditions holds in the code, and without any of them a run ends with a thread
  holding a freed node: a walk copies \<open>HP_CUR\<close> to \<open>HP_PREV\<close> during an ascending scan; \<open>protect_from\<close>
  validates the marked link of a removed node; an exit moves a registry entry behind a scan; a
  registration and an exit lose an entry.
\<close>

theorem hazard_races:
  "(\<exists>c. do { c \<leftarrow> hp_start 2 {64}; hp_run copy_race c } = Some c \<and> hp_dangling c) \<and>
   (\<exists>c. do { c \<leftarrow> hp_start 2 {64}; hp_run marked_race c } = Some c \<and> hp_dangling c) \<and>
   (\<exists>c. do { c \<leftarrow> hp_start 3 {64}; hp_run leave_race c } = Some c \<and> hp_dangling c) \<and>
   (\<exists>c. do { c \<leftarrow> hp_start 3 {64}; hp_run join_race c } = Some c \<and> hp_dangling c)"
  by (intro conjI copy_race_run marked_race_run leave_race_run join_race_run)

subsection \<open>The red-black tree\<close>

text \<open>
  C11. \<open>insert_node\<close> terminates for every comparator; it leaves an unlocked red-black tree whose
  in-order sequence is the old one, with the new node put in when it reports an insertion.
\<close>

theorem tree_insert_balanced:
  assumes "tree_rel t g" and "n \<notin> nodes_of g" and "node_at t n = Some (mk_node 0 0 False c nd)"
  shows "returns (insert_node cmp n (fst nd) t) (\<lambda>(b, t'). \<exists>g' xs ys. tree_rel t' g' \<and> red_black g' \<and>
    items g = xs @ ys \<and> items g' = (if b then xs @ (n, nd) # ys else items g) \<and>
    t_count t' = t_count t + (if b then 1 else 0))"
proof (rule returns_mono [OF insert_node_spec [OF assms refl]])
  fix r
  assume i: "insert_post cmp n nd t g r"
  have rb: "tree_rel t' g' \<Longrightarrow> red_black g'" for t' and g' :: "('a, 'b) data gtree"
    by (simp add: tree_rel_def)
  show "case r of (b, t') \<Rightarrow> \<exists>g' xs ys. tree_rel t' g' \<and> red_black g' \<and>
    items g = xs @ ys \<and> items g' = (if b then xs @ (n, nd) # ys else items g) \<and>
    t_count t' = t_count t + (if b then 1 else 0)"
    using i rb by (fastforce simp: insert_post_def same_but_def items_plug)
qed

theorem tree_insert_balanced_witness:
  "let nd = (5 :: nat, 10 :: nat, 0 :: nat); t = put_node 64 (mk_node 0 0 False RED nd) (new_tree 0 no_mem new_pool ()) in
   returns (insert_node std_less 64 (fst nd) t) (\<lambda>(b, t'). \<exists>g' xs ys. tree_rel t' g' \<and> red_black g' \<and>
    items Leaf = xs @ ys \<and> items g' = (if b then xs @ (64, nd) # ys else items Leaf) \<and>
    t_count t' = t_count t + (if b then 1 else 0))"
  unfolding Let_def
  by (rule tree_insert_balanced)
    (simp_all add: tree_rel_def new_tree_def put_node_def red_black_def balanced_def)

text \<open>
  C12. Between operations the counter is exactly the number of keys, and the nodes form a red-black
  tree of height at most 128, half of what the lock stack holds: it cannot overflow.
\<close>

theorem map_shape:
  assumes "epoch_map th W t m"
  shows "unat (map_size t) = card (dom m) \<and> map_empty t = (m = Map.empty) \<and>
    (\<exists>g. tree_rel t g \<and> red_black g \<and> height g \<le> 128 \<and> 128 < TREE_MAX_HEIGHT \<and> map_of (entries g) = m)"
proof -
  obtain g where g: "engine_ok (epoch_ready th) epoch_pending std_less W t g" "map_of (entries g) = m"
    "sorted_entries std_less (entries g)" using epoch_mapD [OF assms(1)] .
  have rel: "tree_rel t g" "red_black g" "t_count t = of_nat (length (items g))" "distinct (ptrs g)" "tree_at t g"
    using g(1) by (simp_all add: engine_ok_def tree_rel_def tdist_iff)
  have n0: "0 \<notin> nodes_of g" using tree_at_ne0 [OF rel(5)] by blast
  have len: "length (items g) < 2 ^ 64" using TreeBalance.tree_size [OF rel(4) n0] .
  have card: "card (dom m) = length (items g)"
    using map_of_card [of "entries g"] g(2,3) by (simp add: std_sorted entries_def)
  have "unat (map_size t) = card (dom m)"
    using len by (simp add: card map_size_def tree_size_def rel(3) unat_of_nat take_bit_nat_eq_self)
  moreover have "map_empty t = (m = Map.empty)"
    using calculation card g(2) by (auto simp: map_empty_def tree_empty_def map_size_def tree_size_def entries_def unat_eq_0)
  ultimately show ?thesis using rel red_black_height [OF rel(2,4) n0] g(2) by (auto simp: TREE_MAX_HEIGHT_def)
qed

theorem map_shape_witness:
  "\<exists>t. epoch_map 0 {} t [5 :: nat \<mapsto> 10 :: nat] \<and> map_size t = 1 \<and> \<not> map_empty t"
proof -
  obtain t where t: "epoch_map 0 {} t [5 :: nat \<mapsto> 10 :: nat]" using one_epoch_map [of "5 :: nat" "10 :: nat"] by blast
  show ?thesis using map_shape [OF t] by (auto intro!: exI [of _ t] t simp: word_unat_eq_iff)
qed




subsection \<open>The ordered map\<close>

text \<open>
  C1. \<open>emplace\<close> returns, with an iterator at the key and whether the key was new, and the
  contents gain the pair exactly when it was. When no block can be allocated or the payload's
  constructor throws, the exception is passed on and the contents stay.
\<close>

theorem map_emplace_correct:
  assumes "epoch_map th W t m" and "\<And>b. blk = Some b \<Longrightarrow> fresh_block (t_mem t) b"
  shows "returns (map_emplace std_less th self blk dflt args t) (\<lambda>(r, t'). others W t t' \<and>
    (case r of
       Inl x \<Rightarrow> (x = Bad_alloc \<and> blk = None \<or> x = Payload_throws \<and> args = None) \<and> epoch_map th W t' m
     | Inr (it, b) \<Rightarrow> \<exists>k v. args = Some (k, v) \<and> it = iter_at self k \<and> b = (m k = None) \<and>
         epoch_map th W t' (if b then m(k \<mapsto> v) else m)))"
proof -
  obtain g where g: "engine_ok (epoch_ready th) epoch_pending std_less W t g" "map_of (entries g) = m"
    using epoch_mapD [OF assms(1)] .
  show ?thesis
    by (rule returns_mono [OF ete.emplace_spec [OF g(1) assms(2)]])
      (auto simp: ete.emplaced_def map_facts g(2) split: sum.splits if_splits dest!: engine_epoch)
qed

theorem map_emplace_correct_witness:
  "let t = map_ctor 0 no_mem new_pool (new_epoch 1) in
   returns (map_emplace std_less 0 7 (Some 64) (0, 0) (Some (5 :: nat, 10 :: nat)) t) (\<lambda>(r, t'). others {} t t' \<and>
    (case r of
       Inl x \<Rightarrow> (x = Bad_alloc \<and> Some 64 = (None :: ptr option) \<or>
         x = Payload_throws \<and> Some (5 :: nat, 10 :: nat) = None) \<and> epoch_map 0 {} t' Map.empty
     | Inr (it, b) \<Rightarrow> \<exists>k v. Some (5, 10) = Some (k, v) \<and> it = iter_at 7 k \<and> b = (Map.empty k = (None :: nat option)) \<and>
         epoch_map 0 {} t' (if b then Map.empty(k \<mapsto> v) else Map.empty)))"
  unfolding Let_def by (rule map_emplace_correct [OF empty_epoch_map]) simp



text \<open>
  C7. \<open>operator[]\<close> refers to the value of the key, which it inserts with the value-initialised
  object when it was absent; the reference is a node of the container. When that object's
  constructor throws, the fresh node stays allocated and belongs to nobody: it is leaked.
\<close>

theorem map_index_correct:
  assumes "epoch_map th W t m" and "\<And>b. blk = Some b \<Longrightarrow> fresh_block (t_mem t) b"
  shows "returns (map_index (epoch_rc th) std_less th blk dflt dv k t) (\<lambda>(r, t'). others W t t' \<and>
    (case (m k, r) of
       (Some v, r) \<Rightarrow> \<exists>p. r = Inr p \<and> refers t' p k v \<and> epoch_map th W t' m
     | (None, Inr p) \<Rightarrow> \<exists>v. dv = Some v \<and> refers t' p k v \<and> epoch_map th W t' (m(k \<mapsto> v))
     | (None, Inl x) \<Rightarrow> x = Bad_alloc \<and> blk = None \<and> epoch_map th W t' m \<or>
         x = Payload_throws \<and> dv = None \<and> (\<exists>n. n \<notin> W \<and> epoch_map th (insert n W) t' m)))"
proof -
  obtain g where g: "engine_ok (epoch_ready th) epoch_pending std_less W t g" "map_of (entries g) = m"
    using epoch_mapD [OF assms(1)] .
  show ?thesis
  proof (rule returns_mono [OF ete.index_spec [OF g(1) assms(2)]], goal_cases)
    case (2 rt)
    obtain r t' where rt: "rt = (r, t')" by (cases rt)
    from 2 show ?case
      unfolding rt
      by (cases "m k"; cases r) (auto simp: map_facts g(2) dest!: engine_epoch_refers, blast)
  qed simp
qed

theorem map_index_correct_witness:
  "\<exists>t. epoch_map 0 {} t [5 :: nat \<mapsto> 10 :: nat] \<and>
   returns (map_index (epoch_rc 0) std_less 0 None (0, 0) (Some 0) 5 t) (\<lambda>(r, t'). others {} t t' \<and>
    (case ([5 :: nat \<mapsto> 10 :: nat] 5, r) of
       (Some v, r) \<Rightarrow> \<exists>p. r = Inr p \<and> refers t' p 5 v \<and> epoch_map 0 {} t' [5 \<mapsto> 10]
     | (None, Inr p) \<Rightarrow> \<exists>v. Some 0 = Some v \<and> refers t' p 5 v \<and> epoch_map 0 {} t' ([5 \<mapsto> 10](5 \<mapsto> v))
     | (None, Inl x) \<Rightarrow> x = Bad_alloc \<and> None = (None :: ptr option) \<and> epoch_map 0 {} t' [5 \<mapsto> 10] \<or>
         x = Payload_throws \<and> Some (0 :: nat) = None \<and> (\<exists>n. n \<notin> {} \<and> epoch_map 0 (insert n {}) t' [5 \<mapsto> 10])))"
proof -
  obtain t where t: "epoch_map 0 {} t [5 :: nat \<mapsto> 10 :: nat]" using one_epoch_map [of "5 :: nat" "10 :: nat"] by blast
  show ?thesis
    by (rule exI [of _ t], rule conjI [OF t], rule map_index_correct [OF t]) simp
qed

text \<open>
  C3. \<open>find\<close>, \<open>contains\<close>, \<open>count\<close> and \<open>at\<close> return for every key, and tell whether it is present; \<open>at\<close>
  refers to its value, and throws \<open>out_of_range\<close> exactly when there is none.
\<close>

theorem map_lookup_correct:
  assumes "epoch_map th W t m"
  shows "returns (map_find (epoch_rc th) std_less self dk k t) (\<lambda>(i, t'). epoch_map th W t' m \<and>
      i = (if m k = None then iter_end self dk else iter_at self k)) \<and>
    returns (map_contains (epoch_rc th) std_less k t) (\<lambda>(b, t'). epoch_map th W t' m \<and> b = (m k \<noteq> None)) \<and>
    returns (map_count (epoch_rc th) std_less k t) (\<lambda>(n, t'). epoch_map th W t' m \<and>
      n = (if m k = None then 0 else 1)) \<and>
    returns (map_at (epoch_rc th) std_less k t) (\<lambda>(r, t'). epoch_map th W t' m \<and>
      (case m k of None \<Rightarrow> r = Inl Out_of_range | Some v \<Rightarrow> \<exists>p. r = Inr p \<and> refers t' p k v))"
proof -
  obtain g where g: "engine_ok (epoch_ready th) epoch_pending std_less W t g" "map_of (entries g) = m"
    using epoch_mapD [OF assms(1)] .
  note [simp] = map_facts g(2)
  show ?thesis
  proof (intro conjI)
    show "returns (map_find (epoch_rc th) std_less self dk k t) (\<lambda>(i, t'). epoch_map th W t' m \<and>
        i = (if m k = None then iter_end self dk else iter_at self k))"
      by (rule returns_mono [OF ete.map_find_spec [OF g(1)]]) (auto dest: engine_epoch)
    show "returns (map_contains (epoch_rc th) std_less k t) (\<lambda>(b, t'). epoch_map th W t' m \<and> b = (m k \<noteq> None))"
      by (rule returns_mono [OF ete.map_contains_spec [OF g(1)]]) (auto dest: engine_epoch)
    show "returns (map_count (epoch_rc th) std_less k t) (\<lambda>(n, t'). epoch_map th W t' m \<and>
        n = (if m k = None then 0 else 1))"
      by (rule returns_mono [OF ete.map_count_spec [OF g(1)]]) (auto dest: engine_epoch)
    show "returns (map_at (epoch_rc th) std_less k t) (\<lambda>(r, t'). epoch_map th W t' m \<and>
        (case m k of None \<Rightarrow> r = Inl Out_of_range | Some v \<Rightarrow> \<exists>p. r = Inr p \<and> refers t' p k v))"
      by (rule returns_mono [OF ete.at_spec [OF g(1)]])
        (fastforce split: option.splits dest!: engine_epoch_refers)
  qed
qed

theorem map_lookup_correct_witness:
  "\<exists>t. epoch_map 0 {} t [5 :: nat \<mapsto> 10 :: nat] \<and>
    returns (map_at (epoch_rc 0) std_less 2 t) (\<lambda>(r, t'). r = Inl Out_of_range)"
proof -
  obtain t where t: "epoch_map 0 {} t [5 :: nat \<mapsto> 10 :: nat]" using one_epoch_map [of "5 :: nat" "10 :: nat"] by blast
  show ?thesis
    using map_lookup_correct [OF t, of 7 0 2] by (auto intro!: exI [of _ t] t elim!: returns_mono)
qed

text \<open>
  C2. \<open>erase(key)\<close> returns the number of removed entries and removes exactly that key. When the
  retirement of the unlinked node throws, the exception is passed on although the entry is
  gone, and the counter still counts it.
\<close>

theorem map_erase_correct:
  assumes "epoch_map th W t m"
  shows "returns (map_erase (epoch_rc th) std_less th pu k t) (\<lambda>(r, t'). others W t t' \<and>
    (if m k = None then r = Inr 0 \<and> epoch_map th W t' m
     else if pu = Push_ok then r = Inr 1 \<and> epoch_map th W t' (m(k := None))
     else r = Inl Bad_alloc \<and> t_count t' = t_count t \<and>
       (\<exists>g' a. tree_rel t' g' \<and> map_of (entries g') = m(k := None) \<and>
          a \<notin> nodes_of g' \<and> mem_ok (epoch_ready th) epoch_pending t' (insert a (nodes_of g' \<union> W)))))"
proof -
  obtain g where g: "engine_ok (epoch_ready th) epoch_pending std_less W t g" "map_of (entries g) = m"
    using epoch_mapD [OF assms(1)] .
  show ?thesis
    by (rule returns_mono [OF ete.map_erase_spec [OF g(1)]])
      (auto simp: map_facts g(2) split: if_splits dest!: engine_epoch)
qed

theorem map_erase_correct_witness:
  "\<exists>t. epoch_map 0 {} t [5 :: nat \<mapsto> 10 :: nat] \<and>
    returns (map_erase (epoch_rc 0) std_less 0 Push_ok 5 t) (\<lambda>(r, t'). r = Inr 1 \<and> epoch_map 0 {} t' Map.empty)"
proof -
  obtain t where t: "epoch_map 0 {} t [5 :: nat \<mapsto> 10 :: nat]" using one_epoch_map [of "5 :: nat" "10 :: nat"] by blast
  show ?thesis
    using map_erase_correct [OF t, of Push_ok 5] by (auto intro!: exI [of _ t] t elim!: returns_mono)
qed

text \<open>
  C5. \<open>lower_bound\<close> is at the least key not below the argument, \<open>upper_bound\<close> at the least
  one above it, or \<open>end()\<close>; \<open>equal_range\<close> is the pair.
\<close>

theorem map_bounds_correct:
  assumes "epoch_map th W t m"
  shows "returns (map_equal_range (epoch_rc th) std_less self dk k t) (\<lambda>((lb, ub), t'). epoch_map th W t' m \<and>
    lb = (case least_above False k m of None \<Rightarrow> iter_end self dk | Some x \<Rightarrow> iter_at self x) \<and>
    ub = (case least_above True k m of None \<Rightarrow> iter_end self dk | Some x \<Rightarrow> iter_at self x))"
proof -
  obtain g where g: "engine_ok (epoch_ready th) epoch_pending std_less W t g" "map_of (entries g) = m"
    "sorted_entries std_less (entries g)" using epoch_mapD [OF assms(1)] .
  show ?thesis
    unfolding map_equal_range_def map_lower_bound_def map_upper_bound_def returns_simps(3)
    by (rule returns_mono [OF ete.map_bound_spec [OF g(1)]], clarsimp, rule returns_mono [OF ete.map_bound_spec])
      (auto simp: std_bound_iter [OF g(3), unfolded g(2)] g(2) dest!: engine_epoch)
qed

theorem map_bounds_correct_witness:
  "\<exists>t. epoch_map 0 {} t [5 :: nat \<mapsto> 10 :: nat] \<and>
    returns (map_equal_range (epoch_rc 0) std_less 7 0 0 t) (\<lambda>((lb, ub), t'). epoch_map 0 {} t' [5 \<mapsto> 10] \<and>
      lb = iter_at 7 5 \<and> ub = iter_at 7 5)"
proof -
  obtain t where t: "epoch_map 0 {} t [5 :: nat \<mapsto> 10 :: nat]" using one_epoch_map [of "5 :: nat" "10 :: nat"] by blast
  have "least_above b 0 [5 :: nat \<mapsto> 10 :: nat] = Some 5" for b
    by (auto simp: least_above_def intro!: Least_equality)
  then show ?thesis using map_bounds_correct [OF t, of 7 0 0] by (auto intro!: exI [of _ t] t)
qed

text \<open>
  C4. A loop from \<open>begin()\<close> to \<open>end()\<close> terminates, visits every entry once, in strictly ascending
  key order, and changes nothing.
\<close>

theorem map_traverse_correct:
  assumes "epoch_map th W t m" and "card (dom m) \<le> n"
  shows "returns (do { (i, t) \<leftarrow> map_begin (epoch_rc th) self dk t; iter_collect (epoch_rc th) std_less n i t })
    (\<lambda>(es, i, t'). sorted (map fst es) \<and> distinct (map fst es) \<and> map_of es = m \<and> it_is_end i \<and> epoch_map th W t' m)"
proof -
  obtain g where g: "engine_ok (epoch_ready th) epoch_pending std_less W t g" "map_of (entries g) = m"
    "sorted_entries std_less (entries g)" using epoch_mapD [OF assms(1)] .
  have "length (entries g) \<le> n" using assms(2) g(2,3) map_of_card by (metis std_sorted)
  then show ?thesis
    using g(3) by (intro returns_mono [OF ete.traverse_spec [OF g(1)]])
      (auto simp: g(2) std_sorted dest: engine_epoch)
qed

theorem map_traverse_correct_witness:
  "\<exists>t. epoch_map 0 {} t [5 :: nat \<mapsto> 10 :: nat] \<and>
    returns (do { (i, t) \<leftarrow> map_begin (epoch_rc 0) 7 0 t; iter_collect (epoch_rc 0) std_less 1 i t })
      (\<lambda>(es, i, t'). sorted (map fst es) \<and> distinct (map fst es) \<and> map_of es = [5 \<mapsto> 10] \<and> it_is_end i \<and> epoch_map 0 {} t' [5 \<mapsto> 10])"
proof -
  obtain t where t: "epoch_map 0 {} t [5 :: nat \<mapsto> 10 :: nat]" using one_epoch_map [of "5 :: nat" "10 :: nat"] by blast
  show ?thesis by (rule exI [of _ t], rule conjI [OF t], rule map_traverse_correct [OF t]) simp
qed

text \<open>
  C8. Erasing at an iterator on a key removes that key and returns an iterator at the next key,
  or the argument marked as the end.
\<close>

theorem map_erase_at_correct:
  assumes "epoch_map th W t m" and "m k = Some v"
  shows "returns (map_erase_at (epoch_rc th) std_less th Push_ok (iter_at self k) t) (\<lambda>(r, t'). others W t t' \<and>
    r = Inr (case least_above True k m of None \<Rightarrow> (iter_at self k)\<lparr>it_is_end := True\<rparr> | Some x \<Rightarrow> iter_at self x) \<and>
    epoch_map th W t' (m(k := None)))"
proof -
  obtain g where g: "engine_ok (epoch_ready th) epoch_pending std_less W t g" "map_of (entries g) = m"
    "sorted_entries std_less (entries g)" using epoch_mapD [OF assms(1)] .
  obtain xs ys where es: "entries g = xs @ (k, v) # ys"
    using assms(2) map_of_SomeD split_list unfolding g(2) [symmetric] by metis
  have m: "least_above True k m = (case ys of [] \<Rightarrow> None | y # _ \<Rightarrow> Some (fst y))"
    "map_of (xs @ ys) = m(k := None)"
    using std_next [OF g(3) [unfolded es]] std_split_del [OF g(3) [unfolded es]]
    by (simp_all add: g(2) [symmetric] es del: map_of_append)
  have r: "(case least_above True k m of None \<Rightarrow> A | Some x \<Rightarrow> iter_at self x) =
      (case ys of [] \<Rightarrow> A | y # _ \<Rightarrow> iter_at self (fst y))" for A
    by (simp add: m(1) split: list.splits)
  have I: "epoch_map th W t' (m(k := None))"
    if "engine_ok (epoch_ready th) epoch_pending std_less W t' g'" "entries g' = xs @ ys" for t' g'
    using engine_epoch [OF that(1)] unfolding that(2) m(2) .
  show ?thesis
    by (rule returns_mono [OF ete.erase_at_spec [OF g(1) _ es]]) (auto simp: r intro: I)
qed

theorem map_erase_at_correct_witness:
  "\<exists>t. epoch_map 0 {} t [5 :: nat \<mapsto> 10 :: nat] \<and>
    returns (map_erase_at (epoch_rc 0) std_less 0 Push_ok (iter_at 7 5) t)
      (\<lambda>(r, t'). r = Inr ((iter_at 7 5)\<lparr>it_is_end := True\<rparr>) \<and> epoch_map 0 {} t' Map.empty)"
proof -
  obtain t where t: "epoch_map 0 {} t [5 :: nat \<mapsto> 10 :: nat]" using one_epoch_map [of "5 :: nat" "10 :: nat"] by blast
  have "least_above True 5 [5 :: nat \<mapsto> 10 :: nat] = None" by (auto simp: least_above_def)
  then show ?thesis using map_erase_at_correct [OF t, of 5 10 7] by (auto intro!: exI [of _ t] t elim!: returns_mono)
qed

text \<open>
  C9. Erasing at \<open>end()\<close> is documented as a no-op that returns \<open>end()\<close>. It changes nothing, but the
  end flag is dropped on the way: what is returned is an iterator at the least key above
  whatever key the end iterator happens to hold.
\<close>

theorem map_erase_at_end:
  assumes "epoch_map th W t m" and "least_above True dk m = Some x"
  shows "returns (map_erase_at (epoch_rc th) std_less th pu (iter_end self dk) t) (\<lambda>(r, t').
    r = Inr (iter_at self x) \<and> \<not> it_is_end (iter_at self x) \<and> epoch_map th W t' m)"
proof -
  obtain g where g: "engine_ok (epoch_ready th) epoch_pending std_less W t g" "map_of (entries g) = m"
    "sorted_entries std_less (entries g)" using epoch_mapD [OF assms(1)] .
  obtain y where y: "bound_entry std_less True dk (entries g) = Some y" "fst y = x"
    using std_bound [OF g(3), of True dk] assms(2) g(2) by (cases "bound_entry std_less True dk (entries g)") auto
  show ?thesis
    by (rule returns_mono [OF ete.erase_at_end [OF g(1) y(1)]])
      (auto simp: g(2) y(2) iter_at_def dest!: engine_epoch)
qed

theorem map_erase_at_end_witness:
  "\<exists>t. epoch_map 0 {} t [5 :: nat \<mapsto> 10 :: nat] \<and>
    returns (map_erase_at (epoch_rc 0) std_less 0 Push_ok (iter_end 7 0) t)
      (\<lambda>(r, t'). r = Inr (iter_at 7 5) \<and> \<not> it_is_end (iter_at 7 (5 :: nat)) \<and> epoch_map 0 {} t' [5 \<mapsto> 10])"
proof -
  obtain t where t: "epoch_map 0 {} t [5 :: nat \<mapsto> 10 :: nat]" using one_epoch_map [of "5 :: nat" "10 :: nat"] by blast
  have "least_above True 0 [5 :: nat \<mapsto> 10 :: nat] = Some 5" by (auto simp: least_above_def intro!: Least_equality)
  then show ?thesis by (intro exI [of _ t] conjI t map_erase_at_end)
qed

text \<open>
  C10. \<open>clear\<close> empties the container. Destruction frees every node, drains the reclaimer and the
  pool: a block still allocated afterwards belongs to another container or is still
  retired and not yet safe to free.
\<close>

theorem map_destroy_no_leak:
  assumes "epoch_map th W t m"
  shows "returns (map_clear th t) (\<lambda>t'. epoch_map th W t' Map.empty \<and> others W t t') \<and>
    returns (map_dtor (epoch_rc th) th t) (\<lambda>t'. others W t t' \<and> epoch_ready th (t_rc t') \<and>
      (\<forall>b. live (t_mem t') b \<noteq> None \<longrightarrow> b \<in> W \<union> set_mset (retired_nodes epoch_pending (t_rc t'))))"
proof -
  obtain g where g: "engine_ok (epoch_ready th) epoch_pending std_less W t g"
    using epoch_mapD [OF assms(1)] .
  show ?thesis
    using ete.map_clear_spec [OF g, of th] ete.destroy_tree_spec [OF g, of th]
    by (auto simp: map_dtor_def returns_def entries_def dest!: engine_epoch)
qed

theorem map_destroy_no_leak_witness:
  "\<exists>t. epoch_map 0 {} t [5 :: nat \<mapsto> 10 :: nat] \<and> returns (map_clear 0 t) (\<lambda>t'. epoch_map 0 {} t' Map.empty)"
proof -
  obtain t where t: "epoch_map 0 {} t [5 :: nat \<mapsto> 10 :: nat]" using one_epoch_map [of "5 :: nat" "10 :: nat"] by blast
  show ?thesis using map_destroy_no_leak [OF t] by (auto intro!: exI [of _ t] t elim!: returns_mono)
qed

subsection \<open>The ordered set, under hazard pointers\<close>

text \<open>
  C26. \<open>emplace\<close> on the set returns, tells whether the key is new and makes it a member; a failed
  allocation or constructor leaves the set as it was.
\<close>

theorem set_emplace_correct:
  assumes "hazard_set th W t A" and "\<And>b. blk = Some b \<Longrightarrow> fresh_block (t_mem t) b"
  shows "returns (set_emplace std_less th self blk dk args t) (\<lambda>(r, t'). others W t t' \<and>
    (case r of
       Inl x \<Rightarrow> (x = Bad_alloc \<and> blk = None \<or> x = Payload_throws \<and> args = None) \<and> hazard_set th W t' A
     | Inr (it, b) \<Rightarrow> \<exists>k. args = Some k \<and> it = iter_at self k \<and> b = (k \<notin> A) \<and> hazard_set th W t' (insert k A)))"
proof -
  obtain g where g: "engine_ok (hazard_ready th) hz_pending std_less W t g" "map_of (entries g) = key_map A"
    using hazard_mapD [OF assms(1) [unfolded hazard_set_def]] .
  show ?thesis
    unfolding set_emplace_map hazard_set_def
    by (rule returns_mono [OF hte.emplace_spec [OF g(1) assms(2)]])
      (auto simp: hte.emplaced_def map_facts g(2) split: sum.splits if_splits dest!: engine_hazard)
qed

theorem set_emplace_correct_witness:
  "let t = set_ctor 0 no_mem new_pool (new_hazard 1) in
   returns (set_emplace std_less 0 7 (Some 64) 0 (Some (5 :: nat)) t) (\<lambda>(r, t'). others {} t t' \<and>
    (case r of
       Inl x \<Rightarrow> (x = Bad_alloc \<and> Some 64 = (None :: ptr option) \<or> x = Payload_throws \<and> Some (5 :: nat) = None) \<and>
         hazard_set 0 {} t' {}
     | Inr (it, b) \<Rightarrow> \<exists>k. Some 5 = Some k \<and> it = iter_at 7 k \<and> b = (k \<notin> {}) \<and> hazard_set 0 {} t' (insert k {})))"
  unfolding Let_def set_as_map
  by (rule set_emplace_correct [unfolded set_as_map]) (simp_all add: hazard_set_def empty_hazard_map [simplified])

text \<open>
  \<open>erase\<close> on the set removes exactly the key; \<open>contains\<close> and \<open>count\<close> tell membership.
\<close>

theorem set_erase_correct:
  assumes "hazard_set th W t A"
  shows "returns (set_erase (hazard_rc th) std_less th Push_ok k t) (\<lambda>(r, t'). others W t t' \<and>
      r = Inr (if k \<in> A then 1 else 0) \<and> hazard_set th W t' (A - {k})) \<and>
    returns (set_contains (hazard_rc th) std_less k t) (\<lambda>(b, t'). b = (k \<in> A) \<and> hazard_set th W t' A) \<and>
    returns (set_count (hazard_rc th) std_less k t) (\<lambda>(n, t'). n = (if k \<in> A then 1 else 0) \<and> hazard_set th W t' A)"
proof -
  obtain g where g: "engine_ok (hazard_ready th) hz_pending std_less W t g" "map_of (entries g) = key_map A"
    using hazard_mapD [OF assms(1) [unfolded hazard_set_def]] .
  note [simp] = map_facts g(2)
  show ?thesis
    unfolding set_as_map hazard_set_def
  proof (intro conjI)
    show "returns (map_erase (hazard_rc th) std_less th Push_ok k t) (\<lambda>(r, t'). others W t t' \<and>
        r = Inr (if k \<in> A then 1 else 0) \<and> hazard_map th W t' (key_map (A - {k})))"
      by (rule returns_mono [OF hte.map_erase_spec [OF g(1)]])
        (auto split: if_splits dest!: engine_hazard)
    show "returns (map_contains (hazard_rc th) std_less k t) (\<lambda>(b, t'). b = (k \<in> A) \<and> hazard_map th W t' (key_map A))"
      by (rule returns_mono [OF hte.map_contains_spec [OF g(1)]]) (auto dest!: engine_hazard)
    show "returns (map_count (hazard_rc th) std_less k t)
        (\<lambda>(n, t'). n = (if k \<in> A then 1 else 0) \<and> hazard_map th W t' (key_map A))"
      by (rule returns_mono [OF hte.map_count_spec [OF g(1)]]) (auto dest!: engine_hazard)
  qed
qed

theorem set_erase_correct_witness:
  "\<exists>t. hazard_set 0 {} t {5 :: nat} \<and>
    returns (set_erase (hazard_rc 0) std_less 0 Push_ok 5 t) (\<lambda>(r, t'). r = Inr 1 \<and> hazard_set 0 {} t' {})"
proof -
  obtain t where t: "hazard_set 0 {} t {5 :: nat}" using one_hazard_set [of "5 :: nat"] by blast
  show ?thesis using set_erase_correct [OF t, of 5] by (auto intro!: exI [of _ t] t elim!: returns_mono)
qed

text \<open>
  A loop over the set's iterators visits its members once each in ascending order, and
  \<open>equal_range\<close> brackets a key by the least members not below and above it.
\<close>

theorem set_traverse_correct:
  assumes "hazard_set th W t A" and "card A \<le> n"
  shows "returns (do { (i, t) \<leftarrow> set_begin (hazard_rc th) self dk t; set_collect (hazard_rc th) std_less n i t })
      (\<lambda>(ks, i, t'). sorted ks \<and> distinct ks \<and> set ks = A \<and> it_is_end i \<and> hazard_set th W t' A) \<and>
    returns (set_equal_range (hazard_rc th) std_less self dk k t) (\<lambda>((lb, ub), t'). hazard_set th W t' A \<and>
      lb = (case least_above False k (key_map A) of None \<Rightarrow> iter_end self dk | Some x \<Rightarrow> iter_at self x) \<and>
      ub = (case least_above True k (key_map A) of None \<Rightarrow> iter_end self dk | Some x \<Rightarrow> iter_at self x))"
proof (intro conjI)
  obtain g where g: "engine_ok (hazard_ready th) hz_pending std_less W t g" "map_of (entries g) = key_map A"
    "sorted_entries std_less (entries g)" using hazard_mapD [OF assms(1) [unfolded hazard_set_def]] .
  have srt: "sorted (map fst (entries g))" "distinct (map fst (entries g))" using g(3) by (simp_all add: std_sorted)
  have set: "fst ` set (entries g) = A" using g(2) dom_map_of_conv_image_fst [of "entries g"] by simp
  have len: "length (entries g) \<le> n" using assms(2) map_of_card [OF srt(2)] g(2) by simp
  have step: "returns (map_option f x) P" if "returns x (\<lambda>y. P (f y))" for f :: "'c \<Rightarrow> 'd" and x P
    using that by (auto simp: returns_def)
  have "do { (i, t) \<leftarrow> set_begin (hazard_rc th) self dk t; set_collect (hazard_rc th) std_less n i t } =
      map_option (\<lambda>(es, j, t). (map fst es, j, t))
        (do { (i, t) \<leftarrow> map_begin (hazard_rc th) self dk t; iter_collect (hazard_rc th) std_less n i t })"
    by (simp add: set_as_map set_collect_map map_option_bind split_def comp_def)
  then show "returns (do { (i, t) \<leftarrow> set_begin (hazard_rc th) self dk t; set_collect (hazard_rc th) std_less n i t })
      (\<lambda>(ks, i, t'). sorted ks \<and> distinct ks \<and> set ks = A \<and> it_is_end i \<and> hazard_set th W t' A)"
    by (auto simp: srt set hazard_set_def g(2) [symmetric] engine_hazard
        intro!: step returns_mono [OF hte.traverse_spec [OF g(1) len]])
  show "returns (set_equal_range (hazard_rc th) std_less self dk k t) (\<lambda>((lb, ub), t'). hazard_set th W t' A \<and>
      lb = (case least_above False k (key_map A) of None \<Rightarrow> iter_end self dk | Some x \<Rightarrow> iter_at self x) \<and>
      ub = (case least_above True k (key_map A) of None \<Rightarrow> iter_end self dk | Some x \<Rightarrow> iter_at self x))"
    unfolding set_as_map map_equal_range_def map_lower_bound_def map_upper_bound_def returns_simps(3)
    by (rule returns_mono [OF hte.map_bound_spec [OF g(1)]], clarsimp, rule returns_mono [OF hte.map_bound_spec])
      (auto simp: std_bound_iter [OF g(3), unfolded g(2)] hazard_set_def g(2) dest!: engine_hazard)
qed

theorem set_traverse_correct_witness:
  "\<exists>t. hazard_set 0 {} t {5 :: nat} \<and>
    returns (do { (i, t) \<leftarrow> set_begin (hazard_rc 0) 7 0 t; set_collect (hazard_rc 0) std_less 1 i t })
      (\<lambda>(ks, i, t'). sorted ks \<and> distinct ks \<and> set ks = {5} \<and> it_is_end i \<and> hazard_set 0 {} t' {5})"
proof -
  obtain t where t: "hazard_set 0 {} t {5 :: nat}" using one_hazard_set [of "5 :: nat"] by blast
  show ?thesis
    by (rule exI [of _ t], rule conjI [OF t], rule set_traverse_correct [OF t, THEN conjunct1]) simp
qed

subsection \<open>The unordered containers\<close>

text \<open>
  C13. \<open>emplace\<close> on the unordered map returns; with an iterator at the key and whether the key was new, the
  contents gaining the pair exactly then. A throwing payload constructor changes nothing. \<open>bad_alloc\<close>
  comes only from an allocator that has no block or a retirement that cannot be stored, and then
  the contents are as before, or (\<open>insert_thrown\<close>) the new node or the old bucket table is lost or the
  pair is in the map although the call threw.
\<close>

theorem umap_emplace_correct:
  assumes "epoch_umap th hash eq W V t m" and "allocs_ok al" and "lawful hash eq"
  shows "returns (umap_emplace (epoch_rc th) hash eq th al pu pl self args t) (\<lambda>(r, t'). h_others W V t t' \<and>
    (case r of
       Inl x \<Rightarrow> x = Payload_throws \<and> args = None \<and> epoch_umap th hash eq W V t' m \<or>
         x = Bad_alloc \<and> starved al t' \<and> epoch_umap th hash eq W V t' m \<or>
         x = Bad_alloc \<and> (\<exists>k v. args = Some (k, v) \<and>
           insert_thrown (epoch_ready th) epoch_pending hash eq W V al pu t' m k v)
     | Inr (it, b) \<Rightarrow> \<exists>k v. args = Some (k, v) \<and>
         it = uiter_at self k (mixed_hash hash k) (so_key_of (mixed_hash hash k)) \<and> b = (m k = None) \<and>
         epoch_umap th hash eq W V t' (if b then put_key eq k v m else m)))"
  by (rule eht.emplace_spec [OF assms])

theorem umap_emplace_correct_witness:
  "let th = 0;
    hash = (of_nat :: nat \<Rightarrow> u64);
    eq = (=);
    W = {};
    V = {};
    t = epoch_one;
    m = one_map;
    al = few_blocks;
    pu = \<lambda>_. Push_ok;
    pl = (0, 0);
    self = 7;
    args = Some (6, 11)
   in returns (umap_emplace (epoch_rc th) hash eq th al pu pl self args t) (\<lambda>(r, t'). h_others W V t t' \<and>
       (case r of
          Inl x \<Rightarrow> x = Payload_throws \<and> args = None \<and> epoch_umap th hash eq W V t' m \<or>
            x = Bad_alloc \<and> starved al t' \<and> epoch_umap th hash eq W V t' m \<or>
            x = Bad_alloc \<and> (\<exists>k v. args = Some (k, v) \<and>
              insert_thrown (epoch_ready th) epoch_pending hash eq W V al pu t' m k v)
        | Inr (it, b) \<Rightarrow> \<exists>k v. args = Some (k, v) \<and>
            it = uiter_at self k (mixed_hash hash k) (so_key_of (mixed_hash hash k)) \<and> b = (m k = None) \<and>
            epoch_umap th hash eq W V t' (if b then put_key eq k v m else m)))"
  unfolding Let_def by (rule umap_emplace_correct [OF one_epoch_umap few_blocks_ok std_lawful])

text \<open>
  C14. \<open>erase(key)\<close> returns the number of elements it removed, and the key and its equals are gone. When
  the retirement of the node throws, the key is gone too, but the node belongs to nobody and the
  counter is one too large.
\<close>

theorem umap_erase_correct:
  assumes "hazard_umap th hash eq W V t m" and "allocs_ok al" and "lawful hash eq"
  shows "returns (umap_erase (hazard_rc th) hash eq th al pu pl k t) (\<lambda>(r, t'). h_others W V t t' \<and>
    (case r of
       Inl e \<Rightarrow> e = Bad_alloc \<and> (starved al t' \<and> hazard_umap th hash eq W V t' m \<or>
         pu \<noteq> Push_ok \<and> m k \<noteq> None \<and> (\<exists>n. n \<notin> W \<and>
           hazard_umap th hash eq (insert n W) V (t'\<lparr>h_count := h_count t' - 1\<rparr>) (drop_key eq k m)))
     | Inr c \<Rightarrow> c = (if m k = None then 0 else 1) \<and> hazard_umap th hash eq W V t' (drop_key eq k m)))"
  by (rule hht.umap_erase_spec [OF assms])

theorem umap_erase_correct_witness:
  "let th = 0;
    hash = (of_nat :: nat \<Rightarrow> u64);
    eq = (=);
    W = {};
    V = {};
    t = hazard_one;
    m = one_map;
    al = few_blocks;
    pu = Push_ok;
    pl = (0, 0);
    k = 5
   in returns (umap_erase (hazard_rc th) hash eq th al pu pl k t) (\<lambda>(r, t'). h_others W V t t' \<and>
       (case r of
          Inl e \<Rightarrow> e = Bad_alloc \<and> (starved al t' \<and> hazard_umap th hash eq W V t' m \<or>
            pu \<noteq> Push_ok \<and> m k \<noteq> None \<and> (\<exists>n. n \<notin> W \<and>
              hazard_umap th hash eq (insert n W) V (t'\<lparr>h_count := h_count t' - 1\<rparr>) (drop_key eq k m)))
        | Inr c \<Rightarrow> c = (if m k = None then 0 else 1) \<and> hazard_umap th hash eq W V t' (drop_key eq k m)))"
  unfolding Let_def by (rule umap_erase_correct [OF one_hazard_umap few_blocks_ok std_lawful])

text \<open>
  C15. \<open>find\<close>, \<open>contains\<close>, \<open>count\<close> and \<open>at\<close> return for every key and agree with the contents, which they leave
  as they are; \<open>at\<close> throws \<open>out_of_range\<close> only for an absent key. A lookup can throw \<open>bad_alloc\<close>: it
  creates the dummy of the key's bucket.
\<close>

theorem umap_lookup_correct:
  assumes "epoch_umap th hash eq W V t m" and "allocs_ok al" and "lawful hash eq"
  shows "returns (umap_find (epoch_rc th) hash eq th al pl self dk k t) (\<lambda>(r, t'). h_others W V t t' \<and> epoch_umap th hash eq W V t' m \<and>
      (case r of Inl e \<Rightarrow> e = Bad_alloc \<and> starved al t'
       | Inr i \<Rightarrow> i = (if m k = None then uiter_end self dk
           else uiter_at self k (mixed_hash hash k) (so_key_of (mixed_hash hash k))))) \<and>
    returns (umap_contains (epoch_rc th) hash eq th al pl k t) (\<lambda>(r, t'). h_others W V t t' \<and> epoch_umap th hash eq W V t' m \<and>
      (case r of Inl e \<Rightarrow> e = Bad_alloc \<and> starved al t' | Inr b \<Rightarrow> b = (m k \<noteq> None))) \<and>
    returns (umap_count (epoch_rc th) hash eq th al pl k t) (\<lambda>(r, t'). h_others W V t t' \<and> epoch_umap th hash eq W V t' m \<and>
      (case r of Inl e \<Rightarrow> e = Bad_alloc \<and> starved al t' | Inr n \<Rightarrow> n = (if m k = None then 0 else 1))) \<and>
    returns (umap_at (epoch_rc th) hash eq th al pl k t) (\<lambda>(r, t'). h_others W V t t' \<and> epoch_umap th hash eq W V t' m \<and>
      (case r of Inl e \<Rightarrow> e = Bad_alloc \<and> starved al t' \<or> e = Out_of_range \<and> m k = None
       | Inr p \<Rightarrow> \<exists>v. m k = Some v \<and> h_refers eq t' p k v))"
  using eht.umap_find_spec [OF assms] eht.umap_contains_spec [OF assms] eht.umap_count_spec [OF assms]
    eht.umap_at_spec [OF assms] by blast

theorem umap_lookup_correct_witness:
  "let th = 0;
    hash = (of_nat :: nat \<Rightarrow> u64);
    eq = (=);
    W = {};
    V = {};
    t = epoch_one;
    m = one_map;
    al = few_blocks;
    pl = (0, 0);
    self = 7;
    dk = 0;
    k = 5
   in returns (umap_find (epoch_rc th) hash eq th al pl self dk k t) (\<lambda>(r, t'). h_others W V t t' \<and> epoch_umap th hash eq W V t' m \<and>
         (case r of Inl e \<Rightarrow> e = Bad_alloc \<and> starved al t'
          | Inr i \<Rightarrow> i = (if m k = None then uiter_end self dk
              else uiter_at self k (mixed_hash hash k) (so_key_of (mixed_hash hash k))))) \<and>
       returns (umap_contains (epoch_rc th) hash eq th al pl k t) (\<lambda>(r, t'). h_others W V t t' \<and> epoch_umap th hash eq W V t' m \<and>
         (case r of Inl e \<Rightarrow> e = Bad_alloc \<and> starved al t' | Inr b \<Rightarrow> b = (m k \<noteq> None))) \<and>
       returns (umap_count (epoch_rc th) hash eq th al pl k t) (\<lambda>(r, t'). h_others W V t t' \<and> epoch_umap th hash eq W V t' m \<and>
         (case r of Inl e \<Rightarrow> e = Bad_alloc \<and> starved al t' | Inr n \<Rightarrow> n = (if m k = None then 0 else 1))) \<and>
       returns (umap_at (epoch_rc th) hash eq th al pl k t) (\<lambda>(r, t'). h_others W V t t' \<and> epoch_umap th hash eq W V t' m \<and>
         (case r of Inl e \<Rightarrow> e = Bad_alloc \<and> starved al t' \<or> e = Out_of_range \<and> m k = None
          | Inr p \<Rightarrow> \<exists>v. m k = Some v \<and> h_refers eq t' p k v))"
  unfolding Let_def by (rule umap_lookup_correct [OF one_epoch_umap few_blocks_ok std_lawful])

text \<open>
  C16. A loop from \<open>begin()\<close> to \<open>end()\<close> ends after as many steps as \<open>size()\<close> says, unless an increment cannot
  allocate a dummy, and has then visited every element of the map once.
\<close>

theorem umap_traverse_correct:
  assumes "epoch_umap th hash eq W V t m" and "allocs_ok al" and "lawful hash eq"
  shows "returns (umap_begin (epoch_rc th) self dk t) (\<lambda>(i, t1). h_others W V t t1 \<and> epoch_umap th hash eq W V t1 m \<and>
    returns (uiter_collect (epoch_rc th) eq th al pl (unat (umap_size t)) i t1) (\<lambda>(r, t2). h_others W V t t2 \<and>
      epoch_umap th hash eq W V t2 m \<and>
      (case r of Inl e \<Rightarrow> e = Bad_alloc \<and> starved al t2
       | Inr (es, j) \<Rightarrow> lists_map eq m es \<and> length es = unat (umap_size t) \<and> u_is_end j)))"
  by (rule eht.traverse_spec [OF assms])

theorem umap_traverse_correct_witness:
  "let th = 0;
    hash = (of_nat :: nat \<Rightarrow> u64);
    eq = (=);
    W = {};
    V = {};
    t = epoch_one;
    m = one_map;
    al = few_blocks;
    pl = (0, 0);
    self = 7;
    dk = 0
   in returns (umap_begin (epoch_rc th) self dk t) (\<lambda>(i, t1). h_others W V t t1 \<and> epoch_umap th hash eq W V t1 m \<and>
       returns (uiter_collect (epoch_rc th) eq th al pl (unat (umap_size t)) i t1) (\<lambda>(r, t2). h_others W V t t2 \<and>
         epoch_umap th hash eq W V t2 m \<and>
         (case r of Inl e \<Rightarrow> e = Bad_alloc \<and> starved al t2
          | Inr (es, j) \<Rightarrow> lists_map eq m es \<and> length es = unat (umap_size t) \<and> u_is_end j)))"
  unfolding Let_def by (rule umap_traverse_correct [OF one_epoch_umap few_blocks_ok std_lawful])



text \<open>
  C18. \<open>operator[]\<close> refers to the value of the key, which it inserts with the value-initialised object when
  it was absent. When that object's constructor throws, the fresh node belongs to nobody.
\<close>

theorem umap_index_correct:
  assumes "epoch_umap th hash eq W V t m" and "allocs_ok al" and "lawful hash eq"
  shows "returns (umap_index (epoch_rc th) hash eq th al pu pl dv k t) (\<lambda>(r, t'). h_others W V t t' \<and>
    (case r of
       Inr p \<Rightarrow> (case m k of
           Some v \<Rightarrow> h_refers eq t' p k v \<and> epoch_umap th hash eq W V t' m
         | None \<Rightarrow> \<exists>v. dv = Some v \<and> h_refers eq t' p k v \<and> epoch_umap th hash eq W V t' (put_key eq k v m))
     | Inl x \<Rightarrow> x = Bad_alloc \<and> starved al t' \<and> epoch_umap th hash eq W V t' m \<or>
         x = Bad_alloc \<and> m k = None \<and> (\<exists>v. dv = Some v \<and>
           insert_thrown (epoch_ready th) epoch_pending hash eq W V al pu t' m k v) \<or>
         x = Payload_throws \<and> m k = None \<and> dv = None \<and> (\<exists>n. n \<notin> W \<and> epoch_umap th hash eq (insert n W) V t' m)))"
  by (rule eht.umap_index_spec [OF assms])

theorem umap_index_correct_witness:
  "let th = 0;
    hash = (of_nat :: nat \<Rightarrow> u64);
    eq = (=);
    W = {};
    V = {};
    t = epoch_one;
    m = one_map;
    al = few_blocks;
    pu = \<lambda>_. Push_ok;
    pl = (0, 0);
    dv = Some 0;
    k = 6
   in returns (umap_index (epoch_rc th) hash eq th al pu pl dv k t) (\<lambda>(r, t'). h_others W V t t' \<and>
       (case r of
          Inr p \<Rightarrow> (case m k of
              Some v \<Rightarrow> h_refers eq t' p k v \<and> epoch_umap th hash eq W V t' m
            | None \<Rightarrow> \<exists>v. dv = Some v \<and> h_refers eq t' p k v \<and> epoch_umap th hash eq W V t' (put_key eq k v m))
        | Inl x \<Rightarrow> x = Bad_alloc \<and> starved al t' \<and> epoch_umap th hash eq W V t' m \<or>
            x = Bad_alloc \<and> m k = None \<and> (\<exists>v. dv = Some v \<and>
              insert_thrown (epoch_ready th) epoch_pending hash eq W V al pu t' m k v) \<or>
            x = Payload_throws \<and> m k = None \<and> dv = None \<and> (\<exists>n. n \<notin> W \<and> epoch_umap th hash eq (insert n W) V t' m)))"
  unfolding Let_def by (rule umap_index_correct [OF one_epoch_umap few_blocks_ok std_lawful])







text \<open>
  C21. The constructor makes an empty map, or throws when an allocator has no block and then leaves the first
  bucket table to nobody; \<open>clear\<close> empties a map; after the destructor the only node blocks that are
  still allocated are those of other containers and those retired and not yet safe to free.
\<close>

theorem umap_lifetime:
  assumes "store_ok (epoch_ready th) epoch_pending (new_htable a (Fin 1) mem p tm cm s) W V" and "allocs_ok al" and "epoch_umap th hash eq W V t m"
  shows "returns (umap_ctor th al pl a mem p tm cm s) (\<lambda>(r, t'). h_others W V (new_htable a (Fin 1) mem p tm cm s) t' \<and>
      (case r of
         Inl e \<Rightarrow> e = Bad_alloc \<and> starved al t' \<and> (store_ok (epoch_ready th) epoch_pending t' W V \<or>
           (\<exists>x. x \<notin> V \<and> store_ok (epoch_ready th) epoch_pending t' W (insert x V)))
       | Inr _ \<Rightarrow> epoch_umap th hash eq W V t' (\<lambda>_. None) \<and> h_inv_load t' = Fin 1)) \<and>
    returns (umap_clear (epoch_rc th) th t) (\<lambda>t'. h_others W V t t' \<and> epoch_umap th hash eq W V t' (\<lambda>_. None) \<and> umap_empty t') \<and>
    returns (umap_dtor (epoch_rc th) th t) (\<lambda>t'. h_others W V t t' \<and> store_ok (epoch_ready th) epoch_pending t' W V \<and>
      (\<forall>b. live (h_mem t') b = None \<or> b \<in> W \<union> parked Free_node (epoch_pending (h_rc t'))))"
  by (intro conjI, rule eht.umap_ctor_spec [OF assms(1,2)], rule eht.umap_clear_spec [OF assms(3)],
      rule returns_mono [OF eht.umap_dtor_spec [OF assms(3)]], blast)

theorem umap_lifetime_witness:
  "let th = 0;
    hash = (of_nat :: nat \<Rightarrow> u64);
    eq = (=);
    W = {};
    V = {};
    t = epoch_one;
    m = one_map;
    al = few_blocks;
    pl = (0, 0);
    a = 0;
    mem = \<lparr>heap = \<lambda>_. None, live = \<lambda>_. None\<rparr>;
    p = new_pool;
    tm = \<lparr>heap = \<lambda>_. None, live = \<lambda>_. None\<rparr>;
    cm = \<lparr>heap = \<lambda>_. None, live = \<lambda>_. None\<rparr>;
    s = new_epoch 1
   in returns (umap_ctor th al pl a mem p tm cm s) (\<lambda>(r, t'). h_others W V (new_htable a (Fin 1) mem p tm cm s) t' \<and>
         (case r of
            Inl e \<Rightarrow> e = Bad_alloc \<and> starved al t' \<and> (store_ok (epoch_ready th) epoch_pending t' W V \<or>
              (\<exists>x. x \<notin> V \<and> store_ok (epoch_ready th) epoch_pending t' W (insert x V)))
          | Inr _ \<Rightarrow> epoch_umap th hash eq W V t' (\<lambda>_. None) \<and> h_inv_load t' = Fin 1)) \<and>
       returns (umap_clear (epoch_rc th) th t) (\<lambda>t'. h_others W V t t' \<and> epoch_umap th hash eq W V t' (\<lambda>_. None) \<and> umap_empty t') \<and>
       returns (umap_dtor (epoch_rc th) th t) (\<lambda>t'. h_others W V t t' \<and> store_ok (epoch_ready th) epoch_pending t' W V \<and>
         (\<forall>b. live (h_mem t') b = None \<or> b \<in> W \<union> parked Free_node (epoch_pending (h_rc t'))))"
  unfolding Let_def by (rule umap_lifetime [OF empty_store few_blocks_ok one_epoch_umap])

text \<open>
  C23. The unordered set with contents \<open>A\<close>, a predicate that is constant on equal keys: \<open>emplace\<close> inserts,
  \<open>erase\<close> removes and counts, \<open>contains\<close> tells membership, each returning; \<open>bad_alloc\<close> is thrown as
  by the map.
\<close>

theorem uset_correct:
  assumes "hazard_umap th hash eq W V t (members_of A)" and "allocs_ok al" and "lawful hash eq"
  shows "returns (uset_emplace (hazard_rc th) hash eq th al pu pk self (Some k) t) (\<lambda>(r, t'). h_others W V t t' \<and>
      (case r of
         Inl x \<Rightarrow> x = Bad_alloc \<and> (starved al t' \<and> hazard_umap th hash eq W V t' (members_of A) \<or>
           insert_thrown (hazard_ready th) hz_pending hash eq W V al pu t' (members_of A) k ())
       | Inr (it, b) \<Rightarrow> b = (\<not> A k) \<and> it = uiter_at self k (mixed_hash hash k) (so_key_of (mixed_hash hash k)) \<and>
           hazard_umap th hash eq W V t' (members_of (if b then \<lambda>x. eq k x \<or> A x else A)))) \<and>
    returns (uset_erase (hazard_rc th) hash eq th al Push_ok pk k t) (\<lambda>(r, t'). h_others W V t t' \<and>
      (case r of
         Inl e \<Rightarrow> e = Bad_alloc \<and> starved al t' \<and> hazard_umap th hash eq W V t' (members_of A)
       | Inr c \<Rightarrow> c = (if A k then 1 else 0) \<and> hazard_umap th hash eq W V t' (members_of (\<lambda>x. \<not> eq k x \<and> A x)))) \<and>
    returns (uset_contains (hazard_rc th) hash eq th al pk k t) (\<lambda>(r, t'). h_others W V t t' \<and>
      hazard_umap th hash eq W V t' (members_of A) \<and>
      (case r of Inl e \<Rightarrow> e = Bad_alloc \<and> starved al t' | Inr b \<Rightarrow> b = A k))"
  using hht.uset_emplace_spec [OF assms, of th pu pk self k] hht.uset_erase_spec [OF assms, of th pk k]
    hht.uset_contains_spec [OF assms, of th pk k] by blast

theorem uset_correct_witness:
  "let th = 0;
    hash = (of_nat :: nat \<Rightarrow> u64);
    eq = (=);
    W = {};
    V = {};
    t = one_table of_nat 5 () (new_hazard 1);
    al = few_blocks;
    A = (\<lambda>x. x = (5 :: nat));
    pu = \<lambda>_. Push_ok;
    pk = 0;
    self = 7;
    k = 6
   in returns (uset_emplace (hazard_rc th) hash eq th al pu pk self (Some k) t) (\<lambda>(r, t'). h_others W V t t' \<and>
         (case r of
            Inl x \<Rightarrow> x = Bad_alloc \<and> (starved al t' \<and> hazard_umap th hash eq W V t' (members_of A) \<or>
              insert_thrown (hazard_ready th) hz_pending hash eq W V al pu t' (members_of A) k ())
          | Inr (it, b) \<Rightarrow> b = (\<not> A k) \<and> it = uiter_at self k (mixed_hash hash k) (so_key_of (mixed_hash hash k)) \<and>
              hazard_umap th hash eq W V t' (members_of (if b then \<lambda>x. eq k x \<or> A x else A)))) \<and>
       returns (uset_erase (hazard_rc th) hash eq th al Push_ok pk k t) (\<lambda>(r, t'). h_others W V t t' \<and>
         (case r of
            Inl e \<Rightarrow> e = Bad_alloc \<and> starved al t' \<and> hazard_umap th hash eq W V t' (members_of A)
          | Inr c \<Rightarrow> c = (if A k then 1 else 0) \<and> hazard_umap th hash eq W V t' (members_of (\<lambda>x. \<not> eq k x \<and> A x)))) \<and>
       returns (uset_contains (hazard_rc th) hash eq th al pk k t) (\<lambda>(r, t'). h_others W V t t' \<and>
         hazard_umap th hash eq W V t' (members_of A) \<and>
         (case r of Inl e \<Rightarrow> e = Bad_alloc \<and> starved al t' | Inr b \<Rightarrow> b = A k))"
  unfolding Let_def by (rule uset_correct [OF one_hazard_uset few_blocks_ok std_lawful])

end
